(* ===== verification/Prelude.thy ===== *)
theory Prelude
  imports "HOL-Library.Word" "HOL-Library.Multiset" "HOL-Library.Code_Target_Nat"
begin

unbundle bit_operations_syntax

text \<open>
  What every component of the development shares: names for the fixed-width integers of the C
  code, the shape of a fallible operation on a state (C functions that return 1 or 0 and update
  an object through a pointer), big-endian and little-endian readings of byte sequences, and
  the model of the allocator.  Nothing here models a particular source file; the constants of
  \<^verbatim>\<open>size_t\<close> follow the 64-bit targets of the application.
\<close>

section \<open>Names of the C types\<close>

type_synonym u8 = "8 word"
type_synonym u16 = "16 word"
type_synonym u32 = "32 word"
type_synonym u64 = "64 word"

text \<open>
  A \<^verbatim>\<open>size_t\<close> is a \<open>nat\<close> with its wrap-around written out where the code can reach it.
\<close>

definition SIZE_MAX :: nat where
  "SIZE_MAX = 2 ^ 64 - 1"

definition INT_MAX :: nat where
  "INT_MAX = 2 ^ 31 - 1"

definition size_add :: "nat \<Rightarrow> nat \<Rightarrow> nat" where
  "size_add a b = (a + b) mod 2 ^ 64"

definition size_mul :: "nat \<Rightarrow> nat \<Rightarrow> nat" where
  "size_mul a b = (a * b) mod 2 ^ 64"

lemma size_add_small [simp]: "a + b \<le> SIZE_MAX \<Longrightarrow> size_add a b = a + b"
  by (simp add: size_add_def SIZE_MAX_def)

lemma size_add_le: "size_add a b \<le> SIZE_MAX"
proof -
  have "(a + b) mod 2 ^ 64 < 2 ^ 64" by simp
  then show ?thesis by (simp add: size_add_def SIZE_MAX_def)
qed

text \<open>The overflow test \<^verbatim>\<open>a + b < a\<close> of the C code is exact for values of the type.\<close>

lemma size_add_overflow:
  assumes "a \<le> SIZE_MAX" and "b \<le> SIZE_MAX"
  shows "size_add a b < a \<longleftrightarrow> SIZE_MAX < a + b"
proof (cases "a + b \<le> SIZE_MAX")
  case True
  then show ?thesis by simp
next
  case False
  then have "2 ^ 64 \<le> a + b" by (simp add: SIZE_MAX_def)
  moreover from assms have "a + b - 2 ^ 64 < 2 ^ 64" by (simp add: SIZE_MAX_def)
  ultimately have "size_add a b = a + b - 2 ^ 64"
    by (simp add: size_add_def le_mod_geq)
  with False assms \<open>2 ^ 64 \<le> a + b\<close> show ?thesis
    by (simp add: SIZE_MAX_def)
qed

text \<open>The same constants in evaluated form, for the evaluation of examples.\<close>

lemma SIZE_MAX_code [code]: "SIZE_MAX = 18446744073709551615"
  by (simp add: SIZE_MAX_def)

lemma size_add_code [code]: "size_add a b = (a + b) mod 18446744073709551616"
  by (simp add: size_add_def)

lemma size_mul_code [code]: "size_mul a b = (a * b) mod 18446744073709551616"
  by (simp add: size_mul_def)

lemma push_bit_code [code]: "push_bit n w = word_of_int (push_bit n (uint w))" for w :: "'a::len word"
  by (simp add: push_bit_eq_mult word_of_int_power_hom)

section \<open>Fallible operations on a state\<close>

text \<open>
  A C function that returns 1 or 0 and advances an object is a function from the object to an
  optional result and the object afterwards.  On failure the object may already have moved, as
  in the code.
\<close>

type_synonym ('a, 's) step = "'s \<Rightarrow> 'a option \<times> 's"

definition ret :: "'a \<Rightarrow> ('a, 's) step" where
  "ret x s = (Some x, s)"

definition fail :: "('a, 's) step" where
  "fail s = (None, s)"

definition and_then :: "('a, 's) step \<Rightarrow> ('a \<Rightarrow> ('b, 's) step) \<Rightarrow> ('b, 's) step" where
  "and_then p f s = (case p s of (None, s') \<Rightarrow> (None, s') | (Some x, s') \<Rightarrow> f x s')"

text \<open>\<^verbatim>\<open>if (!c) return 0;\<close>\<close>

definition require :: "bool \<Rightarrow> (unit, 's) step" where
  "require c = (if c then ret () else fail)"

lemma ret_iff [simp]: "ret x s = (r, s') \<longleftrightarrow> r = Some x \<and> s' = s"
  by (auto simp: ret_def)

lemma fail_iff [simp]: "fail s = (r, s') \<longleftrightarrow> r = None \<and> s' = s"
  by (auto simp: fail_def)

lemma and_then_Some [simp]:
  "and_then p f s = (Some y, s'') \<longleftrightarrow> (\<exists>x s'. p s = (Some x, s') \<and> f x s' = (Some y, s''))"
  by (auto simp: and_then_def split: prod.splits option.splits)

lemma and_then_Some_sym [simp]:
  "(Some y, s'') = and_then p f s \<longleftrightarrow> (\<exists>x s'. p s = (Some x, s') \<and> f x s' = (Some y, s''))"
  by (auto simp: and_then_def split: prod.splits option.splits)

lemma and_then_eval [simp]: "p s = (Some x, s') \<Longrightarrow> and_then p f s = f x s'"
  by (simp add: and_then_def)

lemma and_then_fail [simp]: "p s = (None, s') \<Longrightarrow> and_then p f s = (None, s')"
  by (simp add: and_then_def)

lemma and_then_ret [simp]: "and_then (ret x) f = f x"
  by (rule ext) (simp add: and_then_def ret_def)

lemma and_then_ret_app [simp]: "ret x s = (Some x, s)"
  by (simp add: ret_def)

lemma require_iff [simp]: "require c s = (Some u, s') \<longleftrightarrow> c \<and> s' = s"
  by (auto simp: require_def)

lemma require_eval [simp]: "c \<Longrightarrow> require c s = (Some (), s)"
  by (simp add: require_def)

lemma require_refuse [simp]: "\<not> c \<Longrightarrow> require c s = (None, s)"
  by (simp add: require_def fail_def)

lemma and_then_assoc: "and_then (and_then p f) g = and_then p (\<lambda>x. and_then (f x) g)"
  by (rule ext) (auto simp: and_then_def split: prod.splits option.splits)

lemma and_then_cong [fundef_cong]:
  assumes "s = t" and "p t = q t"
    and "\<And>x t'. q t = (Some x, t') \<Longrightarrow> f x t' = g x t'"
  shows "and_then p f s = and_then q g t"
  using assms by (auto simp: and_then_def split: prod.splits option.splits)

section \<open>Bytes and the integers they spell\<close>

text \<open>
  \<open>be_nat\<close> reads a byte string as an unsigned big-endian number; \<open>be_word\<close> is the loop
  \<^verbatim>\<open>result <<= 8; result |= data[i]\<close> at a fixed width, and \<open>be_word_eq\<close> says that it computes
  \<open>be_nat\<close> modulo the width.  \<open>be_bytes\<close> writes the low \<open>n\<close> bytes of a number, most significant
  first.
\<close>

lemma unat_u8_less [simp]: "unat (b :: u8) < 256"
proof -
  have "unat b < 2 ^ LENGTH(8)" by (rule unsigned_less)
  then show ?thesis by simp
qed

definition be_nat :: "u8 list \<Rightarrow> nat" where
  "be_nat bs = foldl (\<lambda>n b. 256 * n + unat b) 0 bs"

definition be_word :: "u8 list \<Rightarrow> 'a::len word" where
  "be_word bs = foldl (\<lambda>r b. push_bit 8 r OR ucast b) 0 bs"

fun be_bytes :: "nat \<Rightarrow> nat \<Rightarrow> u8 list" where
  "be_bytes 0 v = []"
| "be_bytes (Suc n) v = be_bytes n (v div 256) @ [word_of_nat v]"

lemma be_nat_Nil [simp]: "be_nat [] = 0"
  by (simp add: be_nat_def)

lemma be_nat_snoc [simp]: "be_nat (bs @ [b]) = 256 * be_nat bs + unat b"
  by (simp add: be_nat_def)

lemma be_nat_less: "be_nat bs < 256 ^ length bs"
proof (induction bs rule: rev_induct)
  case (snoc b bs)
  have "unat b < 256" by simp
  with snoc have "256 * be_nat bs + unat b < 256 * 256 ^ length bs" by linarith
  then show ?case by simp
qed simp

lemma be_nat_append: "be_nat (xs @ ys) = be_nat xs * 256 ^ length ys + be_nat ys"
  by (induction ys rule: rev_induct) (simp_all flip: append_assoc)

lemma be_nat_Cons: "be_nat (x # xs) = unat x * 256 ^ length xs + be_nat xs"
  using be_nat_append [of "[x]" xs] by (simp add: be_nat_def)

lemma shift_in_byte:
  assumes "8 \<le> LENGTH('a::len)"
  shows "push_bit 8 (word_of_nat n :: 'a word) OR ucast (b :: u8) = word_of_nat (256 * n + unat b)"
proof -
  have "push_bit 8 (word_of_nat n :: 'a word) AND ucast b = 0"
    by (rule bit_word_eqI) (auto simp: bit_simps dest: bit_imp_le_length)
  then have "push_bit 8 (word_of_nat n :: 'a word) OR ucast b = push_bit 8 (word_of_nat n) + ucast b"
    by (simp add: disjunctive_add_eq_or)
  also have "\<dots> = word_of_nat (256 * n + unat b)"
    by (simp add: push_bit_eq_mult unsigned_ucast_eq mult.commute)
  finally show ?thesis .
qed

lemma be_word_eq:
  assumes "8 \<le> LENGTH('a::len)"
  shows "(be_word bs :: 'a word) = word_of_nat (be_nat bs)"
  by (induction bs rule: rev_induct) (simp_all add: be_word_def shift_in_byte [OF assms])

lemma length_be_bytes [simp]: "length (be_bytes n v) = n"
  by (induction n arbitrary: v) auto

lemma be_nat_be_bytes: "be_nat (be_bytes n v) = v mod 256 ^ n"
proof (induction n arbitrary: v)
  case (Suc n)
  have "be_nat (be_bytes (Suc n) v) = 256 * (v div 256 mod 256 ^ n) + v mod 256"
    by (simp add: Suc unat_of_nat)
  also have "\<dots> = v mod (256 * 256 ^ n)"
    by (simp add: mod_mult2_eq)
  finally show ?case by simp
qed simp

lemma be_bytes_be_nat: "be_bytes (length bs) (be_nat bs) = bs"
proof (induction bs rule: rev_induct)
  case (snoc b bs)
  have "unat b < 256" by simp
  moreover have "word_of_nat (256 * be_nat bs + unat b) = b"
  proof -
    have "(256 :: u8) = 0" by simp
    then show ?thesis by (simp only: of_nat_add of_nat_mult of_nat_numeral of_nat_unat) simp
  qed
  ultimately show ?case using snoc by simp
qed simp

section \<open>Bits of a byte\<close>

lemma push_or:
  assumes "x < 2 ^ k"
  shows "push_bit k (word_of_nat n :: 'a::len word) OR word_of_nat x = word_of_nat (2 ^ k * n + x)"
proof -
  have x: "take_bit k x = x" using assms by (simp add: take_bit_nat_eq_self)
  have "bit x i \<Longrightarrow> i < k" for i
    using x by (metis bit_take_bit_iff)
  then have "push_bit k (word_of_nat n :: 'a word) AND word_of_nat x = 0"
    by (intro bit_word_eqI) (auto simp: bit_simps dest: leD)
  then have "push_bit k (word_of_nat n :: 'a word) OR word_of_nat x = push_bit k (word_of_nat n) + word_of_nat x"
    by (simp add: disjunctive_add_eq_or)
  also have "\<dots> = word_of_nat (2 ^ k * n + x)"
    by (simp add: push_bit_eq_mult mult.commute)
  finally show ?thesis .
qed

lemma u8_div128: "unat (b :: u8) div 128 = (if unat b < 128 then 0 else 1)"
proof -
  have "unat b div 128 < 2" using unat_u8_less [of b] by (intro less_mult_imp_div_less) simp
  moreover have "unat b div 128 = 0 \<longleftrightarrow> unat b < 128" by (simp add: div_eq_0_iff)
  ultimately show ?thesis using less_2_cases [of "unat b div 128"] by (auto simp: div_eq_0_iff)
qed

lemma u8_high_bit: "b AND 0x80 = (0 :: u8) \<longleftrightarrow> unat b < 128"
proof -
  have "b AND 0x80 = 0 \<longleftrightarrow> \<not> bit b 7"
    using and_exp_eq_0_iff_not_bit [of b 7] by simp
  also have "bit b 7 \<longleftrightarrow> bit (unat b) 7" by (simp add: bit_simps)
  also have "\<dots> \<longleftrightarrow> odd (unat b div 128)" by (simp add: bit_iff_odd)
  also have "\<not> odd (unat b div 128) \<longleftrightarrow> unat b < 128"
    by (simp add: u8_div128)
  finally show ?thesis .
qed

lemma u8_low7: "unat (b AND 0x7f :: u8) = unat b mod 128"
proof -
  have "unat (b AND 0x7f) = unat (take_bit 7 b)" by (simp add: take_bit_eq_mask mask_eq_exp_minus_1)
  also have "unat (take_bit 7 b) = take_bit 7 (unat b)" by (rule unsigned_take_bit_eq)
  also have "\<dots> = unat b mod 128" by (simp add: take_bit_eq_mod)
  finally show ?thesis by simp
qed

lemma u8_with_high_bit:
  assumes "b AND 0x80 \<noteq> (0 :: u8)"
  shows "word_of_nat (unat b mod 128) OR 0x80 = b"
proof -
  have "word_of_nat (unat b mod 128) OR (0x80 :: u8) = word_of_nat (unat b mod 128) OR push_bit 7 (word_of_nat 1)"
    by simp
  also have "\<dots> = word_of_nat (128 + unat b mod 128)"
    using push_or [of "unat b mod 128" 7 1, where 'a = 8] by (simp add: or.commute)
  also have "128 + unat b mod 128 = unat b"
  proof -
    from assms have "unat b div 128 = 1" by (simp add: u8_high_bit u8_div128)
    then show ?thesis using div_mult_mod_eq [of "unat b" 128] by simp
  qed
  finally show ?thesis by simp
qed

lemma u8_cont_byte:
  assumes "d < 128"
  shows "unat (word_of_nat d OR 0x80 :: u8) = 128 + d"
proof -
  have "word_of_nat d OR (0x80 :: u8) = push_bit 7 (word_of_nat 1) OR word_of_nat d"
    by (simp add: or.commute)
  also have "\<dots> = word_of_nat (128 + d)"
    using push_or [of d 7 1, where 'a = 8] assms by simp
  finally have "word_of_nat d OR (0x80 :: u8) = word_of_nat (128 + d)" .
  then show ?thesis using assms by (simp only: unat_of_nat) simp
qed

lemma unat_eqD: "unat x = n \<Longrightarrow> x = word_of_nat n"
  by auto

lemma drop_bit_0_iff: "drop_bit k (v :: 'a::len word) = 0 \<longleftrightarrow> unat v < 2 ^ k"
proof -
  have "drop_bit k v = 0 \<longleftrightarrow> unat (drop_bit k v) = 0" by (simp only: unat_eq_zero)
  also have "\<dots> \<longleftrightarrow> unat v div 2 ^ k = 0" by (simp only: unat_drop_bit_eq drop_bit_eq_div [where 'a = nat])
  also have "\<dots> \<longleftrightarrow> unat v < 2 ^ k" by (simp add: div_eq_0_iff)
  finally show ?thesis .
qed

lemma unat_ucast_small: "unat x < 2 ^ LENGTH('b::len) \<Longrightarrow> unat (ucast x :: 'b word) = unat x"
  by (simp add: unsigned_ucast_eq take_bit_nat_eq_self)

lemma unat_ucast_u8: "8 \<le> LENGTH('b::len) \<Longrightarrow> unat (ucast (b :: u8) :: 'b word) = unat b"
proof (rule unat_ucast_small)
  assume "8 \<le> LENGTH('b)"
  then have "(2 :: nat) ^ 8 \<le> 2 ^ LENGTH('b)" by (intro power_increasing) auto
  then have "(256 :: nat) \<le> 2 ^ LENGTH('b)" by simp
  then show "unat b < 2 ^ LENGTH('b)" by (rule less_le_trans [OF unat_u8_less])
qed

lemma bit_less: "n < 2 ^ k \<Longrightarrow> bit (n :: nat) i \<Longrightarrow> i < k"
  by (metis bit_take_bit_iff take_bit_nat_eq_self)

lemma unat_mask_less: "unat (w AND mask k) < 2 ^ k"
  by (simp only: take_bit_eq_mask [symmetric] unsigned_take_bit_eq take_bit_nat_less_exp)

lemma be_word_u32:
  assumes "length bs \<le> 4"
  shows "unat (be_word bs :: u32) = be_nat bs"
proof -
  have "(256 :: nat) ^ length bs \<le> 256 ^ 4" using assms by (intro power_increasing) auto
  with be_nat_less [of bs] have "be_nat bs < 2 ^ 32" by simp
  then show ?thesis by (simp add: be_word_eq unat_of_nat)
qed

lemma u8_low7_or: "unat b = (if b AND 0x80 = (0 :: u8) then 0 else 128) + unat (b AND 0x7f)"
  using div_mult_mod_eq [of "unat b" 128]
  by (cases "unat b < 128") (simp_all add: u8_low7 u8_high_bit u8_div128)

lemma xor_eq_0_iff: "a XOR b = 0 \<longleftrightarrow> a = (b :: 'a::len word)"
proof
  assume "a XOR b = 0"
  then show "a = b" by (metis xor.assoc xor.right_neutral xor_self_eq xor.left_neutral)
qed simp

lemma u8_eqI:
  assumes "bit a 0 = bit b 0" "bit a 1 = bit b 1" "bit a 2 = bit b 2" "bit a 3 = bit b 3"
    "bit a 4 = bit b 4" "bit a 5 = bit b 5" "bit a 6 = bit b 6" "bit a 7 = bit b 7"
  shows "a = (b :: u8)"
proof (rule bit_word_eqI)
  fix n assume "n < LENGTH(8)"
  then have "n = 0 \<or> n = 1 \<or> n = 2 \<or> n = 3 \<or> n = 4 \<or> n = 5 \<or> n = 6 \<or> n = 7" by auto
  with assms show "bit a n = bit b n" by auto
qed

lemma u8_no_bit: "8 \<le> n \<Longrightarrow> \<not> bit (s :: u8) n"
  by (auto dest: bit_imp_le_length)

section \<open>Lists\<close>

lemma take_eq_mono: "take m xs = take m ys \<Longrightarrow> k \<le> m \<Longrightarrow> take k xs = take k ys"
  by (metis min.absorb1 take_take)

lemma take_take_drop: "take n xs @ take m (drop n xs) @ drop (n + m) xs = xs"
  by (metis add.commute append_take_drop_id drop_drop)

section \<open>The C library: memcmp and qsort\<close>

fun memcmp :: "u8 list \<Rightarrow> u8 list \<Rightarrow> nat \<Rightarrow> int" where
  "memcmp (a # as) (b # bs) n =
     (if n = 0 then 0 else if a < b then -1 else if b < a then 1 else memcmp as bs (n - 1))"
| "memcmp _ _ _ = 0"

lemma memcmp_Nil2 [simp]: "memcmp as [] n = 0"
  by (cases as) auto

text \<open>
  \<^verbatim>\<open>qsort\<close> promises a sorted permutation for a consistent comparison function and nothing on the order
  of equal elements; the model is an insertion sort, used only through those two facts.
\<close>

fun insert_cmp :: "('a \<Rightarrow> 'a \<Rightarrow> int) \<Rightarrow> 'a \<Rightarrow> 'a list \<Rightarrow> 'a list" where
  "insert_cmp cmp x [] = [x]"
| "insert_cmp cmp x (y # ys) = (if cmp x y \<le> 0 then x # y # ys else y # insert_cmp cmp x ys)"

definition qsort :: "('a \<Rightarrow> 'a \<Rightarrow> int) \<Rightarrow> 'a list \<Rightarrow> 'a list" where
  "qsort cmp xs = foldr (insert_cmp cmp) xs []"

definition consistent_cmp :: "('a \<Rightarrow> 'a \<Rightarrow> int) \<Rightarrow> 'a set \<Rightarrow> bool" where
  "consistent_cmp cmp A \<longleftrightarrow>
     (\<forall>x \<in> A. \<forall>y \<in> A. cmp x y \<le> 0 \<or> cmp y x \<le> 0) \<and>
     (\<forall>x \<in> A. \<forall>y \<in> A. \<forall>z \<in> A. cmp x y \<le> 0 \<longrightarrow> cmp y z \<le> 0 \<longrightarrow> cmp x z \<le> 0)"

lemma mset_insert_cmp: "mset (insert_cmp cmp x xs) = add_mset x (mset xs)"
  by (induction xs) auto

lemma mset_qsort [simp]: "mset (qsort cmp xs) = mset xs"
  by (induction xs) (auto simp: qsort_def mset_insert_cmp)

lemma set_qsort [simp]: "set (qsort cmp xs) = set xs"
  by (metis mset_qsort set_mset_mset)

lemma length_qsort [simp]: "length (qsort cmp xs) = length xs"
  by (metis mset_qsort size_mset)

lemma sorted_insert_cmp:
  assumes "consistent_cmp cmp A" and "x \<in> A" and "set xs \<subseteq> A"
    and "sorted_wrt (\<lambda>a b. cmp a b \<le> 0) xs"
  shows "sorted_wrt (\<lambda>a b. cmp a b \<le> 0) (insert_cmp cmp x xs)"
  using assms(3,4)
proof (induction xs)
  case (Cons y ys)
  have set: "set (insert_cmp cmp x ys) = insert x (set ys)"
    by (metis mset_insert_cmp set_mset_mset set_mset_add_mset_insert)
  have y: "y \<in> A" "set ys \<subseteq> A" using Cons.prems by auto
  show ?case
  proof (cases "cmp x y \<le> 0")
    case True
    have "cmp x z \<le> 0" if "z \<in> set ys" for z
      using True that Cons.prems assms(1,2) y unfolding consistent_cmp_def
      by (metis list.set_intros(1) sorted_wrt.simps(2) subsetD)
    with True Cons.prems show ?thesis by auto
  next
    case False
    then have "cmp y x \<le> 0" using assms(1,2) y unfolding consistent_cmp_def by blast
    with False Cons y show ?thesis by (auto simp: set)
  qed
qed simp

lemma sorted_qsort:
  assumes "consistent_cmp cmp (set xs)"
  shows "sorted_wrt (\<lambda>a b. cmp a b \<le> 0) (qsort cmp xs)"
proof -
  have "consistent_cmp cmp A \<Longrightarrow> set xs \<subseteq> A \<Longrightarrow> sorted_wrt (\<lambda>a b. cmp a b \<le> 0) (qsort cmp xs)" for A
  proof (induction xs)
    case (Cons x xs)
    have "set (qsort cmp xs) \<subseteq> A" using Cons.prems by simp
    with Cons sorted_insert_cmp [of cmp A x "qsort cmp xs"] show ?case by (simp add: qsort_def)
  qed (simp add: qsort_def)
  then show ?thesis using assms by blast
qed

section \<open>Binary search\<close>

text \<open>\<^verbatim>\<open>bsearch\<close> of the C library promises some element that compares equal, if the array is sorted and
  there is one; the model halves the interval and is used through that fact only.\<close>

function bsearch_in :: "('b \<Rightarrow> int) \<Rightarrow> 'b list \<Rightarrow> nat \<Rightarrow> nat \<Rightarrow> nat option" where
  "bsearch_in c xs lo hi =
     (if lo \<ge> hi then None
      else let mid = (lo + hi) div 2
           in if c (xs ! mid) = 0 then Some mid
              else if c (xs ! mid) < 0 then bsearch_in c xs lo mid
              else bsearch_in c xs (mid + 1) hi)"
  by pat_completeness auto
termination by (relation "measure (\<lambda>(c, xs, lo, hi). hi - lo)") auto

declare bsearch_in.simps [simp del]

definition bsearch :: "('b \<Rightarrow> int) \<Rightarrow> 'b list \<Rightarrow> nat option" where
  "bsearch c xs = bsearch_in c xs 0 (length xs)"

lemma bsearch_in_sound:
  "bsearch_in f xs lo hi = Some i \<Longrightarrow> lo \<le> i \<and> i < hi \<and> f (xs ! i) = 0"
proof (induction f xs lo hi rule: bsearch_in.induct)
  case (1 f xs lo hi)
  show ?case
  proof (cases "lo \<ge> hi")
    case False
    let ?mid = "(lo + hi) div 2"
    have m: "lo \<le> ?mid" "?mid < hi" using False by auto
    consider "f (xs ! ?mid) = 0" | "f (xs ! ?mid) < 0" | "f (xs ! ?mid) > 0" by linarith
    then show ?thesis
    proof cases
      case 1
      with "1.prems" False m show ?thesis by (simp add: bsearch_in.simps [of f xs lo hi] Let_def)
    next
      case 2
      with "1.prems" False have "bsearch_in f xs lo ?mid = Some i" by (simp add: bsearch_in.simps [of f xs lo hi] Let_def)
      with "1.IH"(1) [OF False refl] 2 m show ?thesis by simp
    next
      case 3
      with "1.prems" False have "bsearch_in f xs (?mid + 1) hi = Some i" by (simp add: bsearch_in.simps [of f xs lo hi] Let_def)
      with "1.IH"(2) [OF False refl] 3 m show ?thesis by simp
    qed
  qed (use 1 in \<open>simp add: bsearch_in.simps [of f xs lo hi]\<close>)
qed

end
