(* ===== verification/Mem.thy ===== *)
theory Mem
  imports Prelude
begin

text \<open>
  The allocator and byte-string helpers of \<^verbatim>\<open>crypto/mem.c\<close>, and the growing buffer of
  \<^verbatim>\<open>crypto/buf/buf.c\<close>.  The C library's \<^verbatim>\<open>malloc\<close> and \<^verbatim>\<open>free\<close> are the environment: \<open>mem_ok\<close> says
  which request (by number and size) succeeds, \<open>mem_fill\<close> what the indeterminate bytes of a fresh
  block are, and \<open>mem_freed\<close> records the contents of every block at the moment it is handed
  back, and \<open>mem_granted\<close> counts the requests that succeeded.
  A live block is the list of its usable bytes, so its length is what the size prefix in front of
  it says.  C strings are byte lists that hold a NUL; \<^verbatim>\<open>char\<close> is signed.
\<close>

section \<open>The allocator\<close>

record mem =
  mem_ok :: "nat \<Rightarrow> nat \<Rightarrow> bool"
  mem_fill :: "nat \<Rightarrow> nat \<Rightarrow> u8"
  mem_calls :: nat
  mem_freed :: "u8 list list"
  mem_granted :: nat

definition libc_malloc :: "nat \<Rightarrow> (u8 list, mem) step" where
  "libc_malloc n m =
     (if mem_ok m (mem_calls m) n
      then (Some (map (mem_fill m (mem_calls m)) [0..<n]), m\<lparr>mem_calls := Suc (mem_calls m), mem_granted := Suc (mem_granted m)\<rparr>)
      else (None, m\<lparr>mem_calls := Suc (mem_calls m)\<rparr>))"

definition libc_free :: "u8 list \<Rightarrow> mem \<Rightarrow> mem" where
  "libc_free block m = m\<lparr>mem_freed := block # mem_freed m\<rparr>"

text \<open>How many blocks are live.\<close>

definition blocks :: "mem \<Rightarrow> int" where
  "blocks m = int (mem_granted m) - int (length (mem_freed m))"

definition OPENSSL_MALLOC_PREFIX :: nat where
  "OPENSSL_MALLOC_PREFIX = 8"

definition OPENSSL_cleanse :: "u8 list \<Rightarrow> nat \<Rightarrow> u8 list" where
  "OPENSSL_cleanse ptr len = replicate len 0 @ drop len ptr"

definition OPENSSL_malloc :: "nat \<Rightarrow> (u8 list, mem) step" where
  "OPENSSL_malloc sz =
     and_then (libc_malloc (size_add sz OPENSSL_MALLOC_PREFIX))
       (\<lambda>ptr. ret (drop OPENSSL_MALLOC_PREFIX ptr))"

definition OPENSSL_free :: "u8 list option \<Rightarrow> mem \<Rightarrow> mem" where
  "OPENSSL_free orig_ptr m =
     (case orig_ptr of
        None \<Rightarrow> m
      | Some p \<Rightarrow>
          let sz = length p;
              ptr = rev (be_bytes OPENSSL_MALLOC_PREFIX sz) @ p
          in libc_free (OPENSSL_cleanse ptr (size_add sz OPENSSL_MALLOC_PREFIX)) m)"

definition OPENSSL_realloc :: "u8 list option \<Rightarrow> nat \<Rightarrow> (u8 list, mem) step" where
  "OPENSSL_realloc orig_ptr new_size =
     (case orig_ptr of
        None \<Rightarrow> OPENSSL_malloc new_size
      | Some p \<Rightarrow>
          and_then (OPENSSL_malloc new_size) (\<lambda>q m.
            let old_size = length p;
                to_copy = (if old_size < new_size then old_size else new_size)
            in (Some (take to_copy p @ drop to_copy q), OPENSSL_free (Some p) m)))"

section \<open>Comparison, hashing and strings\<close>

text \<open>\<^verbatim>\<open>x |= a[i] ^ b[i]\<close> over the whole length, without an early exit.\<close>

definition CRYPTO_memcmp :: "u8 list \<Rightarrow> u8 list \<Rightarrow> nat \<Rightarrow> u8" where
  "CRYPTO_memcmp a b len = fold (\<lambda>i x. x OR (a ! i XOR b ! i)) [0..<len] 0"

definition OPENSSL_hash32 :: "u8 list \<Rightarrow> u32" where
  "OPENSSL_hash32 bs = foldl (\<lambda>h b. (h XOR ucast b) * 16777619) 2166136261 bs"

fun strnlen :: "u8 list \<Rightarrow> nat \<Rightarrow> nat" where
  "strnlen s 0 = 0"
| "strnlen s (Suc n) = (if hd s = 0 then 0 else Suc (strnlen (tl s) n))"

definition OPENSSL_strnlen :: "u8 list \<Rightarrow> nat \<Rightarrow> nat" where
  "OPENSSL_strnlen s len = strnlen s len"

definition BUF_strnlen :: "u8 list \<Rightarrow> nat \<Rightarrow> nat" where
  "BUF_strnlen str max_len = strnlen str max_len"

definition strlen :: "u8 list \<Rightarrow> nat" where
  "strlen s = length (takeWhile (\<lambda>c. c \<noteq> 0) s)"

definition c_string :: "u8 list \<Rightarrow> bool" where
  "c_string s \<longleftrightarrow> 0 \<in> set s"

definition OPENSSL_strdup :: "u8 list \<Rightarrow> (u8 list, mem) step" where
  "OPENSSL_strdup s =
     (let len = strlen s + 1
      in and_then (OPENSSL_malloc len) (\<lambda>p. ret (take len s @ drop len p)))"

definition OPENSSL_tolower :: "int \<Rightarrow> int" where
  "OPENSSL_tolower c = (if 65 \<le> c \<and> c \<le> 90 then c + (97 - 65) else c)"

text \<open>The comparison loops read one character of each string per round; \<open>None\<close> is a read past
  the end of a list that holds no NUL.\<close>

fun OPENSSL_strcasecmp :: "u8 list \<Rightarrow> u8 list \<Rightarrow> int option" where
  "OPENSSL_strcasecmp (a # as) (b # bs) =
     (let aa = OPENSSL_tolower (sint a); bb = OPENSSL_tolower (sint b)
      in if aa < bb then Some (-1) else if aa > bb then Some 1
         else if aa = 0 then Some 0 else OPENSSL_strcasecmp as bs)"
| "OPENSSL_strcasecmp _ _ = None"

fun OPENSSL_strncasecmp :: "u8 list \<Rightarrow> u8 list \<Rightarrow> nat \<Rightarrow> int option" where
  "OPENSSL_strncasecmp as bs 0 = Some 0"
| "OPENSSL_strncasecmp (a # as) (b # bs) (Suc n) =
     (let aa = OPENSSL_tolower (sint a); bb = OPENSSL_tolower (sint b)
      in if aa < bb then Some (-1) else if aa > bb then Some 1
         else if aa = 0 then Some 0 else OPENSSL_strncasecmp as bs n)"
| "OPENSSL_strncasecmp _ _ (Suc n) = None"

section \<open>Duplicating and copying\<close>

definition BUF_memdup :: "u8 list \<Rightarrow> nat \<Rightarrow> (u8 list, mem) step" where
  "BUF_memdup data sz =
     (if sz = 0 then fail
      else and_then (OPENSSL_malloc sz) (\<lambda>p. ret (take sz data @ drop sz p)))"

definition BUF_strndup :: "u8 list option \<Rightarrow> nat \<Rightarrow> (u8 list, mem) step" where
  "BUF_strndup str size0 =
     (case str of
        None \<Rightarrow> fail
      | Some s \<Rightarrow>
          let sz = BUF_strnlen s size0;
              alloc_size = size_add sz 1
          in if alloc_size < sz then fail
             else and_then (OPENSSL_malloc alloc_size)
                    (\<lambda>p. ret ((take sz s @ drop sz p)[sz := 0])))"

definition BUF_strdup :: "u8 list option \<Rightarrow> (u8 list, mem) step" where
  "BUF_strdup str = (case str of None \<Rightarrow> fail | Some s \<Rightarrow> BUF_strndup (Some s) (strlen s))"

text \<open>\<open>dst\<close> and \<open>src\<close> are the memory from the two pointers on; the result is the returned length
  and the memory at \<open>dst\<close> afterwards.\<close>

fun BUF_strlcpy :: "u8 list \<Rightarrow> u8 list \<Rightarrow> nat \<Rightarrow> nat \<times> u8 list" where
  "BUF_strlcpy dst src 0 = (strlen src, dst)"
| "BUF_strlcpy dst src (Suc dst_size) =
     (if dst_size > 0 \<and> hd src \<noteq> 0
      then let (r, dst') = BUF_strlcpy (tl dst) (tl src) dst_size in (Suc r, hd src # dst')
      else (strlen src, dst[0 := 0]))"

fun BUF_strlcat :: "u8 list \<Rightarrow> u8 list \<Rightarrow> nat \<Rightarrow> nat \<times> u8 list" where
  "BUF_strlcat dst src 0 = BUF_strlcpy dst src 0"
| "BUF_strlcat dst src (Suc dst_size) =
     (if hd dst \<noteq> 0
      then let (r, dst') = BUF_strlcat (tl dst) src dst_size in (Suc r, hd dst # dst')
      else BUF_strlcpy dst src (Suc dst_size))"

section \<open>BUF_MEM\<close>

record BUF_MEM =
  bm_length :: nat
  bm_data :: "u8 list option"
  bm_max :: nat

definition BUF_MEM_new :: "(BUF_MEM, mem) step" where
  "BUF_MEM_new = and_then (OPENSSL_malloc 24)
     (\<lambda>_. ret \<lparr>bm_length = 0, bm_data = None, bm_max = 0\<rparr>)"

definition BUF_MEM_reserve :: "nat \<Rightarrow> (unit, BUF_MEM \<times> mem) step" where
  "BUF_MEM_reserve cap = (\<lambda>(buf, m).
     if bm_max buf \<ge> cap then (Some (), (buf, m))
     else
       let n = size_add cap 3 in
       if n < cap then (None, (buf, m))
       else
         let n' = n div 3;
             alloc_size = size_mul n' 4
         in if alloc_size div 4 \<noteq> n' then (None, (buf, m))
            else case OPENSSL_realloc (bm_data buf) alloc_size m of
                   (None, m') \<Rightarrow> (None, (buf, m'))
                 | (Some new_buf, m') \<Rightarrow>
                     (Some (), (buf\<lparr>bm_data := Some new_buf, bm_max := alloc_size\<rparr>, m')))"

text \<open>Writes \<open>bs\<close> at an offset of a block, as \<^verbatim>\<open>OPENSSL_memcpy\<close> and \<^verbatim>\<open>OPENSSL_memset\<close> do.\<close>

definition put_bytes :: "u8 list \<Rightarrow> nat \<Rightarrow> u8 list \<Rightarrow> u8 list" where
  "put_bytes block off bs = take off block @ bs @ drop (off + length bs) block"

definition BUF_MEM_grow :: "nat \<Rightarrow> (nat, BUF_MEM \<times> mem) step" where
  "BUF_MEM_grow len =
     and_then (BUF_MEM_reserve len) (\<lambda>_ (buf, m).
       let data' = (if bm_length buf < len
                    then map_option (\<lambda>d. put_bytes d (bm_length buf)
                           (replicate (len - bm_length buf) 0)) (bm_data buf)
                    else bm_data buf)
       in (Some len, (buf\<lparr>bm_data := data', bm_length := len\<rparr>, m)))"

definition BUF_MEM_grow_clean :: "nat \<Rightarrow> (nat, BUF_MEM \<times> mem) step" where
  "BUF_MEM_grow_clean len = BUF_MEM_grow len"

definition BUF_MEM_append :: "u8 list \<Rightarrow> (unit, BUF_MEM \<times> mem) step" where
  "BUF_MEM_append inp = (\<lambda>(buf, m).
     let len = length inp;
         new_len = size_add (bm_length buf) len
     in if new_len < len then (None, (buf, m))
        else and_then (BUF_MEM_reserve new_len) (\<lambda>_ (buf, m).
               (Some (), (buf\<lparr>bm_data := map_option (\<lambda>d. put_bytes d (bm_length buf) inp) (bm_data buf),
                              bm_length := new_len\<rparr>, m))) (buf, m))"

text \<open>The 24 bytes of the structure itself are cleansed too, so their value does not matter.\<close>

definition BUF_MEM_free :: "BUF_MEM \<Rightarrow> mem \<Rightarrow> mem" where
  "BUF_MEM_free buf m = OPENSSL_free (Some (replicate 24 0)) (OPENSSL_free (bm_data buf) m)"

section \<open>Facts about the allocator\<close>

text \<open>
  A block has the requested size unless the prefix makes the request wrap; \<^verbatim>\<open>OPENSSL_realloc\<close>
  keeps the common prefix of the contents; every block handed back to the C library is zero.
\<close>

lemma libc_malloc_Some:
  "libc_malloc n m = (Some p, m') \<Longrightarrow> length p = n \<and> mem_freed m' = mem_freed m"
  by (auto simp: libc_malloc_def split: if_splits)

lemma libc_malloc_freed: "libc_malloc n m = (r, m') \<Longrightarrow> mem_freed m' = mem_freed m"
  by (auto simp: libc_malloc_def split: if_splits)

lemma OPENSSL_malloc_freed: "OPENSSL_malloc n m = (r, m') \<Longrightarrow> mem_freed m' = mem_freed m"
  by (auto simp: OPENSSL_malloc_def and_then_def dest: libc_malloc_freed
      split: prod.splits option.splits)

lemma OPENSSL_malloc_length:
  assumes "OPENSSL_malloc n m = (Some p, m')" and "n \<le> SIZE_MAX - 8"
  shows "length p = n"
  using assms
  by (auto simp: OPENSSL_malloc_def OPENSSL_MALLOC_PREFIX_def SIZE_MAX_def size_add_def
      dest!: libc_malloc_Some)

lemma OPENSSL_realloc_spec:
  assumes "OPENSSL_realloc (Some p) n m = (Some q, m')" and "n \<le> SIZE_MAX - 8"
  shows "length q = n" and "take (min (length p) n) q = take (min (length p) n) p"
  using assms
  by (auto simp: OPENSSL_realloc_def Let_def min_def dest!: OPENSSL_malloc_length)

definition mem_clean :: "mem \<Rightarrow> bool" where
  "mem_clean m \<longleftrightarrow> (\<forall>b \<in> set (mem_freed m). set b \<subseteq> {0})"

lemma OPENSSL_free_clean:
  assumes "mem_clean m" and "\<And>p. orig = Some p \<Longrightarrow> length p \<le> SIZE_MAX - 8"
  shows "mem_clean (OPENSSL_free orig m)"
  using assms
  by (auto simp: mem_clean_def OPENSSL_free_def OPENSSL_cleanse_def libc_free_def Let_def
      OPENSSL_MALLOC_PREFIX_def SIZE_MAX_def size_add_def split: option.splits)

lemma OPENSSL_realloc_clean:
  assumes "mem_clean m" and "\<And>p. orig = Some p \<Longrightarrow> length p \<le> SIZE_MAX - 8"
    and "OPENSSL_realloc orig n m = (r, m')"
  shows "mem_clean m'"
proof (cases orig)
  case None
  then have "mem_freed m' = mem_freed m"
    using assms(3) OPENSSL_malloc_freed by (auto simp: OPENSSL_realloc_def)
  with assms(1) show ?thesis by (simp add: mem_clean_def)
next
  case (Some p)
  obtain r1 m1 where m1: "OPENSSL_malloc n m = (r1, m1)" by fastforce
  have "mem_clean m1" using assms(1) OPENSSL_malloc_freed [OF m1] by (simp add: mem_clean_def)
  then have "mem_clean (OPENSSL_free (Some p) m1)"
    using assms(2) Some by (intro OPENSSL_free_clean) auto
  with \<open>mem_clean m1\<close> assms(3) m1 Some show ?thesis
    by (auto simp: OPENSSL_realloc_def and_then_def Let_def split: option.splits)
qed

section \<open>Facts about comparison and strings\<close>

lemma fold_or_eq_0:
  "fold (\<lambda>i x. x OR f i) is (z :: u8) = 0 \<longleftrightarrow> z = 0 \<and> (\<forall>i\<in>set is. f i = 0)"
  by (induction "is" arbitrary: z) (auto simp: or_eq_0_iff)

lemma CRYPTO_memcmp_0:
  assumes "len \<le> length a" and "len \<le> length b"
  shows "CRYPTO_memcmp a b len = 0 \<longleftrightarrow> take len a = take len b"
  using assms
  by (auto simp: CRYPTO_memcmp_def fold_or_eq_0 xor_eq_0_iff list_eq_iff_nth_eq)

lemma strlen_eq: "c_string s \<Longrightarrow> strlen s < length s \<and> s ! strlen s = 0"
  by (induction s) (auto simp: strlen_def c_string_def)

lemma BUF_strlcpy_spec:
  assumes "c_string src" and "n \<le> length dst"
  shows "BUF_strlcpy dst src n =
    (strlen src,
     if n = 0 then dst
     else let k = min (strlen src) (n - 1) in take k src @ [0] @ drop (Suc k) dst)"
  using assms
proof (induction dst src n rule: BUF_strlcpy.induct)
  case (1 dst src)
  then show ?case by simp
next
  case (2 dst src n)
  obtain c src' where src: "src = c # src'" using "2.prems"(1) by (cases src) (auto simp: c_string_def)
  obtain d dst' where dst: "dst = d # dst'" using "2.prems"(2) by (cases dst) auto
  show ?case
  proof (cases "n > 0 \<and> c \<noteq> 0")
    case True
    with "2.prems" src dst have "c_string src'" "n \<le> length dst'" by (auto simp: c_string_def)
    with "2.IH" True src dst have IH: "BUF_strlcpy dst' src' n =
      (strlen src', let k = min (strlen src') (n - 1) in take k src' @ [0] @ drop (Suc k) dst')"
      by auto
    obtain n' where n': "n = Suc n'" using True by (cases n) auto
    show ?thesis using True IH src dst n'
      by (simp add: strlen_def Let_def)
  next
    case False
    then show ?thesis using src dst by (auto simp: strlen_def Let_def)
  qed
qed

section \<open>Facts about BUF_MEM\<close>

text \<open>
  \<open>bm_ok\<close> is the invariant of the structure, \<open>bm_bytes\<close> its abstraction: the valid bytes.
\<close>

definition bm_ok :: "BUF_MEM \<Rightarrow> bool" where
  "bm_ok buf \<longleftrightarrow> bm_length buf \<le> bm_max buf \<and>
     (case bm_data buf of None \<Rightarrow> bm_max buf = 0 | Some d \<Rightarrow> length d = bm_max buf)"

definition bm_bytes :: "BUF_MEM \<Rightarrow> u8 list" where
  "bm_bytes buf = (case bm_data buf of None \<Rightarrow> [] | Some d \<Rightarrow> take (bm_length buf) d)"

lemma length_bm_bytes: "bm_ok buf \<Longrightarrow> length (bm_bytes buf) = bm_length buf"
  by (auto simp: bm_ok_def bm_bytes_def split: option.splits)

lemma reserve_sizes:
  assumes "cap < 2 ^ 63"
  shows "size_add cap 3 = cap + 3" and "size_mul ((cap + 3) div 3) 4 = (cap + 3) div 3 * 4"
    and "(cap + 3) div 3 * 4 \<le> SIZE_MAX - 8" and "cap \<le> (cap + 3) div 3 * 4"
  using assms by (auto simp: size_add_def size_mul_def SIZE_MAX_def)

lemma BUF_MEM_reserve_ok:
  assumes "bm_ok buf" and "cap < 2 ^ 63"
    and "BUF_MEM_reserve cap (buf, m) = (Some (), (buf', m'))"
  shows "bm_ok buf'" and "cap \<le> bm_max buf'" and "bm_bytes buf' = bm_bytes buf"
    and "bm_length buf' = bm_length buf"
proof -
  note sz = reserve_sizes [OF assms(2)]
  have "bm_ok buf' \<and> cap \<le> bm_max buf' \<and> bm_bytes buf' = bm_bytes buf \<and> bm_length buf' = bm_length buf"
  proof (cases "bm_max buf \<ge> cap")
    case True
    with assms show ?thesis by (simp add: BUF_MEM_reserve_def)
  next
    case False
    let ?n = "(cap + 3) div 3 * 4"
    from False assms(3) sz obtain d where
      d: "OPENSSL_realloc (bm_data buf) ?n m = (Some d, m')"
      and buf': "buf' = buf\<lparr>bm_data := Some d, bm_max := ?n\<rparr>"
      by (auto simp: BUF_MEM_reserve_def Let_def split: prod.splits option.splits if_splits)
    have len: "length d = ?n"
    proof (cases "bm_data buf")
      case None
      with d sz(3) show ?thesis by (simp add: OPENSSL_realloc_def OPENSSL_malloc_length)
    next
      case (Some p)
      with d sz(3) show ?thesis by (simp add: OPENSSL_realloc_spec(1))
    qed
    have pre: "take (min (length p) ?n) d = take (min (length p) ?n) p" if "bm_data buf = Some p" for p
      using d that sz(3) by (simp add: OPENSSL_realloc_spec(2))
    have bytes: "bm_bytes buf' = bm_bytes buf"
    proof (cases "bm_data buf")
      case None
      with assms(1) show ?thesis by (simp add: bm_bytes_def buf' bm_ok_def)
    next
      case (Some p)
      with assms(1) have p: "length p = bm_max buf" "bm_length buf \<le> length p"
        by (auto simp: bm_ok_def)
      then have "bm_length buf \<le> min (length p) ?n" using False sz(4) by linarith
      then have "take (bm_length buf) d = take (bm_length buf) p"
        by (rule take_eq_mono [OF pre [OF Some]])
      with Some show ?thesis by (simp add: bm_bytes_def buf')
    qed
    with assms(1) False sz(4) len show ?thesis
      by (auto simp: bm_ok_def buf' split: option.splits)
  qed
  then show "bm_ok buf'" "cap \<le> bm_max buf'" "bm_bytes buf' = bm_bytes buf"
    "bm_length buf' = bm_length buf" by simp_all
qed

lemma BUF_MEM_append_ok:
  assumes "bm_ok buf" and "bm_length buf + length inp < 2 ^ 63"
    and "BUF_MEM_append inp (buf, m) = (Some (), (buf', m'))"
  shows "bm_ok buf' \<and> bm_bytes buf' = bm_bytes buf @ inp"
proof -
  let ?n = "bm_length buf + length inp"
  have n: "size_add (bm_length buf) (length inp) = ?n" using assms(2) by (simp add: size_add_def)
  from assms(3) n obtain buf1 where
    r: "BUF_MEM_reserve ?n (buf, m) = (Some (), (buf1, m'))"
    and buf': "buf' = buf1\<lparr>bm_data := map_option (\<lambda>d. put_bytes d (bm_length buf1) inp) (bm_data buf1),
                           bm_length := ?n\<rparr>"
    by (auto simp: BUF_MEM_append_def Let_def)
  note b1 = BUF_MEM_reserve_ok [OF assms(1,2) r]
  show ?thesis
  proof (cases "bm_data buf1")
    case None
    with b1 show ?thesis by (simp add: bm_ok_def buf' bm_bytes_def)
  next
    case (Some d)
    with b1 have len: "length d = bm_max buf1" "?n \<le> length d" by (auto simp: bm_ok_def)
    have bytes: "bm_bytes buf = take (bm_length buf) d" using b1(3,4) Some by (simp add: bm_bytes_def)
    have "bm_bytes buf' = take ?n (put_bytes d (bm_length buf) inp)"
      using Some b1(4) by (simp add: bm_bytes_def buf')
    with len Some b1(4) show ?thesis unfolding bytes
      by (simp add: bm_ok_def buf' put_bytes_def)
  qed
qed

lemma BUF_MEM_grow_ok:
  assumes "bm_ok buf" and "len < 2 ^ 63"
    and "BUF_MEM_grow len (buf, m) = (Some r, (buf', m'))"
  shows "r = len \<and> bm_ok buf' \<and>
    bm_bytes buf' = take len (bm_bytes buf) @ replicate (len - bm_length buf) 0"
proof -
  from assms(3) obtain buf1 where
    r: "BUF_MEM_reserve len (buf, m) = (Some (), (buf1, m'))" and "r = len"
    and buf': "buf' = buf1\<lparr>bm_data := (if bm_length buf1 < len
                    then map_option (\<lambda>d. put_bytes d (bm_length buf1)
                           (replicate (len - bm_length buf1) 0)) (bm_data buf1)
                    else bm_data buf1), bm_length := len\<rparr>"
    by (auto simp: BUF_MEM_grow_def Let_def)
  note b1 = BUF_MEM_reserve_ok [OF assms(1,2) r]
  show ?thesis
  proof (cases "bm_data buf1")
    case None
    with b1 \<open>r = len\<close> show ?thesis by (simp add: bm_ok_def buf' bm_bytes_def)
  next
    case (Some d)
    with b1 have len: "length d = bm_max buf1" "len \<le> length d" "bm_length buf \<le> length d"
      by (auto simp: bm_ok_def)
    have bytes: "bm_bytes buf = take (bm_length buf) d" using b1(3,4) Some by (simp add: bm_bytes_def)
    have "bm_bytes buf' = take len (if bm_length buf < len
        then put_bytes d (bm_length buf) (replicate (len - bm_length buf) 0) else d)"
      using Some b1(4) by (simp add: bm_bytes_def buf')
    with len Some b1(4) \<open>r = len\<close> show ?thesis unfolding bytes
      by (auto simp: bm_ok_def buf' put_bytes_def)
  qed
qed

section \<open>Properties\<close>

text \<open>An allocator for examples: it grants every request below 1000 bytes.\<close>

definition tiny_mem :: mem where
  "tiny_mem = \<lparr>mem_ok = \<lambda>i n. n < 1000, mem_fill = \<lambda>i k. 0xaa, mem_calls = 0, mem_freed = [], mem_granted = 0\<rparr>"

text \<open>C22: \<open>OPENSSL_realloc\<close> returns a block of the requested size that starts with the old contents (or
  as much of them as fits), and every block handed back to the C library, the old one included, has
  been overwritten with zeros over its whole length, its size prefix too.\<close>

theorem OPENSSL_realloc_keeps_and_cleans:
  assumes "OPENSSL_realloc (Some p) n m = (Some q, m')" and "n \<le> SIZE_MAX - 8"
    and "mem_clean m" and "length p \<le> SIZE_MAX - 8"
  shows "length q = n \<and> take (min (length p) n) q = take (min (length p) n) p \<and>
    length (mem_freed m') = Suc (length (mem_freed m)) \<and> mem_clean m'"
proof -
  have "mem_clean m'" by (rule OPENSSL_realloc_clean [OF assms(3) _ assms(1)]) (use assms(4) in simp)
  moreover have "length (mem_freed m') = Suc (length (mem_freed m))"
    using assms(1) by (auto simp: OPENSSL_realloc_def OPENSSL_free_def libc_free_def Let_def
        dest!: OPENSSL_malloc_freed)
  ultimately show ?thesis using OPENSSL_realloc_spec [OF assms(1,2)] by simp
qed

lemma OPENSSL_realloc_keeps_and_cleans_witness:
  "mem_clean (snd (OPENSSL_realloc (Some [1, 2, 3]) 5 tiny_mem)) \<and>
   take 3 [1, 2, 3, 0xaa, 0xaa] = [1, 2, 3 :: u8]"
proof -
  have "fst (OPENSSL_realloc (Some [1, 2, 3]) 5 tiny_mem) = Some [1, 2, 3, 0xaa, 0xaa]" by code_simp
  then have r: "OPENSSL_realloc (Some [1, 2, 3]) 5 tiny_mem =
      (Some [1, 2, 3, 0xaa, 0xaa], snd (OPENSSL_realloc (Some [1, 2, 3]) 5 tiny_mem))"
    by (metis prod.collapse)
  have "mem_clean tiny_mem" by (simp add: mem_clean_def tiny_mem_def)
  from OPENSSL_realloc_keeps_and_cleans [OF r _ this] show ?thesis by (simp add: SIZE_MAX_def)
qed

text \<open>the size prefix of \<open>OPENSSL_malloc\<close> is added without a check.  A request for $2^{64} - 4$ bytes
  asks the C library for 4 and, where those are granted, returns a block without a single usable
  byte as if it had the size asked for.\<close>

theorem OPENSSL_malloc_prefix_wraps:
  assumes "mem_ok m (mem_calls m) 4"
  shows "\<exists>m'. OPENSSL_malloc (2 ^ 64 - 4) m = (Some [], m')"
  using assms by (simp add: OPENSSL_malloc_def OPENSSL_MALLOC_PREFIX_def size_add_def libc_malloc_def and_then_def ret_def)

lemma OPENSSL_malloc_prefix_wraps_witness:
  "\<exists>m'. OPENSSL_malloc (2 ^ 64 - 4) tiny_mem = (Some [], m')"
  using OPENSSL_malloc_prefix_wraps
    [of tiny_mem] by (simp add: tiny_mem_def)

text \<open>C23: a \<open>BUF_MEM\<close> is a byte string that grows.  A successful append keeps the invariant (the valid
  length within the capacity, the capacity the size of the block) and the valid bytes are then the
  old ones followed by the input, through every reallocation.\<close>

theorem BUF_MEM_append_appends:
  assumes "bm_ok buf" and "bm_length buf + length inp < 2 ^ 63"
    and "BUF_MEM_append inp (buf, m) = (Some (), (buf', m'))"
  shows "bm_ok buf' \<and> bm_bytes buf' = bm_bytes buf @ inp \<and> bm_length buf' = length (bm_bytes buf')"
  using BUF_MEM_append_ok [OF assms] length_bm_bytes [of buf'] by simp

lemma BUF_MEM_append_appends_witness:
  "\<exists>buf'. bm_bytes buf' = [1, 2]"
proof -
  let ?b = "\<lparr>bm_length = 0, bm_data = None, bm_max = 0\<rparr>"
  let ?r = "BUF_MEM_append [1, 2] (?b, tiny_mem)"
  have "fst ?r = Some ()" by code_simp
  then have r: "?r = (Some (), (fst (snd ?r), snd (snd ?r)))" by (metis prod.collapse)
  have "bm_ok ?b" by (simp add: bm_ok_def)
  from BUF_MEM_append_appends [OF this _ r] show ?thesis by (auto simp: bm_bytes_def)
qed

text \<open>\<open>CRYPTO_memcmp\<close> is zero exactly when the two memories agree on the given length, although it
  never stops early.\<close>

theorem CRYPTO_memcmp_decides:
  assumes "len \<le> length a" and "len \<le> length b"
  shows "CRYPTO_memcmp a b len = 0 \<longleftrightarrow> take len a = take len b"
  by (rule CRYPTO_memcmp_0 [OF assms])

lemma CRYPTO_memcmp_decides_witness: "CRYPTO_memcmp [1, 2, 3] [1, 2, 4] 3 \<noteq> 0"
  using CRYPTO_memcmp_decides [of 3 "[1, 2, 3]" "[1, 2, 4]"] by simp

end
