(* ===== verification/Der.thy ===== *)
theory Der
  imports Prelude
begin

unbundle bit_operations_syntax

text \<open>
  The encodings that the reader and the builder of \<^verbatim>\<open>crypto/bytestring\<close> must agree on, stated
  without reference to either: base-128 integers (X.690 8.1.2.4), identifier and length octets in
  their minimal (DER) form.  Nothing here is translated from the code; it is the specification
  that \<^verbatim>\<open>cbs.c\<close> is shown to accept and \<^verbatim>\<open>cbb.c\<close> to produce.
\<close>

section \<open>Base-128 integers\<close>

fun b128_hi :: "nat \<Rightarrow> u8 list" where
  "b128_hi n = (if n = 0 then [] else b128_hi (n div 128) @ [word_of_nat (n mod 128) OR 0x80])"

declare b128_hi.simps [simp del]

definition b128 :: "nat \<Rightarrow> u8 list" where
  "b128 n = b128_hi (n div 128) @ [word_of_nat (n mod 128)]"

fun b128_digits :: "nat \<Rightarrow> nat" where
  "b128_digits n = (if n = 0 then 0 else Suc (b128_digits (n div 128)))"

declare b128_digits.simps [simp del]

definition b128_low :: "nat \<Rightarrow> nat \<Rightarrow> u8 list" where
  "b128_low k n =
     map (\<lambda>i. word_of_nat (n div 128 ^ i mod 128) OR (if i = 0 then 0 else 0x80)) (rev [0..<k])"

lemma b128_low_Suc:
  "b128_low (Suc k) n =
     (word_of_nat (n div 128 ^ k mod 128) OR (if k = 0 then 0 else 0x80)) # b128_low k n"
  by (simp add: b128_low_def)

lemma b128_hi_0 [simp]: "b128_hi 0 = []"
  by (simp add: b128_hi.simps)

lemma b128_hi_step: "0 < n \<Longrightarrow> b128_hi n = b128_hi (n div 128) @ [word_of_nat (n mod 128) OR 0x80]"
  by (subst b128_hi.simps) simp

lemma b128_digits_0 [simp]: "b128_digits 0 = 0"
  by (simp add: b128_digits.simps)

lemma b128_digits_step: "0 < n \<Longrightarrow> b128_digits n = Suc (b128_digits (n div 128))"
  by (subst b128_digits.simps) simp

lemma b128_digits_bounds: "n < 128 ^ b128_digits n \<and> (0 < n \<longrightarrow> 128 ^ (b128_digits n - 1) \<le> n)"
proof (induction n rule: b128_digits.induct)
  case (1 n)
  show ?case
  proof (cases "n = 0")
    case False
    let ?k = "b128_digits (n div 128)"
    have IH: "n div 128 < 128 ^ ?k" "0 < n div 128 \<longrightarrow> 128 ^ (?k - 1) \<le> n div 128"
      using "1.IH" [OF False] by auto
    have up: "n < 128 * 128 ^ ?k" using IH(1) by (simp add: div_less_iff_less_mult mult.commute)
    have "128 ^ ?k \<le> n"
    proof (cases "n div 128 = 0")
      case True
      then show ?thesis using False by simp
    next
      case nz: False
      then have "?k = Suc (?k - 1)" by (simp add: b128_digits_step)
      then have "128 ^ ?k = 128 * 128 ^ (?k - 1)" by (metis power_Suc)
      also have "\<dots> \<le> 128 * (n div 128)" using IH(2) nz by simp
      also have "\<dots> \<le> n" by simp
      finally show ?thesis .
    qed
    with up False show ?thesis by (simp add: b128_digits_step)
  qed simp
qed

lemma rev_upt_low: "rev [0..<Suc k] = map Suc (rev [0..<k]) @ [0]"
  by (simp add: rev_map [symmetric] map_Suc_upt upt_conv_Cons del: upt_Suc)

lemma b128_hi_map:
  "b128_hi n = map (\<lambda>i. word_of_nat (n div 128 ^ i mod 128) OR 0x80) (rev [0..<b128_digits n])"
proof (induction n rule: b128_hi.induct)
  case (1 n)
  show ?case
  proof (cases "n = 0")
    case False
    with "1.IH" show ?thesis
      by (simp only: b128_hi_step b128_digits_step neq0_conv rev_upt_low map_append map_map)
         (simp add: o_def div_mult2_eq)
  qed simp
qed

lemma b128_eq_low: "b128 n = b128_low (Suc (b128_digits (n div 128))) n"
  unfolding b128_def b128_low_def b128_hi_map rev_upt_low
  by (simp add: o_def div_mult2_eq)

lemma b128_nonempty: "b128 n \<noteq> []"
  by (simp add: b128_def)

lemma b128_hi_snoc:
  assumes "b AND 0x80 \<noteq> (0 :: u8)" and "\<not> (m = 0 \<and> b = 0x80)"
  shows "b128_hi (128 * m + unat b mod 128) = b128_hi m @ [b]"
proof -
  have "0 < 128 * m + unat b mod 128"
  proof (cases "m = 0")
    case True
    have "unat b mod 128 \<noteq> 0"
    proof
      assume "unat b mod 128 = 0"
      with u8_with_high_bit [OF assms(1)] have "b = 0x80" by simp
      with True assms(2) show False by simp
    qed
    then show ?thesis by simp
  qed simp
  then show ?thesis
    using u8_with_high_bit [OF assms(1)] by (simp add: b128_hi_step)
qed


section \<open>Identifier octets\<close>

text \<open>
  A tag is a 32-bit value with the class and the constructed bit on top and a 29-bit number; numbers
  from 31 on are written in base 128 after a first byte whose low five bits are set.
\<close>

definition der_tag :: "u32 \<Rightarrow> u8 list" where
  "der_tag tag =
     (let class_bits = ucast (drop_bit 24 tag) AND 0xe0;
          number = unat (tag AND mask 29)
      in if 31 \<le> number then (class_bits OR 0x1f) # b128 number
         else [class_bits OR word_of_nat number])"

lemma e0_bits: "(0xe0 :: 'a::len word) = push_bit 5 (mask 3)"
  by (simp add: mask_eq_exp_minus_1)

lemma x1f_bits: "(0x1f :: 'a::len word) = mask 5"
  by (simp add: mask_eq_exp_minus_1)

lemma tag_class:
  assumes "n < 2 ^ 29"
  shows "ucast (drop_bit 24 (push_bit 24 (ucast b AND 0xe0) OR word_of_nat n :: u32)) AND 0xe0 = (b :: u8) AND 0xe0"
  unfolding e0_bits
  by (rule bit_word_eqI) (auto simp: bit_simps dest: bit_less [OF assms])

lemma tag_number:
  assumes "n < 2 ^ 29"
  shows "(push_bit 24 (ucast (b :: u8) AND 0xe0) OR word_of_nat n :: u32) AND mask 29 = word_of_nat n"
  unfolding e0_bits
  by (rule bit_word_eqI) (auto simp: bit_simps dest: bit_less [OF assms])

lemma tag_recombine:
  "push_bit 24 (ucast (ucast (drop_bit 24 tag) AND (0xe0 :: u8)) AND 0xe0) OR (tag AND mask 29) = (tag :: u32)"
  unfolding e0_bits
  by (rule bit_word_eqI) (auto simp: bit_simps)

lemma tag_byte_recombine: "(b AND 0xe0) OR (b AND 0x1f) = (b :: u8)"
  unfolding e0_bits x1f_bits
  by (rule bit_word_eqI) (auto simp: bit_simps)

lemma tag_byte_low:
  assumes "n < 32"
  shows "((c AND 0xe0) OR word_of_nat n) AND 0x1f = (word_of_nat n :: u8)"
    and "((c AND 0xe0) OR word_of_nat n) AND 0xe0 = (c AND 0xe0 :: u8)"
proof -
  have n: "n < 2 ^ 5" using assms by simp
  show "((c AND 0xe0) OR word_of_nat n) AND 0x1f = (word_of_nat n :: u8)"
    "((c AND 0xe0) OR word_of_nat n) AND 0xe0 = (c AND 0xe0 :: u8)"
    unfolding e0_bits x1f_bits
    by (rule bit_word_eqI; auto simp: bit_simps dest: bit_less [OF n])+
qed
lemma ucast_and_e0: "(ucast (x :: u8) AND 0xe0 :: u32) = ucast (x AND 0xe0)"
  unfolding e0_bits by (rule bit_word_eqI) (auto simp: bit_simps)


section \<open>Length octets and elements\<close>

text \<open>
  A length below 128 is one byte; a longer one is the number of its base-256 digits with the high bit
  set, and the digits.  \<open>der_element tag c\<close> is the one DER encoding of an element.
\<close>

fun byte_digits :: "nat \<Rightarrow> nat" where
  "byte_digits n = (if n = 0 then 0 else Suc (byte_digits (n div 256)))"

declare byte_digits.simps [simp del]

lemma byte_digits_0 [simp]: "byte_digits 0 = 0"
  by (simp add: byte_digits.simps)

lemma byte_digits_step: "0 < n \<Longrightarrow> byte_digits n = Suc (byte_digits (n div 256))"
  by (subst byte_digits.simps) simp

lemma byte_digits_unique:
  "n < 256 ^ Suc k \<Longrightarrow> 256 ^ k \<le> n \<Longrightarrow> byte_digits n = Suc k"
proof (induction k arbitrary: n)
  case 0
  then show ?case by (simp add: byte_digits_step)
next
  case (Suc k)
  have "n div 256 < 256 ^ Suc k" using Suc.prems(1) by (simp add: div_less_iff_less_mult mult.commute)
  moreover have "256 ^ k \<le> n div 256"
    using div_le_mono [OF Suc.prems(2), of 256] by simp
  ultimately have "byte_digits (n div 256) = Suc k" by (rule Suc.IH)
  moreover have "0 < n" using Suc.prems(2) by (metis le_0_eq neq0_conv power_not_zero zero_neq_numeral)
  ultimately show ?case by (simp add: byte_digits_step)
qed

lemma byte_digits_lower: "0 < n \<Longrightarrow> 256 ^ (byte_digits n - 1) \<le> n"
proof (induction n rule: byte_digits.induct)
  case (1 n)
  show ?case
  proof (cases "n div 256 = 0")
    case True
    with "1.prems" show ?thesis by (simp add: byte_digits_step)
  next
    case False
    with "1" have "256 ^ (byte_digits (n div 256) - 1) \<le> n div 256" by simp
    then have "256 * 256 ^ (byte_digits (n div 256) - 1) \<le> 256 * (n div 256)" by simp
    also have "\<dots> \<le> n" by simp
    finally have "256 ^ Suc (byte_digits (n div 256) - 1) \<le> n" by simp
    then show ?thesis using "1.prems" False by (simp add: byte_digits_step)
  qed
qed

lemma byte_digits_upper: "n < 256 ^ byte_digits n"
proof (induction n rule: byte_digits.induct)
  case (1 n)
  show ?case
  proof (cases "n = 0")
    case False
    with "1" have "n div 256 < 256 ^ byte_digits (n div 256)" by simp
    then show ?thesis using False by (simp add: byte_digits_step div_less_iff_less_mult mult.commute)
  qed simp
qed

definition der_length :: "nat \<Rightarrow> u8 list" where
  "der_length n =
     (if n < 128 then [word_of_nat n]
      else word_of_nat (128 + byte_digits n) # be_bytes (byte_digits n) n)"

definition der_header :: "u32 \<Rightarrow> nat \<Rightarrow> u8 list" where
  "der_header tag n = der_tag tag @ der_length n"

definition der_element :: "u32 \<Rightarrow> u8 list \<Rightarrow> u8 list" where
  "der_element tag c = der_header tag (length c) @ c"

lemma byte_digits_u32:
  assumes "n < 2 ^ 32" and "0 < n"
  shows "1 \<le> byte_digits n \<and> byte_digits n \<le> 4"
proof -
  have "256 ^ (byte_digits n - 1) < (256 :: nat) ^ 4"
    using byte_digits_lower [OF assms(2)] assms(1) by simp
  then have "byte_digits n - 1 < 4" by (simp only: power_strict_increasing_iff)
  then show ?thesis using assms(2) by (simp add: byte_digits_step)
qed

section \<open>Unsigned INTEGER contents\<close>

text \<open>The minimal two's complement bytes of a natural number.\<close>

definition der_uint :: "nat \<Rightarrow> u8 list" where
  "der_uint n =
     (let bs = be_bytes (if n = 0 then 1 else byte_digits n) n
      in if 128 \<le> unat (hd bs) then 0 # bs else bs)"

lemma be_nat_lower: "bs \<noteq> [] \<Longrightarrow> hd bs \<noteq> 0 \<Longrightarrow> 256 ^ (length bs - 1) \<le> be_nat bs"
proof (cases bs)
  case (Cons b bs')
  assume "bs \<noteq> []" "hd bs \<noteq> 0"
  with Cons have "1 \<le> unat b" by (simp add: Suc_le_eq unat_gt_0)
  then have "256 ^ length bs' \<le> unat b * 256 ^ length bs'" by (cases "unat b") auto
  then have "256 ^ length bs' \<le> unat b * 256 ^ length bs' + be_nat bs'" by (rule trans_le_add1)
  then show ?thesis using Cons by (simp add: be_nat_Cons)
qed simp

lemma be_nat_pos: "bs \<noteq> [] \<Longrightarrow> hd bs \<noteq> 0 \<Longrightarrow> 0 < be_nat bs"
  by (rule order_less_le_trans [OF _ be_nat_lower]) auto

lemma byte_digits_be_nat:
  "bs \<noteq> [] \<Longrightarrow> hd bs \<noteq> 0 \<Longrightarrow> byte_digits (be_nat bs) = length bs"
  using byte_digits_unique [of "be_nat bs" "length bs - 1"] be_nat_less [of bs] be_nat_lower [of bs]
  by simp

lemma be_nat_0_Cons: "be_nat (0 # bs) = be_nat bs"
  by (simp add: be_nat_Cons)

text \<open>The contents the reader and the builder agree on: the minimal two's complement bytes.\<close>

definition uint_contents_ok :: "u8 list \<Rightarrow> bool" where
  "uint_contents_ok c \<longleftrightarrow> c \<noteq> [] \<and> unat (c ! 0) < 128 \<and>
     \<not> (c ! 0 = 0 \<and> 1 < length c \<and> unat (c ! 1) < 128)"

lemma der_uint_unique: 
  assumes "uint_contents_ok c"
  shows "der_uint (be_nat c) = c"
proof (cases "c ! 0 = 0")
  case nz: False
  with assms have "c \<noteq> []" "hd c \<noteq> 0" by (auto simp: uint_contents_ok_def hd_conv_nth)
  then have "byte_digits (be_nat c) = length c" "be_nat c \<noteq> 0"
    using byte_digits_be_nat [of c] be_nat_pos [of c] by auto
  with assms nz show ?thesis
    by (auto simp: der_uint_def Let_def be_bytes_be_nat uint_contents_ok_def hd_conv_nth)
next
  case z: True
  then obtain c' where c: "c = 0 # c'" using assms by (cases c) (auto simp: uint_contents_ok_def)
  show ?thesis
  proof (cases c')
    case Nil
    then show ?thesis using c by (simp add: der_uint_def be_nat_0_Cons)
  next
    case (Cons b c'')
    with assms c have b: "128 \<le> unat b" by (simp add: uint_contents_ok_def)
    then have "c' \<noteq> []" "hd c' \<noteq> 0" using Cons by auto
    then have "byte_digits (be_nat c') = length c'" "be_nat c' \<noteq> 0"
      using byte_digits_be_nat [of c'] be_nat_pos [of c'] by auto
    moreover have "128 \<le> unat (hd c')" using b Cons by simp
    ultimately show ?thesis
      unfolding c be_nat_0_Cons der_uint_def Let_def by (simp add: be_bytes_be_nat)
  qed
qed

lemma hd_be_bytes_digits:
  assumes "0 < n"
  shows "be_bytes (byte_digits n) n \<noteq> []" and "hd (be_bytes (byte_digits n) n) \<noteq> 0"
proof -
  let ?bs = "be_bytes (byte_digits n) n"
  have len: "length ?bs = byte_digits n" and v: "be_nat ?bs = n"
    using byte_digits_upper [of n] by (simp_all add: be_nat_be_bytes)
  show ne: "?bs \<noteq> []" using assms len byte_digits_step [of n] by (metis length_0_conv Zero_not_Suc)
  then obtain b bs' where bs: "?bs = b # bs'" by (cases ?bs) auto
  show "hd ?bs \<noteq> 0"
  proof
    assume "hd ?bs = 0"
    then have "n = be_nat bs'" using v bs by (simp add: be_nat_0_Cons)
    then have "n < 256 ^ length bs'" using be_nat_less [of bs'] by simp
    moreover have "length bs' = byte_digits n - 1" using len bs by simp
    ultimately show False using byte_digits_lower [OF assms] by simp
  qed
qed

lemma der_uint_ok: "uint_contents_ok (der_uint n) \<and> be_nat (der_uint n) = n"
proof (cases "n = 0")
  case True
  then show ?thesis by (simp add: der_uint_def uint_contents_ok_def be_nat_0_Cons)
next
  case False
  then have n: "0 < n" by simp
  let ?bs = "be_bytes (byte_digits n) n"
  have v: "be_nat ?bs = n" using byte_digits_upper [of n] by (simp add: be_nat_be_bytes)
  from hd_be_bytes_digits [OF n] obtain b bs' where bs: "?bs = b # bs'" "b \<noteq> 0" by (cases ?bs) auto
  show ?thesis
    using v bs False by (auto simp: der_uint_def Let_def uint_contents_ok_def be_nat_0_Cons)
qed

end
