(* ===== verification/Cbs.thy ===== *)
theory Cbs
  imports Mem Der "HOL-Library.Sublist"
begin

text \<open>
  The DER reader of \<^verbatim>\<open>crypto/bytestring/cbs.c\<close>.  A \<open>CBS\<close> is a pointer into an object and a
  number of bytes: \<open>cbs_data\<close> holds the bytes of the object from the pointer to its end and
  \<open>cbs_len\<close> the length of the window, so a window that leaves its object is expressible, and
  \<open>cbs_ok\<close> (the window is inside, the object is no larger than \<^verbatim>\<open>PTRDIFF_MAX\<close>) is an invariant
  that is proved of every operation.  \<open>window\<close> is the abstraction: the bytes still to be read.
  Output parameters are results; a NULL output parameter is a result the caller ignores.
\<close>

section \<open>The reader and its primitives\<close>

record CBS =
  cbs_data :: "u8 list"
  cbs_len :: nat

definition window :: "CBS \<Rightarrow> u8 list" where
  "window s = take (cbs_len s) (cbs_data s)"

definition cbs_ok :: "CBS \<Rightarrow> bool" where
  "cbs_ok s \<longleftrightarrow> cbs_len s \<le> length (cbs_data s) \<and> length (cbs_data s) < 2 ^ 63"

definition CBS_init :: "u8 list \<Rightarrow> nat \<Rightarrow> CBS" where
  "CBS_init data len = \<lparr>cbs_data = data, cbs_len = len\<rparr>"

definition cbs_get :: "nat \<Rightarrow> (u8 list, CBS) step" where
  "cbs_get n s =
     (if cbs_len s < n then (None, s)
      else (Some (cbs_data s),
            s\<lparr>cbs_data := drop n (cbs_data s), cbs_len := cbs_len s - n\<rparr>))"

definition CBS_skip :: "nat \<Rightarrow> (unit, CBS) step" where
  "CBS_skip n = and_then (cbs_get n) (\<lambda>dummy. ret ())"

definition CBS_len :: "CBS \<Rightarrow> nat" where
  "CBS_len s = cbs_len s"

definition CBS_contains_zero_byte :: "CBS \<Rightarrow> bool" where
  "CBS_contains_zero_byte s \<longleftrightarrow> 0 \<in> set (take (cbs_len s) (cbs_data s))"

definition cbs_get_u :: "nat \<Rightarrow> (u32, CBS) step" where
  "cbs_get_u n = and_then (cbs_get n) (\<lambda>data. ret (be_word (take n data)))"

definition CBS_get_u8 :: "(u8, CBS) step" where
  "CBS_get_u8 = and_then (cbs_get 1) (\<lambda>v. ret (hd v))"

definition CBS_get_u16 :: "(u16, CBS) step" where
  "CBS_get_u16 = and_then (cbs_get_u 2) (\<lambda>v. ret (ucast v))"

definition CBS_get_u24 :: "(u32, CBS) step" where
  "CBS_get_u24 = cbs_get_u 3"

definition CBS_get_u32 :: "(u32, CBS) step" where
  "CBS_get_u32 = cbs_get_u 4"

definition CBS_get_last_u8 :: "(u8, CBS) step" where
  "CBS_get_last_u8 s =
     (if cbs_len s = 0 then (None, s)
      else (Some (cbs_data s ! (cbs_len s - 1)), s\<lparr>cbs_len := cbs_len s - 1\<rparr>))"

definition CBS_get_bytes :: "nat \<Rightarrow> (CBS, CBS) step" where
  "CBS_get_bytes n = and_then (cbs_get n) (\<lambda>v. ret (CBS_init v n))"

definition CBS_copy_bytes :: "nat \<Rightarrow> (u8 list, CBS) step" where
  "CBS_copy_bytes n = and_then (cbs_get n) (\<lambda>v. ret (take n v))"

definition cbs_get_length_prefixed :: "nat \<Rightarrow> (CBS, CBS) step" where
  "cbs_get_length_prefixed len_len =
     and_then (cbs_get_u len_len) (\<lambda>len. CBS_get_bytes (unat len))"

definition CBS_get_u8_length_prefixed :: "(CBS, CBS) step" where
  "CBS_get_u8_length_prefixed = cbs_get_length_prefixed 1"

definition CBS_get_u16_length_prefixed :: "(CBS, CBS) step" where
  "CBS_get_u16_length_prefixed = cbs_get_length_prefixed 2"

definition CBS_get_u24_length_prefixed :: "(CBS, CBS) step" where
  "CBS_get_u24_length_prefixed = cbs_get_length_prefixed 3"


section \<open>Base-128 integers and ASN.1 tags\<close>

text \<open>
  The \<^verbatim>\<open>do \<dots> while\<close> loop of \<^verbatim>\<open>parse_base128_integer\<close>, with the accumulator \<open>v\<close> as its argument.
  It consumes a byte in each round, so it stops.
\<close>

function parse_base128_loop :: "u64 \<Rightarrow> (u64, CBS) step" where
  "parse_base128_loop v s =
     (case CBS_get_u8 s of
        (None, s') \<Rightarrow> (None, s')
      | (Some b, s') \<Rightarrow>
          if drop_bit (64 - 7) v \<noteq> 0 then (None, s')
          else if v = 0 \<and> b = 0x80 then (None, s')
          else let v' = push_bit 7 v OR ucast (b AND 0x7f)
               in if b AND 0x80 \<noteq> 0 then parse_base128_loop v' s' else (Some v', s'))"
  by pat_completeness auto
termination
  by (relation "measure (\<lambda>(v, s). cbs_len s)")
     (auto simp: CBS_get_u8_def cbs_get_def split: if_splits)

declare parse_base128_loop.simps [simp del]

definition parse_base128_integer :: "(u64, CBS) step" where
  "parse_base128_integer = parse_base128_loop 0"

definition CBS_ASN1_TAG_SHIFT :: nat where
  "CBS_ASN1_TAG_SHIFT = 24"

definition CBS_ASN1_CONSTRUCTED :: u32 where
  "CBS_ASN1_CONSTRUCTED = push_bit CBS_ASN1_TAG_SHIFT 0x20"

definition CBS_ASN1_TAG_NUMBER_MASK :: u32 where
  "CBS_ASN1_TAG_NUMBER_MASK = push_bit (5 + CBS_ASN1_TAG_SHIFT) 1 - 1"

lemma asn1_masks_code [code]:
  "CBS_ASN1_CONSTRUCTED = 0x20000000" "CBS_ASN1_TAG_NUMBER_MASK = 0x1fffffff"
  by (simp_all add: CBS_ASN1_CONSTRUCTED_def CBS_ASN1_TAG_NUMBER_MASK_def CBS_ASN1_TAG_SHIFT_def)

definition CBS_ASN1_BOOLEAN :: u32 where "CBS_ASN1_BOOLEAN = 0x1"
definition CBS_ASN1_INTEGER :: u32 where "CBS_ASN1_INTEGER = 0x2"
definition CBS_ASN1_OCTETSTRING :: u32 where "CBS_ASN1_OCTETSTRING = 0x4"

definition parse_asn1_tag :: "(u32, CBS) step" where
  "parse_asn1_tag =
     and_then CBS_get_u8 (\<lambda>tag_byte.
       let tag = push_bit CBS_ASN1_TAG_SHIFT (ucast tag_byte AND 0xe0);
           tag_number = ucast (tag_byte AND 0x1f)
       in if tag_number = 0x1f
          then and_then parse_base128_integer (\<lambda>v.
                 and_then (require (\<not> (v > ucast CBS_ASN1_TAG_NUMBER_MASK \<or> v < 0x1f)))
                   (\<lambda>_. ret (tag OR ucast v)))
          else ret (tag OR tag_number))"

section \<open>Elements\<close>

text \<open>
  \<^verbatim>\<open>cbs_get_any_asn1_element\<close> parses the header on a copy and moves \<^verbatim>\<open>cbs\<close> only by its last call;
  the results are \<^verbatim>\<open>out\<close>, \<^verbatim>\<open>out_tag\<close> and \<^verbatim>\<open>out_header_len\<close>.
\<close>

definition cbs_get_any_asn1_element :: "bool \<Rightarrow> (CBS \<times> u32 \<times> nat, CBS) step" where
  "cbs_get_any_asn1_element ber_ok cbs =
     (case parse_asn1_tag cbs of
        (None, _) \<Rightarrow> (None, cbs)
      | (Some tag, header1) \<Rightarrow>
     (case CBS_get_u8 header1 of
        (None, _) \<Rightarrow> (None, cbs)
      | (Some length_byte, header) \<Rightarrow>
          let header_len = CBS_len cbs - CBS_len header in
          if length_byte AND 0x80 = 0 then
            and_then (CBS_get_bytes (size_add (unat length_byte) header_len))
              (\<lambda>out. ret (out, tag, header_len)) cbs
          else
            let num_bytes = unat (length_byte AND 0x7f) in
            if ber_ok \<and> tag AND CBS_ASN1_CONSTRUCTED \<noteq> 0 \<and> num_bytes = 0 then
              and_then (CBS_get_bytes header_len) (\<lambda>out. ret (out, tag, header_len)) cbs
            else if num_bytes = 0 \<or> num_bytes > 4 then (None, cbs)
            else (case cbs_get_u num_bytes header of
                    (None, _) \<Rightarrow> (None, cbs)
                  | (Some len32, _) \<Rightarrow>
                      if len32 < 128 then (None, cbs)
                      else if drop_bit ((num_bytes - 1) * 8) len32 = 0 then (None, cbs)
                      else
                        let len = unat len32;
                            total = size_add (size_add len header_len) num_bytes
                        in if total < len then (None, cbs)
                           else and_then (CBS_get_bytes total)
                                  (\<lambda>out. ret (out, tag, header_len + num_bytes)) cbs)))"

definition CBS_get_any_asn1_element :: "(CBS \<times> u32 \<times> nat, CBS) step" where
  "CBS_get_any_asn1_element = cbs_get_any_asn1_element False"

definition CBS_get_any_ber_asn1_element :: "(CBS \<times> u32 \<times> nat, CBS) step" where
  "CBS_get_any_ber_asn1_element = cbs_get_any_asn1_element True"

text \<open>The \<^verbatim>\<open>assert(0)\<close> after a failed \<^verbatim>\<open>CBS_skip\<close> is the failure that follows it.\<close>

definition CBS_get_any_asn1 :: "(CBS \<times> u32, CBS) step" where
  "CBS_get_any_asn1 =
     and_then CBS_get_any_asn1_element (\<lambda>(out, tag, header_len).
       case CBS_skip header_len out of
         (None, _) \<Rightarrow> fail
       | (Some _, out') \<Rightarrow> ret (out', tag))"

definition cbs_get_asn1 :: "u32 \<Rightarrow> bool \<Rightarrow> (CBS, CBS) step" where
  "cbs_get_asn1 tag_value skip_header =
     and_then CBS_get_any_asn1_element (\<lambda>(out, tag, header_len).
       if tag \<noteq> tag_value then fail
       else if skip_header then
         (case CBS_skip header_len out of (None, _) \<Rightarrow> fail | (Some _, out') \<Rightarrow> ret out')
       else ret out)"

definition CBS_get_asn1 :: "u32 \<Rightarrow> (CBS, CBS) step" where
  "CBS_get_asn1 tag_value = cbs_get_asn1 tag_value True"

definition CBS_get_asn1_element :: "u32 \<Rightarrow> (CBS, CBS) step" where
  "CBS_get_asn1_element tag_value = cbs_get_asn1 tag_value False"

definition CBS_peek_asn1_tag :: "CBS \<Rightarrow> u32 \<Rightarrow> bool" where
  "CBS_peek_asn1_tag cbs tag_value =
     (if CBS_len cbs < 1 then False
      else case parse_asn1_tag cbs of
             (None, _) \<Rightarrow> False
           | (Some actual_tag, _) \<Rightarrow> tag_value = actual_tag)"


section \<open>INTEGER, BOOLEAN, optional elements, BIT STRING\<close>

fun asn1_uint64_loop :: "u64 \<Rightarrow> u8 list \<Rightarrow> u64 option" where
  "asn1_uint64_loop out [] = Some out"
| "asn1_uint64_loop out (b # bs) =
     (if drop_bit 56 out \<noteq> 0 then None
      else asn1_uint64_loop (push_bit 8 out OR ucast b) bs)"

definition CBS_get_asn1_uint64 :: "(u64, CBS) step" where
  "CBS_get_asn1_uint64 =
     and_then (CBS_get_asn1 CBS_ASN1_INTEGER) (\<lambda>bytes.
       let data = cbs_data bytes; len = CBS_len bytes
       in if len = 0 then fail
          else if data ! 0 AND 0x80 \<noteq> 0 then fail
          else if data ! 0 = 0 \<and> len > 1 \<and> data ! 1 AND 0x80 = 0 then fail
          else case asn1_uint64_loop 0 (take len data) of
                 None \<Rightarrow> fail
               | Some out \<Rightarrow> ret out)"

definition CBS_get_asn1_bool :: "(bool, CBS) step" where
  "CBS_get_asn1_bool =
     and_then (CBS_get_asn1 CBS_ASN1_BOOLEAN) (\<lambda>bytes.
       if CBS_len bytes \<noteq> 1 then fail
       else let val = cbs_data bytes ! 0
            in if val \<noteq> 0 \<and> val \<noteq> 0xff then fail else ret (val \<noteq> 0))"

text \<open>The result is \<^verbatim>\<open>out\<close> when the element is present and \<open>None\<close> when \<^verbatim>\<open>*out_present\<close> is 0.\<close>

definition CBS_get_optional_asn1 :: "u32 \<Rightarrow> (CBS option, CBS) step" where
  "CBS_get_optional_asn1 tag cbs =
     (if CBS_peek_asn1_tag cbs tag
      then and_then (CBS_get_asn1 tag) (\<lambda>out. ret (Some out)) cbs
      else ret None cbs)"

definition CBS_get_optional_asn1_octet_string :: "u32 \<Rightarrow> (CBS \<times> bool, CBS) step" where
  "CBS_get_optional_asn1_octet_string tag =
     and_then (CBS_get_optional_asn1 tag) (\<lambda>r.
       case r of
         Some child \<Rightarrow>
           (case CBS_get_asn1 CBS_ASN1_OCTETSTRING child of
              (None, _) \<Rightarrow> fail
            | (Some out, child') \<Rightarrow> if CBS_len child' \<noteq> 0 then fail else ret (out, True))
       | None \<Rightarrow> ret (CBS_init [] 0, False))"

definition CBS_get_optional_asn1_uint64 :: "u32 \<Rightarrow> u64 \<Rightarrow> (u64, CBS) step" where
  "CBS_get_optional_asn1_uint64 tag default_value =
     and_then (CBS_get_optional_asn1 tag) (\<lambda>r.
       case r of
         Some child \<Rightarrow>
           (case CBS_get_asn1_uint64 child of
              (None, _) \<Rightarrow> fail
            | (Some out, child') \<Rightarrow> if CBS_len child' \<noteq> 0 then fail else ret out)
       | None \<Rightarrow> ret default_value)"

definition CBS_get_optional_asn1_bool :: "u32 \<Rightarrow> int \<Rightarrow> (int, CBS) step" where
  "CBS_get_optional_asn1_bool tag default_value =
     and_then (CBS_get_optional_asn1 tag) (\<lambda>r.
       case r of
         Some child \<Rightarrow>
           (case CBS_get_asn1 CBS_ASN1_BOOLEAN child of
              (None, _) \<Rightarrow> fail
            | (Some child2, child') \<Rightarrow>
                if CBS_len child2 \<noteq> 1 \<or> CBS_len child' \<noteq> 0 then fail
                else let boolean = cbs_data child2 ! 0
                     in if boolean = 0 then ret 0
                        else if boolean = 0xff then ret 1
                        else fail)
       | None \<Rightarrow> ret default_value)"

definition CBS_is_valid_asn1_bitstring :: "CBS \<Rightarrow> bool" where
  "CBS_is_valid_asn1_bitstring cbs =
     (case CBS_get_u8 cbs of
        (None, _) \<Rightarrow> False
      | (Some num_unused_bits, inp) \<Rightarrow>
          if num_unused_bits > 7 then False
          else if num_unused_bits = 0 then True
          else case CBS_get_last_u8 inp of
                 (None, _) \<Rightarrow> False
               | (Some last_byte, _) \<Rightarrow> last_byte AND (push_bit (unat num_unused_bits) 1 - 1) = 0)"

definition CBS_asn1_bitstring_has_bit :: "CBS \<Rightarrow> u32 \<Rightarrow> bool" where
  "CBS_asn1_bitstring_has_bit cbs i =
     (if \<not> CBS_is_valid_asn1_bitstring cbs then False
      else let byte_num = drop_bit 3 i + 1;
               bit_num = 7 - (i AND 7)
           in unat byte_num < CBS_len cbs \<and>
              cbs_data cbs ! unat byte_num AND push_bit (unat bit_num) 1 \<noteq> 0)"

section \<open>Copies and comparison\<close>

text \<open>\<^verbatim>\<open>CBS_stow\<close> frees the caller's old block and returns the new one, or NULL for an empty window.\<close>

definition CBS_stow :: "CBS \<Rightarrow> u8 list option \<Rightarrow> (u8 list option, mem) step" where
  "CBS_stow cbs out_ptr m =
     (let m1 = OPENSSL_free out_ptr m
      in if CBS_len cbs = 0 then (Some None, m1)
         else and_then (BUF_memdup (cbs_data cbs) (CBS_len cbs)) (\<lambda>p. ret (Some p)) m1)"

definition CBS_strdup :: "CBS \<Rightarrow> u8 list option \<Rightarrow> (u8 list, mem) step" where
  "CBS_strdup cbs out_ptr m =
     BUF_strndup (Some (cbs_data cbs)) (CBS_len cbs) (OPENSSL_free out_ptr m)"

definition CBS_mem_equal :: "CBS \<Rightarrow> u8 list \<Rightarrow> nat \<Rightarrow> bool" where
  "CBS_mem_equal cbs data len =
     (if len \<noteq> CBS_len cbs then False else CRYPTO_memcmp (cbs_data cbs) data len = 0)"


section \<open>The primitives on windows\<close>

text \<open>
  Every operation that succeeds moves the reader by some number of bytes, \<open>advance n\<close>, and an
  output window is \<open>cbs_cut n\<close> of a reader; the primitives are restated over \<open>window\<close>.
\<close>

definition advance :: "nat \<Rightarrow> CBS \<Rightarrow> CBS" where
  "advance n s = s\<lparr>cbs_data := drop n (cbs_data s), cbs_len := cbs_len s - n\<rparr>"

lemma length_window: "cbs_ok s \<Longrightarrow> length (window s) = cbs_len s"
  by (simp add: cbs_ok_def window_def)

lemma window_advance [simp]: "window (advance n s) = drop n (window s)"
  by (simp add: window_def advance_def drop_take)

lemma cbs_ok_advance [simp]: "cbs_ok s \<Longrightarrow> cbs_ok (advance n s)"
  by (auto simp: cbs_ok_def advance_def)

lemma cbs_len_advance [simp]: "cbs_len (advance n s) = cbs_len s - n"
  by (simp add: advance_def)

lemma advance_advance [simp]: "advance n (advance m s) = advance (m + n) s"
  by (simp add: advance_def add.commute)

lemma advance_0 [simp]: "advance 0 s = s"
  by (simp add: advance_def)

lemma cbs_get_eq:
  "cbs_get n s = (if n \<le> cbs_len s then (Some (cbs_data s), advance n s) else (None, s))"
  by (auto simp: cbs_get_def advance_def)

lemma CBS_skip_eq:
  "CBS_skip n s = (if n \<le> cbs_len s then (Some (), advance n s) else (None, s))"
  by (simp add: CBS_skip_def and_then_def cbs_get_eq)

lemma cbs_get_u_eq:
  assumes "cbs_ok s"
  shows "cbs_get_u n s =
    (if n \<le> cbs_len s then (Some (be_word (take n (window s))), advance n s) else (None, s))"
  using assms by (simp add: cbs_get_u_def and_then_def cbs_get_eq window_def min_def)

lemma CBS_get_u8_eq:
  assumes "cbs_ok s"
  shows "CBS_get_u8 s =
    (case window s of [] \<Rightarrow> (None, s) | b # w \<Rightarrow> (Some b, advance 1 s))"
  using assms
  by (cases "cbs_len s"; cases "cbs_data s")
     (auto simp: CBS_get_u8_def and_then_def cbs_get_eq window_def cbs_ok_def)

lemma CBS_get_bytes_eq:
  "CBS_get_bytes n s =
    (if n \<le> cbs_len s then (Some \<lparr>cbs_data = cbs_data s, cbs_len = n\<rparr>, advance n s)
     else (None, s))"
  by (simp add: CBS_get_bytes_def CBS_init_def and_then_def cbs_get_eq)

text \<open>A window cut out of a good one is good and shows the first bytes of it.\<close>

definition cbs_cut :: "nat \<Rightarrow> CBS \<Rightarrow> CBS" where
  "cbs_cut n s = \<lparr>cbs_data = cbs_data s, cbs_len = n\<rparr>"

lemma cbs_ok_cbs_cut [simp]: "cbs_ok s \<Longrightarrow> n \<le> cbs_len s \<Longrightarrow> cbs_ok (cbs_cut n s)"
  by (auto simp: cbs_ok_def cbs_cut_def)

lemma window_cbs_cut [simp]: "n \<le> cbs_len s \<Longrightarrow> window (cbs_cut n s) = take n (window s)"
  by (simp add: window_def cbs_cut_def)

lemma cbs_len_cbs_cut [simp]: "cbs_len (cbs_cut n s) = n"
  by (simp add: cbs_cut_def)


section \<open>Base-128 integers: exactly the minimal encodings are accepted\<close>

lemma shift7:
  assumes "drop_bit (64 - 7) v = (0 :: u64)"
  shows "unat (push_bit 7 v OR ucast (b AND (0x7f :: u8))) = 128 * unat v + unat b mod 128"
proof -
  have v: "unat v < 2 ^ 57" using assms by (simp add: drop_bit_0_iff)
  have "push_bit 7 v OR ucast (b AND 0x7f) = push_bit 7 (word_of_nat (unat v)) OR word_of_nat (unat b mod 128)"
    by (simp add: unsigned_ucast_eq flip: u8_low7)
  also have "\<dots> = word_of_nat (2 ^ 7 * unat v + unat b mod 128)"
    by (rule push_or) simp
  finally have eq: "push_bit 7 v OR ucast (b AND 0x7f) = word_of_nat (128 * unat v + unat b mod 128)"
    by simp
  have "unat b mod 128 < 128" by simp
  then have "128 * unat v + unat b mod 128 < 2 ^ 64" using v by simp
  then show ?thesis unfolding eq by (simp only: unat_of_nat) simp
qed

lemma base128_loop_Cons:
  assumes "cbs_ok s" and "window s = b # w"
  shows "parse_base128_loop v s =
     (if drop_bit (64 - 7) v \<noteq> 0 \<or> v = 0 \<and> b = 0x80 then (None, advance 1 s)
      else let v' = push_bit 7 v OR ucast (b AND 0x7f)
           in if b AND 0x80 \<noteq> 0 then parse_base128_loop v' (advance 1 s)
              else (Some v', advance 1 s))"
  using assms by (subst parse_base128_loop.simps) (auto simp: CBS_get_u8_eq Let_def)

lemma base128_loop_Nil:
  "cbs_ok s \<Longrightarrow> window s = [] \<Longrightarrow> parse_base128_loop v s = (None, s)"
  by (subst parse_base128_loop.simps) (simp add: CBS_get_u8_eq)

lemma base128_loop_sound:
  assumes "cbs_ok s" and "parse_base128_loop v s = (Some r, s')"
  shows "\<exists>bs w. window s = bs @ w \<and> s' = advance (length bs) s \<and>
    b128_hi (unat v) @ bs = b128 (unat r)"
  using assms
proof (induction "window s" arbitrary: v s)
  case Nil
  then show ?case by (simp add: base128_loop_Nil)
next
  case (Cons b w)
  let ?v = "push_bit 7 v OR ucast (b AND 0x7f) :: u64"
  note step = base128_loop_Cons [OF Cons.prems(1) Cons.hyps(2) [symmetric], of v]
  from Cons.prems(2) have d: "drop_bit (64 - 7) v = 0" and nz: "\<not> (v = 0 \<and> b = 0x80)"
    and c: "if b AND 0x80 \<noteq> 0 then parse_base128_loop ?v (advance 1 s) = (Some r, s')
            else r = ?v \<and> s' = advance 1 s"
    unfolding step by (auto simp: Let_def split: if_splits)
  have v': "unat ?v = 128 * unat v + unat b mod 128" by (rule shift7 [OF d])
  show ?case
  proof (cases "b AND 0x80 = 0")
    case True
    then have b: "unat b < 128" by (simp add: u8_high_bit)
    with c True v' have "b128 (unat r) = b128_hi (unat v) @ [b]"
      by (simp add: b128_def)
    with c True Cons.hyps(2) [symmetric] show ?thesis
      by - (rule exI [of _ "[b]"], rule exI [of _ w], simp)
  next
    case False
    with c have "parse_base128_loop ?v (advance 1 s) = (Some r, s')" by simp
    moreover have "w = window (advance 1 s)" using Cons.hyps(2) [symmetric] by simp
    ultimately obtain bs w' where
      bs: "w = bs @ w'" "s' = advance (length bs) (advance 1 s)"
        "b128_hi (unat ?v) @ bs = b128 (unat r)"
      using Cons.hyps(1) [of "advance 1 s" ?v] Cons.prems(1) by auto
    have "b128_hi (unat ?v) = b128_hi (unat v) @ [b]"
      unfolding v' using False nz by (intro b128_hi_snoc) (auto simp: unat_eq_zero)
    with bs Cons.hyps(2) [symmetric] show ?thesis
      by - (rule exI [of _ "b # bs"], rule exI [of _ w'], simp)
  qed
qed

lemma base128_loop_complete:
  assumes "cbs_ok s" and "window s = b128_low (Suc k) n @ w" and "n < 2 ^ 64"
    and "unat v = n div 128 ^ Suc k" and "n div 128 ^ Suc k = 0 \<longrightarrow> k = 0 \<or> n div 128 ^ k \<noteq> 0"
  shows "parse_base128_loop v s = (Some (word_of_nat n), advance (Suc k) s)"
  using assms
proof (induction k arbitrary: v s)
  case (0 v s)
  let ?b = "word_of_nat (n mod 128) :: u8"
  have b: "unat ?b = n mod 128" by (simp add: unat_of_nat)
  have "n div 128 < 2 ^ 57" using "0.prems"(3) by (simp add: div_less_iff_less_mult)
  then have d: "drop_bit (64 - 7) v = 0" using "0.prems"(4) by (simp add: drop_bit_0_iff)
  have w: "window s = ?b # w" using "0.prems"(2) by (simp add: b128_low_def)
  have hb: "?b AND 0x80 = 0" "?b \<noteq> 0x80" using b by (auto simp: u8_high_bit)
  have "unat (push_bit 7 v OR ucast (?b AND 0x7f)) = n"
    unfolding shift7 [OF d] using "0.prems"(4) b by simp
  then have "push_bit 7 v OR ucast (?b AND 0x7f) = word_of_nat n"
    by (rule unat_eqD)
  with d hb show ?case
    by (simp add: base128_loop_Cons [OF "0.prems"(1) w])
next
  case (Suc k v s)
  let ?m = "n div 128 ^ Suc k"
  let ?b = "word_of_nat (?m mod 128) OR 0x80 :: u8"
  have b: "unat ?b = 128 + ?m mod 128" by (rule u8_cont_byte) simp
  have m: "?m div 128 = n div 128 ^ Suc (Suc k)"
    by (simp only: power_Suc2 [of 128 "Suc k"] div_mult2_eq)
  have "n div 128 ^ Suc (Suc k) \<le> n div 128"
    by (rule div_le_mono2) (simp, rule self_le_power, simp_all)
  also have "\<dots> < 2 ^ 57" using Suc.prems(3) by (simp add: div_less_iff_less_mult)
  finally have d: "drop_bit (64 - 7) v = 0" using Suc.prems(4) by (simp add: drop_bit_0_iff)
  have w: "window s = ?b # b128_low (Suc k) n @ w" using Suc.prems(2) by (simp add: b128_low_Suc)
  have hb: "?b AND 0x80 \<noteq> 0" using b by (simp add: u8_high_bit)
  have nz: "?m \<noteq> 0"
    using Suc.prems(5) m by auto
  have "\<not> (v = 0 \<and> ?b = 0x80)"
  proof
    assume "v = 0 \<and> ?b = 0x80"
    then have "?m div 128 = 0" "?m mod 128 = 0" using Suc.prems(4) m b by auto
    with nz show False by (metis mult_div_mod_eq add_0 mult_0_right)
  qed
  moreover have vm: "unat v = ?m div 128" by (simp only: Suc.prems(4) m)
  have recomb: "128 * (x div 128) + (128 + x mod 128) mod 128 = x" for x :: nat by simp
  have "unat (push_bit 7 v OR ucast (?b AND 0x7f)) = ?m"
    unfolding shift7 [OF d] b by (simp only: vm recomb)
  then have "parse_base128_loop (push_bit 7 v OR ucast (?b AND 0x7f)) (advance 1 s) =
      (Some (word_of_nat n), advance (Suc k) (advance 1 s))"
    using Suc.prems w nz by (intro Suc.IH) auto
  ultimately show ?case using d hb
    by (simp add: base128_loop_Cons [OF Suc.prems(1) w] Let_def)
qed

section \<open>Tags: exactly the minimal encodings are accepted\<close>

lemma tag_number_mask: "CBS_ASN1_TAG_NUMBER_MASK = mask 29"
  by (simp add: CBS_ASN1_TAG_NUMBER_MASK_def CBS_ASN1_TAG_SHIFT_def mask_eq_exp_minus_1)

lemma tag_number_range:
  "v > ucast CBS_ASN1_TAG_NUMBER_MASK \<or> v < 0x1f \<longleftrightarrow> \<not> (31 \<le> unat v \<and> unat v < 2 ^ 29)"
  for v :: u64
  by (simp add: tag_number_mask mask_eq_exp_minus_1 word_less_nat_alt) linarith

lemma ucast_1f_iff: "ucast (b AND 0x1f :: u8) = (0x1f :: u32) \<longleftrightarrow> b AND 0x1f = 0x1f"
proof -
  have "ucast (b AND 0x1f) = (0x1f :: u32) \<longleftrightarrow> unat (ucast (b AND 0x1f :: u8) :: u32) = 31"
    by (simp add: word_unat_eq_iff)
  also have "\<dots> \<longleftrightarrow> unat (b AND 0x1f) = 31"
    by (simp add: unat_ucast_u8)
  finally show ?thesis by (simp add: word_unat_eq_iff)
qed

lemma parse_asn1_tag_sound:
  assumes "cbs_ok s" and "parse_asn1_tag s = (Some tag, s')"
  shows "\<exists>w. window s = der_tag tag @ w \<and> s' = advance (length (der_tag tag)) s"
proof -
  from assms obtain b w where w: "window s = b # w"
    and g: "CBS_get_u8 s = (Some b, advance 1 s)"
    by (auto simp: parse_asn1_tag_def CBS_get_u8_eq split: list.splits)
  let ?cls = "push_bit 24 (ucast b AND 0xe0) :: u32"
  show ?thesis
  proof (cases "b AND 0x1f = 0x1f")
    case True
    with assms(2) g obtain v where
      p: "parse_base128_integer (advance 1 s) = (Some v, s')"
      and v: "31 \<le> unat v" "unat v < 2 ^ 29" and tag: "tag = ?cls OR ucast v"
      by (auto simp: parse_asn1_tag_def Let_def ucast_1f_iff CBS_ASN1_TAG_SHIFT_def tag_number_range
          simp del: One_nat_def)
    from p base128_loop_sound [of "advance 1 s" 0 v s'] assms(1) obtain w' where
      w': "drop 1 (window s) = b128 (unat v) @ w'" "s' = advance (length (b128 (unat v))) (advance 1 s)"
      by (auto simp: parse_base128_integer_def)
    have tagn: "tag = ?cls OR word_of_nat (unat v)" by (simp add: tag unsigned_ucast_eq)
    have "unat (tag AND mask 29) = unat v"
      unfolding tagn tag_number [OF v(2)] using v(2) by (simp add: unat_of_nat unat_ucast_small)
    moreover have "ucast (drop_bit 24 tag) AND 0xe0 = b AND 0xe0"
      unfolding tagn by (rule tag_class [OF v(2)])
    ultimately have "der_tag tag = b # b128 (unat v)"
      using v(1) True tag_byte_recombine [of b] by (simp add: der_tag_def Let_def)
    with w w' show ?thesis by (intro exI [of _ w']) simp
  next
    case False
    let ?n = "unat (b AND 0x1f)"
    have n: "?n < 32"
    proof -
      have "unat (b AND mask 5) < 2 ^ 5"
        by (simp only: take_bit_eq_mask [symmetric] unsigned_take_bit_eq take_bit_nat_less_exp)
      then show ?thesis by (simp add: x1f_bits)
    qed
    have "?n \<noteq> 31" using False by (simp add: word_unat_eq_iff)
    with n have n31: "?n < 31" by simp
    from False assms(2) g have tag: "tag = ?cls OR ucast (b AND 0x1f)" and s': "s' = advance 1 s"
      by (auto simp: parse_asn1_tag_def Let_def ucast_1f_iff CBS_ASN1_TAG_SHIFT_def)
    have n29: "?n < 2 ^ 29" using n by simp
    have tagn: "tag = ?cls OR word_of_nat ?n" by (simp add: tag unsigned_ucast_eq)
    have "unat (tag AND mask 29) = ?n"
      unfolding tagn tag_number [OF n29] using n by (simp add: unat_of_nat unat_ucast_u8)
    moreover have "ucast (drop_bit 24 tag) AND 0xe0 = b AND 0xe0"
      unfolding tagn by (rule tag_class [OF n29])
    ultimately have "der_tag tag = [b]"
      using n31 tag_byte_recombine [of b] by (simp add: der_tag_def Let_def)
    with w s' show ?thesis by simp
  qed
qed

lemma parse_base128_integer_complete:
  assumes "cbs_ok s" and "window s = b128 n @ w" and "n < 2 ^ 64"
  shows "parse_base128_integer s = (Some (word_of_nat n), advance (length (b128 n)) s)"
proof -
  let ?k = "b128_digits (n div 128)"
  have len: "length (b128 n) = Suc ?k" by (simp add: b128_eq_low b128_low_def)
  have "n div 128 < 128 ^ ?k" using b128_digits_bounds by blast
  then have top: "n div 128 ^ Suc ?k = 0" by (simp add: div_mult2_eq)
  have "?k = 0 \<or> n div 128 ^ ?k \<noteq> 0"
  proof (cases "n div 128 = 0")
    case False
    then have "128 ^ (?k - 1) \<le> n div 128" using b128_digits_bounds by blast
    then have "128 ^ Suc (?k - 1) \<le> n" by (simp add: le_div_geq)
    moreover have "Suc (?k - 1) = ?k" using False by (simp add: b128_digits_step)
    ultimately have "128 ^ ?k \<le> n" by simp
    then show ?thesis by (simp add: div_eq_0_iff)
  qed simp
  moreover have "window s = b128_low (Suc ?k) n @ w" by (simp add: assms(2) flip: b128_eq_low)
  ultimately show ?thesis
    using base128_loop_complete [OF assms(1) _ assms(3), of ?k w 0] top
    by (simp add: parse_base128_integer_def len)
qed

lemma parse_asn1_tag_complete:
  assumes "cbs_ok s" and "window s = der_tag tag @ w"
  shows "parse_asn1_tag s = (Some tag, advance (length (der_tag tag)) s)"
proof -
  let ?c = "ucast (drop_bit 24 tag) AND 0xe0 :: u8"
  define n where "n = unat (tag AND mask 29)"
  have n29: "n < 2 ^ 29" unfolding n_def by (rule unat_mask_less)
  have tag: "push_bit 24 (ucast ?c AND 0xe0) OR word_of_nat n = tag"
    using tag_recombine [of tag] by (simp add: n_def)
  have d: "der_tag tag = (if 31 \<le> n then (?c OR 0x1f) # b128 n else [?c OR word_of_nat n])"
    unfolding der_tag_def Let_def n_def ..
  show ?thesis
  proof (cases "31 \<le> n")
    case True
    define b where "b = ?c OR 0x1f"
    have d': "der_tag tag = b # b128 n" using d True by (simp add: b_def)
    have b: "b AND 0x1f = 0x1f" "b AND 0xe0 = ?c"
      using tag_byte_low [of 31 "ucast (drop_bit 24 tag)"] by (simp_all add: b_def)
    have g: "CBS_get_u8 s = (Some b, advance 1 s)"
      using assms d' by (simp add: CBS_get_u8_eq)
    have p: "parse_base128_integer (advance 1 s) =
        (Some (word_of_nat n), advance (length (b128 n)) (advance 1 s))"
      using assms d' n29 by (intro parse_base128_integer_complete [where w = w]) auto
    have v: "unat (word_of_nat n :: u64) = n" using n29 by (simp add: unat_of_nat)
    have nn: "ucast (word_of_nat n :: u64) = (word_of_nat n :: u32)"
      using n29 by (simp add: word_unat_eq_iff unat_of_nat unat_ucast_small)
    have ps: "push_bit 24 (ucast b AND 0xe0) OR word_of_nat n = tag"
      by (subst tag [symmetric]) (simp only: ucast_and_e0 b(2) and.right_idem)
    show ?thesis
      using g p v True n29 ps b(1) d'
      by (simp add: parse_asn1_tag_def Let_def ucast_1f_iff CBS_ASN1_TAG_SHIFT_def
          tag_number_range nn)
  next
    case False
    define b where "b = (?c OR word_of_nat n :: u8)"
    have d': "der_tag tag = [b]" using d False by (simp add: b_def)
    have b: "b AND 0x1f = word_of_nat n" "b AND 0xe0 = ?c"
      using tag_byte_low [of n "ucast (drop_bit 24 tag)"] False by (simp_all add: b_def)
    have n8: "unat (word_of_nat n :: u8) = n" using False by (simp add: unat_of_nat)
    have g: "CBS_get_u8 s = (Some b, advance 1 s)"
      using assms d' by (simp add: CBS_get_u8_eq)
    have nz: "word_of_nat n \<noteq> (0x1f :: u8)"
      using n8 False by (auto simp: word_unat_eq_iff)
    have u: "ucast (word_of_nat n :: u8) = (word_of_nat n :: u32)"
      using False by (simp add: word_unat_eq_iff unat_ucast_u8 unat_of_nat)
    have ps: "push_bit 24 (ucast b AND 0xe0) OR word_of_nat n = tag"
      by (subst tag [symmetric]) (simp only: ucast_and_e0 b(2) and.right_idem)
    show ?thesis
      using g b(1) ps d' nz u
      by (simp add: parse_asn1_tag_def Let_def ucast_1f_iff CBS_ASN1_TAG_SHIFT_def)
  qed
qed


section \<open>Elements: the DER reader accepts exactly the DER encodings\<close>

text \<open>
  \<open>der_element_sound\<close> and \<open>der_element_complete\<close> together: \<^verbatim>\<open>cbs_get_any_asn1_element\<close> in DER mode
  succeeds if and only if the window starts with \<open>der_element tag c\<close> for some contents shorter
  than \<open>2 ^ 32\<close>, and then it cuts exactly that element off.
\<close>

lemma element_total:
  assumes "len < 2 ^ 32" and "header_len < 2 ^ 63" and "n \<le> 4"
  shows "size_add (size_add len header_len) n = len + header_len + n"
  using assms by (simp add: size_add_def)

lemma der_element_sound:
  assumes ok: "cbs_ok s" and p: "cbs_get_any_asn1_element False s = (Some (out, tag, hl), s')"
  shows "\<exists>c w. window s = der_element tag c @ w \<and> length c < 2 ^ 32 \<and>
    hl = length (der_header tag (length c)) \<and> out = cbs_cut (hl + length c) s \<and>
    s' = advance (hl + length c) s"
proof -
  from p obtain h1 where t: "parse_asn1_tag s = (Some tag, h1)"
    by (auto simp: cbs_get_any_asn1_element_def Let_def split: prod.splits option.splits if_splits)
  let ?t = "length (der_tag tag)"
  from parse_asn1_tag_sound [OF ok t] obtain w1 where
    w1: "window s = der_tag tag @ w1" and h1: "h1 = advance ?t s" by blast
  from p t have "CBS_get_u8 h1 \<noteq> (None, h1)"
    by (auto simp: cbs_get_any_asn1_element_def)
  with w1 h1 ok obtain lb w2 where w2: "w1 = lb # w2" and g: "CBS_get_u8 h1 = (Some lb, advance (Suc ?t) s)"
    by (cases w1) (auto simp: CBS_get_u8_eq)
  have len: "Suc ?t + length w2 = cbs_len s"
    using length_window [OF ok] w1 w2 by simp
  have big: "cbs_len s < 2 ^ 63" using ok by (simp add: cbs_ok_def)
  show ?thesis
  proof (cases "lb AND 0x80 = 0")
    case True
    then have lb: "unat lb < 128" by (simp add: u8_high_bit)
    have sa: "size_add (unat lb) (Suc ?t) = unat lb + Suc ?t"
      using lb len big by (simp add: size_add_def)
    with p t g True len have le: "unat lb \<le> length w2" and res: "hl = Suc ?t" "out = cbs_cut (hl + unat lb) s" "s' = advance (hl + unat lb) s"
      by (auto simp: cbs_get_any_asn1_element_def CBS_len_def Let_def CBS_get_bytes_eq cbs_cut_def add.commute split: if_splits)
    let ?c = "take (unat lb) w2"
    have c: "length ?c = unat lb" using le by simp
    have "der_length (length ?c) = [lb]" unfolding c der_length_def using lb by simp
    with w1 w2 res c lb show ?thesis
      by - (rule exI [of _ ?c], rule exI [of _ "drop (unat lb) w2"], simp add: der_element_def der_header_def)
  next
    case False
    let ?n = "unat (lb AND 0x7f)"
    from p t g False len obtain len32 h2 where
      n: "?n \<noteq> 0" "?n \<le> 4" and u: "cbs_get_u ?n (advance (Suc ?t) s) = (Some len32, h2)"
      and l: "\<not> len32 < 128" "drop_bit ((?n - 1) * 8) len32 \<noteq> 0"
      and r: "and_then (CBS_get_bytes (size_add (size_add (unat len32) (Suc ?t)) ?n))
                (\<lambda>out. ret (out, tag, Suc ?t + ?n)) s = (Some (out, tag, hl), s')"
      by (auto simp: cbs_get_any_asn1_element_def CBS_len_def Let_def not_le
          split: prod.splits option.splits if_splits)
    let ?bs = "take ?n w2"
    have ok1: "cbs_ok (advance (Suc ?t) s)" using ok by simp
    have nl: "?n \<le> length w2" and l32: "len32 = be_word ?bs"
      using u len w1 w2 by (auto simp: cbs_get_u_eq [OF ok1] split: if_splits)
    have bs: "length ?bs = ?n" using nl by simp
    let ?L = "be_nat ?bs"
    have L: "unat len32 = ?L" using bs n l32 by (simp add: be_word_u32)
    have Lr: "128 \<le> ?L" using l(1) L by (simp add: word_less_nat_alt)
    have Lup: "?L < 256 ^ ?n" using be_nat_less [of ?bs] bs by simp
    have p256: "2 ^ ((?n - 1) * 8) = (256 :: nat) ^ (?n - 1)"
      by (simp add: power_mult mult.commute [of _ 8])
    have Llow: "256 ^ (?n - 1) \<le> ?L"
      using l(2) L unfolding drop_bit_0_iff p256 by simp
    have dig: "byte_digits ?L = ?n"
      using byte_digits_unique [of ?L "?n - 1"] Lup Llow n(1) by simp
    have L32: "?L < 2 ^ 32"
      using be_nat_less [of ?bs] bs n power_increasing [of ?n 4 "256 :: nat"] by simp
    have tot: "size_add (size_add ?L (Suc ?t)) ?n = ?L + Suc ?t + ?n"
      using L32 len big n by (intro element_total) auto
    from r have le: "?L + ?n \<le> length w2" and res: "hl = Suc ?t + ?n" "out = cbs_cut (hl + ?L) s"
      "s' = advance (hl + ?L) s"
      using len unfolding L tot by (auto simp: CBS_get_bytes_eq cbs_cut_def add_ac split: if_splits)
    let ?c = "take ?L (drop ?n w2)"
    have c: "length ?c = ?L" using le by simp
    have "lb = word_of_nat (128 + ?n)"
      using u8_low7_or [of lb] False by (intro unat_eqD) simp
    moreover have "be_bytes ?n ?L = ?bs" using be_bytes_be_nat [of ?bs] bs by simp
    ultimately have dl: "der_length (length ?c) = lb # ?bs"
      unfolding c der_length_def dig using Lr by simp
    have "?bs @ ?c @ drop (?n + ?L) w2 = w2"
      by (rule take_take_drop)
    then have "window s = der_element tag ?c @ drop (?n + ?L) w2"
      unfolding der_element_def der_header_def dl w1 w2 by (simp only: append_assoc append_Cons)
    moreover have "hl = length (der_header tag (length ?c))"
      unfolding der_header_def dl res(1) using bs by simp
    ultimately show ?thesis using res L32 c by (metis (no_types))
  qed
qed
lemma der_element_complete:
  assumes ok: "cbs_ok s" and w: "window s = der_element tag c @ w" and c32: "length c < 2 ^ 32"
  defines "hl \<equiv> length (der_header tag (length c))"
  shows "cbs_get_any_asn1_element False s =
    (Some (cbs_cut (hl + length c) s, tag, hl), advance (hl + length c) s)"
proof -
  let ?t = "length (der_tag tag)" and ?L = "length c"
  have ws: "window s = der_tag tag @ der_length ?L @ c @ w"
    using w by (simp add: der_element_def der_header_def)
  have t: "parse_asn1_tag s = (Some tag, advance ?t s)"
    by (rule parse_asn1_tag_complete [OF ok ws])
  have ok1: "cbs_ok (advance ?t s)" using ok by simp
  have len: "cbs_len s = hl + ?L + length w"
    using length_window [OF ok] w by (simp add: hl_def der_element_def)
  have big: "cbs_len s < 2 ^ 63" using ok by (simp add: cbs_ok_def)
  show ?thesis
  proof (cases "?L < 128")
    case True
    let ?lb = "word_of_nat ?L :: u8"
    have dl: "der_length ?L = [?lb]" using True by (simp add: der_length_def)
    have lb: "unat ?lb = ?L" using True by (simp add: unat_of_nat)
    have g: "CBS_get_u8 (advance ?t s) = (Some ?lb, advance (Suc ?t) s)"
      using ws dl by (simp add: CBS_get_u8_eq [OF ok1])
    have hl: "hl = Suc ?t" by (simp add: hl_def der_header_def dl)
    have hb: "?lb AND 0x80 = 0" using lb True by (simp add: u8_high_bit)
    have "size_add ?L (Suc ?t) = hl + ?L"
      using True len big hl by (simp add: size_add_def)
    moreover have "cbs_len s - (cbs_len s - Suc ?t) = Suc ?t" using len hl by simp
    ultimately show ?thesis using t g hb lb hl len
      by (simp add: cbs_get_any_asn1_element_def CBS_len_def CBS_get_bytes_eq cbs_cut_def)
  next
    case False
    let ?n = "byte_digits ?L"
    let ?lb = "word_of_nat (128 + ?n) :: u8"
    let ?bs = "be_bytes ?n ?L"
    have "0 < ?L" using False by linarith
    then have n: "1 \<le> ?n \<and> ?n \<le> 4" by (rule byte_digits_u32 [OF c32])
    have dl: "der_length ?L = ?lb # ?bs" using False by (simp add: der_length_def)
    have lbn: "unat ?lb = 128 + ?n" using n by (simp only: unat_of_nat) simp
    have g: "CBS_get_u8 (advance ?t s) = (Some ?lb, advance (Suc ?t) s)"
      using ws dl by (simp add: CBS_get_u8_eq [OF ok1] del: of_nat_add)
    have hb: "?lb AND 0x80 \<noteq> 0" using lbn by (simp add: u8_high_bit del: of_nat_add)
    have nb: "unat (?lb AND 0x7f) = ?n" using n by (simp add: u8_low7 lbn del: of_nat_add)
    have hl: "hl = Suc ?t + ?n" by (simp add: hl_def der_header_def dl)
    have win: "take ?n (drop (Suc ?t) (window s)) = ?bs"
      unfolding ws dl by simp
    have u: "cbs_get_u ?n (advance (Suc ?t) s) = (Some (be_word ?bs), advance (Suc ?t + ?n) s)"
      using win ok len hl by (simp add: cbs_get_u_eq)
    have "be_nat ?bs = ?L" using byte_digits_upper [of ?L] by (simp add: be_nat_be_bytes)
    then have L: "unat (be_word ?bs :: u32) = ?L" using n by (simp add: be_word_u32)
    have l1: "\<not> (be_word ?bs :: u32) < 128" using L False by (simp add: word_less_nat_alt)
    have p256: "2 ^ ((?n - 1) * 8) = (256 :: nat) ^ (?n - 1)"
      by (simp add: power_mult mult.commute [of _ 8])
    have l2: "drop_bit ((?n - 1) * 8) (be_word ?bs :: u32) \<noteq> 0"
      unfolding drop_bit_0_iff L p256 using byte_digits_lower [OF \<open>0 < ?L\<close>] by simp
    have tot: "size_add (size_add ?L (Suc ?t)) ?n = hl + ?L"
      using element_total [OF c32, of "Suc ?t" ?n] len big n hl by simp
    have sub: "cbs_len s - (cbs_len s - Suc ?t) = Suc ?t" using len hl by simp
    show ?thesis
      unfolding cbs_get_any_asn1_element_def t prod.case option.case g CBS_len_def cbs_len_advance sub
        Let_def if_not_P [OF hb] nb u L tot
      using n l1 l2 len hl by (simp add: CBS_get_bytes_eq cbs_cut_def)
  qed
qed

text \<open>The typed readers: \<open>CBS_get_asn1\<close> succeeds exactly on an element of its tag.\<close>

lemma CBS_get_asn1_complete:
  assumes "cbs_ok s" and "window s = der_element tag c @ w" and "length c < 2 ^ 32"
  defines "hl \<equiv> length (der_header tag (length c))"
  shows "CBS_get_asn1 tag s = (Some (advance hl (cbs_cut (hl + length c) s)), advance (hl + length c) s)"
  using der_element_complete [OF assms(1-3)]
  by (simp add: CBS_get_asn1_def cbs_get_asn1_def CBS_get_any_asn1_element_def hl_def CBS_skip_eq)

lemma CBS_get_asn1_sound:
  assumes "cbs_ok s" and "CBS_get_asn1 tag s = (Some out, s')"
  shows "\<exists>c w. window s = der_element tag c @ w \<and> window out = c \<and> window s' = w \<and>
    cbs_ok out \<and> cbs_ok s' \<and> length c < 2 ^ 32"
proof -
  from assms(2) obtain out1 hl where
    e: "cbs_get_any_asn1_element False s = (Some (out1, tag, hl), s')"
    and "out = advance hl out1"
    by (auto simp: CBS_get_asn1_def cbs_get_asn1_def CBS_get_any_asn1_element_def CBS_skip_eq
        split: if_splits)
  from der_element_sound [OF assms(1) e] obtain c w where
    w: "window s = der_element tag c @ w" and c: "length c < 2 ^ 32"
    and hl: "hl = length (der_header tag (length c))"
    and o1: "out1 = cbs_cut (hl + length c) s" and s': "s' = advance (hl + length c) s"
    by blast
  have le: "hl + length c \<le> cbs_len s"
    using length_window [OF assms(1)] w hl by (simp add: der_element_def)
  with \<open>out = advance hl out1\<close> o1 s' w hl assms(1) c show ?thesis
    by (auto simp: der_element_def)
qed

section \<open>Unsigned INTEGERs: exactly the minimal encodings below $2^{64}$ are accepted\<close>

lemma asn1_uint64_loop_eq:
  "asn1_uint64_loop a bs =
     (if unat a * 256 ^ length bs + be_nat bs < 2 ^ 64
      then Some (word_of_nat (unat a * 256 ^ length bs + be_nat bs)) else None)"
proof (induction bs arbitrary: a)
  case Nil
  then show ?case using unsigned_less [of a] by simp
next
  case (Cons b bs)
  let ?n = "unat a * 256 ^ length (b # bs) + be_nat (b # bs)"
  have n: "?n = (256 * unat a + unat b) * 256 ^ length bs + be_nat bs"
    by (simp add: be_nat_Cons algebra_simps)
  show ?case
  proof (cases "unat a < 2 ^ 56")
    case False
    then have "2 ^ 64 \<le> unat a * 256" by simp
    also have "\<dots> \<le> unat a * 256 * 256 ^ length bs" by simp
    also have "\<dots> \<le> ?n" by (simp add: mult.assoc)
    finally show ?thesis using False by (simp add: drop_bit_0_iff)
  next
    case True
    have "push_bit 8 a OR ucast b = word_of_nat (256 * unat a + unat b)"
      using shift_in_byte [of "unat a" b, where 'a = 64] by simp
    moreover have "256 * unat a + unat b < 2 ^ 64"
    proof -
      have "unat a + 1 \<le> 72057594037927936" using True by simp
      with unat_u8_less [of b] have "256 * unat a + unat b < 18446744073709551616" by linarith
      then show ?thesis by simp
    qed
    ultimately have "unat (push_bit 8 a OR ucast b) = 256 * unat a + unat b"
      by (simp only: unat_of_nat) simp
    then have IH: "asn1_uint64_loop (push_bit 8 a OR ucast b) bs =
        (if ?n < 2 ^ 64 then Some (word_of_nat ?n) else None)"
      unfolding Cons.IH n by simp
    show ?thesis using True by (simp only: asn1_uint64_loop.simps IH drop_bit_0_iff) simp
  qed
qed

lemma CBS_get_asn1_uint64_sound:
  assumes "cbs_ok s" and "CBS_get_asn1_uint64 s = (Some v, s')"
  shows "\<exists>w. window s = der_element CBS_ASN1_INTEGER (der_uint (unat v)) @ w \<and> window s' = w"
proof -
  from assms(2) obtain bytes where
    g: "CBS_get_asn1 CBS_ASN1_INTEGER s = (Some bytes, s')"
    and l: "cbs_len bytes \<noteq> 0" and d0: "cbs_data bytes ! 0 AND 0x80 = 0"
    and d1: "\<not> (cbs_data bytes ! 0 = 0 \<and> cbs_len bytes > 1 \<and> cbs_data bytes ! 1 AND 0x80 = 0)"
    and lp: "asn1_uint64_loop 0 (take (cbs_len bytes) (cbs_data bytes)) = Some v"
    by (auto simp: CBS_get_asn1_uint64_def CBS_len_def Let_def split: if_splits option.splits)
  from CBS_get_asn1_sound [OF assms(1) g] obtain c w where
    w: "window s = der_element CBS_ASN1_INTEGER c @ w" "window bytes = c" "window s' = w" and ok: "cbs_ok bytes"
    by blast
  have len: "length c = cbs_len bytes" using length_window [OF ok] w(2) by simp
  have nth: "i < cbs_len bytes \<Longrightarrow> cbs_data bytes ! i = c ! i" for i
    using w(2) by (auto simp: window_def)
  have "uint_contents_ok c"
    using l d0 d1 len nth [of 0] nth [of 1] by (auto simp: uint_contents_ok_def u8_high_bit)
  moreover have "be_nat c < 2 ^ 64 \<and> v = word_of_nat (be_nat c)"
    using lp w(2) unfolding asn1_uint64_loop_eq by (simp add: window_def split: if_splits)
  then have "unat v = be_nat c" by (simp add: unat_of_nat)
  ultimately have "der_uint (unat v) = c" by (simp add: der_uint_unique)
  with w show ?thesis by simp
qed

lemma CBS_get_asn1_uint64_complete:
  assumes "cbs_ok s" and "window s = der_element CBS_ASN1_INTEGER (der_uint (unat v)) @ w"
  shows "\<exists>s'. CBS_get_asn1_uint64 s = (Some v, s') \<and> window s' = w"
proof -
  let ?c = "der_uint (unat v)"
  have v64: "unat v < 2 ^ 64" using unsigned_less [of v] by simp
  have c: "uint_contents_ok ?c" "be_nat ?c = unat v" using der_uint_ok by auto
  have "byte_digits (unat v) \<le> 8"
  proof (cases "unat v = 0")
    case False
    then have "256 ^ (byte_digits (unat v) - 1) < (256 :: nat) ^ 8"
      using byte_digits_lower [of "unat v"] v64 by simp
    then have "byte_digits (unat v) - 1 < 8" by (simp only: power_strict_increasing_iff)
    then show ?thesis by simp
  qed simp
  then have l: "length ?c < 2 ^ 32" by (simp add: der_uint_def Let_def)
  define c where "c = der_uint (unat v)"
  note cs = c [folded c_def] and l = l [folded c_def] and a2 = assms(2) [folded c_def]
  let ?hl = "length (der_header CBS_ASN1_INTEGER (length c))"
  define out where "out = advance ?hl (cbs_cut (?hl + length c) s)"
  have g: "CBS_get_asn1 CBS_ASN1_INTEGER s = (Some out, advance (?hl + length c) s)"
    unfolding out_def by (rule CBS_get_asn1_complete [OF assms(1) a2 l])
  have le: "?hl + length c \<le> cbs_len s"
    using length_window [OF assms(1)] a2 by (simp add: der_element_def)
  have tk: "take (length c) (cbs_data out) = c"
  proof -
    have "window out = c" using le a2 by (simp add: out_def der_element_def)
    moreover have "cbs_len out = length c" by (simp add: out_def)
    ultimately show ?thesis by (simp add: window_def)
  qed
  have out: "cbs_len out = length c" by (simp add: out_def)
  have nth: "i < length c \<Longrightarrow> cbs_data out ! i = c ! i" for i
    using tk by (metis nth_take)
  have lp: "asn1_uint64_loop 0 c = Some v"
    using cs(2) v64 by (simp add: asn1_uint64_loop_eq)
  have ok: "length c \<noteq> 0" "c ! 0 AND 0x80 = 0"
    "1 < length c \<Longrightarrow> c ! 0 = 0 \<Longrightarrow> c ! 1 AND 0x80 \<noteq> 0"
    using cs(1) by (auto simp: uint_contents_ok_def u8_high_bit)
  have "CBS_get_asn1_uint64 s = (Some v, advance (?hl + length c) s)"
    unfolding CBS_get_asn1_uint64_def and_then_eval [where p = "CBS_get_asn1 CBS_ASN1_INTEGER", OF g] Let_def CBS_len_def out tk lp
    using ok nth [of 0] nth [of 1] by auto
  moreover have "window (advance (?hl + length c) s) = w"
    using a2 by (simp add: der_element_def)
  ultimately show ?thesis by blast
qed

section \<open>Every call stays inside the window\<close>

text \<open>
  \<open>stays p\<close>: whatever \<open>p\<close> returns, the reader is left on a contiguous part of the window it was
  given, inside the same object.
\<close>

definition within :: "CBS \<Rightarrow> CBS \<Rightarrow> bool" where
  "within s' s \<longleftrightarrow> cbs_ok s' \<and> sublist (window s') (window s)"

definition stays :: "('a, CBS) step \<Rightarrow> bool" where
  "stays p \<longleftrightarrow> (\<forall>s. cbs_ok s \<longrightarrow> within (snd (p s)) s)"

lemma within_refl [simp]: "cbs_ok s \<Longrightarrow> within s s"
  by (simp add: within_def)

lemma within_trans: "within t s \<Longrightarrow> within u t \<Longrightarrow> within u s"
  unfolding within_def using sublist_order.order_trans by blast

lemma within_advance [simp]: "cbs_ok s \<Longrightarrow> within (advance n s) s"
  by (simp add: within_def)

lemma within_cbs_cut [simp]: "cbs_ok s \<Longrightarrow> n \<le> cbs_len s \<Longrightarrow> within (cbs_cut n s) s"
  by (simp add: within_def)

lemma staysD: "stays p \<Longrightarrow> cbs_ok s \<Longrightarrow> p s = (r, s') \<Longrightarrow> within s' s"
  by (auto simp: stays_def dest: spec [of _ s])

lemma stays_ret [intro, simp]: "stays (ret x)"
  by (simp add: stays_def)

lemma stays_fail [intro, simp]: "stays fail"
  by (simp add: stays_def fail_def)

lemma stays_require [intro, simp]: "stays (require c)"
  by (simp add: require_def)

lemma stays_and_then [intro]:
  assumes "stays p" and "\<And>x. stays (f x)"
  shows "stays (and_then p f)"
  unfolding stays_def
proof (intro allI impI)
  fix s assume s: "cbs_ok s"
  obtain r s1 where p: "p s = (r, s1)" by fastforce
  have w: "within s1 s" by (rule staysD [OF assms(1) s p])
  then have "cbs_ok s1" by (simp add: within_def)
  with assms(2) w p show "within (snd (and_then p f s)) s"
    by (auto simp: and_then_def stays_def split: option.splits intro: within_trans)
qed

lemma stays_cbs_get [intro, simp]: "stays (cbs_get n)"
  by (auto simp: stays_def cbs_get_eq)

lemma stays_get_last [intro, simp]: "stays CBS_get_last_u8"
proof -
  have "s\<lparr>cbs_len := cbs_len s - 1\<rparr> = cbs_cut (cbs_len s - 1) s" for s :: CBS
    by (simp add: cbs_cut_def)
  then show ?thesis by (auto simp: stays_def CBS_get_last_u8_def)
qed

lemma stays_primitives [intro, simp]:
  "stays (CBS_skip n)" "stays (cbs_get_u n)" "stays CBS_get_u8" "stays CBS_get_u16" "stays CBS_get_u24"
  "stays CBS_get_u32" "stays (CBS_get_bytes n)" "stays (CBS_copy_bytes n)"
  "stays (cbs_get_length_prefixed n)" "stays CBS_get_u8_length_prefixed"
  "stays CBS_get_u16_length_prefixed" "stays CBS_get_u24_length_prefixed"
  by (auto simp: CBS_skip_def cbs_get_u_def CBS_get_u8_def CBS_get_u16_def CBS_get_u24_def
      CBS_get_u32_def CBS_get_bytes_def CBS_copy_bytes_def cbs_get_length_prefixed_def
      CBS_get_u8_length_prefixed_def CBS_get_u16_length_prefixed_def CBS_get_u24_length_prefixed_def)

text \<open>An element reader moves only by its last call, on which it depends.\<close>

lemma stays_element [intro, simp]: "stays (cbs_get_any_asn1_element ber)"
  unfolding stays_def
proof (intro allI impI)
  fix s assume s: "cbs_ok s"
  have b: "within (snd (and_then (CBS_get_bytes n) (\<lambda>out. ret (f out)) s)) s" for n and f :: "CBS \<Rightarrow> 'a"
  proof -
    have "stays (and_then (CBS_get_bytes n) (\<lambda>out. ret (f out)))" by (intro stays_and_then) simp_all
    with s show ?thesis by (simp add: stays_def)
  qed
  show "within (snd (cbs_get_any_asn1_element ber s)) s"
    using s b by (auto simp: cbs_get_any_asn1_element_def Let_def split: prod.splits option.splits)
qed

lemma stays_asn1 [intro, simp]:
  "stays CBS_get_any_asn1_element" "stays CBS_get_any_ber_asn1_element" "stays CBS_get_any_asn1"
  "stays (cbs_get_asn1 tag b)" "stays (CBS_get_asn1 tag)" "stays (CBS_get_asn1_element tag)"
  by (auto simp: CBS_get_any_asn1_element_def CBS_get_any_ber_asn1_element_def CBS_get_any_asn1_def
      cbs_get_asn1_def CBS_get_asn1_def CBS_get_asn1_element_def split: prod.splits option.splits)

lemma stays_typed [intro, simp]:
  "stays CBS_get_asn1_uint64" "stays CBS_get_asn1_bool" "stays (CBS_get_optional_asn1 tag)"
  "stays (CBS_get_optional_asn1_octet_string tag)" "stays (CBS_get_optional_asn1_uint64 tag dflt)"
  "stays (CBS_get_optional_asn1_bool tag bdflt)"
proof -
  show "stays CBS_get_asn1_uint64" "stays CBS_get_asn1_bool"
    by (auto simp: CBS_get_asn1_uint64_def CBS_get_asn1_bool_def Let_def split: option.splits)
  have "stays (and_then (CBS_get_asn1 tag) (\<lambda>out. ret (Some out)))" by auto
  then show opt: "stays (CBS_get_optional_asn1 tag)"
    by (auto simp: stays_def CBS_get_optional_asn1_def)
  from opt show "stays (CBS_get_optional_asn1_octet_string tag)"
    "stays (CBS_get_optional_asn1_uint64 tag dflt)" "stays (CBS_get_optional_asn1_bool tag bdflt)"
    by (auto simp: CBS_get_optional_asn1_octet_string_def CBS_get_optional_asn1_uint64_def
        CBS_get_optional_asn1_bool_def Let_def split: option.splits prod.splits)
qed

text \<open>
  The calls of a client, as a state machine: each moves a reader, and the windows that come out of a
  reader may be read in turn.
\<close>

inductive cbs_call :: "CBS \<Rightarrow> CBS \<Rightarrow> bool" where
  skip: "CBS_skip n s = (r, s') \<Longrightarrow> cbs_call s s'"
| u8: "CBS_get_u8 s = (r, s') \<Longrightarrow> cbs_call s s'"
| u16: "CBS_get_u16 s = (r, s') \<Longrightarrow> cbs_call s s'"
| u24: "CBS_get_u24 s = (r, s') \<Longrightarrow> cbs_call s s'"
| u32: "CBS_get_u32 s = (r, s') \<Longrightarrow> cbs_call s s'"
| last_u8: "CBS_get_last_u8 s = (r, s') \<Longrightarrow> cbs_call s s'"
| bytes: "CBS_get_bytes n s = (Some out, s') \<Longrightarrow> t = s' \<or> t = out \<Longrightarrow> cbs_call s t"
| copy: "CBS_copy_bytes n s = (r, s') \<Longrightarrow> cbs_call s s'"
| prefixed: "cbs_get_length_prefixed n s = (r, s') \<Longrightarrow> t = s' \<or> r = Some t \<Longrightarrow> cbs_call s t"
| element: "cbs_get_any_asn1_element ber s = (r, s') \<Longrightarrow> t = s' \<or> (\<exists>tag hl. r = Some (t, tag, hl)) \<Longrightarrow> cbs_call s t"
| asn1: "CBS_get_asn1 tag s = (r, s') \<Longrightarrow> t = s' \<or> r = Some t \<Longrightarrow> cbs_call s t"
| uint64: "CBS_get_asn1_uint64 s = (r, s') \<Longrightarrow> cbs_call s s'"
| bool: "CBS_get_asn1_bool s = (r, s') \<Longrightarrow> cbs_call s s'"
| optional: "CBS_get_optional_asn1 tag s = (r, s') \<Longrightarrow> t = s' \<or> r = Some (Some t) \<Longrightarrow> cbs_call s t"
| opt_uint64: "CBS_get_optional_asn1_uint64 tag dflt s = (r, s') \<Longrightarrow> cbs_call s s'"
| opt_bool: "CBS_get_optional_asn1_bool tag bdflt s = (r, s') \<Longrightarrow> cbs_call s s'"

lemma CBS_get_bytes_out: "cbs_ok s \<Longrightarrow> CBS_get_bytes n s = (Some out, s') \<Longrightarrow> within out s"
  using within_cbs_cut [of s n] by (auto simp: CBS_get_bytes_eq cbs_cut_def split: if_splits)

lemma prefixed_out:
  assumes "cbs_ok s" and "cbs_get_length_prefixed n s = (Some out, s')"
  shows "within out s"
proof -
  from assms obtain len s1 where u: "cbs_get_u n s = (Some len, s1)"
    and b: "CBS_get_bytes (unat len) s1 = (Some out, s')"
    by (auto simp: cbs_get_length_prefixed_def)
  have s1: "within s1 s" by (rule staysD [of "cbs_get_u n"]) (use assms(1) u in auto)
  then have "cbs_ok s1" by (simp add: within_def)
  then have "within out s1" using b by (rule CBS_get_bytes_out)
  with s1 show ?thesis by (rule within_trans)
qed

lemma element_out:
  assumes "cbs_ok s" and "cbs_get_any_asn1_element ber s = (Some (out, tag, hl), s')"
  shows "within out s"
  using assms(2) CBS_get_bytes_out [OF assms(1)]
  by (auto simp: cbs_get_any_asn1_element_def Let_def split: prod.splits option.splits if_splits)

lemma CBS_get_asn1_out:
  assumes "cbs_ok s" and "CBS_get_asn1 tag s = (Some out, s')"
  shows "within out s"
proof -
  from assms(2) obtain out1 hl where e: "cbs_get_any_asn1_element False s = (Some (out1, tag, hl), s')"
    and o: "out = advance hl out1"
    by (auto simp: CBS_get_asn1_def cbs_get_asn1_def CBS_get_any_asn1_element_def CBS_skip_eq split: if_splits)
  have "within out1 s" by (rule element_out [OF assms(1) e])
  moreover from this have "within out out1" unfolding o by (simp add: within_def)
  ultimately show ?thesis by (rule within_trans)
qed

lemma optional_out:
  "cbs_ok s \<Longrightarrow> CBS_get_optional_asn1 tag s = (Some (Some out), s') \<Longrightarrow> within out s"
  by (auto simp: CBS_get_optional_asn1_def intro: CBS_get_asn1_out split: if_splits)

lemma cbs_call_within: "cbs_call s t \<Longrightarrow> cbs_ok s \<Longrightarrow> within t s"
proof (induction rule: cbs_call.induct)
qed (auto intro: staysD [rotated 2] CBS_get_bytes_out prefixed_out element_out CBS_get_asn1_out optional_out)
section \<open>Properties\<close>

text \<open>C1: the DER reader accepts exactly the DER encodings.  \<open>CBS_get_asn1\<close> with a tag succeeds with
  contents \<open>c\<close> and leaves \<open>w\<close> if and only if what is to be read is the one minimal encoding of an
  element with that tag and those contents, followed by \<open>w\<close>, and the contents have less than $2^{32}$
  bytes; so no two encodings are read as the same element.\<close>

theorem CBS_get_asn1_exact:
  assumes "cbs_ok s"
  shows "(\<exists>out s'. CBS_get_asn1 tag s = (Some out, s') \<and> window out = c \<and> window s' = w) \<longleftrightarrow>
    window s = der_element tag c @ w \<and> length c < 2 ^ 32"
    (is "?reads \<longleftrightarrow> ?enc")
proof
  assume ?reads
  then show ?enc using CBS_get_asn1_sound [OF assms] by blast
next
  let ?hl = "length (der_header tag (length c))"
  assume e: ?enc
  then have "?hl + length c \<le> cbs_len s"
    using length_window [OF assms] by (simp add: der_element_def)
  moreover have "CBS_get_asn1 tag s = (Some (advance ?hl (cbs_cut (?hl + length c) s)), advance (?hl + length c) s)"
    using CBS_get_asn1_complete [OF assms] e by blast
  ultimately show ?reads using e by (simp add: der_element_def)
qed

lemma CBS_get_asn1_exact_witness:
  "\<exists>out s'. CBS_get_asn1 4 \<lparr>cbs_data = [4, 2, 1, 2, 9], cbs_len = 5\<rparr> = (Some out, s') \<and>
     window out = [1, 2] \<and> window s' = [9]"
proof -
  have "cbs_ok \<lparr>cbs_data = [4, 2, 1, 2, 9], cbs_len = 5\<rparr>" by (simp add: cbs_ok_def)
  moreover have "window \<lparr>cbs_data = [4, 2, 1, 2, 9], cbs_len = 5\<rparr> = der_element 4 [1, 2] @ [9]"
    by (simp add: window_def der_element_def der_header_def der_tag_def der_length_def mask_eq_exp_minus_1)
  ultimately show ?thesis using CBS_get_asn1_exact [of _ 4 "[1, 2]" "[9]"] by simp
qed

text \<open>C21: \<open>CBS_get_asn1_uint64\<close> returns \<open>v\<close> and leaves \<open>w\<close> if and only if the input is the minimal DER
  INTEGER of \<open>v\<close> followed by \<open>w\<close>: negative, padded and over-long integers are refused, and every
  64-bit value is readable.\<close>

theorem CBS_get_asn1_uint64_exact:
  assumes "cbs_ok s"
  shows "(\<exists>s'. CBS_get_asn1_uint64 s = (Some v, s') \<and> window s' = w) \<longleftrightarrow>
    window s = der_element CBS_ASN1_INTEGER (der_uint (unat v)) @ w"
  using CBS_get_asn1_uint64_sound [OF assms, of v] CBS_get_asn1_uint64_complete [OF assms, of v w] by blast

lemma CBS_get_asn1_uint64_exact_witness:
  "\<exists>s'. CBS_get_asn1_uint64 \<lparr>cbs_data = [2, 2, 0, 200], cbs_len = 4\<rparr> = (Some 200, s') \<and> window s' = []"
proof -
  have "cbs_ok \<lparr>cbs_data = [2, 2, 0, 200], cbs_len = 4\<rparr>" by (simp add: cbs_ok_def)
  moreover have "byte_digits 200 = 1" using byte_digits_unique [of 200 0] by simp
  then have "window \<lparr>cbs_data = [2, 2, 0, 200], cbs_len = 4\<rparr> = der_element CBS_ASN1_INTEGER (der_uint (unat (200 :: u64))) @ []"
    by (simp add: window_def der_element_def der_header_def der_tag_def der_length_def mask_eq_exp_minus_1
        der_uint_def CBS_ASN1_INTEGER_def)
  ultimately show ?thesis using CBS_get_asn1_uint64_exact [of _ 200 "[]"] by simp
qed

text \<open>C20: memory safety of the reader.  Whatever sequence of reader calls a client makes, on a reader
  and on the windows that come out of it, successful or not, every reader it holds is a contiguous
  part of the window it started from and inside the same object.\<close>

theorem cbs_calls_stay_inside:
  assumes "cbs_call\<^sup>*\<^sup>* s t" and "cbs_ok s"
  shows "cbs_ok t \<and> sublist (window t) (window s)"
proof -
  have "within t s"
    using assms(1)
  proof induction
    case (step t u)
    then have "within u t" using cbs_call_within by (simp add: within_def)
    with step.IH show ?case by (rule within_trans)
  qed (simp add: assms(2))
  then show ?thesis by (simp add: within_def)
qed

lemma cbs_calls_stay_inside_witness:
  "cbs_ok \<lparr>cbs_data = [2, 3], cbs_len = 1\<rparr> \<and> sublist [2] [1, 2 :: u8]"
proof -
  let ?s = "\<lparr>cbs_data = [1, 2, 3], cbs_len = 2\<rparr> :: CBS"
  have "cbs_call ?s \<lparr>cbs_data = [2, 3], cbs_len = 1\<rparr>"
    by (rule cbs_call.u8 [of _ "Some 1"]) (simp add: CBS_get_u8_def cbs_get_def and_then_def)
  then have "cbs_call\<^sup>*\<^sup>* ?s \<lparr>cbs_data = [2, 3], cbs_len = 1\<rparr>" by (rule r_into_rtranclp)
  from cbs_calls_stay_inside [OF this] show ?thesis by (simp add: cbs_ok_def window_def)
qed

end
