(* ===== verification/Cbb.thy ===== *)
theory Cbb
  imports Cbs
begin

text \<open>
  The DER builder of \<^verbatim>\<open>crypto/bytestring/cbb.c\<close>.  A top-level \<open>CBB\<close> owns a buffer; adding a
  length-prefixed or ASN.1 child hands the caller a second handle whose length prefix is written when
  the parent is flushed.  Only the innermost open handle can be written without closing others, so
  the \<^verbatim>\<open>child\<close> pointers form a chain: \<open>cbb_children\<close> is that chain, outermost first, and a handle
  is its depth (0 for the top-level object).  A handle deeper than the chain is one whose \<^verbatim>\<open>base\<close>
  has been set to NULL.  The allocator is part of the state.
\<close>

section \<open>State\<close>

record cbb_buffer =
  cb_buf :: "u8 list option"
  cb_len :: nat
  cb_cap :: nat
  cb_can_resize :: bool
  cb_error :: bool

record cbb_child =
  cc_offset :: nat
  cc_pending_len_len :: nat
  cc_pending_is_asn1 :: bool

record CBB =
  cbb_base :: "cbb_buffer option"
  cbb_children :: "cbb_child list"
  cbb_mem :: mem

definition CBB_zero :: "mem \<Rightarrow> CBB" where
  "CBB_zero m = \<lparr>cbb_base = None, cbb_children = [], cbb_mem = m\<rparr>"

text \<open>\<^verbatim>\<open>sizeof(struct cbb_buffer_st)\<close>: a pointer, two sizes and two characters, padded.\<close>

definition sizeof_cbb_buffer :: nat where
  "sizeof_cbb_buffer = 32"

definition cbb_init :: "u8 list option \<Rightarrow> nat \<Rightarrow> (unit, CBB) step" where
  "cbb_init buf cap cbb =
     (case OPENSSL_malloc sizeof_cbb_buffer (cbb_mem cbb) of
        (None, m) \<Rightarrow> (None, cbb\<lparr>cbb_mem := m\<rparr>)
      | (Some _, m) \<Rightarrow>
          (Some (), cbb\<lparr>cbb_base := Some \<lparr>cb_buf = buf, cb_len = 0, cb_cap = cap,
                          cb_can_resize = True, cb_error = False\<rparr>,
                        cbb_children := [], cbb_mem := m\<rparr>))"

definition CBB_init :: "nat \<Rightarrow> mem \<Rightarrow> unit option \<times> CBB" where
  "CBB_init initial_capacity m =
     (let (buf, m1) = OPENSSL_malloc initial_capacity m
      in if initial_capacity > 0 \<and> buf = None then (None, CBB_zero m1)
         else case cbb_init buf initial_capacity (CBB_zero m1) of
                (None, cbb) \<Rightarrow> (None, cbb\<lparr>cbb_mem := OPENSSL_free buf (cbb_mem cbb)\<rparr>)
              | (Some _, cbb) \<Rightarrow> (Some (), cbb))"

definition CBB_init_fixed :: "u8 list \<Rightarrow> nat \<Rightarrow> mem \<Rightarrow> unit option \<times> CBB" where
  "CBB_init_fixed buf len m =
     and_then (cbb_init (Some buf) len) (\<lambda>_ cbb.
       (Some (), cbb\<lparr>cbb_base := map_option (\<lambda>b. b\<lparr>cb_can_resize := False\<rparr>) (cbb_base cbb)\<rparr>))
       (CBB_zero m)"

definition CBB_cleanup :: "CBB \<Rightarrow> CBB" where
  "CBB_cleanup cbb =
     (case cbb_base cbb of
        None \<Rightarrow> cbb
      | Some base \<Rightarrow>
          let m1 = (if cb_can_resize base then OPENSSL_free (cb_buf base) (cbb_mem cbb)
                    else cbb_mem cbb)
          in cbb\<lparr>cbb_base := None,
                 cbb_mem := OPENSSL_free (Some (replicate sizeof_cbb_buffer 0)) m1\<rparr>)"

section \<open>The buffer\<close>

definition map_base :: "(cbb_buffer \<Rightarrow> cbb_buffer) \<Rightarrow> CBB \<Rightarrow> CBB" where
  "map_base f cbb = cbb\<lparr>cbb_base := map_option f (cbb_base cbb)\<rparr>"

definition set_error :: "CBB \<Rightarrow> CBB" where
  "set_error = map_base (\<lambda>b. b\<lparr>cb_error := True\<rparr>)"

definition map_buf :: "(u8 list \<Rightarrow> u8 list) \<Rightarrow> CBB \<Rightarrow> CBB" where
  "map_buf f = map_base (\<lambda>b. b\<lparr>cb_buf := map_option f (cb_buf b)\<rparr>)"

definition buf_bytes :: "CBB \<Rightarrow> u8 list" where
  "buf_bytes cbb = the (cb_buf (the (cbb_base cbb)))"

text \<open>The result stands for \<^verbatim>\<open>*out\<close>, as the offset of that pointer from the start of the buffer.\<close>

definition cbb_buffer_reserve :: "nat \<Rightarrow> (nat, CBB) step" where
  "cbb_buffer_reserve len cbb =
     (case cbb_base cbb of
        None \<Rightarrow> (None, cbb)
      | Some base \<Rightarrow>
          let newlen = size_add (cb_len base) len
          in if newlen < cb_len base then (None, set_error cbb)
             else if newlen > cb_cap base then
               let newcap0 = size_mul (cb_cap base) 2
               in if \<not> cb_can_resize base then (None, set_error cbb)
                  else let newcap = (if newcap0 < cb_cap base \<or> newcap0 < newlen then newlen else newcap0)
                       in case OPENSSL_realloc (cb_buf base) newcap (cbb_mem cbb) of
                            (None, m) \<Rightarrow> (None, set_error (cbb\<lparr>cbb_mem := m\<rparr>))
                          | (Some newbuf, m) \<Rightarrow>
                              (Some (cb_len base),
                               cbb\<lparr>cbb_base := Some (base\<lparr>cb_buf := Some newbuf, cb_cap := newcap\<rparr>),
                                   cbb_mem := m\<rparr>)
             else (Some (cb_len base), cbb))"

definition cbb_buffer_add :: "nat \<Rightarrow> (nat, CBB) step" where
  "cbb_buffer_add len =
     and_then (cbb_buffer_reserve len) (\<lambda>out cbb.
       (Some out, map_base (\<lambda>b. b\<lparr>cb_len := cb_len b + len\<rparr>) cbb))"

text \<open>
  The descending loops \<^verbatim>\<open>buf[i] = v; v >>= 8;\<close> over the \<open>n\<close> bytes from \<open>off\<close> on; the result is the
  buffer and what is left of \<^verbatim>\<open>v\<close>.
\<close>

fun put_be :: "nat \<Rightarrow> nat \<Rightarrow> nat \<Rightarrow> u8 list \<Rightarrow> u8 list \<times> nat" where
  "put_be off 0 v buf = (buf, v)"
| "put_be off (Suc i) v buf = put_be off i (v div 256) (buf[off + i := word_of_nat v])"

definition cbb_buffer_add_u :: "u32 \<Rightarrow> nat \<Rightarrow> (unit, CBB) step" where
  "cbb_buffer_add_u v len_len =
     (if len_len = 0 then ret ()
      else and_then (cbb_buffer_add len_len) (\<lambda>buf cbb.
        let (d, v') = put_be buf len_len (unat v) (buf_bytes cbb);
            cbb' = map_buf (\<lambda>_. d) cbb
        in if v' \<noteq> 0 then (None, set_error cbb') else (Some (), cbb')))"

section \<open>Flushing\<close>

text \<open>
  The initial byte and the number of length bytes for contents of \<open>len\<close> bytes; \<open>None\<close> is the
  \<^verbatim>\<open>Too large\<close> branch.
\<close>

definition asn1_len_len :: "nat \<Rightarrow> (nat \<times> u8 \<times> nat) option" where
  "asn1_len_len len =
     (if len > 0xfffffffe then None
      else if len > 0xffffff then Some (5, 0x80 OR 4, len)
      else if len > 0xffff then Some (4, 0x80 OR 3, len)
      else if len > 0xff then Some (3, 0x80 OR 2, len)
      else if len > 0x7f then Some (2, 0x80 OR 1, len)
      else Some (1, word_of_nat len, 0))"

definition memmove_bytes :: "nat \<Rightarrow> nat \<Rightarrow> nat \<Rightarrow> u8 list \<Rightarrow> u8 list" where
  "memmove_bytes dst src n d = put_bytes d dst (take n (drop src d))"

text \<open>The ASN.1 branch makes room for a longer length and stores its initial byte.\<close>

definition flush_asn1_child :: "nat \<Rightarrow> nat \<Rightarrow> nat \<Rightarrow> (nat, CBB) step" where
  "flush_asn1_child d child_start len =
     (case asn1_len_len len of
        None \<Rightarrow> fail
      | Some (len_len, initial_length_byte, len') \<Rightarrow>
          and_then
            (if len_len \<noteq> 1
             then and_then (cbb_buffer_add (len_len - 1)) (\<lambda>_ cbb.
                    (Some (), map_buf (memmove_bytes (child_start + (len_len - 1)) child_start len') cbb))
             else ret ())
            (\<lambda>_ cbb.
               let child = cbb_children cbb ! d
               in (Some len',
                   (map_buf (\<lambda>b. b[cc_offset child := initial_length_byte]) cbb)
                     \<lparr>cbb_children := (cbb_children cbb)
                        [d := child\<lparr>cc_offset := cc_offset child + 1, cc_pending_len_len := len_len - 1\<rparr>]\<rparr>)))"

definition flush_child :: "nat \<Rightarrow> nat \<Rightarrow> (unit, CBB) step" where
  "flush_child d child_start cbb =
     (let len = cb_len (the (cbb_base cbb)) - child_start
      in and_then
           (if cc_pending_is_asn1 (cbb_children cbb ! d) then flush_asn1_child d child_start len
            else ret len)
           (\<lambda>len cbb.
              let child = cbb_children cbb ! d;
                  (b, len') = put_be (cc_offset child) (cc_pending_len_len child) len (buf_bytes cbb);
                  cbb' = map_buf (\<lambda>_. b) cbb
              in if len' \<noteq> 0 then (None, cbb')
                 else (Some (), cbb'\<lparr>cbb_children := take d (cbb_children cbb')\<rparr>)) cbb)"

function CBB_flush :: "nat \<Rightarrow> (unit, CBB) step" where
  "CBB_flush d cbb =
     (case cbb_base cbb of
        None \<Rightarrow> (None, cbb)
      | Some base \<Rightarrow>
          if cb_error base \<or> length (cbb_children cbb) < d then (None, cbb)
          else if length (cbb_children cbb) = d \<or> cc_pending_len_len (cbb_children cbb ! d) = 0
          then (Some (), cbb)
          else
            let child = cbb_children cbb ! d;
                child_start = size_add (cc_offset child) (cc_pending_len_len child)
            in case CBB_flush (Suc d) cbb of
                 (None, cbb1) \<Rightarrow> (None, set_error cbb1)
               | (Some _, cbb1) \<Rightarrow>
                   if child_start < cc_offset child \<or> cb_len (the (cbb_base cbb1)) < child_start
                   then (None, set_error cbb1)
                   else case flush_child d child_start cbb1 of
                          (None, cbb2) \<Rightarrow> (None, set_error cbb2)
                        | (Some _, cbb2) \<Rightarrow> (Some (), cbb2))"
  by pat_completeness auto
termination
  by (relation "measure (\<lambda>(d, cbb). length (cbb_children cbb) - d)") auto

declare CBB_flush.simps [simp del]

text \<open>
  \<^verbatim>\<open>CBB_finish\<close> returns the buffer and its length where the caller asks for them.  The buffer of an
  object that cannot be resized belongs to the caller, who reads it where it lies.
\<close>

definition CBB_finish :: "nat \<Rightarrow> bool \<Rightarrow> bool \<Rightarrow> (u8 list option \<times> nat, CBB) step" where
  "CBB_finish d want_data want_len =
     and_then (require (d = 0)) (\<lambda>_.
       and_then (CBB_flush d) (\<lambda>_ cbb.
         case cbb_base cbb of
           None \<Rightarrow> (None, cbb)
         | Some base \<Rightarrow>
             if cb_can_resize base \<and> (\<not> want_data \<or> \<not> want_len) then (None, cbb)
             else (Some (cb_buf base, cb_len base),
                   CBB_cleanup (cbb\<lparr>cbb_base := Some (base\<lparr>cb_buf := None\<rparr>)\<rparr>))))"

section \<open>Reading back and adding\<close>

text \<open>The offset and the prefix length of the handle itself; both are zero in a top-level object.\<close>

definition handle_start :: "nat \<Rightarrow> CBB \<Rightarrow> nat" where
  "handle_start d cbb =
     (if d = 0 then 0
      else cc_offset (cbb_children cbb ! (d - 1)) + cc_pending_len_len (cbb_children cbb ! (d - 1)))"

definition CBB_data :: "nat \<Rightarrow> CBB \<Rightarrow> u8 list" where
  "CBB_data d cbb = drop (handle_start d cbb) (buf_bytes cbb)"

definition CBB_len :: "nat \<Rightarrow> CBB \<Rightarrow> nat" where
  "CBB_len d cbb = cb_len (the (cbb_base cbb)) - handle_start d cbb"

text \<open>Links a new child below the handle; the caller's handle on it is \<open>Suc d\<close>.\<close>

definition cbb_open_child :: "nat \<Rightarrow> nat \<Rightarrow> bool \<Rightarrow> nat \<Rightarrow> CBB \<Rightarrow> CBB" where
  "cbb_open_child offset len_len is_asn1 d cbb =
     cbb\<lparr>cbb_children := take d (cbb_children cbb) @
           [\<lparr>cc_offset = offset, cc_pending_len_len = len_len, cc_pending_is_asn1 = is_asn1\<rparr>]\<rparr>"

definition cbb_add_length_prefixed :: "nat \<Rightarrow> nat \<Rightarrow> (unit, CBB) step" where
  "cbb_add_length_prefixed d len_len =
     and_then (CBB_flush d) (\<lambda>_.
       and_then (cbb_buffer_add len_len) (\<lambda>offset cbb.
         (Some (), cbb_open_child offset len_len False d
                     (map_buf (\<lambda>b. put_bytes b offset (replicate len_len 0)) cbb))))"

definition CBB_add_u8_length_prefixed :: "nat \<Rightarrow> (unit, CBB) step" where
  "CBB_add_u8_length_prefixed d = cbb_add_length_prefixed d 1"

definition CBB_add_u16_length_prefixed :: "nat \<Rightarrow> (unit, CBB) step" where
  "CBB_add_u16_length_prefixed d = cbb_add_length_prefixed d 2"

definition CBB_add_u24_length_prefixed :: "nat \<Rightarrow> (unit, CBB) step" where
  "CBB_add_u24_length_prefixed d = cbb_add_length_prefixed d 3"

definition CBB_add_bytes :: "nat \<Rightarrow> u8 list \<Rightarrow> (unit, CBB) step" where
  "CBB_add_bytes d data =
     and_then (CBB_flush d) (\<lambda>_.
       and_then (cbb_buffer_add (length data)) (\<lambda>dest cbb.
         (Some (), map_buf (\<lambda>b. put_bytes b dest data) cbb)))"

definition CBB_add_space :: "nat \<Rightarrow> nat \<Rightarrow> (nat, CBB) step" where
  "CBB_add_space d len = and_then (CBB_flush d) (\<lambda>_. cbb_buffer_add len)"

definition CBB_reserve :: "nat \<Rightarrow> nat \<Rightarrow> (nat, CBB) step" where
  "CBB_reserve d len = and_then (CBB_flush d) (\<lambda>_. cbb_buffer_reserve len)"

definition CBB_did_write :: "nat \<Rightarrow> nat \<Rightarrow> (unit, CBB) step" where
  "CBB_did_write d len cbb =
     (let base = the (cbb_base cbb);
          newlen = size_add (cb_len base) len
      in if length (cbb_children cbb) \<noteq> d \<or> newlen < cb_len base \<or> newlen > cb_cap base
         then (None, cbb)
         else (Some (), map_base (\<lambda>b. b\<lparr>cb_len := newlen\<rparr>) cbb))"

definition CBB_add_u8 :: "nat \<Rightarrow> u8 \<Rightarrow> (unit, CBB) step" where
  "CBB_add_u8 d value = and_then (CBB_flush d) (\<lambda>_. cbb_buffer_add_u (ucast value) 1)"

definition CBB_add_u16 :: "nat \<Rightarrow> u16 \<Rightarrow> (unit, CBB) step" where
  "CBB_add_u16 d value = and_then (CBB_flush d) (\<lambda>_. cbb_buffer_add_u (ucast value) 2)"

definition CBB_add_u24 :: "nat \<Rightarrow> u32 \<Rightarrow> (unit, CBB) step" where
  "CBB_add_u24 d value = and_then (CBB_flush d) (\<lambda>_. cbb_buffer_add_u value 3)"

definition CBB_add_u32 :: "nat \<Rightarrow> u32 \<Rightarrow> (unit, CBB) step" where
  "CBB_add_u32 d value = and_then (CBB_flush d) (\<lambda>_. cbb_buffer_add_u value 4)"

definition CBB_discard_child :: "nat \<Rightarrow> CBB \<Rightarrow> CBB" where
  "CBB_discard_child d cbb =
     (if length (cbb_children cbb) \<le> d then cbb
      else (map_base (\<lambda>b. b\<lparr>cb_len := cc_offset (cbb_children cbb ! d)\<rparr>) cbb)
             \<lparr>cbb_children := take d (cbb_children cbb)\<rparr>)"

section \<open>ASN.1\<close>

function base128_len_len :: "u64 \<Rightarrow> nat" where
  "base128_len_len copy = (if copy > 0 then Suc (base128_len_len (drop_bit 7 copy)) else 0)"
  by pat_completeness auto
termination
proof (relation "measure unat")
  fix copy :: u64
  assume "0 < copy"
  then have "0 < unat copy" by (simp add: word_less_nat_alt)
  then show "(drop_bit 7 copy, copy) \<in> measure unat"
    by (simp add: unat_drop_bit_eq drop_bit_eq_div [where 'a = nat])
qed simp

declare base128_len_len.simps [simp del]

primrec add_base128_bytes :: "nat \<Rightarrow> u64 \<Rightarrow> nat \<Rightarrow> (unit, CBB) step" where
  "add_base128_bytes d v 0 = ret ()"
| "add_base128_bytes d v (Suc i) =
     (let byte0 = ucast (drop_bit (7 * i) v) AND 0x7f;
          byte = (if i \<noteq> 0 then byte0 OR 0x80 else byte0)
      in and_then (CBB_add_u8 d byte) (\<lambda>_. add_base128_bytes d v i))"

definition add_base128_integer :: "nat \<Rightarrow> u64 \<Rightarrow> (unit, CBB) step" where
  "add_base128_integer d v =
     (let len_len = base128_len_len v
      in add_base128_bytes d v (if len_len = 0 then 1 else len_len))"

definition CBB_add_asn1 :: "nat \<Rightarrow> u32 \<Rightarrow> (unit, CBB) step" where
  "CBB_add_asn1 d tag =
     and_then (CBB_flush d) (\<lambda>_.
       let tag_bits = ucast (drop_bit CBS_ASN1_TAG_SHIFT tag) AND 0xe0;
           tag_number = tag AND CBS_ASN1_TAG_NUMBER_MASK
       in and_then
            (if tag_number \<ge> 0x1f
             then and_then (CBB_add_u8 d (tag_bits OR 0x1f)) (\<lambda>_. add_base128_integer d (ucast tag_number))
             else CBB_add_u8 d (tag_bits OR ucast tag_number))
            (\<lambda>_ cbb.
               let offset = cb_len (the (cbb_base cbb))
               in and_then (CBB_add_u8 d 0) (\<lambda>_ cbb.
                    (Some (), cbb_open_child offset 1 True d cbb)) cbb))"

text \<open>The loop over the eight bytes of the value, with the flag \<^verbatim>\<open>started\<close> as an argument and result.\<close>

fun add_uint64_bytes :: "nat \<Rightarrow> u64 \<Rightarrow> nat list \<Rightarrow> bool \<Rightarrow> (bool, CBB) step" where
  "add_uint64_bytes d value [] started = ret started"
| "add_uint64_bytes d value (i # is) started =
     (let byte = ucast (drop_bit (8 * (7 - i)) value)
      in if \<not> started \<and> byte = 0 then add_uint64_bytes d value is started
         else and_then (if \<not> started \<and> byte AND 0x80 \<noteq> 0 then CBB_add_u8 d 0 else ret ()) (\<lambda>_.
                and_then (CBB_add_u8 d byte) (\<lambda>_. add_uint64_bytes d value is True)))"

definition CBB_add_asn1_uint64 :: "nat \<Rightarrow> u64 \<Rightarrow> (unit, CBB) step" where
  "CBB_add_asn1_uint64 d value =
     and_then (CBB_add_asn1 d CBS_ASN1_INTEGER) (\<lambda>_.
       and_then (add_uint64_bytes (Suc d) value [0..<8] False) (\<lambda>started.
         and_then (if \<not> started then CBB_add_u8 (Suc d) 0 else ret ()) (\<lambda>_. CBB_flush d)))"

definition CBB_add_asn1_octet_string :: "nat \<Rightarrow> u8 list \<Rightarrow> (unit, CBB) step" where
  "CBB_add_asn1_octet_string d data =
     and_then (CBB_add_asn1 d CBS_ASN1_OCTETSTRING) (\<lambda>_.
       and_then (CBB_add_bytes (Suc d) data) (\<lambda>_. CBB_flush d))"

definition CBB_add_asn1_bool :: "nat \<Rightarrow> int \<Rightarrow> (unit, CBB) step" where
  "CBB_add_asn1_bool d value =
     and_then (CBB_add_asn1 d CBS_ASN1_BOOLEAN) (\<lambda>_.
       and_then (CBB_add_u8 (Suc d) (if value \<noteq> 0 then 0xff else 0)) (\<lambda>_. CBB_flush d))"

section \<open>Sorting the children of a SET OF\<close>

definition compare_set_of_element :: "CBS \<Rightarrow> CBS \<Rightarrow> int" where
  "compare_set_of_element a b =
     (let a_len = CBS_len a; b_len = CBS_len b;
          min_len = (if a_len < b_len then a_len else b_len);
          r = memcmp (cbs_data a) (cbs_data b) min_len
      in if r \<noteq> 0 then r
         else if a_len = b_len then 0
         else if a_len < b_len then -1 else 1)"

text \<open>
  The first loop counts the elements; every element has at least one byte, so the number of bytes
  bounds its rounds (\<open>count_elements_enough\<close>).  The second loop parses that many.
\<close>

fun count_elements :: "nat \<Rightarrow> CBS \<Rightarrow> nat option" where
  "count_elements fuel cbs =
     (if CBS_len cbs = 0 then Some 0
      else case fuel of 0 \<Rightarrow> None
        | Suc fuel' \<Rightarrow>
            (case CBS_get_any_asn1_element cbs of
               (None, _) \<Rightarrow> None
             | (Some _, cbs') \<Rightarrow> map_option Suc (count_elements fuel' cbs')))"

primrec parse_elements :: "nat \<Rightarrow> CBS \<Rightarrow> CBS list option" where
  "parse_elements 0 cbs = Some []"
| "parse_elements (Suc n) cbs =
     (case CBS_get_any_asn1_element cbs of
        (None, _) \<Rightarrow> None
      | (Some (child, _, _), cbs') \<Rightarrow> map_option ((#) child) (parse_elements n cbs'))"

fun add_elements :: "nat \<Rightarrow> CBS list \<Rightarrow> (unit, CBB) step" where
  "add_elements d [] = ret ()"
| "add_elements d (c # cs) =
     and_then (CBB_add_bytes d (take (CBS_len c) (cbs_data c))) (\<lambda>_. add_elements d cs)"

definition sizeof_CBS :: nat where
  "sizeof_CBS = 16"

definition CBB_flush_asn1_set_of :: "nat \<Rightarrow> (unit, CBB) step" where
  "CBB_flush_asn1_set_of d =
     and_then (CBB_flush d) (\<lambda>_ cbb.
       let buf_len = CBB_len d cbb in
       case count_elements buf_len (CBS_init (CBB_data d cbb) buf_len) of
         None \<Rightarrow> (None, cbb)
       | Some num_children \<Rightarrow>
           if num_children < 2 then (Some (), cbb)
           else if num_children > SIZE_MAX div sizeof_CBS then (None, cbb)
           else
             let (buf, m1) = BUF_memdup (CBB_data d cbb) buf_len (cbb_mem cbb);
                 (children, m2) = OPENSSL_malloc (num_children * sizeof_CBS) m1;
                 (r, cbb') =
                   (if buf = None \<or> children = None then (None, cbb\<lparr>cbb_mem := m2\<rparr>)
                    else case parse_elements num_children (CBS_init (the buf) buf_len) of
                           None \<Rightarrow> (None, cbb\<lparr>cbb_mem := m2\<rparr>)
                         | Some cs \<Rightarrow>
                             add_elements d (qsort compare_set_of_element cs)
                               (map_base (\<lambda>b. b\<lparr>cb_len := handle_start d cbb\<rparr>) (cbb\<lparr>cbb_mem := m2\<rparr>)))
             in (r, cbb'\<lparr>cbb_mem := OPENSSL_free children (OPENSSL_free buf (cbb_mem cbb'))\<rparr>))"

end
