(* ===== verification/Cbb_Levels.thy ===== *)
theory Cbb_Levels
  imports Cbb
begin

unbundle bit_operations_syntax

text \<open>
  What the builder of theory \<open>Cbb\<close> promises.  The abstract state is a stack of levels, one for each
  open handle with the bytes written to it (\<open>cbb_rep\<close>); flushing closes the levels below a handle,
  and closing writes the length prefix, of fixed width or the minimal DER one.  \<open>writes\<close>, \<open>fills\<close> and
  \<open>opens\<close> say what an operation does to the stack whenever it succeeds, so programs that use the
  builder are verified by composing them (\<open>writes_then\<close>, \<open>writes_child\<close>).  The only assumption on the
  C library is that \<^verbatim>\<open>malloc\<close> does not return blocks of more than \<^verbatim>\<open>PTRDIFF_MAX\<close> bytes (\<open>mem_sane\<close>).
\<close>

section \<open>The buffer as the bytes written so far\<close>

definition mem_sane :: "mem \<Rightarrow> bool" where
  "mem_sane m \<longleftrightarrow> (\<forall>i n. mem_ok m i n \<longrightarrow> n < 2 ^ 63)"

lemma OPENSSL_malloc_sane:
  assumes "OPENSSL_malloc n m = (r, m')"
  shows "mem_ok m' = mem_ok m" and "r \<noteq> None \<Longrightarrow> mem_ok m (mem_calls m) (size_add n 8)"
  using assms
  by (auto simp: OPENSSL_malloc_def OPENSSL_MALLOC_PREFIX_def libc_malloc_def and_then_def ret_def
      split: if_splits)

lemma OPENSSL_free_sane [simp]: "mem_sane (OPENSSL_free p m) = mem_sane m"
  by (auto simp: mem_sane_def OPENSSL_free_def libc_free_def Let_def split: option.splits)

lemma OPENSSL_realloc_sane:
  assumes "OPENSSL_realloc p n m = (Some q, m')" and "mem_sane m" and "n \<le> SIZE_MAX - 8"
  shows "mem_sane m'" and "n + 8 < 2 ^ 63"
proof -
  from assms(1) obtain q1 m1 where m: "OPENSSL_malloc n m = (Some q1, m1)"
    and m': "m' = m1 \<or> m' = OPENSSL_free p m1"
    by (cases p) (auto simp: OPENSSL_realloc_def Let_def)
  from OPENSSL_malloc_sane [OF m] have ok: "mem_ok m1 = mem_ok m" "mem_ok m (mem_calls m) (size_add n 8)"
    by auto
  have s1: "mem_sane m1" using assms(2) ok(1) by (simp add: mem_sane_def)
  with m' show "mem_sane m'" by auto
  have "size_add n 8 = n + 8" using assms(3) by (simp add: SIZE_MAX_def)
  with ok(2) assms(2) show "n + 8 < 2 ^ 63" by (auto simp: mem_sane_def)
qed

definition cb_bytes :: "cbb_buffer \<Rightarrow> u8 list" where
  "cb_bytes b = (case cb_buf b of None \<Rightarrow> [] | Some d \<Rightarrow> d)"

definition buffer_ok :: "cbb_buffer \<Rightarrow> bool" where
  "buffer_ok b \<longleftrightarrow> cb_len b \<le> cb_cap b \<and> cb_cap b + 8 < 2 ^ 63 \<and> length (cb_bytes b) = cb_cap b"

text \<open>
  \<open>cbb_live\<close>: no error has been met, the buffer is as large as its capacity says, and \<open>bytes\<close> have
  been written to it.
\<close>

definition cbb_live :: "CBB \<Rightarrow> u8 list \<Rightarrow> cbb_child list \<Rightarrow> bool" where
  "cbb_live cbb bytes cs \<longleftrightarrow>
     (case cbb_base cbb of None \<Rightarrow> False | Some b \<Rightarrow>
        \<not> cb_error b \<and> buffer_ok b \<and> bytes = take (cb_len b) (cb_bytes b)) \<and>
     mem_sane (cbb_mem cbb) \<and> cbb_children cbb = cs"

lemma cbb_liveE:
  assumes "cbb_live cbb bytes cs"
  obtains b rest where "cbb_base cbb = Some b" and "\<not> cb_error b" and "buffer_ok b"
    and "cb_bytes b = bytes @ rest" and "cb_len b = length bytes" and "mem_sane (cbb_mem cbb)"
    and "cbb_children cbb = cs"
  using assms that [of "the (cbb_base cbb)" "drop (length bytes) (cb_bytes (the (cbb_base cbb)))"]
  by (cases "cbb_base cbb") (auto simp: cbb_live_def buffer_ok_def min_def)

lemma cbb_live_base:
  assumes "cbb_live cbb bytes cs"
  shows "cb_len (the (cbb_base cbb)) = length bytes" and "cbb_children cbb = cs"
    and "length bytes < 2 ^ 63"
  using assms by (auto elim!: cbb_liveE simp: buffer_ok_def)

lemma cbb_buffer_reserve_live:
  assumes "cbb_live cbb bytes cs" and n: "n < 2 ^ 63"
    and "cbb_buffer_reserve n cbb = (Some off, cbb')"
  shows "off = length bytes \<and> cbb_live cbb' bytes cs \<and> length bytes + n \<le> cb_cap (the (cbb_base cbb'))"
proof -
  from assms(1) obtain b rest where b: "cbb_base cbb = Some b" "\<not> cb_error b" "buffer_ok b"
    "cb_bytes b = bytes @ rest" "cb_len b = length bytes" "mem_sane (cbb_mem cbb)"
    "cbb_children cbb = cs" by (rule cbb_liveE)
  have cap: "cb_len b \<le> cb_cap b" "cb_cap b + 8 < 2 ^ 63" "length (cb_bytes b) = cb_cap b"
    using b(3) by (auto simp: buffer_ok_def)
  have newlen: "size_add (cb_len b) n = cb_len b + n" and twice: "size_mul (cb_cap b) 2 = cb_cap b * 2"
    using cap n by (auto simp: size_add_def size_mul_def)
  show ?thesis
  proof (cases "cb_len b + n \<le> cb_cap b")
    case True
    with assms b newlen show ?thesis
      by (auto simp: cbb_buffer_reserve_def Let_def)
  next
    case False
    define newcap where
      "newcap = (if cb_cap b * 2 < cb_cap b \<or> cb_cap b * 2 < cb_len b + n then cb_len b + n else cb_cap b * 2)"
    have nc: "cb_len b + n \<le> newcap" "cb_cap b \<le> newcap" "newcap \<le> SIZE_MAX - 8"
      using False cap n by (auto simp: newcap_def SIZE_MAX_def)
    from assms(3) b False newlen twice obtain d m where
      d: "OPENSSL_realloc (cb_buf b) newcap (cbb_mem cbb) = (Some d, m)" and off: "off = cb_len b"
      and cbb': "cbb' = cbb\<lparr>cbb_base := Some (b\<lparr>cb_buf := Some d, cb_cap := newcap\<rparr>), cbb_mem := m\<rparr>"
      by (auto simp: cbb_buffer_reserve_def Let_def newcap_def split: if_splits option.splits prod.splits)
    note sane = OPENSSL_realloc_sane [OF d b(6) nc(3)]
    have "length d = newcap \<and> take (length bytes) d = bytes"
    proof (cases "cb_buf b")
      case None
      then have "bytes = []" using b(4) by (simp add: cb_bytes_def)
      with d nc(3) None show ?thesis by (simp add: OPENSSL_realloc_def OPENSSL_malloc_length)
    next
      case (Some p)
      then have p: "p = bytes @ rest" "length p = cb_cap b" using b(4) cap(3) by (auto simp: cb_bytes_def)
      with d nc(3) Some have "length d = newcap" "take (min (length p) newcap) d = take (min (length p) newcap) p"
        using OPENSSL_realloc_spec [of p newcap "cbb_mem cbb" d m] by auto
      with p nc(2) take_eq_mono [of "length p" d p "length bytes"] show ?thesis by (simp add: min_def)
    qed
    with b sane cbb' nc cap(1) off show ?thesis
      by (auto simp: cbb_live_def buffer_ok_def cb_bytes_def)
  qed
qed

lemma cbb_buffer_add_live:
  assumes "cbb_live cbb bytes cs" and "n < 2 ^ 63"
    and "cbb_buffer_add n cbb = (Some off, cbb')"
  shows "off = length bytes \<and> (\<exists>junk. length junk = n \<and> cbb_live cbb' (bytes @ junk) cs)"
proof -
  from assms(3) obtain cbb1 where
    r: "cbb_buffer_reserve n cbb = (Some off, cbb1)"
    and cbb': "cbb' = map_base (\<lambda>b. b\<lparr>cb_len := cb_len b + n\<rparr>) cbb1"
    by (auto simp: cbb_buffer_add_def)
  from cbb_buffer_reserve_live [OF assms(1,2) r] have off: "off = length bytes"
    and l1: "cbb_live cbb1 bytes cs" and cap: "length bytes + n \<le> cb_cap (the (cbb_base cbb1))"
    by auto
  from l1 obtain b rest where b: "cbb_base cbb1 = Some b" "\<not> cb_error b" "buffer_ok b"
    "cb_bytes b = bytes @ rest" "cb_len b = length bytes" "mem_sane (cbb_mem cbb1)"
    "cbb_children cbb1 = cs" by (rule cbb_liveE)
  have "n \<le> length rest" using cap b by (auto simp: buffer_ok_def)
  then have "cbb_live cbb' (bytes @ take n rest) cs"
    using b cap by (auto simp: cbb_live_def cbb' map_base_def buffer_ok_def cb_bytes_def)
  with off \<open>n \<le> length rest\<close> show ?thesis by (intro conjI exI [of _ "take n rest"]) auto
qed

lemma map_buf_live:
  assumes "cbb_live cbb bytes cs" and "\<And>rest. f (bytes @ rest) = bytes' @ rest"
    and "length bytes' = length bytes"
  shows "cbb_live (map_buf f cbb) bytes' cs"
  using assms(1)
proof (rule cbb_liveE)
  fix b rest
  assume b: "cbb_base cbb = Some b" "\<not> cb_error b" "buffer_ok b" "cb_bytes b = bytes @ rest"
    "cb_len b = length bytes" "mem_sane (cbb_mem cbb)" "cbb_children cbb = cs"
  then show ?thesis
    using assms(2,3)
    by (auto simp: cbb_live_def map_buf_def map_base_def cb_bytes_def buffer_ok_def split: option.splits)
qed

lemma put_bytes_append: "put_bytes (xs @ old @ ys) (length xs) new = xs @ new @ ys"
  if "length old = length new"
  using that by (simp add: put_bytes_def)

lemma put_be_eq:
  assumes "off + n \<le> length d"
  shows "put_be off n v d = (put_bytes d off (be_bytes n v), v div 256 ^ n)"
  using assms
proof (induction n arbitrary: v d)
  case 0
  then show ?case by (simp add: put_bytes_def)
next
  case (Suc n)
  then have "drop (off + n) d = d ! (off + n) # drop (Suc (off + n)) d"
    by (simp add: Cons_nth_drop_Suc)
  with Suc show ?case
    by (simp add: put_bytes_def div_mult2_eq drop_update_swap)
qed

lemma buf_bytes_live: "cbb_live cbb bytes cs \<Longrightarrow> bytes \<noteq> [] \<Longrightarrow> \<exists>rest. buf_bytes cbb = bytes @ rest"
  by (erule cbb_liveE) (auto simp: buf_bytes_def cb_bytes_def split: option.splits)

lemma put_be_live:
  assumes "cbb_live cbb (pre @ old @ post) cs" and "length old = n" and "pre @ old @ post \<noteq> []"
    and "put_be (length pre) n v (buf_bytes cbb) = (d, v')"
  shows "cbb_live (map_buf (\<lambda>_. d) cbb) (pre @ be_bytes n v @ post) cs \<and> v' = v div 256 ^ n"
proof -
  let ?all = "pre @ old @ post"
  obtain rest where r: "buf_bytes cbb = ?all @ rest"
    using buf_bytes_live [OF assms(1,3)] by blast
  have d: "d = put_bytes (?all @ rest) (length pre) (be_bytes n v)" "v' = v div 256 ^ n"
    using assms(2,4) unfolding r by (auto simp: put_be_eq)
  have "d = (pre @ be_bytes n v @ post) @ rest"
    using d(1) assms(2) put_bytes_append [of old "be_bytes n v" pre "post @ rest"] by simp
  moreover have "cbb_live (map_buf (\<lambda>b. put_bytes b (length pre) (be_bytes n v)) cbb) (pre @ be_bytes n v @ post) cs"
    using assms(1,2) put_bytes_append [of old "be_bytes n v" pre]
    by (intro map_buf_live) auto
  moreover have "map_buf (\<lambda>b. put_bytes b (length pre) (be_bytes n v)) cbb = map_buf (\<lambda>_. d) cbb"
    using r d(1) by (cases "cbb_base cbb"; cases "cb_buf (the (cbb_base cbb))")
      (auto simp: map_buf_def map_base_def buf_bytes_def)
  ultimately show ?thesis using d(2) by simp
qed

lemma cbb_buffer_add_u_live:
  assumes "cbb_live cbb bytes cs" and "n < 8"
    and "cbb_buffer_add_u v n cbb = (Some u, cbb')"
  shows "cbb_live cbb' (bytes @ be_bytes n (unat v)) cs \<and> (n = 0 \<or> unat v < 256 ^ n)"
proof (cases "n = 0")
  case True
  with assms show ?thesis by (simp add: cbb_buffer_add_u_def)
next
  case False
  with assms(3) obtain off cbb1 where a: "cbb_buffer_add n cbb = (Some off, cbb1)"
    and w: "(let (d, v') = put_be off n (unat v) (buf_bytes cbb1); cbb' = map_buf (\<lambda>_. d) cbb1
        in if v' \<noteq> 0 then (None, set_error cbb') else (Some (), cbb')) = (Some u, cbb')"
    by (auto simp: cbb_buffer_add_u_def)
  from cbb_buffer_add_live [OF assms(1) _ a] assms(2) obtain junk where
    off: "off = length bytes" and j: "length junk = n" "cbb_live cbb1 (bytes @ junk @ []) cs" by auto
  obtain d v' where p: "put_be off n (unat v) (buf_bytes cbb1) = (d, v')" by fastforce
  from put_be_live [OF j(2,1) _ p [unfolded off]] j(1) False w p show ?thesis
    by (auto split: if_splits simp: Let_def div_eq_0_iff)
qed

section \<open>Open levels\<close>

text \<open>
  The abstract state of a builder: one level for the top-level object and one for each open child,
  each with the bytes written to it so far.  \<open>close\<close> is what a stack of open children becomes when
  everything is flushed.
\<close>

datatype prefix = Root | Fixed nat | Asn1

type_synonym level = "prefix \<times> u8 list"

primrec plen :: "prefix \<Rightarrow> nat" where
  "plen Root = 0"
| "plen (Fixed n) = n"
| "plen Asn1 = 1"

primrec wrap :: "prefix \<Rightarrow> u8 list \<Rightarrow> u8 list" where
  "wrap Root c = c"
| "wrap (Fixed n) c = be_bytes n (length c) @ c"
| "wrap Asn1 c = der_length (length c) @ c"

primrec fits :: "prefix \<Rightarrow> nat \<Rightarrow> bool" where
  "fits Root n = True"
| "fits (Fixed k) n = (n < 256 ^ k)"
| "fits Asn1 n = (n \<le> 0xfffffffe)"

fun close :: "level list \<Rightarrow> u8 list" where
  "close [] = []"
| "close ((k, bs) # ls) = wrap k (bs @ close ls)"

fun closable :: "level list \<Rightarrow> bool" where
  "closable [] = True"
| "closable ((k, bs) # ls) = (closable ls \<and> fits k (length (bs @ close ls)))"

definition flushed :: "nat \<Rightarrow> level list \<Rightarrow> level list" where
  "flushed d L = take d L @ [(fst (L ! d), snd (L ! d) @ close (drop (Suc d) L))]"

definition raw :: "level list \<Rightarrow> u8 list" where
  "raw L = concat (map (\<lambda>(k, bs). replicate (plen k) 0 @ bs) L)"

definition child_of :: "level list \<Rightarrow> nat \<Rightarrow> cbb_child" where
  "child_of L i = \<lparr>cc_offset = length (raw (take i L)), cc_pending_len_len = plen (fst (L ! i)),
                   cc_pending_is_asn1 = (fst (L ! i) = Asn1)\<rparr>"

definition levels_ok :: "level list \<Rightarrow> bool" where
  "levels_ok L \<longleftrightarrow> L \<noteq> [] \<and> fst (hd L) = Root \<and>
     (\<forall>k \<in> set (tl (map fst L)). k \<noteq> Root \<and> 0 < plen k \<and> plen k < 8)"

definition cbb_rep :: "CBB \<Rightarrow> level list \<Rightarrow> bool" where
  "cbb_rep cbb L \<longleftrightarrow> levels_ok L \<and> cbb_live cbb (raw L) (map (child_of L) [1..<length L])"

lemma raw_append [simp]: "raw (L @ M) = raw L @ raw M"
  by (simp add: raw_def)

lemma raw_Cons [simp]: "raw (x # L) = replicate (plen (fst x)) 0 @ snd x @ raw L"
  by (simp add: raw_def split: prod.splits)

lemma raw_Nil [simp]: "raw [] = []"
  by (simp add: raw_def)

lemma child_of_append: "i < length L \<Longrightarrow> child_of (L @ M) i = child_of L i"
  by (simp add: child_of_def nth_append)

lemma children_snoc:
  assumes "L \<noteq> []"
  shows "map (child_of (L @ [(k, bs)])) [1..<length (L @ [(k, bs)])] =
    map (child_of L) [1..<length L] @
      [\<lparr>cc_offset = length (raw L), cc_pending_len_len = plen k, cc_pending_is_asn1 = (k = Asn1)\<rparr>]"
proof -
  have "[1..<length (L @ [(k, bs)])] = [1..<length L] @ [length L]" using assms by (cases L) auto
  then show ?thesis by (simp add: child_of_append) (simp add: child_of_def)
qed

lemma levels_ok_snoc: "L \<noteq> [] \<Longrightarrow> levels_ok (L @ [(k, bs)]) \<longleftrightarrow> levels_ok L \<and> k \<noteq> Root \<and> 0 < plen k \<and> plen k < 8"
  by (auto simp: levels_ok_def)

text \<open>Only the prefixes of the levels matter for where the children start.\<close>

lemma children_last_bytes:
  "map (child_of (L @ [(k, bs)])) [1..<length (L @ [(k, bs)])] =
   map (child_of (L @ [(k, cs)])) [1..<length (L @ [(k, cs)])]"
  by (rule map_cong) (auto simp: child_of_def nth_append)

lemma flushed_last: "flushed d L = L" if "length L = Suc d"
  using that by (simp add: flushed_def take_Suc_conv_app_nth [symmetric])

lemma flushed_Suc:
  assumes "Suc d < length L"
  shows "flushed (Suc d) L = take d L @ [L ! d, (fst (L ! Suc d), snd (L ! Suc d) @ close (drop (Suc (Suc d)) L))]"
    and "flushed d L = take d L @ [(fst (L ! d), snd (L ! d) @
           wrap (fst (L ! Suc d)) (snd (L ! Suc d) @ close (drop (Suc (Suc d)) L)))]"
proof -
  have t: "take (Suc d) L = take d L @ [L ! d]" using assms by (simp add: take_Suc_conv_app_nth)
  have c: "drop (Suc d) L = L ! Suc d # drop (Suc (Suc d)) L" using assms by (simp add: Cons_nth_drop_Suc)
  obtain k bs where k: "L ! Suc d = (k, bs)" by fastforce
  show "flushed (Suc d) L = take d L @ [L ! d, (fst (L ! Suc d), snd (L ! Suc d) @ close (drop (Suc (Suc d)) L))]"
    by (simp add: flushed_def t)
  show "flushed d L = take d L @ [(fst (L ! d), snd (L ! d) @
           wrap (fst (L ! Suc d)) (snd (L ! Suc d) @ close (drop (Suc (Suc d)) L)))]"
    unfolding flushed_def c k by simp
qed

lemma asn1_len_len_spec:
  assumes "asn1_len_len n = Some (ll, ib, n')"
  shows "ib # be_bytes (ll - 1) n' = der_length n" and "1 \<le> ll" and "ll \<le> 5" and "n \<le> 0xfffffffe"
    and "ll = 1 \<or> n' = n"
proof -
  have d2: "127 < n \<Longrightarrow> n \<le> 255 \<Longrightarrow> byte_digits n = 1"
    using byte_digits_unique [of n 0] by simp
  have d3: "255 < n \<Longrightarrow> n \<le> 65535 \<Longrightarrow> byte_digits n = 2"
    using byte_digits_unique [of n 1] by simp
  have d4: "65535 < n \<Longrightarrow> n \<le> 16777215 \<Longrightarrow> byte_digits n = 3"
    using byte_digits_unique [of n 2] by simp
  have d5: "16777215 < n \<Longrightarrow> n \<le> 4294967294 \<Longrightarrow> byte_digits n = 4"
    using byte_digits_unique [of n 3] by simp
  show "ib # be_bytes (ll - 1) n' = der_length n"
  proof (cases "n < 128")
    case True
    with assms show ?thesis by (auto simp: asn1_len_len_def der_length_def)
  next
    case False
    with assms d2 d3 d4 d5 have "ib = word_of_nat (128 + byte_digits n) \<and> ll = Suc (byte_digits n) \<and> n' = n"
      by (auto simp: asn1_len_len_def split: if_splits)
    with False show ?thesis by (simp add: der_length_def)
  qed
  show "1 \<le> ll" "ll \<le> 5" "n \<le> 0xfffffffe" "ll = 1 \<or> n' = n"
    using assms by (auto simp: asn1_len_len_def split: if_splits)
qed

text \<open>\<open>children_live\<close>: the chain may be replaced without touching the bytes.\<close>

lemma children_live:
  "cbb_live cbb bytes cs \<Longrightarrow> cbb_live (cbb\<lparr>cbb_children := cs'\<rparr>) bytes cs'"
  by (auto simp: cbb_live_def split: option.splits)

lemma flush_asn1_live:
  assumes "cbb_live cbb (pre @ [0] @ c) (cs @ [\<lparr>cc_offset = length pre, cc_pending_len_len = 1, cc_pending_is_asn1 = True\<rparr>])"
    and "flush_asn1_child (length cs) (length pre + 1) (length c) cbb = (Some len', cbb')"
  shows "\<exists>ib ll old. asn1_len_len (length c) = Some (ll, ib, len') \<and> length old = ll - 1 \<and>
    cbb_live cbb' (pre @ [ib] @ old @ c)
      (cs @ [\<lparr>cc_offset = length pre + 1, cc_pending_len_len = ll - 1, cc_pending_is_asn1 = True\<rparr>])"
proof -
  let ?ch = "\<lparr>cc_offset = length pre, cc_pending_len_len = 1, cc_pending_is_asn1 = True\<rparr>"
  let ?move = "\<lambda>ll. if ll \<noteq> 1
             then and_then (cbb_buffer_add (ll - 1)) (\<lambda>_ cbb.
                    (Some (), map_buf (memmove_bytes (length pre + 1 + (ll - 1)) (length pre + 1) len') cbb))
             else ret ()"
  from assms(2) obtain ll ib l1 where a1: "asn1_len_len (length c) = Some (ll, ib, l1)"
    by (auto simp: flush_asn1_child_def split: option.splits prod.splits)
  from assms(2) obtain x cbb1 where m0: "(if ll \<noteq> 1
             then and_then (cbb_buffer_add (ll - 1)) (\<lambda>_ cbb.
                    (Some (), map_buf (memmove_bytes (length pre + 1 + (ll - 1)) (length pre + 1) l1) cbb))
             else ret ()) cbb = (Some x, cbb1)" and l1: "l1 = len'"
    and cbb': "(map_buf (\<lambda>b. b[cc_offset (cbb_children cbb1 ! length cs) := ib]) cbb1)
                     \<lparr>cbb_children := (cbb_children cbb1) [length cs := (cbb_children cbb1 ! length cs)
                        \<lparr>cc_offset := cc_offset (cbb_children cbb1 ! length cs) + 1, cc_pending_len_len := ll - 1\<rparr>]\<rparr> = cbb'"
    unfolding flush_asn1_child_def a1 option.case prod.case and_then_Some Let_def prod.inject option.inject
    by blast
  note m = m0 [unfolded l1]
  note a = a1 [unfolded l1]
  note sp = asn1_len_len_spec [OF a]
  have "\<exists>old. length old = ll - 1 \<and> cbb_live cbb1 (pre @ [0] @ old @ c) (cs @ [?ch])"
  proof (cases "ll = 1")
    case True
    with m assms(1) show ?thesis by simp
  next
    case False
    with m obtain cbb2 off where add: "cbb_buffer_add (ll - 1) cbb = (Some off, cbb2)"
      and cbb1: "cbb1 = map_buf (memmove_bytes (length pre + 1 + (ll - 1)) (length pre + 1) len') cbb2"
      by auto
    have "ll - 1 < 2 ^ 63" using sp(3) by simp
    from cbb_buffer_add_live [OF assms(1) this add] obtain junk where
      j: "length junk = ll - 1" "cbb_live cbb2 (pre @ [0] @ c @ junk) (cs @ [?ch])" by auto
    let ?old = "take (ll - 1) (c @ junk)"
    have len': "len' = length c" using sp(5) False by simp
    have mv: "memmove_bytes (length pre + 1 + (ll - 1)) (length pre + 1) len' ((pre @ [0] @ c @ junk) @ rest)
        = (pre @ [0] @ ?old @ c) @ rest" for rest
      unfolding memmove_bytes_def put_bytes_def len'
      using j(1) by (simp add: min_def)
    have "cbb_live cbb1 (pre @ [0] @ ?old @ c) (cs @ [?ch])"
      unfolding cbb1 by (rule map_buf_live [OF j(2) mv]) (use j(1) in simp)
    then show ?thesis using j(1) by (intro exI [of _ ?old]) simp
  qed
  then obtain old where old: "length old = ll - 1" "cbb_live cbb1 (pre @ [0] @ old @ c) (cs @ [?ch])" by blast
  have chs: "cbb_children cbb1 = cs @ [?ch]" by (rule cbb_live_base(2) [OF old(2)])
  have "cbb_live (map_buf (\<lambda>b. b[length pre := ib]) cbb1) (pre @ [ib] @ old @ c) (cs @ [?ch])"
    by (rule map_buf_live [OF old(2)]) auto
  from children_live [OF this] have "cbb_live cbb' (pre @ [ib] @ old @ c)
      (cs @ [\<lparr>cc_offset = length pre + 1, cc_pending_len_len = ll - 1, cc_pending_is_asn1 = True\<rparr>])"
    unfolding cbb' [symmetric] chs by simp
  with a old(1) show ?thesis by blast
qed

lemma flush_child_live:
  assumes l: "cbb_live cbb (pre @ replicate (plen k) 0 @ c)
      (cs @ [\<lparr>cc_offset = length pre, cc_pending_len_len = plen k, cc_pending_is_asn1 = (k = Asn1)\<rparr>])"
    and k: "k \<noteq> Root" "0 < plen k"
    and f: "flush_child (length cs) (length pre + plen k) cbb = (Some u, cbb')"
  shows "cbb_live cbb' (pre @ wrap k c) cs \<and> fits k (length c)"
proof -
  let ?fin = "\<lambda>len cbb. let child = cbb_children cbb ! length cs;
                  (b, len') = put_be (cc_offset child) (cc_pending_len_len child) len (buf_bytes cbb);
                  cbb' = map_buf (\<lambda>_. b) cbb
              in if len' \<noteq> 0 then (None, cbb')
                 else (Some (), cbb'\<lparr>cbb_children := take (length cs) (cbb_children cbb')\<rparr>)"
  have fin: "cbb_live cbb' (p @ be_bytes n len @ c) cs \<and> len div 256 ^ n = 0"
    if l1: "cbb_live cbb1 (p @ old @ c) (cs @ [\<lparr>cc_offset = length p, cc_pending_len_len = n, cc_pending_is_asn1 = b\<rparr>])"
      and "length old = n" and ne: "p @ old @ c \<noteq> []" and r: "?fin len cbb1 = (Some u, cbb')" for cbb1 p old n len b
  proof -
    have ch: "cbb_children cbb1 = cs @ [\<lparr>cc_offset = length p, cc_pending_len_len = n, cc_pending_is_asn1 = b\<rparr>]"
      by (rule cbb_live_base(2) [OF l1])
    obtain d v' where p: "put_be (length p) n len (buf_bytes cbb1) = (d, v')" by fastforce
    have "cbb_live (map_buf (\<lambda>_. d) cbb1) (p @ be_bytes n len @ c)
        (cs @ [\<lparr>cc_offset = length p, cc_pending_len_len = n, cc_pending_is_asn1 = b\<rparr>]) \<and> v' = len div 256 ^ n"
      by (rule put_be_live [OF l1 that(2) ne p])
    moreover from this have "cbb_children (map_buf (\<lambda>_. d) cbb1) = cbb_children cbb1"
      using ch cbb_live_base(2) by metis
    ultimately show ?thesis using r ch p children_live
      by (auto simp: Let_def split: if_splits)
  qed
  have len: "cb_len (the (cbb_base cbb)) - (length pre + plen k) = length c"
    using cbb_live_base(1) [OF l] by simp
  have ch: "cbb_children cbb ! length cs = \<lparr>cc_offset = length pre, cc_pending_len_len = plen k, cc_pending_is_asn1 = (k = Asn1)\<rparr>"
    using cbb_live_base(2) [OF l] by simp
  show ?thesis
  proof (cases "k = Asn1")
    case True
    with f len ch obtain len1 cbb1 where
      a: "flush_asn1_child (length cs) (length pre + 1) (length c) cbb = (Some len1, cbb1)"
      and r: "?fin len1 cbb1 = (Some u, cbb')"
      by (auto simp: flush_child_def Let_def)
    have l': "cbb_live cbb (pre @ [0] @ c) (cs @ [\<lparr>cc_offset = length pre, cc_pending_len_len = 1, cc_pending_is_asn1 = True\<rparr>])"
      using l True by simp
    from flush_asn1_live [OF l' a] obtain ib ll old where
      o: "asn1_len_len (length c) = Some (ll, ib, len1)" "length old = ll - 1"
        "cbb_live cbb1 ((pre @ [ib]) @ old @ c)
          (cs @ [\<lparr>cc_offset = length (pre @ [ib]), cc_pending_len_len = ll - 1, cc_pending_is_asn1 = True\<rparr>])"
      by auto
    from fin [OF o(3,2) _ r] have "cbb_live cbb' ((pre @ [ib]) @ be_bytes (ll - 1) len1 @ c) cs" by blast
    moreover have "(pre @ [ib]) @ be_bytes (ll - 1) len1 @ c = pre @ der_length (length c) @ c"
      using asn1_len_len_spec(1) [OF o(1)] by (metis append.assoc append_Cons append_Nil)
    ultimately have "cbb_live cbb' (pre @ der_length (length c) @ c) cs" by (simp only:)
    then show ?thesis using asn1_len_len_spec(4) [OF o(1)] True by simp
  next
    case False
    then obtain n where n: "k = Fixed n" using k by (cases k) auto
    from f len ch False have "?fin (length c) cbb = (Some u, cbb')"
      by (simp add: flush_child_def)
    with fin [OF l, of "length c"] n k(2) show ?thesis by (simp add: div_eq_0_iff)
  qed
qed

lemma map_fst_flushed: "d < length L \<Longrightarrow> map fst (flushed d L) = take (Suc d) (map fst L)"
  by (simp add: flushed_def take_Suc_conv_app_nth take_map)

lemma length_flushed [simp]: "d < length L \<Longrightarrow> length (flushed d L) = Suc d"
  by (simp add: flushed_def)

lemma levels_ok_flushed:
  assumes "levels_ok L" and "d < length L"
  shows "levels_ok (flushed d L)"
proof -
  have "tl (take (Suc d) (map fst L)) = take d (tl (map fst L))" by (simp add: take_tl)
  then have "set (tl (map fst (flushed d L))) \<subseteq> set (tl (map fst L))"
    by (simp add: map_fst_flushed [OF assms(2)] set_take_subset)
  moreover have "flushed d L \<noteq> []" by (simp add: flushed_def)
  moreover have "fst (hd (flushed d L)) = fst (hd L)"
    using map_fst_flushed [OF assms(2)] assms by (cases L; cases "flushed d L") auto
  ultimately show ?thesis using assms(1) by (auto simp: levels_ok_def)
qed

lemma levels_ok_nth: "levels_ok L \<Longrightarrow> Suc i < length L \<Longrightarrow> fst (L ! Suc i) \<noteq> Root \<and> 0 < plen (fst (L ! Suc i))"
  by (cases L) (auto simp: levels_ok_def)

lemma nth_children:
  "Suc d < length L \<Longrightarrow> map (child_of L) [1..<length L] ! d = child_of L (Suc d)"
  by simp

lemma CBB_flush_sound:
  assumes "cbb_rep cbb L" and "CBB_flush d cbb = (Some u, cbb')"
  shows "d < length L \<and> cbb_rep cbb' (flushed d L) \<and> closable (drop (Suc d) L)"
  using assms(2)
proof (induction "length L - d" arbitrary: d cbb' u rule: less_induct)
  case less
  from assms(1) have ok: "levels_ok L" and live: "cbb_live cbb (raw L) (map (child_of L) [1..<length L])"
    by (auto simp: cbb_rep_def)
  then have L: "L \<noteq> []" by (simp add: levels_ok_def)
  from live obtain b where b: "cbb_base cbb = Some b" "\<not> cb_error b" by (rule cbb_liveE)
  note ch = cbb_live_base(2) [OF live]
  have lch: "length (cbb_children cbb) = length L - 1" by (simp add: ch)
  note step = less.prems [unfolded CBB_flush.simps [of d cbb] b(1) option.case lch]
  show ?case
  proof (cases "Suc d < length L")
    case False
    from step b have "\<not> length L - 1 < d" "cbb' = cbb" using False by (auto split: if_splits)
    moreover from this False L have "Suc d = length L" by (cases L) auto
    ultimately have "Suc d = length L" "cbb' = cbb" by simp_all
    with assms(1) show ?thesis by (simp add: flushed_last)
  next
    case True
    let ?k = "fst (L ! Suc d)"
    let ?c = "snd (L ! Suc d) @ close (drop (Suc (Suc d)) L)"
    let ?L0 = "take (Suc d) L"
    have k: "?k \<noteq> Root" "0 < plen ?k" using levels_ok_nth [OF ok True] by auto
    have cd: "cbb_children cbb ! d = child_of L (Suc d)" unfolding ch by (rule nth_children [OF True])
    let ?start = "size_add (length (raw ?L0)) (plen ?k)"
    from step True b k(2) cd obtain u1 cbb1 where
      rec: "CBB_flush (Suc d) cbb = (Some u1, cbb1)"
      and fc: "flush_child d ?start cbb1 = (Some u, cbb')"
      by (auto simp: child_of_def Let_def split: if_splits prod.splits option.splits)
    from less.hyps [OF _ rec] True have rep1: "cbb_rep cbb1 (flushed (Suc d) L)"
      and cl: "closable (drop (Suc (Suc d)) L)" by auto
    have f1: "flushed (Suc d) L = ?L0 @ [(?k, ?c)]"
      using True by (simp add: flushed_def)
    have L0: "?L0 \<noteq> []" using True by auto
    have live1: "cbb_live cbb1 (raw ?L0 @ replicate (plen ?k) 0 @ ?c)
        (map (child_of ?L0) [1..<length ?L0] @
          [\<lparr>cc_offset = length (raw ?L0), cc_pending_len_len = plen ?k, cc_pending_is_asn1 = (?k = Asn1)\<rparr>])"
      using rep1 unfolding cbb_rep_def f1 children_snoc [OF L0] by simp
    have start: "?start = length (raw ?L0) + plen ?k"
      using cbb_live_base(3) [OF live1] by (simp add: size_add_def)
    have lcs: "length (map (child_of ?L0) [1..<length ?L0]) = d" using True by simp
    from flush_child_live [OF live1 k, unfolded lcs, OF fc [unfolded start]]
    have live2: "cbb_live cbb' (raw ?L0 @ wrap ?k ?c) (map (child_of ?L0) [1..<length ?L0])"
      and fit: "fits ?k (length ?c)" by auto
    have f0: "flushed d L = take d L @ [(fst (L ! d), snd (L ! d) @ wrap ?k ?c)]"
      by (rule flushed_Suc(2) [OF True])
    have t0: "?L0 = take d L @ [(fst (L ! d), snd (L ! d))]" using True by (simp add: take_Suc_conv_app_nth)
    have chs: "map (child_of ?L0) [1..<length ?L0] = map (child_of (flushed d L)) [1..<length (flushed d L)]"
      unfolding f0 t0 by (rule children_last_bytes)
    have bytes: "raw ?L0 @ wrap ?k ?c = raw (flushed d L)" unfolding f0 t0 by simp
    have "cbb_rep cbb' (flushed d L)"
      unfolding cbb_rep_def using live2 [unfolded chs bytes] levels_ok_flushed [OF ok, of d] True by simp
    moreover have "closable (drop (Suc d) L)"
    proof -
      have "drop (Suc d) L = (?k, snd (L ! Suc d)) # drop (Suc (Suc d)) L"
        using True by (simp add: Cons_nth_drop_Suc)
      then show ?thesis using fit cl by (simp only: closable.simps simp_thms)
    qed
    ultimately show ?thesis using True by simp
  qed
qed

text \<open>
  Writing to a handle: everything below it is flushed, then the bytes go to the end of its level;
  opening a child adds a level.
\<close>

definition append_level :: "nat \<Rightarrow> u8 list \<Rightarrow> level list \<Rightarrow> level list" where
  "append_level d bs L = take d L @ [(fst (L ! d), snd (L ! d) @ close (drop (Suc d) L) @ bs)]"

lemma append_level_flushed: "flushed d L = append_level d [] L"
  by (simp add: flushed_def append_level_def)

lemma append_level_twice [simp]:
  "d < length L \<Longrightarrow> append_level d cs (append_level d bs L) = append_level d (bs @ cs) L"
  by (simp add: append_level_def nth_append min_def)

lemma length_append_level [simp]: "d < length L \<Longrightarrow> length (append_level d bs L) = Suc d"
  by (simp add: append_level_def)

lemma drop_append_level [simp]: "d < length L \<Longrightarrow> drop (Suc d) (append_level d bs L) = []"
  by simp

lemma rep_append:
  assumes "cbb_rep cbb (append_level d as L)" and "d < length L"
    and "cbb_live cbb' (raw (append_level d as L) @ bs) (cbb_children cbb)"
  shows "cbb_rep cbb' (append_level d (as @ bs) L)"
proof -
  let ?M = "take d L" and ?k = "fst (L ! d)" and ?xs = "snd (L ! d) @ close (drop (Suc d) L) @ as"
  have a: "append_level d as L = ?M @ [(?k, ?xs)]" and b: "append_level d (as @ bs) L = ?M @ [(?k, ?xs @ bs)]"
    by (simp_all add: append_level_def)
  from assms(1) have ok: "levels_ok (?M @ [(?k, ?xs)])"
    and "cbb_live cbb (raw (?M @ [(?k, ?xs)])) (map (child_of (?M @ [(?k, ?xs)])) [1..<length (?M @ [(?k, ?xs)])])"
    by (auto simp: cbb_rep_def a)
  note ch = cbb_live_base(2) [OF this(2)]
  have "levels_ok (?M @ [(?k, ?xs @ bs)])"
    using ok by (cases ?M) (auto simp: levels_ok_def)
  with assms(3) show ?thesis
    unfolding cbb_rep_def a b ch children_last_bytes [of ?M ?k ?xs "?xs @ bs"] by simp
qed

lemma rep_live: "cbb_rep cbb L \<Longrightarrow> cbb_live cbb (raw L) (cbb_children cbb)"
  using cbb_live_base(2) by (auto simp: cbb_rep_def)

lemma rep_len: "cbb_rep cbb L \<Longrightarrow> cb_len (the (cbb_base cbb)) = length (raw L) \<and> length (raw L) < 2 ^ 63"
  using cbb_live_base(1,3) [OF rep_live] by blast

text \<open>What every writing operation has in common: a flush, and then bytes at the end of the buffer.\<close>

definition writes :: "nat \<Rightarrow> u8 list \<Rightarrow> (unit, CBB) step \<Rightarrow> bool" where
  "writes d bs p \<longleftrightarrow> (\<forall>cbb cbb' L u. cbb_rep cbb L \<longrightarrow> p cbb = (Some u, cbb') \<longrightarrow>
     d < length L \<and> closable (drop (Suc d) L) \<and> cbb_rep cbb' (append_level d bs L))"

lemma writesI:
  assumes "\<And>cbb cbb' L u. cbb_rep cbb L \<Longrightarrow> p cbb = (Some u, cbb') \<Longrightarrow>
    d < length L \<and> closable (drop (Suc d) L) \<and> cbb_rep cbb' (append_level d bs L)"
  shows "writes d bs p"
  using assms by (auto simp: writes_def)

lemma writesD:
  assumes "writes d bs p" and "cbb_rep cbb L" and "p cbb = (Some u, cbb')"
  shows "d < length L" and "closable (drop (Suc d) L)" and "cbb_rep cbb' (append_level d bs L)"
  using assms by (auto simp: writes_def)

lemma writes_flush: "writes d [] (CBB_flush d)"
  by (rule writesI) (auto dest: CBB_flush_sound simp: append_level_flushed)

lemma writes_after_flush:
  assumes "\<And>cbb cbb' bytes cs u. cbb_live cbb bytes cs \<Longrightarrow> q cbb = (Some u, cbb') \<Longrightarrow>
    cbb_live cbb' (bytes @ bs) cs"
  shows "writes d bs (and_then (CBB_flush d) (\<lambda>_. q))"
proof (rule writesI)
  fix cbb cbb' L u
  assume r: "cbb_rep cbb L" and "and_then (CBB_flush d) (\<lambda>_. q) cbb = (Some u, cbb')"
  then obtain x cbb1 where f: "CBB_flush d cbb = (Some x, cbb1)" and q: "q cbb1 = (Some u, cbb')"
    by auto
  note w = writesD [OF writes_flush r f]
  from assms [OF rep_live [OF w(3)] q] rep_append [OF w(3,1), of cbb' bs] w
  show "d < length L \<and> closable (drop (Suc d) L) \<and> cbb_rep cbb' (append_level d bs L)" by simp
qed

lemma writes_then:
  assumes "writes d as p" and "writes d bs q"
  shows "writes d (as @ bs) (and_then p (\<lambda>_. q))"
proof (rule writesI)
  fix cbb cbb' L u
  assume r: "cbb_rep cbb L" and "and_then p (\<lambda>_. q) cbb = (Some u, cbb')"
  then obtain x cbb1 where p: "p cbb = (Some x, cbb1)" and q: "q cbb1 = (Some u, cbb')" by auto
  note w1 = writesD [OF assms(1) r p]
  note w2 = writesD [OF assms(2) w1(3) q]
  show "d < length L \<and> closable (drop (Suc d) L) \<and> cbb_rep cbb' (append_level d (as @ bs) L)"
    using w1 w2 by simp
qed

lemma writes_add_u: "n < 8 \<Longrightarrow> writes d (be_bytes n (unat v)) (and_then (CBB_flush d) (\<lambda>_. cbb_buffer_add_u v n))"
  by (rule writes_after_flush) (blast dest: cbb_buffer_add_u_live)

lemma writes_u8: "writes d [b] (CBB_add_u8 d b)"
  using writes_add_u [of 1 d "ucast b"] by (simp add: CBB_add_u8_def unat_ucast_u8)

lemma writes_u16: "writes d (be_bytes 2 (unat v)) (CBB_add_u16 d v)"
proof -
  have "unat v < 2 ^ 16" using unsigned_less [of v] by simp
  then have "unat (ucast v :: u32) = unat v" by (intro unat_ucast_small) simp
  then show ?thesis using writes_add_u [of 2 d "ucast v"] by (simp add: CBB_add_u16_def)
qed

lemma writes_u24: "writes d (be_bytes 3 (unat v)) (CBB_add_u24 d v)"
  using writes_add_u [of 3 d v] by (simp add: CBB_add_u24_def)

lemma writes_u32: "writes d (be_bytes 4 (unat v)) (CBB_add_u32 d v)"
  using writes_add_u [of 4 d v] by (simp add: CBB_add_u32_def)

lemma writes_bytes:
  assumes "length data < 2 ^ 63"
  shows "writes d data (CBB_add_bytes d data)"
  unfolding CBB_add_bytes_def
proof (rule writes_after_flush)
  fix cbb cbb' bytes cs u
  assume l: "cbb_live cbb bytes cs"
    and "and_then (cbb_buffer_add (length data))
           (\<lambda>dest cbb. (Some (), map_buf (\<lambda>b. put_bytes b dest data) cbb)) cbb = (Some u, cbb')"
  then obtain off cbb1 where a: "cbb_buffer_add (length data) cbb = (Some off, cbb1)"
    and c: "cbb' = map_buf (\<lambda>b. put_bytes b off data) cbb1" by auto
  from cbb_buffer_add_live [OF l assms a] obtain junk where
    j: "off = length bytes" "length junk = length data" "cbb_live cbb1 (bytes @ junk) cs" by blast
  show "cbb_live cbb' (bytes @ data) cs"
    unfolding c j(1) by (rule map_buf_live [OF j(3)]) (use j(2) put_bytes_append in auto)
qed

section \<open>ASN.1 children\<close>

definition opens :: "nat \<Rightarrow> u8 list \<Rightarrow> prefix \<Rightarrow> (unit, CBB) step \<Rightarrow> bool" where
  "opens d bs k p \<longleftrightarrow> (\<forall>cbb cbb' L u. cbb_rep cbb L \<longrightarrow> p cbb = (Some u, cbb') \<longrightarrow>
     d < length L \<and> closable (drop (Suc d) L) \<and> cbb_rep cbb' (append_level d bs L @ [(k, [])]))"

lemma opensD:
  assumes "opens d bs k p" and "cbb_rep cbb L" and "p cbb = (Some u, cbb')"
  shows "d < length L" and "closable (drop (Suc d) L)" and "cbb_rep cbb' (append_level d bs L @ [(k, [])])"
  using assms by (auto simp: opens_def)

text \<open>A prefix of zeros at the end of a level becomes an open child.\<close>

lemma rep_open:
  assumes "cbb_rep cbb (append_level d bs L)" and "d < length L" and "k \<noteq> Root" "0 < plen k" "plen k < 8"
    and "cbb_live cbb' (raw (append_level d bs L) @ replicate (plen k) 0) cs"
    and "cbb_children cbb = cs'"
  shows "cbb_rep (cbb_open_child (length (raw (append_level d bs L))) (plen k) (k = Asn1) d
           (cbb'\<lparr>cbb_children := cs'\<rparr>)) (append_level d bs L @ [(k, [])])"
proof -
  let ?M = "append_level d bs L"
  have M: "?M \<noteq> []" "length ?M = Suc d" using assms(2) by (simp_all add: append_level_def)
  from assms(1) have ok: "levels_ok ?M" and l: "cbb_live cbb (raw ?M) (map (child_of ?M) [1..<length ?M])"
    by (auto simp: cbb_rep_def)
  have "cs' = map (child_of ?M) [1..<Suc d]" using cbb_live_base(2) [OF l] assms(7) M by simp
  then have t: "take d cs' = map (child_of ?M) [1..<length ?M]" using M by simp
  have "levels_ok (?M @ [(k, [])])" using ok M assms(3-5) by (cases ?M) (auto simp: levels_ok_def)
  moreover have "raw (?M @ [(k, [])]) = raw ?M @ replicate (plen k) 0" by simp
  ultimately show ?thesis
    unfolding cbb_rep_def children_snoc [OF M(1)] cbb_open_child_def
    using children_live [OF assms(6), of "take d cs' @ [\<lparr>cc_offset = length (raw ?M), cc_pending_len_len = plen k, cc_pending_is_asn1 = (k = Asn1)\<rparr>]"] t
    by simp
qed

lemma base128_len_len_eq: "base128_len_len v = b128_digits (unat v)"
proof (induction v rule: base128_len_len.induct)
  case (1 v)
  show ?case
  proof (cases "v > 0")
    case True
    then have "0 < unat v" by (simp add: word_less_nat_alt)
    with 1 [OF True] True show ?thesis
      by (subst base128_len_len.simps)
         (simp add: b128_digits_step unat_drop_bit_eq drop_bit_eq_div [where 'a = nat])
  next
    case False
    then have "v = 0" using word_neq_0_conv by blast
    then show ?thesis by (simp add: base128_len_len.simps)
  qed
qed

lemma base128_byte: "ucast (drop_bit (7 * i) v) AND 0x7f = (word_of_nat (unat v div 128 ^ i mod 128) :: u8)"
  for v :: u64
proof -
  have "unat (ucast x :: u8) mod 128 = unat x mod 128" for x :: u64
    by (simp add: unsigned_ucast_eq take_bit_eq_mod mod_mod_cancel)
  then have "unat (ucast (drop_bit (7 * i) v) AND (0x7f :: u8)) = unat v div 128 ^ i mod 128"
    by (simp only: u8_low7) (simp add: unat_drop_bit_eq drop_bit_eq_div [where 'a = nat] power_mult)
  then show ?thesis by (rule unat_eqD)
qed

lemma writes_ret [simp]: "writes d [] (and_then (CBB_flush d) (\<lambda>_. ret ()))"
  by (rule writes_after_flush) simp

lemma writes_base128_bytes: "writes d (b128_low (Suc k) (unat v)) (add_base128_bytes d v (Suc k))"
proof (induction k)
  case 0
  have "and_then (CBB_add_u8 d b) (\<lambda>_. ret ()) = CBB_add_u8 d b" for b
    by (rule ext) (simp add: and_then_def ret_def split: prod.splits option.splits)
  then show ?case using writes_u8 by (simp add: b128_low_def base128_byte [of 0, simplified])
next
  case (Suc k)
  have "writes d ([ucast (drop_bit (7 * Suc k) v) AND 0x7f OR 0x80] @ b128_low (Suc k) (unat v))
     (and_then (CBB_add_u8 d (ucast (drop_bit (7 * Suc k) v) AND 0x7f OR 0x80)) (\<lambda>_. add_base128_bytes d v (Suc k)))"
    by (rule writes_then [OF writes_u8 Suc.IH])
  then show ?case
    by (simp only: add_base128_bytes.simps(2) [of d v "Suc k"] base128_byte Let_def b128_low_Suc [of "Suc k"]
        append_Cons append_Nil if_True if_False simp_thms nat.simps)
qed

lemma writes_base128: "writes d (b128 (unat v)) (add_base128_integer d v)"
proof (cases "unat v = 0")
  case True
  then show ?thesis using writes_base128_bytes [of d 0 v]
    by (simp add: add_base128_integer_def base128_len_len_eq b128_eq_low)
next
  case False
  then have "b128_digits (unat v) = Suc (b128_digits (unat v div 128))" by (intro b128_digits_step) simp
  then show ?thesis using writes_base128_bytes [of d "b128_digits (unat v div 128)" v]
    by (simp only: add_base128_integer_def base128_len_len_eq b128_eq_low Let_def nat.distinct if_False)
qed

text \<open>\<open>writes_tag\<close>: the identifier octets; a tag number from 31 on takes the long form.\<close>

lemma writes_tag:
  "writes d (der_tag tag)
     (let tag_bits = ucast (drop_bit CBS_ASN1_TAG_SHIFT tag) AND 0xe0;
          tag_number = tag AND CBS_ASN1_TAG_NUMBER_MASK
      in if tag_number \<ge> 0x1f
         then and_then (CBB_add_u8 d (tag_bits OR 0x1f)) (\<lambda>_. add_base128_integer d (ucast tag_number))
         else CBB_add_u8 d (tag_bits OR ucast tag_number))"
proof -
  let ?n = "tag AND mask 29"
  have le: "0x1f \<le> ?n \<longleftrightarrow> 31 \<le> unat ?n" by (simp add: word_le_nat_alt)
  show ?thesis
  proof (cases "31 \<le> unat ?n")
    case True
    have "unat (ucast ?n :: u64) = unat ?n"
      using unat_mask_less [of tag 29] by (intro unat_ucast_small) simp
    with writes_base128 [of d "ucast ?n"] have "writes d (b128 (unat ?n)) (add_base128_integer d (ucast ?n))"
      by simp
    from writes_then [OF writes_u8 this, of "ucast (drop_bit 24 tag) AND 0xe0 OR 0x1f"] True le show ?thesis
      by (simp add: der_tag_def CBS_ASN1_TAG_SHIFT_def tag_number_mask Let_def)
  next
    case False
    have "ucast ?n = (word_of_nat (unat ?n) :: u8)" by simp
    with False le writes_u8 show ?thesis
      by (simp add: der_tag_def CBS_ASN1_TAG_SHIFT_def tag_number_mask Let_def)
  qed
qed

lemma opens_prefixed:
  assumes "0 < n" and "n < 8"
  shows "opens d [] (Fixed n) (cbb_add_length_prefixed d n)"
  unfolding opens_def
proof (intro allI impI)
  fix cbb cbb' L u
  assume r: "cbb_rep cbb L" and "cbb_add_length_prefixed d n cbb = (Some u, cbb')"
  then obtain cbb1 off cbb2 x where f: "CBB_flush d cbb = (Some x, cbb1)"
    and a: "cbb_buffer_add n cbb1 = (Some off, cbb2)"
    and c: "cbb' = cbb_open_child off n False d (map_buf (\<lambda>b. put_bytes b off (replicate n 0)) cbb2)"
    by (auto simp: cbb_add_length_prefixed_def)
  note w = writesD [OF writes_flush r f]
  let ?M = "append_level d [] L"
  have "n < 2 ^ 63" using assms by simp
  from cbb_buffer_add_live [OF rep_live [OF w(3)] this a] obtain junk where
    j: "off = length (raw ?M)" "length junk = n" "cbb_live cbb2 (raw ?M @ junk) (cbb_children cbb1)" by blast
  have l: "cbb_live (map_buf (\<lambda>b. put_bytes b off (replicate n 0)) cbb2) (raw ?M @ replicate n 0) (cbb_children cbb1)"
    unfolding j(1) by (rule map_buf_live [OF j(3)]) (use j(2) put_bytes_append in auto)
  from rep_open [OF w(3,1), of "Fixed n", simplified, OF assms l refl]
  show "d < length L \<and> closable (drop (Suc d) L) \<and> cbb_rep cbb' (?M @ [(Fixed n, [])])"
    using w cbb_live_base(2) [OF l] unfolding c j(1)
    by (simp add: cbb_open_child_def)
qed

lemma opens_asn1: "opens d (der_tag tag) Asn1 (CBB_add_asn1 d tag)"
  unfolding opens_def
proof (intro allI impI)
  fix cbb cbb' L u
  assume r: "cbb_rep cbb L" and "CBB_add_asn1 d tag cbb = (Some u, cbb')"
  then obtain x y z cbb1 cbb2 cbb3 where f: "CBB_flush d cbb = (Some x, cbb1)"
    and t: "(let tag_bits = ucast (drop_bit CBS_ASN1_TAG_SHIFT tag) AND 0xe0;
          tag_number = tag AND CBS_ASN1_TAG_NUMBER_MASK
      in if tag_number \<ge> 0x1f
         then and_then (CBB_add_u8 d (tag_bits OR 0x1f)) (\<lambda>_. add_base128_integer d (ucast tag_number))
         else CBB_add_u8 d (tag_bits OR ucast tag_number)) cbb1 = (Some y, cbb2)"
    and b: "CBB_add_u8 d 0 cbb2 = (Some z, cbb3)"
    and c: "cbb' = cbb_open_child (cb_len (the (cbb_base cbb2))) 1 True d cbb3"
    by (auto simp: CBB_add_asn1_def Let_def)
  note w1 = writesD [OF writes_flush r f]
  note w2 = writesD [OF writes_tag w1(3) t]
  let ?M = "append_level d (der_tag tag) L"
  have M: "append_level d (der_tag tag) (append_level d [] L) = ?M" using w1 by simp
  note r2 = w2(3) [unfolded M]
  have ld: "d < length ?M" using w1 by simp
  note w3 = writesD [OF writes_u8 r2 b]
  have M3: "append_level d [0] ?M = append_level d (der_tag tag @ [0]) L" using w1 by simp
  have raw3: "raw (append_level d (der_tag tag @ [0]) L) = raw ?M @ replicate (plen Asn1) 0"
    by (simp add: append_level_def)
  have l3: "cbb_live cbb3 (raw ?M @ replicate (plen Asn1) 0) (cbb_children cbb3)"
    using rep_live [OF w3(3)] unfolding M3 raw3 .
  have ch: "cbb_children cbb3 = cbb_children cbb2"
  proof -
    have "cbb_children cbb3 = map (child_of (append_level d [0] ?M)) [1..<length (append_level d [0] ?M)]"
      using w3(3) by (auto simp: cbb_rep_def dest: cbb_live_base(2))
    also have "\<dots> = map (child_of ?M) [1..<length ?M]"
      unfolding M3 unfolding append_level_def by (rule children_last_bytes)
    also have "\<dots> = cbb_children cbb2"
      using r2 by (auto simp: cbb_rep_def dest: cbb_live_base(2))
    finally show ?thesis .
  qed
  have off: "cb_len (the (cbb_base cbb2)) = length (raw ?M)" using rep_len [OF r2] by simp
  from rep_open [OF r2 w1(1) _ _ _ l3 refl] ch
  show "d < length L \<and> closable (drop (Suc d) L) \<and> cbb_rep cbb' (?M @ [(Asn1, [])])"
    using w1 unfolding c off by (simp add: cbb_open_child_def)
qed

lemma child_levels:
  assumes "d < length L"
  shows "append_level (Suc d) c (append_level d bs L @ [(k, [])]) = append_level d bs L @ [(k, c)]"
    and "append_level d [] (append_level d bs L @ [(k, c)]) = append_level d (bs @ wrap k c) L"
    and "drop (Suc d) (append_level d bs L @ [(k, c)]) = [(k, c)]"
  using assms by (simp_all add: append_level_def nth_append min_def)

text \<open>Opening a child, filling it and flushing the parent.  What fills a child meets it innermost.\<close>

definition fills :: "nat \<Rightarrow> u8 list \<Rightarrow> ('a, CBB) step \<Rightarrow> bool" where
  "fills d bs p \<longleftrightarrow> (\<forall>cbb cbb' L u. cbb_rep cbb L \<longrightarrow> length L = Suc d \<longrightarrow> p cbb = (Some u, cbb') \<longrightarrow>
     cbb_rep cbb' (append_level d bs L))"

lemma fillsI:
  assumes "\<And>cbb cbb' L u. cbb_rep cbb L \<Longrightarrow> length L = Suc d \<Longrightarrow> p cbb = (Some u, cbb') \<Longrightarrow>
    cbb_rep cbb' (append_level d bs L)"
  shows "fills d bs p"
  using assms by (auto simp: fills_def)

lemma fillsD:
  "fills d bs p \<Longrightarrow> cbb_rep cbb L \<Longrightarrow> length L = Suc d \<Longrightarrow> p cbb = (Some u, cbb') \<Longrightarrow>
    cbb_rep cbb' (append_level d bs L)"
  by (auto simp: fills_def)

lemma writes_fills: "writes d bs p \<Longrightarrow> fills d bs p"
  by (rule fillsI) (rule writesD)

lemma fills_ret: "fills d [] (ret x)"
  by (rule fillsI) (simp add: append_level_flushed [symmetric] flushed_last)

lemma fills_then:
  assumes "fills d as p" and "\<And>x. fills d bs (q x)"
  shows "fills d (as @ bs) (and_then p q)"
proof (rule fillsI)
  fix cbb cbb' L u
  assume r: "cbb_rep cbb L" and l: "length L = Suc d" and "and_then p q cbb = (Some u, cbb')"
  then obtain x cbb1 where p: "p cbb = (Some x, cbb1)" and q: "q x cbb1 = (Some u, cbb')" by auto
  from fillsD [OF assms(2) fillsD [OF assms(1) r l p] _ q] l
  show "cbb_rep cbb' (append_level d (as @ bs) L)" by simp
qed

lemma child_step:
  assumes p: "opens d bs k p" and q: "fills (Suc d) c q"
    and r: "cbb_rep cbb L" and s: "and_then p (\<lambda>_. and_then q (\<lambda>_. CBB_flush d)) cbb = (Some u, cbb')"
  shows "d < length L \<and> closable (drop (Suc d) L) \<and> cbb_rep cbb' (append_level d (bs @ wrap k c) L) \<and>
    fits k (length c)"
proof -
  from s obtain x y cbb1 cbb2 where p1: "p cbb = (Some x, cbb1)" and q1: "q cbb1 = (Some y, cbb2)"
    and f: "CBB_flush d cbb2 = (Some u, cbb')" by auto
  note w1 = opensD [OF p r p1]
  have "cbb_rep cbb2 (append_level (Suc d) c (append_level d bs L @ [(k, [])]))"
    using fillsD [OF q w1(3) _ q1] w1(1) by simp
  note w3 = writesD [OF writes_flush this f]
  note cl = child_levels [OF w1(1)]
  from w1 w3 show ?thesis by (simp add: cl)
qed

lemma writes_child:
  assumes "opens d bs k p" and "fills (Suc d) c q"
  shows "writes d (bs @ wrap k c) (and_then p (\<lambda>_. and_then q (\<lambda>_. CBB_flush d)))"
  by (rule writesI) (blast dest: child_step [OF assms])

lemma der_element_wrap: "der_tag tag @ wrap Asn1 c = der_element tag c"
  by (simp add: der_element_def der_header_def)

lemma writes_octet_string:
  "length data < 2 ^ 63 \<Longrightarrow> writes d (der_element CBS_ASN1_OCTETSTRING data) (CBB_add_asn1_octet_string d data)"
  unfolding CBB_add_asn1_octet_string_def der_element_wrap [symmetric]
  by (rule writes_child [OF opens_asn1 writes_fills [OF writes_bytes]])

lemma writes_bool:
  "writes d (der_element CBS_ASN1_BOOLEAN [if v \<noteq> 0 then 0xff else 0]) (CBB_add_asn1_bool d v)"
  unfolding CBB_add_asn1_bool_def der_element_wrap [symmetric]
  by (rule writes_child [OF opens_asn1 writes_fills [OF writes_u8]])

section \<open>INTEGER\<close>

fun uint_tail :: "bool \<Rightarrow> u8 list \<Rightarrow> u8 list" where
  "uint_tail started [] = []"
| "uint_tail started (b # bs) =
     (if \<not> started \<and> b = 0 then uint_tail started bs
      else (if \<not> started \<and> b AND 0x80 \<noteq> 0 then [0] else []) @ b # uint_tail True bs)"

lemma uint_tail_True [simp]: "uint_tail True bs = bs"
  by (induction bs) auto

lemma fills_uint64_bytes:
  "fills d (uint_tail started (map (\<lambda>i. ucast (drop_bit (8 * (7 - i)) v)) is)) (add_uint64_bytes d v is started)"
proof (induction "is" arbitrary: started)
  case Nil
  show ?case using fills_ret by (simp only: add_uint64_bytes.simps uint_tail.simps list.map)
next
  case (Cons i "is")
  let ?b = "ucast (drop_bit (8 * (7 - i)) v) :: u8"
  have pad: "fills d (if \<not> started \<and> ?b AND 0x80 \<noteq> 0 then [0] else [])
      (if \<not> started \<and> ?b AND 0x80 \<noteq> 0 then CBB_add_u8 d 0 else ret ())"
    using writes_fills [OF writes_u8] fills_ret by auto
  have "fills d ((if \<not> started \<and> ?b AND 0x80 \<noteq> 0 then [0] else []) @ [?b] @
      uint_tail True (map (\<lambda>i. ucast (drop_bit (8 * (7 - i)) v)) is))
     (and_then (if \<not> started \<and> ?b AND 0x80 \<noteq> 0 then CBB_add_u8 d 0 else ret ()) (\<lambda>_.
                and_then (CBB_add_u8 d ?b) (\<lambda>_. add_uint64_bytes d v is True)))"
    by (intro fills_then pad writes_fills [OF writes_u8] Cons.IH)
  with Cons.IH [of False] show ?case
    by (cases "\<not> started \<and> ?b = 0") (auto simp: Let_def)
qed

lemma add_uint64_bytes_started:
  "add_uint64_bytes d v is st cbb = (Some st', cbb') \<Longrightarrow>
    st' = (st \<or> (\<exists>i\<in>set is. ucast (drop_bit (8 * (7 - i)) v) \<noteq> (0 :: u8)))"
proof (induction "is" arbitrary: st cbb)
  case (Cons i "is")
  then show ?case by (auto simp: Let_def split: if_splits)
qed simp

lemma be_bytes_map:
  "be_bytes n x = map (\<lambda>i. word_of_nat (x div 256 ^ (n - 1 - i))) [0..<n]"
proof (induction n arbitrary: x)
  case (Suc n)
  have "map (\<lambda>i. word_of_nat (x div 256 div 256 ^ (n - 1 - i)) :: u8) [0..<n] =
      map (\<lambda>i. word_of_nat (x div 256 ^ (n - i))) [0..<n]"
  proof (rule map_cong)
    fix i assume "i \<in> set [0..<n]"
    then have "n - i = Suc (n - 1 - i)" by auto
    then show "(word_of_nat (x div 256 div 256 ^ (n - 1 - i)) :: u8) = word_of_nat (x div 256 ^ (n - i))"
      by (simp add: div_mult2_eq)
  qed simp
  with Suc show ?case by simp
qed simp

lemma uint64_bytes: "map (\<lambda>i. ucast (drop_bit (8 * (7 - i)) v)) [0..<8] = be_bytes 8 (unat v)" for v :: u64
proof -
  have "ucast (drop_bit (8 * k) v) = (word_of_nat (unat v div 256 ^ k) :: u8)" for k
    by (simp add: word_unat_eq_iff unsigned_ucast_eq unat_of_nat take_bit_eq_mod unat_drop_bit_eq drop_bit_eq_div [where 'a = nat] power_mult)
  then show ?thesis unfolding be_bytes_map by simp
qed

lemma uint_tail_dropWhile:
  "uint_tail False bs =
     (case dropWhile (\<lambda>b. b = 0) bs of [] \<Rightarrow> [] | b # c \<Rightarrow> if b AND 0x80 \<noteq> 0 then 0 # b # c else b # c)"
  by (induction bs) auto

lemma be_nat_dropWhile: "be_nat (dropWhile (\<lambda>b. b = 0) bs) = be_nat bs"
  by (induction bs) (simp_all add: be_nat_Cons)

lemma uint_tail_der:
  assumes "be_nat bs = n"
  shows "uint_tail False bs @ (if n = 0 then [0] else []) = der_uint n"
proof -
  let ?c = "dropWhile (\<lambda>b. b = 0) bs"
  have n: "be_nat ?c = n" using assms by (simp add: be_nat_dropWhile)
  show ?thesis
  proof (cases ?c)
    case Nil
    have "n = 0" using n unfolding Nil by simp
    then show ?thesis unfolding uint_tail_dropWhile Nil by (simp add: der_uint_def)
  next
    case (Cons b c)
    then have b: "b \<noteq> 0" using hd_dropWhile [of "\<lambda>b. b = 0" bs] by simp
    then have "byte_digits n = length ?c" "n \<noteq> 0"
      using byte_digits_be_nat [of ?c] be_nat_pos [of ?c] n Cons by auto
    with n Cons be_bytes_be_nat [of ?c] show ?thesis
      by (simp add: uint_tail_dropWhile der_uint_def u8_high_bit not_less)
  qed
qed

lemma writes_uint64:
  "writes d (der_element CBS_ASN1_INTEGER (der_uint (unat v))) (CBB_add_asn1_uint64 d v)"
proof (rule writesI)
  fix cbb cbb' L u
  let ?q = "and_then (add_uint64_bytes (Suc d) v [0..<8] False)
      (\<lambda>started. if \<not> started then CBB_add_u8 (Suc d) 0 else ret ())"
  let ?bs = "be_bytes 8 (unat v)"
  have "unat v < 2 ^ 64" using unsigned_less [of v] by simp
  then have n: "be_nat ?bs = unat v" by (simp add: be_nat_be_bytes)
  have q: "fills (Suc d) (der_uint (unat v)) ?q"
  proof (rule fillsI)
    fix cbb cbb' :: CBB and L and u :: unit
    assume r: "cbb_rep cbb L" and l: "length L = Suc (Suc d)" and "?q cbb = (Some u, cbb')"
    then obtain st cbb1 where a: "add_uint64_bytes (Suc d) v [0..<8] False cbb = (Some st, cbb1)"
      and b: "(if \<not> st then CBB_add_u8 (Suc d) 0 else ret ()) cbb1 = (Some u, cbb')" by auto
    have "st = (\<exists>i\<in>set [0..<8]. ucast (drop_bit (8 * (7 - i)) v) \<noteq> (0 :: u8))"
      using add_uint64_bytes_started [OF a] by simp
    also have "\<dots> = (\<exists>b\<in>set ?bs. b \<noteq> 0)" unfolding uint64_bytes [symmetric] by simp
    also have "\<dots> = (unat v \<noteq> 0)"
    proof
      assume "\<exists>b\<in>set ?bs. b \<noteq> 0"
      then obtain b c where "dropWhile (\<lambda>b. b = 0) ?bs = b # c"
        by (cases "dropWhile (\<lambda>b. b = 0) ?bs") (auto simp: dropWhile_eq_Nil_conv)
      then show "unat v \<noteq> 0" using be_nat_pos [of "b # c"] be_nat_dropWhile [of ?bs] n
          hd_dropWhile [of "\<lambda>b. b = 0" ?bs] by simp
    next
      assume "unat v \<noteq> 0"
      show "\<exists>b\<in>set ?bs. b \<noteq> 0"
      proof (rule ccontr)
        assume "\<not> (\<exists>b\<in>set ?bs. b \<noteq> 0)"
        then have "dropWhile (\<lambda>b. b = 0) ?bs = []" by (simp only: dropWhile_eq_Nil_conv) blast
        with be_nat_dropWhile [of ?bs] n \<open>unat v \<noteq> 0\<close> show False by simp
      qed
    qed
    finally have st: "st \<longleftrightarrow> unat v \<noteq> 0" .
    have "fills (Suc d) (if unat v = 0 then [0] else []) (if \<not> st then CBB_add_u8 (Suc d) 0 else ret ())"
      using st writes_fills [OF writes_u8] fills_ret by auto
    from fillsD [OF this fillsD [OF fills_uint64_bytes [of "Suc d" False v "[0..<8]", unfolded uint64_bytes] r l a] _ b] l
    show "cbb_rep cbb' (append_level (Suc d) (der_uint (unat v)) L)"
      by (simp add: uint_tail_der [OF n])
  qed
  assume r: "cbb_rep cbb L" and "CBB_add_asn1_uint64 d v cbb = (Some u, cbb')"
  then have "and_then (CBB_add_asn1 d CBS_ASN1_INTEGER) (\<lambda>_. and_then ?q (\<lambda>_. CBB_flush d)) cbb = (Some u, cbb')"
    by (simp only: CBB_add_asn1_uint64_def and_then_assoc)
  from child_step [OF opens_asn1 q r this, unfolded der_element_wrap]
  show "d < length L \<and> closable (drop (Suc d) L) \<and>
      cbb_rep cbb' (append_level d (der_element CBS_ASN1_INTEGER (der_uint (unat v))) L)" by blast
qed

section \<open>Creating and finishing\<close>

lemma CBB_init_rep:
  assumes "CBB_init cap m = (Some u, cbb)" and "mem_sane m" and "cap < 2 ^ 62"
  shows "cbb_rep cbb [(Root, [])]" and "cb_can_resize (the (cbb_base cbb))"
proof -
  obtain buf m1 where b: "OPENSSL_malloc cap m = (buf, m1)" by fastforce
  from assms(1) b obtain blk m2 where h: "OPENSSL_malloc sizeof_cbb_buffer m1 = (Some blk, m2)"
    and c: "cbb = (CBB_zero m1)\<lparr>cbb_base := Some \<lparr>cb_buf = buf, cb_len = 0, cb_cap = cap,
                          cb_can_resize = True, cb_error = False\<rparr>, cbb_children := [], cbb_mem := m2\<rparr>"
    and nz: "cap > 0 \<longrightarrow> buf \<noteq> None"
    by (auto simp: CBB_init_def cbb_init_def Let_def CBB_zero_def split: if_splits prod.splits option.splits)
  have "mem_sane m2"
    using OPENSSL_malloc_sane(1) [OF b] OPENSSL_malloc_sane(1) [OF h] assms(2) by (simp add: mem_sane_def)
  moreover have "length (case buf of None \<Rightarrow> [] | Some d \<Rightarrow> d) = cap"
    using nz b assms(3) OPENSSL_malloc_length [of cap m] by (cases buf) (auto simp: SIZE_MAX_def)
  ultimately show "cbb_rep cbb [(Root, [])]" using c assms(3)
    by (simp add: cbb_rep_def levels_ok_def cbb_live_def buffer_ok_def cb_bytes_def raw_def)
  show "cb_can_resize (the (cbb_base cbb))" using c by simp
qed

lemma CBB_init_fixed_rep:
  assumes "CBB_init_fixed buf (length buf) m = (Some u, cbb)" and "mem_sane m" and "length buf < 2 ^ 62"
  shows "cbb_rep cbb [(Root, [])]"
proof -
  from assms(1) obtain blk m2 where h: "OPENSSL_malloc sizeof_cbb_buffer m = (Some blk, m2)"
    and c: "cbb = (CBB_zero m)\<lparr>cbb_base := Some \<lparr>cb_buf = Some buf, cb_len = 0, cb_cap = length buf,
                          cb_can_resize = False, cb_error = False\<rparr>, cbb_children := [], cbb_mem := m2\<rparr>"
    by (auto simp: CBB_init_fixed_def cbb_init_def CBB_zero_def split: prod.splits option.splits)
  have "mem_sane m2" using OPENSSL_malloc_sane(1) [OF h] assms(2) by (simp add: mem_sane_def)
  with c assms(3) show ?thesis
    by (simp add: cbb_rep_def levels_ok_def cbb_live_def buffer_ok_def cb_bytes_def raw_def)
qed

lemma CBB_finish_sound:
  assumes "cbb_rep cbb L" and "CBB_finish d wd wl cbb = (Some (data, n), cbb')"
  shows "d = 0 \<and> n = length (close L) \<and> take n (case data of None \<Rightarrow> [] | Some b \<Rightarrow> b) = close L \<and>
    closable L \<and> cbb_base cbb' = None \<and> (\<forall>b. data = Some b \<longrightarrow> n \<le> length b \<and> length b < 2 ^ 63)"
proof -
  from assms(2) obtain x cbb1 b where d: "d = 0" and f: "CBB_flush 0 cbb = (Some x, cbb1)"
    and b: "cbb_base cbb1 = Some b" "data = cb_buf b" "n = cb_len b"
    and c: "cbb' = CBB_cleanup (cbb1\<lparr>cbb_base := Some (b\<lparr>cb_buf := None\<rparr>)\<rparr>)"
    by (auto simp: CBB_finish_def split: option.splits if_splits)
  note w = CBB_flush_sound [OF assms(1) f]
  from assms(1) obtain bs ls where L: "L = (Root, bs) # ls"
    by (cases L) (auto simp: cbb_rep_def levels_ok_def)
  have "raw (flushed 0 L) = close L" by (simp add: flushed_def L)
  with w have "cbb_live cbb1 (close L) (cbb_children cbb1)" using rep_live by metis
  with b d c w L show ?thesis
    by (auto simp: cbb_live_def CBB_cleanup_def Let_def cb_bytes_def buffer_ok_def split: option.splits)
qed

end
