(* ===== verification/Asn1_Tree.thy ===== *)
theory Asn1_Tree
  imports Cbb_Levels
begin

text \<open>
  A client of both halves of \<^verbatim>\<open>crypto/bytestring\<close>: a structure is written with the builder and read
  back with the reader.  \<open>build\<close> and \<open>read_all\<close> are the way the callers of the library use it
  (\<^verbatim>\<open>CBB_add_asn1\<close>, fill, \<^verbatim>\<open>CBB_flush\<close>; \<^verbatim>\<open>CBS_get_any_asn1\<close> until the window is empty); they are not
  translated from a file.
\<close>

datatype asn1 = Prim u32 "u8 list" | Con u32 "asn1 list"

primrec der_of :: "asn1 \<Rightarrow> u8 list" where
  "der_of (Prim tag c) = der_element tag c"
| "der_of (Con tag ts) = der_element tag (concat (map der_of ts))"

fun build :: "nat \<Rightarrow> asn1 \<Rightarrow> (unit, CBB) step" and
    build_all :: "nat \<Rightarrow> asn1 list \<Rightarrow> (unit, CBB) step" where
  "build d (Prim tag c) =
     and_then (CBB_add_asn1 d tag) (\<lambda>_. and_then (CBB_add_bytes (Suc d) c) (\<lambda>_. CBB_flush d))"
| "build d (Con tag ts) =
     and_then (CBB_add_asn1 d tag) (\<lambda>_. and_then (build_all (Suc d) ts) (\<lambda>_. CBB_flush d))"
| "build_all d [] = ret ()"
| "build_all d (t # ts) = and_then (build d t) (\<lambda>_. build_all d ts)"

text \<open>The recursion of the reader is bounded by the number of bytes.\<close>

fun read_all :: "nat \<Rightarrow> CBS \<Rightarrow> asn1 list option" where
  "read_all 0 s = None"
| "read_all (Suc fuel) s =
     (if CBS_len s = 0 then Some []
      else case CBS_get_any_asn1 s of
             (None, _) \<Rightarrow> None
           | (Some (out, tag), s') \<Rightarrow>
               if tag AND CBS_ASN1_CONSTRUCTED \<noteq> 0
               then (case read_all fuel out of
                       None \<Rightarrow> None
                     | Some ts \<Rightarrow> map_option ((#) (Con tag ts)) (read_all fuel s'))
               else map_option ((#) (Prim tag (window out))) (read_all fuel s'))"

text \<open>The constructed bit of a tag says which kind of element it is; contents are objects in memory.\<close>

primrec tags_ok :: "asn1 \<Rightarrow> bool" where
  "tags_ok (Prim tag c) = (tag AND CBS_ASN1_CONSTRUCTED = 0 \<and> length c < 2 ^ 63)"
| "tags_ok (Con tag ts) = (tag AND CBS_ASN1_CONSTRUCTED \<noteq> 0 \<and> list_all tags_ok ts)"

primrec sizes_ok :: "asn1 \<Rightarrow> bool" where
  "sizes_ok (Prim tag c) = (length c < 2 ^ 32)"
| "sizes_ok (Con tag ts) = (length (concat (map der_of ts)) < 2 ^ 32 \<and> list_all sizes_ok ts)"

section \<open>Building\<close>

lemma build_sound:
  "cbb_rep cbb L \<Longrightarrow> build d t cbb = (Some u, cbb') \<Longrightarrow> tags_ok t \<Longrightarrow>
     d < length L \<and> closable (drop (Suc d) L) \<and> cbb_rep cbb' (append_level d (der_of t) L) \<and> sizes_ok t"
  "cbb_rep cbb M \<Longrightarrow> length M = Suc d \<Longrightarrow> build_all d ts cbb = (Some u, cbb') \<Longrightarrow> list_all tags_ok ts \<Longrightarrow>
     cbb_rep cbb' (append_level d (concat (map der_of ts)) M) \<and> list_all sizes_ok ts"
proof (induction d t and d ts arbitrary: cbb cbb' u L and cbb cbb' u M rule: build_build_all.induct)
  case (1 d tag c)
  then have "length c < 2 ^ 63" by simp
  from child_step [OF opens_asn1 writes_fills [OF writes_bytes [OF this]] "1.prems"(1) "1.prems"(2) [unfolded build.simps],
      unfolded der_element_wrap]
  show ?case by simp
next
  case (2 d tag ts)
  from "2.prems"(2) obtain x y cbb1 cbb2 where p: "CBB_add_asn1 d tag cbb = (Some x, cbb1)"
    and q: "build_all (Suc d) ts cbb1 = (Some y, cbb2)" and f: "CBB_flush d cbb2 = (Some u, cbb')" by auto
  note o = opensD [OF opens_asn1 "2.prems"(1) p]
  have IH: "cbb_rep cbb2 (append_level (Suc d) (concat (map der_of ts)) (append_level d (der_tag tag) L @ [(Asn1, [])]))
      \<and> list_all sizes_ok ts"
    using "2.IH" [OF o(3) _ q] o(1) "2.prems"(3) by simp
  let ?c = "concat (map der_of ts)"
  note cl = child_levels [OF o(1), where k = Asn1]
  have r2: "cbb_rep cbb2 (append_level d (der_tag tag) L @ [(Asn1, ?c)])" using IH by (simp only: cl(1) simp_thms)
  note w = writesD [OF writes_flush r2 f, unfolded cl der_element_wrap]
  have "length ?c \<le> 0xfffffffe" using w(2) by simp
  then show ?case using o w IH by simp
next
  case (3 d)
  then show ?case by (simp add: append_level_flushed [symmetric] flushed_last)
next
  case (4 d t ts)
  from "4.prems"(3) obtain x cbb1 where p: "build d t cbb = (Some x, cbb1)"
    and q: "build_all d ts cbb1 = (Some u, cbb')" by auto
  have 1: "cbb_rep cbb1 (append_level d (der_of t) M) \<and> sizes_ok t"
    using "4.IH"(1) [OF "4.prems"(1) p] "4.prems"(4) by simp
  with "4.IH"(2) [OF _ _ q, of "append_level d (der_of t) M"] "4.prems"(2,4)
  show ?case by simp
qed

section \<open>Reading\<close>

lemma CBS_get_any_asn1_complete:
  assumes "cbs_ok s" and "window s = der_element tag c @ w" and "length c < 2 ^ 32"
  shows "\<exists>out s'. CBS_get_any_asn1 s = (Some (out, tag), s') \<and> window out = c \<and> window s' = w \<and>
    cbs_ok out \<and> cbs_ok s' \<and> cbs_len out < cbs_len s \<and> cbs_len s' < cbs_len s"
proof -
  let ?hl = "length (der_header tag (length c))"
  let ?out = "advance ?hl (cbs_cut (?hl + length c) s)" and ?s' = "advance (?hl + length c) s"
  have len: "cbs_len s = ?hl + length c + length w"
    using length_window [OF assms(1)] assms(2) by (simp add: der_element_def)
  have hl: "0 < ?hl" by (simp add: der_header_def der_length_def)
  have "CBS_get_any_asn1 s = (Some (?out, tag), ?s')"
    using der_element_complete [OF assms] by (simp add: CBS_get_any_asn1_def CBS_get_any_asn1_element_def CBS_skip_eq)
  moreover have "window ?out = c" "window ?s' = w" using assms(2) len by (simp_all add: der_element_def)
  moreover have "cbs_ok ?out" "cbs_ok ?s'" using assms(1) len by simp_all
  ultimately show ?thesis using len hl by auto
qed

lemma read_all_complete:
  assumes "cbs_ok s" and "window s = concat (map der_of ts)" and "cbs_len s < fuel"
    and "list_all tags_ok ts" and "list_all sizes_ok ts"
  shows "read_all fuel s = Some ts"
  using assms
proof (induction fuel arbitrary: s ts)
  case (Suc fuel)
  show ?case
  proof (cases ts)
    case Nil
    then show ?thesis using Suc.prems length_window [of s] by (simp add: CBS_len_def)
  next
    case (Cons t ts')
    obtain tag c where t: "t = Prim tag c \<or> (\<exists>us. t = Con tag us \<and> c = concat (map der_of us))"
      by (cases t) auto
    have enc: "window s = der_element tag c @ concat (map der_of ts')"
      using Suc.prems(2) Cons t by auto
    have c: "length c < 2 ^ 32" using Suc.prems(5) Cons t by auto
    from CBS_get_any_asn1_complete [OF Suc.prems(1) enc c] obtain out s' where
      g: "CBS_get_any_asn1 s = (Some (out, tag), s')" and w: "window out = c"
        "window s' = concat (map der_of ts')" "cbs_ok out" "cbs_ok s'"
        "cbs_len out < cbs_len s" "cbs_len s' < cbs_len s" by blast
    have ne: "CBS_len s \<noteq> 0" using w(5) by (simp add: CBS_len_def)
    have rest: "read_all fuel s' = Some ts'" using Suc.prems w Cons by (intro Suc.IH) auto
    show ?thesis
    proof (cases "tag AND CBS_ASN1_CONSTRUCTED = 0")
      case True
      then have "t = Prim tag c" using t Suc.prems(4) Cons by auto
      then show ?thesis using ne g rest True w(1) Cons by simp
    next
      case False
      then obtain us where us: "t = Con tag us" "c = concat (map der_of us)"
        using t Suc.prems(4) Cons by auto
      have "read_all fuel out = Some us" using Suc.prems w us Cons by (intro Suc.IH) auto
      then show ?thesis using ne g rest False us Cons by simp
    qed
  qed
qed simp

section \<open>Properties\<close>

lemma tiny_mem_sane: "mem_sane tiny_mem"
  by (simp add: mem_sane_def tiny_mem_def)

text \<open>C2: what is built is what is read.  If a program creates a builder, writes a structure of nested
  elements of any shape and finishes, and all of it succeeds, then the bytes it receives are the DER
  encoding of the structure, and the reader returns the same structure from them.\<close>

theorem build_then_read:
  assumes "mem_sane m" and "cap < 2 ^ 62" and "tags_ok t"
    and "CBB_init cap m = (Some u0, cbb0)" and "build 0 t cbb0 = (Some u1, cbb1)"
    and "CBB_finish 0 True True cbb1 = (Some (Some data, n), cbb2)"
  shows "take n data = der_of t \<and> read_all (Suc n) (CBS_init data n) = Some [t]"
proof -
  note r0 = CBB_init_rep(1) [OF assms(4,1,2)]
  note b = build_sound(1) [OF r0 assms(5,3)]
  have "append_level 0 (der_of t) [(Root, [])] = [(Root, der_of t)]" by (simp add: append_level_def)
  with b have r1: "cbb_rep cbb1 [(Root, der_of t)]" by simp
  note f = CBB_finish_sound [OF r1 assms(6)]
  let ?s = "CBS_init data n"
  have s: "cbs_ok ?s" "window ?s = concat (map der_of [t])"
  proof -
    have "take n data = der_of t" "n \<le> length data" "length data < 2 ^ 63" using f by auto
    then show "cbs_ok ?s" "window ?s = concat (map der_of [t])"
      by (simp_all add: CBS_init_def cbs_ok_def window_def)
  qed
  have "take n data = der_of t" using f by auto
  moreover have "read_all (Suc n) ?s = Some [t]"
    by (rule read_all_complete [OF s]) (use b assms(3) in \<open>simp_all add: CBS_init_def\<close>)
  ultimately show ?thesis by (rule conjI)
qed

lemma build_then_read_witness:
  "take 5 [0x30, 3, 2, 1, 5, 0xaa, 0xaa, 0xaa] = der_of (Con 0x20000010 [Prim 2 [5]]) \<and>
   read_all 6 (CBS_init [0x30, 3, 2, 1, 5, 0xaa, 0xaa, 0xaa] 5) = Some [Con 0x20000010 [Prim 2 [5]]]"
proof -
  let ?t = "Con 0x20000010 [Prim 2 [5]]"
  let ?cbb0 = "snd (CBB_init 4 tiny_mem)"
  let ?cbb1 = "snd (build 0 ?t ?cbb0)"
  have "let (u0, cbb0) = CBB_init 4 tiny_mem; (u1, cbb1) = build 0 ?t cbb0; (r, cbb2) = CBB_finish 0 True True cbb1
    in u0 = Some () \<and> u1 = Some () \<and> r = Some (Some [0x30, 3, 2, 1, 5, 0xaa, 0xaa, 0xaa], 5)"
    by code_simp
  then have "CBB_init 4 tiny_mem = (Some (), ?cbb0)" "build 0 ?t ?cbb0 = (Some (), ?cbb1)"
    "CBB_finish 0 True True ?cbb1 = (Some (Some [0x30, 3, 2, 1, 5, 0xaa, 0xaa, 0xaa], 5), snd (CBB_finish 0 True True ?cbb1))"
    by (auto simp: Let_def split: prod.splits)
  from build_then_read [OF tiny_mem_sane _ _ this] show ?thesis
    by (simp add: CBS_ASN1_CONSTRUCTED_def CBS_ASN1_TAG_SHIFT_def)
qed

end
