(* ===== verification/Oid.thy ===== *)
theory Oid
  imports Asn1_Tree
begin

unbundle bit_operations_syntax

text \<open>
  OBJECT IDENTIFIERs as text: the parser \<^verbatim>\<open>CBB_add_asn1_oid_from_text\<close> of \<^verbatim>\<open>cbb.c\<close> and the printer
  \<^verbatim>\<open>CBS_asn1_oid_to_text\<close> of \<^verbatim>\<open>cbs.c\<close>, and the proof that the two are inverse.  Text is a list of ASCII
  codes.
\<close>

section \<open>From text\<close>

text \<open>The loop of \<^verbatim>\<open>parse_dotted_decimal\<close>, with \<^verbatim>\<open>*out\<close> and \<^verbatim>\<open>seen_digit\<close> as arguments.\<close>

function dotted_decimal_loop :: "u64 \<Rightarrow> bool \<Rightarrow> (u64 \<times> bool, CBS) step" where
  "dotted_decimal_loop out seen_digit cbs =
     (case CBS_get_u8 cbs of
        (None, cbs') \<Rightarrow> (Some (out, seen_digit), cbs')
      | (Some u, cbs') \<Rightarrow>
          if u = 46 \<and> CBS_len cbs' > 0 then (Some (out, seen_digit), cbs')
          else if u < 48 \<or> u > 57 \<or> seen_digit \<and> out = 0 \<or> out > (- 1) div 10 \<or>
                  out * 10 > - 1 - (ucast u - 48)
          then (None, cbs')
          else dotted_decimal_loop (out * 10 + (ucast u - 48)) True cbs')"
  by pat_completeness auto
termination
  by (relation "measure (\<lambda>(out, seen, cbs). cbs_len cbs)")
     (auto simp: CBS_get_u8_def cbs_get_def split: if_splits)

declare dotted_decimal_loop.simps [simp del]

definition parse_dotted_decimal :: "(u64, CBS) step" where
  "parse_dotted_decimal =
     and_then (dotted_decimal_loop 0 False) (\<lambda>(out, seen_digit). if seen_digit then ret out else fail)"

text \<open>The \<^verbatim>\<open>while\<close> loop consumes a byte of the text in each round, which bounds its rounds.\<close>

fun oid_components :: "nat \<Rightarrow> nat \<Rightarrow> CBS \<Rightarrow> (unit, CBB) step" where
  "oid_components fuel d cbs =
     (if CBS_len cbs > 0 then
        case parse_dotted_decimal cbs of
          (None, _) \<Rightarrow> fail
        | (Some a, cbs') \<Rightarrow>
            (case fuel of 0 \<Rightarrow> fail
             | Suc fuel' \<Rightarrow> and_then (add_base128_integer d a) (\<lambda>_. oid_components fuel' d cbs'))
      else ret ())"

declare oid_components.simps [simp del]

definition CBB_add_asn1_oid_from_text :: "nat \<Rightarrow> u8 list \<Rightarrow> nat \<Rightarrow> (unit, CBB) step" where
  "CBB_add_asn1_oid_from_text d text len =
     and_then (CBB_flush d) (\<lambda>_.
       case parse_dotted_decimal (CBS_init text len) of
         (None, _) \<Rightarrow> fail
       | (Some a, cbs) \<Rightarrow>
           (case parse_dotted_decimal cbs of
              (None, _) \<Rightarrow> fail
            | (Some b, cbs') \<Rightarrow>
                if a > 2 \<or> a < 2 \<and> b > 39 \<or> b > - 1 - 80 then fail
                else and_then (add_base128_integer d (40 * a + b)) (\<lambda>_. oid_components len d cbs')))"

section \<open>To text\<close>

text \<open>\<^verbatim>\<open>%\<close>\<^verbatim>\<open>" PRIu64\<close> of the C library, and the buffer of \<^verbatim>\<open>DECIMAL_SIZE(uint64_t) + 1\<close> bytes it prints to.\<close>

fun decimal :: "nat \<Rightarrow> u8 list" where
  "decimal n = (if n < 10 then [word_of_nat (48 + n)] else decimal (n div 10) @ [word_of_nat (48 + n mod 10)])"

declare decimal.simps [simp del]

definition DECIMAL_SIZE_u64 :: nat where
  "DECIMAL_SIZE_u64 = (8 * 8 + 2) div 3 + 1"

definition add_decimal :: "nat \<Rightarrow> u64 \<Rightarrow> (unit, CBB) step" where
  "add_decimal d v = CBB_add_bytes d (take DECIMAL_SIZE_u64 (decimal (unat v)))"

fun oid_text_loop :: "nat \<Rightarrow> CBS \<Rightarrow> (unit, CBB) step" where
  "oid_text_loop fuel copy =
     (if CBS_len copy \<noteq> 0 then
        case parse_base128_integer copy of
          (None, _) \<Rightarrow> fail
        | (Some v, copy') \<Rightarrow>
            (case fuel of 0 \<Rightarrow> fail
             | Suc fuel' \<Rightarrow>
                 and_then (CBB_add_u8 0 46) (\<lambda>_. and_then (add_decimal 0 v) (\<lambda>_. oid_text_loop fuel' copy')))
      else ret ())"

declare oid_text_loop.simps [simp del]

definition oid_first_text :: "u64 \<Rightarrow> (unit, CBB) step" where
  "oid_first_text v =
     (if v \<ge> 80
      then and_then (CBB_add_bytes 0 [50, 46]) (\<lambda>_. add_decimal 0 (v - 80))
      else and_then (add_decimal 0 (v div 40)) (\<lambda>_.
             and_then (CBB_add_u8 0 46) (\<lambda>_. add_decimal 0 (v mod 40))))"

definition CBS_asn1_oid_to_text :: "CBS \<Rightarrow> (u8 list option, mem) step" where
  "CBS_asn1_oid_to_text cbs m =
     (case CBB_init 32 m of
        (None, cbb) \<Rightarrow> (None, cbb_mem (CBB_cleanup cbb))
      | (Some _, cbb) \<Rightarrow>
          (case (case parse_base128_integer cbs of
                   (None, _) \<Rightarrow> fail
                 | (Some v, copy) \<Rightarrow>
                     and_then (oid_first_text v) (\<lambda>_.
                       and_then (oid_text_loop (CBS_len copy) copy) (\<lambda>_.
                         and_then (CBB_add_u8 0 0) (\<lambda>_. CBB_finish 0 True True)))) cbb of
             (None, cbb') \<Rightarrow> (None, cbb_mem (CBB_cleanup cbb'))
           | (Some (txt, txt_len), cbb') \<Rightarrow> (Some txt, cbb_mem cbb')))"

section \<open>Decimal components\<close>

lemma digit_step:
  assumes u: "48 \<le> unat u" "unat (u :: u8) \<le> 57"
    and o1: "\<not> out > (- 1) div (10 :: u64)" and o2: "\<not> out * 10 > - 1 - (ucast u - 48)"
  shows "unat (out * 10 + (ucast u - 48)) = 10 * unat out + (unat u - 48)"
proof -
  let ?d = "ucast u - 48 :: u64"
  have uu: "unat (ucast u :: u64) = unat u" by (simp add: unat_ucast_u8)
  have d: "unat ?d = unat u - 48"
    using u uu by (simp add: unat_sub word_le_nat_alt)
  have "unat out \<le> unat ((- 1) div (10 :: u64))" using o1 by (simp add: word_le_nat_alt not_less)
  then have "unat out \<le> 1844674407370955161" by (simp add: unat_div)
  then have m: "unat (out * 10) = unat out * 10" by (simp add: unat_word_ariths)
  have "?d \<le> - 1" by simp
  then have "unat (- 1 - ?d) = unat (- 1 :: u64) - unat ?d" by (rule unat_sub)
  moreover have "unat (out * 10) \<le> unat (- 1 - ?d)" using o2 by (simp only: word_le_nat_alt not_less)
  moreover have "unat (- 1 :: u64) = 18446744073709551615" by (simp add: unsigned_minus_1_eq_mask mask_eq_exp_minus_1)
  ultimately have "unat out * 10 + unat ?d \<le> 18446744073709551615" using d u m by simp
  then show ?thesis unfolding unat_word_ariths m using d by simp
qed

lemma decimal_snoc:
  assumes "d < 10"
  shows "decimal (10 * n + d) = (if n = 0 then [] else decimal n) @ [word_of_nat (48 + d)]"
  using assms by (subst decimal.simps) (cases "n = 0"; simp)

lemma digit_byte: "48 \<le> unat u \<Longrightarrow> word_of_nat (48 + (unat u - 48)) = (u :: u8)"
  by simp

definition seen_text :: "bool \<Rightarrow> nat \<Rightarrow> u8 list" where
  "seen_text seen n = (if seen then decimal n else [])"

lemma dotted_Nil:
  "cbs_ok s \<Longrightarrow> window s = [] \<Longrightarrow> dotted_decimal_loop out seen s = (Some (out, seen), s)"
  by (subst dotted_decimal_loop.simps) (simp add: CBS_get_u8_eq)

lemma dotted_Cons:
  assumes "cbs_ok s" and "window s = u # w"
  shows "dotted_decimal_loop out seen s =
    (if u = 46 \<and> w \<noteq> [] then (Some (out, seen), advance 1 s)
     else if u < 48 \<or> u > 57 \<or> seen \<and> out = 0 \<or> out > (- 1) div 10 \<or> out * 10 > - 1 - (ucast u - 48)
     then (None, advance 1 s)
     else dotted_decimal_loop (out * 10 + (ucast u - 48)) True (advance 1 s))"
proof -
  have "CBS_len (advance 1 s) > 0 \<longleftrightarrow> w \<noteq> []"
    using length_window [OF assms(1)] assms(2) by (simp add: CBS_len_def) (cases w; simp)
  then show ?thesis using assms by (subst dotted_decimal_loop.simps) (simp add: CBS_get_u8_eq)
qed

lemma dotted_sound:
  assumes "cbs_ok s" and "dotted_decimal_loop out seen s = (Some (r, sn), s')" and "\<not> seen \<longrightarrow> out = 0"
  shows "\<exists>ds. seen_text seen (unat out) @ ds = seen_text sn (unat r) \<and> cbs_ok s' \<and>
    (window s = ds \<and> window s' = [] \<or> window s = ds @ 46 # window s' \<and> window s' \<noteq> [])"
  using assms
proof (induction "window s" arbitrary: s out seen)
  case Nil
  from dotted_Nil [OF Nil.prems(1) Nil.hyps [symmetric]] Nil.prems Nil.hyps show ?case by auto
next
  case (Cons u w)
  note w = Cons.hyps(2) [symmetric]
  note step = Cons.prems(2) [unfolded dotted_Cons [OF Cons.prems(1) w]]
  show ?case
  proof (cases "u = 46 \<and> w \<noteq> []")
    case True
    with step have "r = out" "sn = seen" "s' = advance 1 s" by auto
    with True w Cons.prems(1) show ?thesis by (intro exI [of _ "[]"]) simp
  next
    case False
    let ?out = "out * 10 + (ucast u - 48) :: u64"
    from step False have c: "\<not> u < 48" "\<not> u > 57" "\<not> (seen \<and> out = 0)" "\<not> out > (- 1) div 10"
        "\<not> out * 10 > - 1 - (ucast u - 48)"
      and rec: "dotted_decimal_loop ?out True (advance 1 s) = (Some (r, sn), s')"
      by (simp_all split: if_splits)
    have u: "48 \<le> unat u" "unat u \<le> 57" using c by (simp_all add: word_less_nat_alt)
    note un = digit_step [OF u c(4,5)]
    have "w = window (advance 1 s)" using w by simp
    from Cons.hyps(1) [OF this _ rec] Cons.prems(1) obtain ds where
      ds: "seen_text True (unat ?out) @ ds = seen_text sn (unat r)" "cbs_ok s'"
        "w = ds \<and> window s' = [] \<or> w = ds @ 46 # window s' \<and> window s' \<noteq> []"
      using w by auto
    have "unat out = 0 \<longleftrightarrow> out = 0" by (simp add: unat_eq_zero)
    with c(3) Cons.prems(3) have "decimal (unat ?out) = seen_text seen (unat out) @ [u]"
      unfolding un using decimal_snoc [of "unat u - 48" "unat out"] digit_byte [OF u(1)] u(2)
      by (auto simp: seen_text_def)
    with ds w show ?thesis by (intro exI [of _ "u # ds"]) (auto simp: seen_text_def)
  qed
qed

lemma parse_dotted_sound:
  assumes "cbs_ok s" and "parse_dotted_decimal s = (Some v, s')"
  shows "cbs_ok s' \<and> (window s = decimal (unat v) \<and> window s' = [] \<or>
    window s = decimal (unat v) @ 46 # window s' \<and> window s' \<noteq> [])"
proof -
  from assms(2) have "dotted_decimal_loop 0 False s = (Some (v, True), s')"
    by (auto simp: parse_dotted_decimal_def split: if_splits)
  from dotted_sound [OF assms(1) this] show ?thesis by (auto simp: seen_text_def)
qed

section \<open>What the two functions do\<close>

primrec oid_text :: "nat list \<Rightarrow> u8 list" where
  "oid_text [] = []"
| "oid_text (n # ns) = decimal n @ (if ns = [] then [] else 46 # oid_text ns)"

fun oid_der :: "nat list \<Rightarrow> u8 list" where
  "oid_der (a # b # ns) = concat (map b128 ((40 * a + b) # ns))"
| "oid_der _ = []"

fun oid_ok :: "nat list \<Rightarrow> bool" where
  "oid_ok (a # b # ns) =
     (a \<le> 2 \<and> (a < 2 \<longrightarrow> b \<le> 39) \<and> b \<le> 2 ^ 64 - 1 - 80 \<and> (\<forall>n \<in> set ns. n < 2 ^ 64))"
| "oid_ok _ = False"

lemma decimal_nonempty: "decimal n \<noteq> []"
  by (subst decimal.simps) simp

lemma oid_text_Nil_iff [simp]: "oid_text ns = [] \<longleftrightarrow> ns = []" "[] = oid_text ns \<longleftrightarrow> ns = []"
  using decimal_nonempty by (cases ns; auto)+

lemma parse_dotted_shorter:
  assumes "cbs_ok s" and "parse_dotted_decimal s = (Some v, s')"
  shows "cbs_len s' < cbs_len s"
proof -
  from parse_dotted_sound [OF assms] have "cbs_ok s'" "length (window s') < length (window s)"
    using decimal_nonempty [of "unat v"] by auto
  then show ?thesis using length_window assms(1) by simp
qed

lemma oid_components_sound:
  assumes "cbs_ok s" and "cbb_rep cbb L" and "oid_components f d s cbb = (Some u, cbb')" and "length L = Suc d"
  shows "\<exists>ns. (window s = [] \<and> ns = [] \<or> window s = oid_text ns \<and> ns \<noteq> []) \<and> (\<forall>n \<in> set ns. n < 2 ^ 64) \<and>
    cbb_rep cbb' (append_level d (concat (map b128 ns)) L)"
  using assms
proof (induction f arbitrary: s cbb L)
  case 0
  have "cbs_len s = 0" and "cbb' = cbb"
    using "0.prems"(3) by (auto simp: oid_components.simps [of 0] CBS_len_def split: if_splits prod.splits option.splits)
  then show ?case using "0.prems" length_window [OF "0.prems"(1)]
    by (intro exI [of _ "[]"]) (simp add: flushed_last flip: append_level_flushed)
next
  case (Suc f)
  show ?case
  proof (cases "cbs_len s = 0")
    case True
    then have "cbb' = cbb" using Suc.prems(3) by (simp add: oid_components.simps [of "Suc f"] CBS_len_def)
    then show ?thesis using Suc.prems True length_window [OF Suc.prems(1)]
      by (intro exI [of _ "[]"]) (simp add: flushed_last flip: append_level_flushed)
  next
    case False
    with Suc.prems(3) obtain v s' x cbb1 where p: "parse_dotted_decimal s = (Some v, s')"
      and a: "add_base128_integer d v cbb = (Some x, cbb1)" and r: "oid_components f d s' cbb1 = (Some u, cbb')"
      by (auto simp: oid_components.simps [of "Suc f"] CBS_len_def split: prod.splits option.splits)
    note w = writesD [OF writes_base128 Suc.prems(2) a]
    note ps = parse_dotted_sound [OF Suc.prems(1) p]
    from Suc.IH [OF _ w(3) r] ps Suc.prems(4) obtain ns where
      ns: "window s' = [] \<and> ns = [] \<or> window s' = oid_text ns \<and> ns \<noteq> []" "\<forall>n \<in> set ns. n < 2 ^ 64"
        "cbb_rep cbb' (append_level d (concat (map b128 ns)) (append_level d (b128 (unat v)) L))" by auto
    have "unat v < 2 ^ 64" using unsigned_less [of v] by simp
    with ns ps Suc.prems(4) show ?thesis
      by (intro exI [of _ "unat v # ns"]) auto
  qed
qed

lemma oid_from_text_sound:
  assumes "cbb_rep cbb L" and "CBB_add_asn1_oid_from_text d text len cbb = (Some u, cbb')"
    and "cbs_ok (CBS_init text len)"
  shows "\<exists>ns. take len text = oid_text ns \<and> oid_ok ns \<and> d < length L \<and> cbb_rep cbb' (append_level d (oid_der ns) L)"
proof -
  let ?s = "CBS_init text len"
  from assms(2) obtain cbb1 cbb2 x y a b s1 s2 where f: "CBB_flush d cbb = (Some x, cbb1)"
    and pa: "parse_dotted_decimal ?s = (Some a, s1)" and pb: "parse_dotted_decimal s1 = (Some b, s2)"
    and c: "\<not> (a > 2 \<or> a < 2 \<and> b > 39 \<or> b > - 1 - 80)"
    and ad: "add_base128_integer d (40 * a + b) cbb1 = (Some y, cbb2)"
    and r: "oid_components len d s2 cbb2 = (Some u, cbb')"
    by (auto simp: CBB_add_asn1_oid_from_text_def split: prod.splits option.splits if_splits)
  note w1 = writesD [OF writes_flush assms(1) f]
  note w2 = writesD [OF writes_base128 w1(3) ad]
  note p1 = parse_dotted_sound [OF assms(3) pa]
  then have "cbs_ok s1" by simp
  note p2 = parse_dotted_sound [OF this pb]
  have "window s1 \<noteq> []" using p2 decimal_nonempty by auto
  with p1 have t1: "window ?s = decimal (unat a) @ 46 # window s1" by auto
  from w1(1) have len: "length (append_level d (b128 (unat (40 * a + b))) (append_level d [] L)) = Suc d" by simp
  from p2 have "cbs_ok s2" by simp
  from oid_components_sound [OF this w2(3) r len] obtain ns where
    ns: "window s2 = [] \<and> ns = [] \<or> window s2 = oid_text ns \<and> ns \<noteq> []" "\<forall>n \<in> set ns. n < 2 ^ 64"
      "cbb_rep cbb' (append_level d (b128 (unat (40 * a + b)) @ concat (map b128 ns)) L)"
    using w1(1) by auto
  have a: "unat a \<le> 2" and ab: "unat a < 2 \<longrightarrow> unat b \<le> 39" and b: "unat b \<le> 2 ^ 64 - 1 - 80"
    using c by (auto simp: word_le_nat_alt word_less_nat_alt not_less)
  have "40 * unat a + unat b < 2 ^ 64" using a b by simp
  then have v: "unat (40 * a + b) = 40 * unat a + unat b" using a by (simp add: unat_word_ariths)
  have "window ?s = oid_text (unat a # unat b # ns)" using t1 p2 ns(1) by auto
  moreover have "window ?s = take len text" by (simp add: window_def CBS_init_def)
  moreover have "oid_ok (unat a # unat b # ns)" using a ab b ns(2) by simp
  ultimately show ?thesis using ns(3) v w1(1)
    by (intro exI [of _ "unat a # unat b # ns"]) simp
qed
lemma oid_components_enough:
  assumes "cbs_ok s" and "cbs_len s \<le> f" and "cbs_len s \<le> g"
  shows "oid_components f d s = oid_components g d s"
  using assms
proof (induction f arbitrary: s g)
  case 0
  then show ?case by (simp add: oid_components.simps CBS_len_def)
next
  case (Suc f)
  show ?case
  proof (cases "cbs_len s = 0")
    case True
    then show ?thesis by (simp add: oid_components.simps CBS_len_def)
  next
    case False
    then obtain g' where g: "g = Suc g'" using Suc.prems(3) by (cases g) auto
    have "oid_components f d s' = oid_components g' d s'" if "parse_dotted_decimal s = (Some v, s')" for v s'
      using parse_dotted_shorter [OF Suc.prems(1) that] parse_dotted_sound [OF Suc.prems(1) that] Suc.prems g
      by (intro Suc.IH) auto
    then show ?thesis using False g
      by (simp add: oid_components.simps [of "Suc f"] oid_components.simps [of "Suc g'"] CBS_len_def
          split: prod.splits option.splits)
  qed
qed

section \<open>Printing\<close>

lemma length_decimal: "0 < k \<Longrightarrow> n < 10 ^ k \<Longrightarrow> length (decimal n) \<le> k"
proof (induction n arbitrary: k rule: decimal.induct)
  case (1 n)
  show ?case
  proof (cases "n < 10")
    case True
    then show ?thesis using "1.prems" by (subst decimal.simps) simp
  next
    case False
    then obtain k' where k: "k = Suc k'" "0 < k'" using "1.prems" by (cases k; cases "k - 1") auto
    then have "n div 10 < 10 ^ k'" using "1.prems" by (simp add: div_less_iff_less_mult mult.commute)
    then have "length (decimal (n div 10)) \<le> k'" using "1.IH" [OF False k(2)] by simp
    then show ?thesis using False k by (subst decimal.simps) simp
  qed
qed

lemma writes_decimal: "writes d (decimal (unat v)) (add_decimal d v)"
proof -
  have "unat v < 2 ^ 64" using unsigned_less [of v] by simp
  then have "unat v < 10 ^ 20" by simp
  then have "length (decimal (unat v)) \<le> 20" by (intro length_decimal) simp_all
  then show ?thesis using writes_bytes [of "decimal (unat v)" d]
    by (simp add: add_decimal_def DECIMAL_SIZE_u64_def)
qed

lemma writes_first:
  assumes "a \<le> 2" and "a < 2 \<longrightarrow> b \<le> 39" and "b \<le> 2 ^ 64 - 1 - 80"
  shows "writes 0 (decimal a @ 46 # decimal b) (oid_first_text (word_of_nat (40 * a + b)))"
proof -
  let ?v = "word_of_nat (40 * a + b) :: u64"
  have "40 * a + b < 2 ^ 64" using assms by simp
  then have v: "unat ?v = 40 * a + b" by (simp only: unat_of_nat take_bit_nat_eq_self) simp
  show ?thesis
  proof (cases "a = 2")
    case True
    have ge: "?v \<ge> 80" using v True by (simp add: word_le_nat_alt del: of_nat_add of_nat_mult)
    then have "unat (?v - 80) = b" using v True by (simp add: unat_sub del: of_nat_add of_nat_mult)
    then have "writes 0 ([50, 46] @ decimal b) (and_then (CBB_add_bytes 0 [50, 46]) (\<lambda>_. add_decimal 0 (?v - 80)))"
      using writes_then [OF writes_bytes writes_decimal, of "[50, 46]" 0 "?v - 80"] by simp
    moreover have "decimal a = [50]" using True by (subst decimal.simps) simp
    ultimately show ?thesis using ge by (simp add: oid_first_text_def del: of_nat_add of_nat_mult)
  next
    case False
    then have lt: "\<not> ?v \<ge> 80" using v assms by (simp add: word_le_nat_alt del: of_nat_add of_nat_mult)
    have ab: "unat (?v div 40) = a" "unat (?v mod 40) = b"
      using v False assms by (simp_all add: unat_div unat_mod del: of_nat_add of_nat_mult)
    have "writes 0 (decimal a @ [46] @ decimal b)
        (and_then (add_decimal 0 (?v div 40)) (\<lambda>_. and_then (CBB_add_u8 0 46) (\<lambda>_. add_decimal 0 (?v mod 40))))"
      using writes_then [OF writes_decimal writes_then [OF writes_u8 writes_decimal], of 0 "?v div 40" 46 "?v mod 40"]
      unfolding ab .
    then show ?thesis using lt by (simp add: oid_first_text_def del: of_nat_add of_nat_mult)
  qed
qed

lemma b128_window:
  assumes "cbs_ok s" and "window s = b128 n @ w" and "n < 2 ^ 64"
  shows "\<exists>s'. parse_base128_integer s = (Some (word_of_nat n), s') \<and> window s' = w \<and> cbs_ok s' \<and> cbs_len s' < cbs_len s"
proof -
  have "length (window s) = length (b128 n) + length w" using assms(2) by simp
  then have "cbs_len s = length (b128 n) + length w" using length_window [OF assms(1)] by simp
  then show ?thesis
    using parse_base128_integer_complete [OF assms] assms(1,2) b128_nonempty [of n] by auto
qed

lemma fills_Pair: "fills d [] (Pair (Some x))"
proof -
  have "Pair (Some x) = ret x" by (rule ext) (simp add: ret_def)
  then show ?thesis using fills_ret by metis
qed

lemma writes_oid_text_loop:
  assumes "cbs_ok s" and "window s = concat (map b128 ns)" and "\<forall>n \<in> set ns. n < 2 ^ 64" and "cbs_len s \<le> f"
  shows "fills 0 (concat (map (\<lambda>n. 46 # decimal n) ns)) (oid_text_loop f s)"
  using assms
proof (induction f arbitrary: s ns)
  case 0
  then have "ns = []" using length_window [OF "0.prems"(1)] b128_nonempty by (cases ns) auto
  then show ?case using "0.prems" fills_Pair by (simp add: oid_text_loop.simps [of 0] CBS_len_def)
next
  case (Suc f)
  show ?case
  proof (cases ns)
    case Nil
    then have "cbs_len s = 0" using Suc.prems length_window [OF Suc.prems(1)] by simp
    then show ?thesis using Nil fills_Pair by (simp add: oid_text_loop.simps [of "Suc f"] CBS_len_def)
  next
    case (Cons n ns')
    with Suc.prems obtain s' where s': "parse_base128_integer s = (Some (word_of_nat n), s')"
      "window s' = concat (map b128 ns')" "cbs_ok s'" "cbs_len s' < cbs_len s"
      using b128_window [OF Suc.prems(1), of n "concat (map b128 ns')"] by auto
    have "n < 2 ^ 64" using Suc.prems Cons by simp
    then have n: "unat (word_of_nat n :: u64) = n" by (simp only: unat_of_nat take_bit_nat_eq_self) simp
    have "fills 0 (concat (map (\<lambda>n. 46 # decimal n) ns')) (oid_text_loop f s')"
      using Suc.prems Cons s' by (intro Suc.IH) auto
    from fills_then [OF writes_fills [OF writes_u8] fills_then [OF writes_fills [OF writes_decimal] this], of 46 "word_of_nat n"]
    have "fills 0 ([46] @ decimal n @ concat (map (\<lambda>n. 46 # decimal n) ns'))
        (and_then (CBB_add_u8 0 46) (\<lambda>_. and_then (add_decimal 0 (word_of_nat n)) (\<lambda>_. oid_text_loop f s')))"
      unfolding n .
    then show ?thesis using s' Cons by (simp add: oid_text_loop.simps [of "Suc f"] CBS_len_def)
  qed
qed

lemma oid_text_append: "oid_text (n # ns) = decimal n @ concat (map (\<lambda>n. 46 # decimal n) ns)"
  by (induction ns arbitrary: n) auto

lemma oid_to_text_sound:
  assumes "cbs_ok s" and "window s = oid_der ns" and "oid_ok ns" and "mem_sane m"
    and "CBS_asn1_oid_to_text s m = (Some outp, m')"
  shows "\<exists>rest. outp = Some (oid_text ns @ 0 # rest)"
proof -
  obtain a b ns' where ns: "ns = a # b # ns'" using assms(3) by (cases ns rule: oid_ok.cases) auto
  let ?v = "40 * a + b"
  have v: "?v < 2 ^ 64" using assms(3) ns by simp
  have "window s = b128 ?v @ concat (map b128 ns')" using assms(2) ns by simp
  from b128_window [OF assms(1) this v] obtain s1 where
    s1: "parse_base128_integer s = (Some (word_of_nat ?v), s1)" "window s1 = concat (map b128 ns')" "cbs_ok s1" by blast
  from assms(5) s1(1) obtain cbb0 cbb1 cbb2 cbb3 cbb4 x y z q n where i: "CBB_init 32 m = (Some x, cbb0)"
    and f: "oid_first_text (word_of_nat ?v) cbb0 = (Some y, cbb1)"
    and l: "oid_text_loop (CBS_len s1) s1 cbb1 = (Some z, cbb2)"
    and u: "CBB_add_u8 0 0 cbb2 = (Some q, cbb3)"
    and fin: "CBB_finish 0 True True cbb3 = (Some (outp, n), cbb4)"
    by (auto simp: CBS_asn1_oid_to_text_def simp del: of_nat_add of_nat_mult split: prod.splits option.splits)
  let ?t = "decimal a @ 46 # decimal b" and ?r = "concat (map (\<lambda>n. 46 # decimal n) ns')"
  note r0 = CBB_init_rep(1) [OF i assms(4)]
  have ok: "a \<le> 2" "a < 2 \<longrightarrow> b \<le> 39" "b \<le> 2 ^ 64 - 1 - 80" "\<forall>n \<in> set ns'. n < 2 ^ 64"
    using assms(3) ns by auto
  have one: "length (append_level 0 bs [(Root, [])]) = Suc 0" for bs by (simp add: append_level_def)
  have r1: "cbb_rep cbb1 (append_level 0 ?t [(Root, [])])"
    using writesD(3) [OF writes_first [OF ok(1-3)] r0 f] by simp
  have fl: "fills 0 ?r (oid_text_loop (CBS_len s1) s1)"
    by (rule writes_oid_text_loop [OF s1(3,2) ok(4)]) (simp add: CBS_len_def)
  have r2: "cbb_rep cbb2 (append_level 0 (?t @ ?r) [(Root, [])])"
    using fillsD [OF fl r1 one l] by simp
  have r3: "cbb_rep cbb3 (append_level 0 ((?t @ ?r) @ [0]) [(Root, [])])"
    using writesD(3) [OF writes_u8 r2 u] by simp
  have "append_level 0 ((?t @ ?r) @ [0]) [(Root, [])] = [(Root, (?t @ ?r) @ [0])]" by (simp add: append_level_def)
  note fin = CBB_finish_sound [OF r3 [unfolded this] fin]
  have t: "?t @ ?r = oid_text ns" unfolding ns oid_text_append by simp
  from fin obtain dat where "outp = Some dat" "take n dat = oid_text ns @ [0]"
    unfolding t by (cases outp) auto
  then have "outp = Some (oid_text ns @ 0 # drop n dat)"
    using append_take_drop_id [of n dat] by (metis append.assoc append_Cons append_Nil)
  then show ?thesis by blast
qed

section \<open>Properties\<close>

text \<open>C24: OBJECT IDENTIFIERs survive the round trip through DER.  If the text of an OID is added to a
  fresh builder, the builder is finished, and the contents are printed, all with success, then the C
  string printed is the text again, byte for byte: the parser takes only the canonical spelling.\<close>

theorem oid_text_roundtrip:
  assumes "mem_sane m" and "mem_sane m2" and "CBB_init cap m = (Some u0, cbb0)" and "cap < 2 ^ 62"
    and "cbs_ok (CBS_init text len)"
    and "CBB_add_asn1_oid_from_text 0 text len cbb0 = (Some u1, cbb1)"
    and "CBB_finish 0 True True cbb1 = (Some (Some der, n), cbb2)"
    and "CBS_asn1_oid_to_text (CBS_init der n) m2 = (Some outp, m3)"
  shows "\<exists>rest. outp = Some (take len text @ 0 # rest)"
proof -
  note r0 = CBB_init_rep(1) [OF assms(3,1,4)]
  from oid_from_text_sound [OF r0 assms(6,5)] obtain ns where
    ns: "take len text = oid_text ns" "oid_ok ns" "cbb_rep cbb1 [(Root, oid_der ns)]"
    by (auto simp: append_level_def)
  from CBB_finish_sound [OF ns(3) assms(7)] have
    f: "take n der = oid_der ns" "n \<le> length der" "length der < 2 ^ 63" by auto
  then have s: "cbs_ok (CBS_init der n)" "window (CBS_init der n) = oid_der ns"
    by (simp_all add: CBS_init_def cbs_ok_def window_def)
  from oid_to_text_sound [OF s ns(2) assms(2,8)] ns(1) show ?thesis by simp
qed

lemma oid_text_roundtrip_witness:
  "\<exists>rest. Some [49, 46, 50, 46, 56, 52, 48, 0] = Some (take 7 [49, 46, 50, 46, 56, 52, 48] @ 0 # (rest :: u8 list))"
proof -
  let ?text = "[49, 46, 50, 46, 56, 52, 48] :: u8 list"
  let ?cbb0 = "snd (CBB_init 3 tiny_mem)"
  let ?cbb1 = "snd (CBB_add_asn1_oid_from_text 0 ?text 7 ?cbb0)"
  let ?der = "[42, 0x86, 72] :: u8 list"
  let ?outp = "?text @ 0 # replicate 24 0xaa"
  have "let (u0, cbb0) = CBB_init 3 tiny_mem; (u1, cbb1) = CBB_add_asn1_oid_from_text 0 ?text 7 cbb0;
      (r, cbb2) = CBB_finish 0 True True cbb1
    in u0 = Some () \<and> u1 = Some () \<and> r = Some (Some ?der, 3)" by code_simp
  moreover have "fst (CBS_asn1_oid_to_text (CBS_init ?der 3) tiny_mem) = Some (Some ?outp)" by code_simp
  ultimately have c: "CBB_init 3 tiny_mem = (Some (), ?cbb0)"
    "CBB_add_asn1_oid_from_text 0 ?text 7 ?cbb0 = (Some (), ?cbb1)"
    "CBB_finish 0 True True ?cbb1 = (Some (Some ?der, 3), snd (CBB_finish 0 True True ?cbb1))"
    "CBS_asn1_oid_to_text (CBS_init ?der 3) tiny_mem =
       (Some (Some ?outp), snd (CBS_asn1_oid_to_text (CBS_init ?der 3) tiny_mem))"
    by (auto simp: Let_def prod_eq_iff split: prod.splits)
  have "cbs_ok (CBS_init ?text 7)" by (simp add: cbs_ok_def CBS_init_def)
  from oid_text_roundtrip [OF tiny_mem_sane tiny_mem_sane c(1) _ this c(2-4)] show ?thesis by simp
qed

end
