(* ===== verification/Cbb_SetOf.thy ===== *)
theory Cbb_SetOf
  imports Asn1_Tree
begin

unbundle bit_operations_syntax

text \<open>
  \<^verbatim>\<open>CBB_flush_asn1_set_of\<close> puts the elements of a SET OF in the order X.690 asks for: the elements
  afterwards are a permutation of those before, in ascending lexicographic order of their encodings.
\<close>

section \<open>The order\<close>

fun bytes_le :: "u8 list \<Rightarrow> u8 list \<Rightarrow> bool" where
  "bytes_le [] ys = True"
| "bytes_le (x # xs) [] = False"
| "bytes_le (x # xs) (y # ys) = (x < y \<or> x = y \<and> bytes_le xs ys)"

lemma bytes_le_linear: "bytes_le xs ys \<or> bytes_le ys xs"
  by (induction xs ys rule: bytes_le.induct) auto

lemma bytes_le_trans: "bytes_le xs ys \<Longrightarrow> bytes_le ys zs \<Longrightarrow> bytes_le xs zs"
proof (induction xs ys arbitrary: zs rule: bytes_le.induct)
  case (3 x xs y ys)
  then show ?case by (cases zs) auto
qed auto

lemma memcmp_take: "n \<le> k \<Longrightarrow> n \<le> m \<Longrightarrow> memcmp (take k xs) (take m ys) n = memcmp xs ys n"
proof (induction xs ys n arbitrary: k m rule: memcmp.induct)
  case (1 a as b bs n)
  then show ?case by (cases k; cases m) auto
qed auto

lemma lexicographic:
  "(let r = memcmp as bs (if length as < length bs then length as else length bs)
    in if r \<noteq> 0 then r else if length as = length bs then 0 else if length as < length bs then -1 else 1) \<le> 0
   \<longleftrightarrow> bytes_le as bs"
proof (induction as bs rule: bytes_le.induct)
  case (3 x xs y ys)
  have n: "(if length (x # xs) < length (y # ys) then length (x # xs) else length (y # ys)) =
      Suc (if length xs < length ys then length xs else length ys)" by simp
  show ?case using 3 unfolding n
    by (cases "x < y"; cases "y < x") (auto simp: Let_def split: if_splits)
qed (auto simp: Let_def)

lemma compare_set_of_le:
  assumes "cbs_ok a" and "cbs_ok b"
  shows "compare_set_of_element a b \<le> 0 \<longleftrightarrow> bytes_le (window a) (window b)"
proof -
  let ?n = "if cbs_len a < cbs_len b then cbs_len a else cbs_len b"
  have "memcmp (cbs_data a) (cbs_data b) ?n = memcmp (window a) (window b) ?n"
    unfolding window_def by (rule memcmp_take [symmetric]) auto
  then show ?thesis
    unfolding lexicographic [symmetric] compare_set_of_element_def CBS_len_def
    by (simp only: length_window [OF assms(1)] length_window [OF assms(2)] Let_def)
qed

lemma consistent_compare: "(\<And>c. c \<in> A \<Longrightarrow> cbs_ok c) \<Longrightarrow> consistent_cmp compare_set_of_element A"
  unfolding consistent_cmp_def using compare_set_of_le bytes_le_linear bytes_le_trans by meson

section \<open>Splitting into elements\<close>

lemma any_element_step:
  assumes "cbs_ok s" and "CBS_get_any_asn1_element s = (Some r, s')"
  shows "\<exists>tag c w. window s = der_element tag c @ w \<and> length c < 2 ^ 32 \<and> window s' = w \<and> cbs_ok s' \<and>
    cbs_len s' < cbs_len s"
proof -
  obtain out tag hl where "r = (out, tag, hl)" by (cases r)
  with der_element_sound [OF assms(1), of out tag hl s'] assms(2) obtain c w where
    w: "window s = der_element tag c @ w" "length c < 2 ^ 32" "hl = length (der_header tag (length c))"
      "s' = advance (hl + length c) s"
    by (auto simp: CBS_get_any_asn1_element_def)
  have "0 < hl" using w(3) by (simp add: der_header_def der_length_def)
  moreover have "cbs_len s = hl + length c + length w"
    using w(1,3) length_window [OF assms(1)] by (simp add: der_element_def)
  ultimately have "cbs_len s' < cbs_len s" using w(4) by simp
  moreover have "window s' = w" using w by (simp add: der_element_def)
  moreover have "cbs_ok s'" using w(4) assms(1) by simp
  ultimately show ?thesis using w by blast
qed

text \<open>More fuel than bytes makes no difference: the count fails only where an element is malformed.\<close>

lemma count_elements_enough:
  assumes "cbs_ok s" and "cbs_len s \<le> f" and "cbs_len s \<le> g"
  shows "count_elements f s = count_elements g s"
  using assms
proof (induction f arbitrary: s g)
  case 0
  then show ?case by (simp add: CBS_len_def)
next
  case (Suc f)
  show ?case
  proof (cases "cbs_len s = 0")
    case False
    then obtain g' where g: "g = Suc g'" using Suc.prems(3) by (cases g) auto
    have "count_elements f s' = count_elements g' s'"
      if "CBS_get_any_asn1_element s = (Some r, s')" for r s'
      using any_element_step [OF Suc.prems(1) that] Suc.prems g by (intro Suc.IH) auto
    then show ?thesis using False g
      by (auto simp: CBS_len_def split: prod.splits option.splits)
  qed (simp add: CBS_len_def)
qed

declare count_elements.simps [simp del]

lemma count_elements_sound:
  assumes "cbs_ok s" and "count_elements f s = Some n"
  shows "\<exists>es. length es = n \<and> window s = concat (map (\<lambda>(tag, c). der_element tag c) es) \<and>
    (\<forall>(tag, c) \<in> set es. length c < 2 ^ 32)"
  using assms
proof (induction f arbitrary: s n)
  case 0
  then have "cbs_len s = 0" "n = 0"
    by (auto simp: count_elements.simps [of 0] CBS_len_def split: if_splits)
  then show ?case using length_window [OF 0(1)] by simp
next
  case (Suc f)
  show ?case
  proof (cases "cbs_len s = 0")
    case True
    then have "n = 0" using Suc.prems(2) by (simp add: count_elements.simps [of "Suc f"] CBS_len_def)
    then show ?thesis using True length_window [OF Suc.prems(1)] by simp
  next
    case False
    with Suc.prems(2) obtain r s' m where g: "CBS_get_any_asn1_element s = (Some r, s')"
      and c: "count_elements f s' = Some m" and n: "n = Suc m"
      by (auto simp: count_elements.simps [of "Suc f"] CBS_len_def split: prod.splits option.splits)
    from any_element_step [OF Suc.prems(1) g] obtain tag b w where
      e: "window s = der_element tag b @ w" "length b < 2 ^ 32" "window s' = w" "cbs_ok s'" by blast
    from Suc.IH [OF e(4) c] obtain es where "length es = m"
      "window s' = concat (map (\<lambda>(tag, c). der_element tag c) es)" "\<forall>(tag, c) \<in> set es. length c < 2 ^ 32"
      by blast
    with e n show ?thesis by (intro exI [of _ "(tag, b) # es"]) simp
  qed
qed

lemma parse_elements_complete:
  assumes "cbs_ok s" and "window s = concat (map (\<lambda>(tag, c). der_element tag c) es)"
    and "\<forall>(tag, c) \<in> set es. length c < 2 ^ 32"
  shows "\<exists>cs. parse_elements (length es) s = Some cs \<and> map window cs = map (\<lambda>(tag, c). der_element tag c) es \<and>
    (\<forall>c \<in> set cs. cbs_ok c)"
  using assms
proof (induction es arbitrary: s)
  case (Cons e es)
  obtain tag c where e: "e = (tag, c)" by (cases e)
  let ?rest = "concat (map (\<lambda>(tag, c). der_element tag c) es)"
  let ?hl = "length (der_header tag (length c))"
  have w: "window s = der_element tag c @ ?rest" and c: "length c < 2 ^ 32" using Cons.prems e by auto
  let ?out = "cbs_cut (?hl + length c) s" and ?s' = "advance (?hl + length c) s"
  have g: "CBS_get_any_asn1_element s = (Some (?out, tag, ?hl), ?s')"
    using der_element_complete [OF Cons.prems(1) w c] by (simp add: CBS_get_any_asn1_element_def)
  have le: "?hl + length c \<le> cbs_len s" using length_window [OF Cons.prems(1)] w by (simp add: der_element_def)
  have "window ?s' = ?rest" using w by (simp add: der_element_def)
  with Cons.IH [of ?s'] Cons.prems obtain cs where
    "parse_elements (length es) ?s' = Some cs" "map window cs = map (\<lambda>(tag, c). der_element tag c) es"
    "\<forall>c \<in> set cs. cbs_ok c" by auto
  moreover have "window ?out = der_element tag c" using w le by (simp add: der_element_def)
  moreover have "cbs_ok ?out" using Cons.prems(1) le by simp
  ultimately show ?case using g e by simp
qed simp

section \<open>Rewriting the contents\<close>

lemma fills_elements:
  assumes "\<forall>c \<in> set cs. cbs_ok c"
  shows "fills d (concat (map window cs)) (add_elements d cs)"
  using assms
proof (induction cs)
  case Nil
  show ?case using fills_ret by (simp only: add_elements.simps list.map concat.simps)
next
  case (Cons c cs)
  have "length (window c) < 2 ^ 63" using Cons.prems by (auto simp: length_window cbs_ok_def)
  then have "fills d (window c) (CBB_add_bytes d (take (CBS_len c) (cbs_data c)))"
    using writes_fills [OF writes_bytes] by (simp add: window_def CBS_len_def)
  then show ?case using Cons by (simp add: fills_then)
qed

lemma live_mem: "cbb_live cbb bytes cs \<Longrightarrow> mem_sane m \<Longrightarrow> cbb_live (cbb\<lparr>cbb_mem := m\<rparr>) bytes cs"
  by (auto simp: cbb_live_def split: option.splits)

lemma live_rewind:
  "cbb_live cbb (xs @ ys) cs \<Longrightarrow> n = length xs \<Longrightarrow> cbb_live (map_base (\<lambda>b. b\<lparr>cb_len := n\<rparr>) cbb) xs cs"
  by (erule cbb_liveE) (auto simp: cbb_live_def map_base_def buffer_ok_def cb_bytes_def)

lemma rep_mem: "cbb_rep cbb L \<Longrightarrow> mem_sane m \<Longrightarrow> cbb_rep (cbb\<lparr>cbb_mem := m\<rparr>) L"
  by (auto simp: cbb_rep_def live_mem)

lemma rep_sane: "cbb_rep cbb L \<Longrightarrow> mem_sane (cbb_mem cbb)"
  by (auto simp: cbb_rep_def cbb_live_def)

text \<open>The contents of the innermost handle, and what the handle reports of them.\<close>

lemma handle_contents:
  assumes "cbb_rep cbb (M @ [(k, c)])"
  shows "handle_start (length M) cbb = length (raw M) + plen k" and "CBB_len (length M) cbb = length c"
    and "c \<noteq> [] \<Longrightarrow> \<exists>rest. CBB_data (length M) cbb = c @ rest \<and> length (c @ rest) < 2 ^ 63"
proof -
  let ?L = "M @ [(k, c)]"
  have live: "cbb_live cbb (raw ?L) (map (child_of ?L) [1..<length ?L])" and ok: "levels_ok ?L"
    using assms by (auto simp: cbb_rep_def)
  note ch = cbb_live_base(2) [OF live]
  show hs: "handle_start (length M) cbb = length (raw M) + plen k"
  proof (cases "length M = 0")
    case True
    then show ?thesis using ok by (simp add: handle_start_def levels_ok_def)
  next
    case False
    then have "cbb_children cbb ! (length M - 1) = child_of ?L (length M)"
      unfolding ch by (subst nth_map) (auto simp: Suc_le_eq simp del: upt_Suc)
    then show ?thesis using False by (simp add: handle_start_def child_of_def)
  qed
  show "CBB_len (length M) cbb = length c"
    using cbb_live_base(1) [OF live] by (simp add: CBB_len_def hs)
  assume c: "c \<noteq> []"
  from live obtain b rest where b: "cbb_base cbb = Some b" "buffer_ok b" "cb_bytes b = raw ?L @ rest"
    by (rule cbb_liveE) blast
  have "cb_bytes b \<noteq> []" using b(3) c by simp
  then have "buf_bytes cbb = raw ?L @ rest" using b by (auto simp: buf_bytes_def cb_bytes_def split: option.splits)
  then have "CBB_data (length M) cbb = c @ rest" by (simp add: CBB_data_def hs)
  moreover have "length (c @ rest) < 2 ^ 63" using b(2,3) by (auto simp: buffer_ok_def)
  ultimately show "\<exists>rest. CBB_data (length M) cbb = c @ rest \<and> length (c @ rest) < 2 ^ 63" by blast
qed

lemma rep_rewind:
  assumes "cbb_rep cbb (M @ [(k, c)])"
  shows "cbb_rep (map_base (\<lambda>b. b\<lparr>cb_len := handle_start (length M) cbb\<rparr>) cbb) (M @ [(k, [])])"
proof -
  have "levels_ok (M @ [(k, [])])" using assms by (cases M) (auto simp: cbb_rep_def levels_ok_def)
  moreover have "cbb_live cbb ((raw M @ replicate (plen k) 0) @ c) (cbb_children cbb)"
    using rep_live [OF assms] by simp
  from live_rewind [OF this] handle_contents(1) [OF assms]
  have "cbb_live (map_base (\<lambda>b. b\<lparr>cb_len := handle_start (length M) cbb\<rparr>) cbb)
      (raw M @ replicate (plen k) 0) (cbb_children cbb)" by simp
  moreover have "cbb_children cbb = map (child_of (M @ [(k, [])])) [1..<length (M @ [(k, [])])]"
    unfolding children_last_bytes [of M k "[]" c]
    using assms by (auto simp: cbb_rep_def dest: cbb_live_base(2))
  ultimately show ?thesis by (simp add: cbb_rep_def)
qed

lemma sorted_windows:
  assumes "\<forall>c \<in> set cs. cbs_ok c"
  shows "sorted_wrt bytes_le (map window (qsort compare_set_of_element cs))"
proof -
  have "sorted_wrt (\<lambda>a b. compare_set_of_element a b \<le> 0) (qsort compare_set_of_element cs)"
    using assms by (intro sorted_qsort consistent_compare) auto
  then have "sorted_wrt (\<lambda>a b. bytes_le (window a) (window b)) (qsort compare_set_of_element cs)"
    by (rule sorted_wrt_mono_rel [rotated]) (use assms compare_set_of_le in auto)
  then show ?thesis by (simp add: sorted_wrt_map)
qed

lemma BUF_memdup_window:
  assumes "BUF_memdup data n m = (Some p, m')" and "data = c @ rest" and "length (c @ rest) < 2 ^ 63"
    and "n = length c"
  shows "cbs_ok (CBS_init p n) \<and> window (CBS_init p n) = c \<and> mem_ok m' = mem_ok m"
proof -
  have le: "n \<le> SIZE_MAX - 8" using assms(3,4) by (simp add: SIZE_MAX_def)
  from assms(1) obtain q where q: "OPENSSL_malloc n m = (Some q, m')" "p = take n data @ drop n q"
    by (auto simp: BUF_memdup_def split: if_splits)
  from OPENSSL_malloc_length [OF q(1) le] q(2) assms(2-4) OPENSSL_malloc_sane(1) [OF q(1)]
  show ?thesis by (simp add: CBS_init_def cbs_ok_def window_def)
qed

section \<open>Properties\<close>

text \<open>C19: \<open>CBB_flush_asn1_set_of\<close> sorts.  Whenever it succeeds, what was in the handle is a sequence of
  complete DER elements, and what is in it afterwards is a permutation of the same elements in
  ascending lexicographic order; nothing else of the builder changes beyond the flush.\<close>

theorem CBB_flush_asn1_set_of_sorts:
  assumes "cbb_rep cbb L" and "CBB_flush_asn1_set_of d cbb = (Some u, cbb')"
  shows "\<exists>es es'. snd (flushed d L ! d) = concat es \<and> (\<forall>e \<in> set es. \<exists>tag c. e = der_element tag c) \<and>
    mset es' = mset es \<and> sorted_wrt bytes_le es' \<and>
    cbb_rep cbb' (take d L @ [(fst (L ! d), concat es')])"
proof -
  from assms(2) obtain x cbb1 where f: "CBB_flush d cbb = (Some x, cbb1)"
    by (auto simp: CBB_flush_asn1_set_of_def and_then_def split: prod.splits option.splits)
  let ?k = "fst (L ! d)" and ?M = "take d L"
  define c where "c = snd (L ! d) @ close (drop (Suc d) L)"
  from CBB_flush_sound [OF assms(1) f] have d: "d < length L" and r1: "cbb_rep cbb1 (?M @ [(?k, c)])"
    by (auto simp: flushed_def c_def)
  have lM: "length ?M = d" using d by simp
  have fl: "snd (flushed d L ! d) = c" using d by (simp add: flushed_def c_def nth_append)
  note hc = handle_contents [OF r1, unfolded lM]
  let ?s = "CBS_init (CBB_data d cbb1) (length c)"
  show ?thesis
  proof (cases "c = []")
    case True
    then have "CBS_len ?s = 0" by (simp add: CBS_len_def CBS_init_def)
    then have "cbb' = cbb1" using assms(2) f hc(2) True
      by (simp add: CBB_flush_asn1_set_of_def count_elements.simps)
    with r1 True fl show ?thesis by (intro exI [of _ "[]"]) simp
  next
    case False
    from hc(3) [OF False] obtain rest where dat: "CBB_data d cbb1 = c @ rest" "length (c @ rest) < 2 ^ 63"
      by blast
    have s: "cbs_ok ?s" "window ?s = c" using dat by (simp_all add: CBS_init_def cbs_ok_def window_def)
    from assms(2) f obtain n where n: "count_elements (length c) ?s = Some n"
      by (auto simp: CBB_flush_asn1_set_of_def hc(2) Let_def split: option.splits)
    from count_elements_sound [OF s(1) n] s(2) obtain es where
      es: "length es = n" "c = concat (map (\<lambda>(tag, c). der_element tag c) es)"
        "\<forall>(tag, c) \<in> set es. length c < 2 ^ 32" by auto
    let ?es = "map (\<lambda>(tag, c). der_element tag c) es"
    have der: "\<forall>e \<in> set ?es. \<exists>tag c. e = der_element tag c" by auto
    show ?thesis
    proof (cases "n < 2")
      case True
      then have "cbb' = cbb1" using assms(2) f n
        by (simp add: CBB_flush_asn1_set_of_def hc(2) Let_def)
      moreover have "sorted_wrt bytes_le ?es" using True es(1) by (cases es; cases "tl es") auto
      ultimately show ?thesis using r1 es(2) der fl by (intro exI [of _ ?es]) auto
    next
      case nlt: False
      obtain buf m1 where b: "BUF_memdup (CBB_data d cbb1) (length c) (cbb_mem cbb1) = (buf, m1)" by fastforce
      obtain chs m2 where h: "OPENSSL_malloc (n * sizeof_CBS) m1 = (chs, m2)" by fastforce
      let ?st = "map_base (\<lambda>b. b\<lparr>cb_len := handle_start d cbb1\<rparr>) (cbb1\<lparr>cbb_mem := m2\<rparr>)"
      from assms(2) f n nlt b h obtain p cs cbb2 where p: "buf = Some p"
        and cs: "parse_elements n (CBS_init p (length c)) = Some cs"
        and add: "add_elements d (qsort compare_set_of_element cs) ?st = (Some u, cbb2)"
        and cbb': "cbb' = cbb2\<lparr>cbb_mem := OPENSSL_free chs (OPENSSL_free buf (cbb_mem cbb2))\<rparr>"
        by (auto simp: CBB_flush_asn1_set_of_def hc(2) Let_def split: option.splits prod.splits if_splits)
      from BUF_memdup_window [OF b [unfolded p] dat refl]
      have s2: "cbs_ok (CBS_init p (length c))" "window (CBS_init p (length c)) = c"
        and m1: "mem_ok m1 = mem_ok (cbb_mem cbb1)" by auto
      from parse_elements_complete [OF s2(1), of es] s2(2) es cs have
        w: "map window cs = ?es" "\<forall>c \<in> set cs. cbs_ok c" by auto
      have m2: "mem_sane m2"
        using rep_sane [OF r1] m1 OPENSSL_malloc_sane(1) [OF h] by (simp add: mem_sane_def)
      have hs: "handle_start d (cbb1\<lparr>cbb_mem := m2\<rparr>) = handle_start d cbb1" by (simp add: handle_start_def)
      have r2: "cbb_rep ?st (?M @ [(?k, [])])"
        using rep_rewind [OF rep_mem [OF r1 m2]] unfolding lM hs .
      let ?cs = "qsort compare_set_of_element cs"
      have "\<forall>c \<in> set ?cs. cbs_ok c" using w(2) by simp
      from fillsD [OF fills_elements [OF this] r2 _ add] d
      have "cbb_rep cbb2 (?M @ [(?k, concat (map window ?cs))])"
        by (simp add: append_level_def nth_append min_def)
      then have r3: "cbb_rep cbb' (?M @ [(?k, concat (map window ?cs))])"
        unfolding cbb' using rep_sane by (intro rep_mem) auto
      have "mset (map window ?cs) = mset ?es" unfolding w(1) [symmetric] by simp
      with r3 sorted_windows [OF w(2)] es(2) der fl show ?thesis
        by (intro exI [of _ ?es] exI [of _ "map window ?cs"]) auto
    qed
  qed
qed

lemma CBB_flush_asn1_set_of_sorts_witness:
  "\<exists>es es'. [4, 1, 9, 4, 1, 3] = concat es \<and> (\<forall>e \<in> set es. \<exists>tag c. e = der_element tag c) \<and>
    mset es' = mset es \<and> sorted_wrt bytes_le es'"
proof -
  let ?c0 = "snd (CBB_init 4 tiny_mem)"
  let ?c1 = "snd (CBB_add_bytes 0 [4, 1, 9, 4, 1, 3] ?c0)"
  have "fst (CBB_init 4 tiny_mem) = Some () \<and> fst (CBB_add_bytes 0 [4, 1, 9, 4, 1, 3] ?c0) = Some () \<and>
    fst (CBB_flush_asn1_set_of 0 ?c1) = Some ()" by code_simp
  then have c: "CBB_init 4 tiny_mem = (Some (), ?c0)" "CBB_add_bytes 0 [4, 1, 9, 4, 1, 3] ?c0 = (Some (), ?c1)"
    "CBB_flush_asn1_set_of 0 ?c1 = (Some (), snd (CBB_flush_asn1_set_of 0 ?c1))"
    by (metis prod.collapse)+
  have "cbb_rep ?c1 (append_level 0 [4, 1, 9, 4, 1, 3] [(Root, [])])"
    by (rule writesD(3) [OF writes_bytes CBB_init_rep(1) [OF c(1) tiny_mem_sane] c(2)]) simp_all
  from CBB_flush_asn1_set_of_sorts [OF this c(3)] show ?thesis
    by (simp add: append_level_def flushed_def) blast
qed

end
