(* ===== verification/Ber.thy ===== *)
theory Ber
  imports Cbb_SetOf
begin

unbundle bit_operations_syntax

text \<open>
  BER input: \<^verbatim>\<open>crypto/bytestring/ber.c\<close>, which finds out whether a structure has an indefinite length
  or a constructed string in it and rewrites it as DER, and \<^verbatim>\<open>CBB_finish_i2d\<close> of
  \<^verbatim>\<open>asn1_compat.c\<close>.  Every round of the two recursive functions consumes at least one byte of the
  input, so the number of input bytes bounds the rounds (the argument \<open>fuel\<close>); \<^verbatim>\<open>kMaxDepth\<close> bounds the
  nesting, as in the code.
\<close>

section \<open>Model\<close>

definition kMaxDepth :: nat where
  "kMaxDepth = 2048"

definition string_tags :: "u32 list" where
  "string_tags = [0x3, 0x4, 0xc, 0x12, 0x13, 0x14, 0x15, 0x16, 0x19, 0x1a, 0x1b, 0x1c, 0x1e]"

definition is_string_type :: "u32 \<Rightarrow> bool" where
  "is_string_type tag \<longleftrightarrow> tag AND NOT CBS_ASN1_CONSTRUCTED \<in> set string_tags"

text \<open>The test both walks share: an element that is only a header, whose last byte is 0x80.\<close>

definition indefinite_length :: "CBS \<Rightarrow> nat \<Rightarrow> bool" where
  "indefinite_length contents header_len \<longleftrightarrow>
     CBS_len contents = header_len \<and> header_len > 0 \<and> cbs_data contents ! (header_len - 1) = 0x80"

text \<open>\<open>find_ber_loop\<close> is the \<^verbatim>\<open>while\<close> loop, with \<^verbatim>\<open>*ber_found\<close> as its argument and result.\<close>

fun find_ber_loop :: "nat \<Rightarrow> CBS \<Rightarrow> bool \<Rightarrow> nat \<Rightarrow> bool option" where
  "find_ber_loop fuel cbs ber_found depth =
     (if CBS_len cbs > 0 then
        case fuel of 0 \<Rightarrow> None
        | Suc fuel' \<Rightarrow>
            (case CBS_get_any_ber_asn1_element cbs of
               (None, _) \<Rightarrow> None
             | (Some (contents, tag, header_len), cbs') \<Rightarrow>
                 if indefinite_length contents header_len then Some True
                 else if tag AND CBS_ASN1_CONSTRUCTED \<noteq> 0 then
                   if is_string_type tag then Some True
                   else (case CBS_skip header_len contents of
                           (None, _) \<Rightarrow> None
                         | (Some _, contents') \<Rightarrow>
                             if depth + 1 > kMaxDepth then None
                             else (case find_ber_loop fuel' contents' False (depth + 1) of
                                     None \<Rightarrow> None
                                   | Some ber_found' \<Rightarrow> find_ber_loop fuel' cbs' ber_found' depth))
                 else find_ber_loop fuel' cbs' ber_found depth)
      else Some ber_found)"

declare find_ber_loop.simps [simp del]

definition cbs_find_ber :: "CBS \<Rightarrow> nat \<Rightarrow> bool option" where
  "cbs_find_ber orig_in depth =
     (if depth > kMaxDepth then None
      else find_ber_loop (CBS_len orig_in) (CBS_init (cbs_data orig_in) (CBS_len orig_in)) False depth)"

definition is_eoc :: "nat \<Rightarrow> CBS \<Rightarrow> bool" where
  "is_eoc header_len contents \<longleftrightarrow>
     header_len = 2 \<and> CBS_len contents = 2 \<and> memcmp (cbs_data contents) [0, 0] 2 = 0"

text \<open>
  Outside a string, a constructed string loses its constructed bit and its fragments must match the
  remaining tag (\<^verbatim>\<open>out_tag\<close> and \<^verbatim>\<open>child_string_tag\<close>).
\<close>

definition out_tag_of :: "u32 \<Rightarrow> u32" where
  "out_tag_of tag = (if tag AND CBS_ASN1_CONSTRUCTED \<noteq> 0 \<and> is_string_type tag
     then tag AND NOT CBS_ASN1_CONSTRUCTED else tag)"

definition child_tag_of :: "u32 \<Rightarrow> u32" where
  "child_tag_of tag = (if tag AND CBS_ASN1_CONSTRUCTED \<noteq> 0 \<and> is_string_type tag
     then tag AND NOT CBS_ASN1_CONSTRUCTED else 0)"

text \<open>
  \<open>convert_ber_loop\<close> writes to the handle \<open>d\<close>, which is \<^verbatim>\<open>out\<close>, and returns the \<^verbatim>\<open>in\<close> it leaves; a recursive
  call on the contents of a definite-length element has an input of its own.
\<close>

fun convert_ber_loop :: "nat \<Rightarrow> nat \<Rightarrow> u32 \<Rightarrow> bool \<Rightarrow> nat \<Rightarrow> CBS \<Rightarrow> (CBS, CBB) step" where
  "convert_ber_loop fuel d string_tag looking_for_eoc depth cbs =
     (if depth > kMaxDepth then fail
      else if CBS_len cbs = 0 then (if looking_for_eoc then fail else ret cbs)
      else case fuel of 0 \<Rightarrow> fail
      | Suc fuel' \<Rightarrow>
          (case CBS_get_any_ber_asn1_element cbs of
             (None, _) \<Rightarrow> fail
           | (Some (contents, tag, header_len), cbs') \<Rightarrow>
               if is_eoc header_len contents then (if looking_for_eoc then ret cbs' else fail)
               else
                 and_then
                   (if string_tag \<noteq> 0 then
                      (if tag AND NOT CBS_ASN1_CONSTRUCTED \<noteq> string_tag then fail else ret (d, string_tag))
                    else
                      and_then (CBB_add_asn1 d (out_tag_of tag)) (\<lambda>_. ret (Suc d, child_tag_of tag)))
                   (\<lambda>(out_contents, child_string_tag).
                      if indefinite_length contents header_len then
                        and_then (convert_ber_loop fuel' out_contents child_string_tag True (depth + 1) cbs')
                          (\<lambda>cbs''. and_then (CBB_flush d)
                             (\<lambda>_. convert_ber_loop fuel' d string_tag looking_for_eoc depth cbs''))
                      else
                        (case CBS_skip header_len contents of
                           (None, _) \<Rightarrow> fail
                         | (Some _, contents') \<Rightarrow>
                             and_then
                               (if tag AND CBS_ASN1_CONSTRUCTED \<noteq> 0
                                then and_then (convert_ber_loop fuel' out_contents child_string_tag False (depth + 1) contents')
                                       (\<lambda>_. ret ())
                                else CBB_add_bytes out_contents (take (CBS_len contents') (cbs_data contents')))
                               (\<lambda>_. and_then (CBB_flush d)
                                  (\<lambda>_. convert_ber_loop fuel' d string_tag looking_for_eoc depth cbs'))))))"

declare convert_ber_loop.simps [simp del]

definition cbs_convert_ber :: "nat \<Rightarrow> u32 \<Rightarrow> bool \<Rightarrow> nat \<Rightarrow> CBS \<Rightarrow> (CBS, CBB) step" where
  "cbs_convert_ber d string_tag looking_for_eoc depth cbs =
     convert_ber_loop (CBS_len cbs) d string_tag looking_for_eoc depth cbs"

text \<open>The result is \<^verbatim>\<open>*out\<close> and \<^verbatim>\<open>*out_len\<close>; NULL stands for input that is DER already.\<close>

definition CBS_asn1_ber_to_der :: "CBS \<Rightarrow> (u8 list option \<times> nat, mem) step" where
  "CBS_asn1_ber_to_der cbs m =
     (case cbs_find_ber cbs 0 of
        None \<Rightarrow> (None, m)
      | Some conversion_needed \<Rightarrow>
          if \<not> conversion_needed then (Some (None, 0), m)
          else
            (case CBB_init (CBS_len cbs) m of
               (None, cbb) \<Rightarrow> (None, cbb_mem (CBB_cleanup cbb))
             | (Some _, cbb) \<Rightarrow>
                 (case and_then (cbs_convert_ber 0 0 False 0 cbs) (\<lambda>_. CBB_finish 0 True True) cbb of
                    (None, cbb') \<Rightarrow> (None, cbb_mem (CBB_cleanup cbb'))
                  | (Some (out, out_len), cbb') \<Rightarrow> (Some (out, out_len), cbb_mem cbb'))))"

text \<open>
  \<^verbatim>\<open>CBS_get_asn1_implicit_string\<close>: the result is \<^verbatim>\<open>out\<close> and \<^verbatim>\<open>*out_storage\<close>; the loop over the chunks is
  bounded like the others.
\<close>

fun implicit_string_loop :: "nat \<Rightarrow> u32 \<Rightarrow> CBS \<Rightarrow> (unit, CBB) step" where
  "implicit_string_loop fuel inner_tag child =
     (if CBS_len child > 0 then
        case CBS_get_asn1 inner_tag child of
          (None, _) \<Rightarrow> fail
        | (Some chunk, child') \<Rightarrow>
            (case fuel of 0 \<Rightarrow> fail
             | Suc fuel' \<Rightarrow>
                 and_then (CBB_add_bytes 0 (take (CBS_len chunk) (cbs_data chunk)))
                   (\<lambda>_. implicit_string_loop fuel' inner_tag child'))
      else ret ())"

declare implicit_string_loop.simps [simp del]

definition CBS_get_asn1_implicit_string ::
    "u32 \<Rightarrow> u32 \<Rightarrow> CBS \<times> mem \<Rightarrow> (CBS \<times> u8 list option) option \<times> CBS \<times> mem" where
  "CBS_get_asn1_implicit_string outer_tag inner_tag = (\<lambda>(cbs, m).
     if CBS_peek_asn1_tag cbs outer_tag then
       (case CBS_get_asn1 outer_tag cbs of
          (None, cbs') \<Rightarrow> (None, cbs', m)
        | (Some out, cbs') \<Rightarrow> (Some (out, None), cbs', m))
     else
       case CBB_init (CBS_len cbs) m of
         (None, result) \<Rightarrow> (None, cbs, cbb_mem (CBB_cleanup result))
       | (Some _, result) \<Rightarrow>
           (case CBS_get_asn1 (outer_tag OR CBS_ASN1_CONSTRUCTED) cbs of
              (None, cbs') \<Rightarrow> (None, cbs', cbb_mem (CBB_cleanup result))
            | (Some child, cbs') \<Rightarrow>
                (case and_then (implicit_string_loop (CBS_len child) inner_tag child)
                        (\<lambda>_. CBB_finish 0 True True) result of
                   (None, result') \<Rightarrow> (None, cbs', cbb_mem (CBB_cleanup result'))
                 | (Some (data, len), result') \<Rightarrow>
                     (Some (CBS_init (case data of None \<Rightarrow> [] | Some d \<Rightarrow> d) len, data), cbs', cbb_mem result'))))"

text \<open>
  \<^verbatim>\<open>CBB_finish_i2d\<close>: \<open>None\<close> is the result -1.  \<^verbatim>\<open>outp\<close> is NULL, or points to NULL and receives the block,
  or points into a buffer of the caller that is overwritten.
\<close>

datatype i2d_out = Null_outp | Null_target | Target "u8 list"

definition CBB_finish_i2d :: "i2d_out \<Rightarrow> (nat \<times> u8 list option, CBB) step" where
  "CBB_finish_i2d outp cbb =
     (case CBB_finish 0 True True cbb of
        (None, cbb') \<Rightarrow> (None, CBB_cleanup cbb')
      | (Some (der, der_len), cbb') \<Rightarrow>
          let free_der = cbb'\<lparr>cbb_mem := OPENSSL_free der (cbb_mem cbb')\<rparr>
          in if der_len > INT_MAX then (None, free_der)
             else case outp of
                    Null_outp \<Rightarrow> (Some (der_len, None), free_der)
                  | Null_target \<Rightarrow> (Some (der_len, der), cbb')
                  | Target buf \<Rightarrow>
                      (Some (der_len, Some (put_bytes buf 0 (take der_len (case der of None \<Rightarrow> [] | Some d \<Rightarrow> d)))),
                       free_der))"

section \<open>What a BER element header is\<close>

lemma element_ber_out:
  assumes "cbs_ok s" and "CBS_get_any_ber_asn1_element s = (Some (out, tag, hl), s')"
  shows "cbs_ok out \<and> cbs_ok s'"
  using element_out [OF assms(1)] staysD [of CBS_get_any_ber_asn1_element s] assms
  by (auto simp: within_def CBS_get_any_ber_asn1_element_def)

text \<open>Only a constructed element can have the indefinite length: a primitive one has a length octet
  other than 0x80 at the end of its header, or contents.\<close>

lemma indefinite_constructed:
  assumes ok: "cbs_ok s" and g: "CBS_get_any_ber_asn1_element s = (Some (out, tag, hl), s')"
    and ind: "indefinite_length out hl"
  shows "tag AND CBS_ASN1_CONSTRUCTED \<noteq> 0"
proof
  assume prim: "tag AND CBS_ASN1_CONSTRUCTED = 0"
  from g obtain h1 where t: "parse_asn1_tag s = (Some tag, h1)"
    by (auto simp: CBS_get_any_ber_asn1_element_def cbs_get_any_asn1_element_def Let_def
        split: prod.splits option.splits if_splits)
  from parse_asn1_tag_sound [OF ok t] obtain w where
    w: "window s = der_tag tag @ w" and h1: "h1 = advance (length (der_tag tag)) s" by blast
  let ?k = "length (der_tag tag)"
  from g t obtain lb h2 where u: "CBS_get_u8 h1 = (Some lb, h2)"
    by (auto simp: CBS_get_any_ber_asn1_element_def cbs_get_any_asn1_element_def
        split: prod.splits option.splits)
  with h1 ok obtain w2 where w2: "drop ?k (window s) = lb # w2" and h2: "h2 = advance (Suc ?k) s"
    by (auto simp: CBS_get_u8_eq split: list.splits)
  have lk: "Suc ?k \<le> cbs_len s" and nth: "window s ! ?k = lb"
    using w w2 length_window [OF ok] by (auto simp: nth_append)
  then have nthd: "cbs_data s ! ?k = lb" by (simp add: window_def)
  have hl: "CBS_len s - CBS_len h2 = Suc ?k" using h2 lk by (simp add: CBS_len_def)
  have big: "cbs_len s < 2 ^ 63" using ok by (simp add: cbs_ok_def)
  note g' = g [unfolded CBS_get_any_ber_asn1_element_def cbs_get_any_asn1_element_def t prod.case option.case u Let_def hl]
  show False
  proof (cases "lb AND 0x80 = 0")
    case True
    with g' have "hl = Suc ?k" "cbs_data out = cbs_data s"
      by (auto simp: CBS_get_bytes_eq split: if_splits)
    with ind nthd have "lb = 0x80" by (simp add: indefinite_length_def)
    with True show False by simp
  next
    case False
    let ?nb = "unat (lb AND 0x7f)"
    from g' False prim obtain len32 h3 where
      r: "cbs_get_u ?nb h2 = (Some len32, h3)" and c: "\<not> len32 < 128" "?nb \<le> 4"
      and hl': "hl = Suc ?k + ?nb" and ol: "cbs_len out = size_add (size_add (unat len32) (Suc ?k)) ?nb"
      by (auto simp: CBS_get_bytes_eq split: prod.splits option.splits if_splits)
    have l32: "unat len32 < 2 ^ 32" using unsigned_less [of len32] by simp
    have "?nb \<le> cbs_len h2" using r by (auto simp: cbs_get_u_def cbs_get_def and_then_def split: if_splits)
    then have "Suc ?k + ?nb \<le> cbs_len s" using h2 lk by simp
    then have "cbs_len out = unat len32 + Suc ?k + ?nb" unfolding ol using l32 big c(2)
      by (simp add: size_add_def)
    moreover have "128 \<le> unat len32" using c(1) by (simp add: word_less_nat_alt)
    ultimately show False using ind hl' by (simp add: indefinite_length_def CBS_len_def)
  qed
qed

section \<open>The output of the conversion\<close>

primrec clean :: "asn1 \<Rightarrow> bool" where
  "clean (Prim tag c) = (tag AND CBS_ASN1_CONSTRUCTED = 0)"
| "clean (Con tag ts) = (tag AND CBS_ASN1_CONSTRUCTED \<noteq> 0 \<and> \<not> is_string_type tag \<and> list_all clean ts)"

lemma and_not_constructed: "(tag AND NOT CBS_ASN1_CONSTRUCTED) AND CBS_ASN1_CONSTRUCTED = 0"
  by (rule bit_word_eqI) (simp add: bit_simps)

text \<open>What \<open>convert_ber_loop\<close> may leave in the handle: DER elements, or the pieces of a string.\<close>

definition converted :: "u32 \<Rightarrow> u8 list \<Rightarrow> bool" where
  "converted string_tag bs \<longleftrightarrow> (string_tag = 0 \<longrightarrow>
     (\<exists>ts. bs = concat (map der_of ts) \<and> list_all clean ts \<and> list_all sizes_ok ts))"

lemma converted_Nil: "converted st []"
  by (auto simp: converted_def intro: exI [of _ "[]"])

lemma converted_append: "converted st as \<Longrightarrow> converted st bs \<Longrightarrow> converted st (as @ bs)"
proof -
  assume a: "converted st as" and b: "converted st bs"
  show "converted st (as @ bs)" unfolding converted_def
  proof
    assume "st = 0"
    with a b obtain ts us where "as = concat (map der_of ts)" "list_all clean ts" "list_all sizes_ok ts"
      "bs = concat (map der_of us)" "list_all clean us" "list_all sizes_ok us"
      by (auto simp: converted_def)
    then show "\<exists>ts. as @ bs = concat (map der_of ts) \<and> list_all clean ts \<and> list_all sizes_ok ts"
      by (intro exI [of _ "ts @ us"]) simp
  qed
qed

text \<open>One element: the bytes \<open>bs\<close> of the child become an element of the parent.\<close>

lemma string_tag_nonzero: "is_string_type tag \<Longrightarrow> tag AND NOT CBS_ASN1_CONSTRUCTED \<noteq> 0"
  by (auto simp: is_string_type_def string_tags_def)

lemma converted_element:
  assumes "converted (child_tag_of tag) bs \<or> tag AND CBS_ASN1_CONSTRUCTED = 0" and "length bs \<le> 0xfffffffe"
  shows "converted 0 (der_element (out_tag_of tag) bs)"
proof -
  consider (str) "tag AND CBS_ASN1_CONSTRUCTED \<noteq> 0" "is_string_type tag"
    | (con) "tag AND CBS_ASN1_CONSTRUCTED \<noteq> 0" "\<not> is_string_type tag"
    | (prim) "tag AND CBS_ASN1_CONSTRUCTED = 0" by blast
  then show ?thesis
  proof cases
    case con
    with assms(1) obtain ts where "bs = concat (map der_of ts)" "list_all clean ts" "list_all sizes_ok ts"
      by (auto simp: converted_def child_tag_of_def)
    with con assms(2) show ?thesis
      by (auto simp: converted_def out_tag_of_def intro!: exI [of _ "[Con tag ts]"])
  next
    case str
    then show ?thesis using assms(2) and_not_constructed
      by (auto simp: converted_def out_tag_of_def intro!: exI [of _ "[Prim (out_tag_of tag) bs]"])
  next
    case prim
    then show ?thesis using assms(2)
      by (auto simp: converted_def out_tag_of_def intro!: exI [of _ "[Prim tag bs]"])
  qed
qed

lemma rep_nothing: "cbb_rep cbb L \<Longrightarrow> length L = Suc d \<Longrightarrow> \<exists>bs. cbb_rep cbb (append_level d bs L) \<and> converted st bs"
  using converted_Nil by (intro exI [of _ "[]"]) (simp add: flushed_last flip: append_level_flushed)

lemma convert_sound:
  assumes "cbs_ok s" and "cbb_rep cbb L" and "length L = Suc d"
    and "convert_ber_loop f d st look depth s cbb = (Some s', cbb')"
  shows "cbs_ok s' \<and> (\<exists>bs. cbb_rep cbb' (append_level d bs L) \<and> converted st bs)"
  using assms
proof (induction f arbitrary: d st look depth s cbb L s' cbb')
  case 0
  then have "s' = s" "cbb' = cbb"
    by (auto simp: convert_ber_loop.simps [of 0] split: if_splits)
  with "0.prems" rep_nothing show ?case by simp
next
  case (Suc f)
  note ok = Suc.prems(1) and r = Suc.prems(2) and l = Suc.prems(3)
  note run = Suc.prems(4) [unfolded convert_ber_loop.simps [of "Suc f"]]
  show ?case
  proof (cases "CBS_len s = 0")
    case True
    with run have "s' = s" "cbb' = cbb" by (auto split: if_splits)
    with ok rep_nothing [OF r l] show ?thesis by simp
  next
    case False
    with run obtain contents tag hl s1 where
      g: "CBS_get_any_ber_asn1_element s = (Some (contents, tag, hl), s1)"
      by (auto split: if_splits prod.splits option.splits)
    note okc = element_ber_out [OF ok g]
    show ?thesis
    proof (cases "is_eoc hl contents")
      case True
      with run False g have "s' = s1" "cbb' = cbb" by (auto split: if_splits)
      with okc rep_nothing [OF r l] show ?thesis by simp
    next
      case neoc: False
      let ?body = "\<lambda>oc ct. if indefinite_length contents hl then
            and_then (convert_ber_loop f oc ct True (depth + 1) s1)
              (\<lambda>s2. and_then (CBB_flush d) (\<lambda>_. convert_ber_loop f d st look depth s2))
          else (case CBS_skip hl contents of (None, _) \<Rightarrow> fail
                | (Some _, contents') \<Rightarrow>
                    and_then (if tag AND CBS_ASN1_CONSTRUCTED \<noteq> 0
                              then and_then (convert_ber_loop f oc ct False (depth + 1) contents') (\<lambda>_. ret ())
                              else CBB_add_bytes oc (take (CBS_len contents') (cbs_data contents')))
                      (\<lambda>_. and_then (CBB_flush d) (\<lambda>_. convert_ber_loop f d st look depth s1)))"
      have body: "\<exists>b s2 cbb2 cbb3 y. cbb_rep cbb2 (append_level oc b M) \<and>
            (converted ct b \<or> tag AND CBS_ASN1_CONSTRUCTED = 0) \<and> cbs_ok s2 \<and>
            CBB_flush d cbb2 = (Some y, cbb3) \<and> convert_ber_loop f d st look depth s2 cbb3 = (Some s', cbb')"
        if rM: "cbb_rep cbb1 M" and lM: "length M = Suc oc" and e: "?body oc ct cbb1 = (Some s', cbb')"
        for oc ct cbb1 M
      proof (cases "indefinite_length contents hl")
        case True
        with e obtain s2 cbb2 cbb3 y where c: "convert_ber_loop f oc ct True (depth + 1) s1 cbb1 = (Some s2, cbb2)"
          and fl: "CBB_flush d cbb2 = (Some y, cbb3)" "convert_ber_loop f d st look depth s2 cbb3 = (Some s', cbb')"
          by auto
        from Suc.IH [OF _ rM lM c] okc fl show ?thesis by blast
      next
        case nind: False
        with e obtain contents' where sk: "CBS_skip hl contents = (Some (), contents')"
          by (auto split: prod.splits option.splits)
        then have okc': "cbs_ok contents'" using okc by (auto simp: CBS_skip_eq split: if_splits)
        show ?thesis
        proof (cases "tag AND CBS_ASN1_CONSTRUCTED = 0")
          case True
          with e nind sk obtain cbb2 cbb3 x y where
            a: "CBB_add_bytes oc (window contents') cbb1 = (Some x, cbb2)"
            and fl: "CBB_flush d cbb2 = (Some y, cbb3)" "convert_ber_loop f d st look depth s1 cbb3 = (Some s', cbb')"
            by (auto simp: window_def CBS_len_def)
          have "length (window contents') < 2 ^ 63" using okc' length_window [OF okc'] by (simp add: cbs_ok_def)
          from fillsD [OF writes_fills [OF writes_bytes [OF this]] rM lM a] fl okc True show ?thesis by blast
        next
          case con: False
          with e nind sk obtain s2 cbb2 cbb3 y where
            c: "convert_ber_loop f oc ct False (depth + 1) contents' cbb1 = (Some s2, cbb2)"
            and fl: "CBB_flush d cbb2 = (Some y, cbb3)" "convert_ber_loop f d st look depth s1 cbb3 = (Some s', cbb')"
            by auto
          from Suc.IH [OF okc' rM lM c] okc fl show ?thesis by blast
        qed
      qed
      have "\<exists>bs s2 cbb3. cbb_rep cbb3 (append_level d bs L) \<and> converted st bs \<and> cbs_ok s2 \<and>
          convert_ber_loop f d st look depth s2 cbb3 = (Some s', cbb')"
      proof (cases "st = 0")
        case False
        with run \<open>CBS_len s \<noteq> 0\<close> g neoc have "?body d st cbb = (Some s', cbb')"
          by (simp split: if_splits)
        from body [OF r l this] obtain b s2 cbb2 cbb3 y where
          b: "cbb_rep cbb2 (append_level d b L)" "cbs_ok s2" "CBB_flush d cbb2 = (Some y, cbb3)"
            "convert_ber_loop f d st look depth s2 cbb3 = (Some s', cbb')" by blast
        from writesD(3) [OF writes_flush b(1,3)] l have "cbb_rep cbb3 (append_level d b L)" by simp
        moreover have "converted st b" using False by (simp add: converted_def)
        ultimately show ?thesis using b by blast
      next
        case True
        with run \<open>CBS_len s \<noteq> 0\<close> g neoc obtain x cbb1 where
          p: "CBB_add_asn1 d (out_tag_of tag) cbb = (Some x, cbb1)"
          and e: "?body (Suc d) (child_tag_of tag) cbb1 = (Some s', cbb')"
          by (auto split: if_splits)
        note o = opensD [OF opens_asn1 r p]
        let ?M = "append_level d (der_tag (out_tag_of tag)) L"
        have "length (?M @ [(Asn1, [])]) = Suc (Suc d)" using l by simp
        from body [OF o(3) this e] obtain b s2 cbb2 cbb3 y where
          b: "cbb_rep cbb2 (append_level (Suc d) b (?M @ [(Asn1, [])]))"
            "converted (child_tag_of tag) b \<or> tag AND CBS_ASN1_CONSTRUCTED = 0" "cbs_ok s2"
            "CBB_flush d cbb2 = (Some y, cbb3)"
            "convert_ber_loop f d st look depth s2 cbb3 = (Some s', cbb')" by blast
        note cl = child_levels [OF o(1), where k = Asn1]
        note w = writesD [OF writes_flush b(1) [unfolded cl(1)] b(4), unfolded cl der_element_wrap]
        have "length b \<le> 0xfffffffe" using w(2) by simp
        with converted_element [OF b(2)] True have "converted st (der_element (out_tag_of tag) b)" by simp
        with w(3) b(3,5) show ?thesis by blast
      qed
      then obtain bs s2 cbb3 where n: "cbb_rep cbb3 (append_level d bs L)" "converted st bs" "cbs_ok s2"
        "convert_ber_loop f d st look depth s2 cbb3 = (Some s', cbb')" by blast
      have "length (append_level d bs L) = Suc d" using l by simp
      from Suc.IH [OF n(3,1) this n(4)] obtain bs' where
        "cbs_ok s'" "cbb_rep cbb' (append_level d (bs @ bs') L)" "converted st bs'" using l by auto
      then show ?thesis using converted_append [OF n(2)] by blast
    qed
  qed
qed

lemma clean_tags_ok: "clean t \<Longrightarrow> sizes_ok t \<Longrightarrow> tags_ok t"
proof (induction t)
  case (Con tag ts)
  then show ?case by (auto simp: list_all_iff)
qed simp

section \<open>The answer of \<open>cbs_find_ber\<close>\<close>











section \<open>Properties\<close>

text \<open>C25: what \<open>CBS_asn1_ber_to_der\<close> writes is DER.  Whenever it converts, whatever the input, the
  output is a sequence of DER elements in which no string is constructed and every constructed element
  has a definite, minimal length, at every depth; the DER reader takes the whole output apart.\<close>

theorem ber_to_der_output:
  assumes "mem_sane m" and "cbs_ok s" and "cbs_len s < 2 ^ 62"
    and "CBS_asn1_ber_to_der s m = (Some (Some der, n), m')"
  shows "\<exists>ts. list_all clean ts \<and> take n der = concat (map der_of ts) \<and>
    read_all (Suc n) (CBS_init der n) = Some ts"
proof -
  from assms(4) obtain x y cbb0 cbb1 cbb2 s' where i: "CBB_init (CBS_len s) m = (Some x, cbb0)"
    and c: "cbs_convert_ber 0 0 False 0 s cbb0 = (Some s', cbb1)"
    and f: "CBB_finish 0 True True cbb1 = (Some (Some der, n), cbb2)"
    by (auto simp: CBS_asn1_ber_to_der_def split: option.splits prod.splits if_splits)
  have "CBS_len s < 2 ^ 62" using assms(3) by (simp add: CBS_len_def)
  note r0 = CBB_init_rep(1) [OF i assms(1) this]
  have "length [(Root, [])] = Suc 0" by simp
  from convert_sound [OF assms(2) r0 this c [unfolded cbs_convert_ber_def]] obtain ts where
    ts: "list_all clean ts" "list_all sizes_ok ts" "cbb_rep cbb1 [(Root, concat (map der_of ts))]"
    by (auto simp: converted_def append_level_def)
  from CBB_finish_sound [OF ts(3) f] have
    out: "take n der = concat (map der_of ts)" "n \<le> length der" "length der < 2 ^ 63" by auto
  let ?s = "CBS_init der n"
  have s: "cbs_ok ?s" "window ?s = concat (map der_of ts)"
    using out by (simp_all add: CBS_init_def cbs_ok_def window_def)
  have "list_all tags_ok ts" using ts clean_tags_ok by (auto simp: list_all_iff)
  then have "read_all (Suc n) ?s = Some ts"
    using ts(2) by (intro read_all_complete [OF s]) (simp_all add: CBS_init_def)
  with ts(1) out(1) show ?thesis by blast
qed

lemma ber_to_der_output_witness:
  "\<exists>ts. list_all clean ts \<and> [4, 1, 7] = concat (map der_of ts)"
proof -
  let ?s = "CBS_init [0x24, 3, 4, 1, 7] 5"
  let ?der = "[4, 1, 7, 0xaa, 0xaa] :: u8 list"
  have b: "cbs_find_ber ?s 0 = Some True" by code_simp
  have "let (u, cbb) = CBB_init (CBS_len ?s) tiny_mem;
            (r, cbb') = and_then (cbs_convert_ber 0 0 False 0 ?s) (\<lambda>_. CBB_finish 0 True True) cbb
        in u = Some () \<and> r = Some (Some ?der, 3)" by code_simp
  then have "fst (CBS_asn1_ber_to_der ?s tiny_mem) = Some (Some ?der, 3)"
    by (auto simp: CBS_asn1_ber_to_der_def b Let_def split: prod.splits option.splits)
  then have c: "CBS_asn1_ber_to_der ?s tiny_mem = (Some (Some ?der, 3), snd (CBS_asn1_ber_to_der ?s tiny_mem))"
    by (simp add: prod_eq_iff)
  have "cbs_ok ?s" "cbs_len ?s < 2 ^ 62" by (simp_all add: cbs_ok_def CBS_init_def)
  from ber_to_der_output [OF tiny_mem_sane this c] show ?thesis by auto
qed



end
