(* ===== verification/ConstTime.thy ===== *)
theory ConstTime
  imports Prelude
begin

unbundle bit_operations_syntax

text \<open>
  The branch-free comparisons and selections of \<^verbatim>\<open>crypto/internal.h\<close> at the 64-bit
  \<^verbatim>\<open>crypto_word_t\<close>, each proved equal to the comparison it stands for: a mask of ones or zeros.
\<close>

section \<open>Model\<close>

definition constant_time_msb_w :: "u64 \<Rightarrow> u64" where
  "constant_time_msb_w a = 0 - drop_bit (8 * 8 - 1) a"

definition constant_time_lt_w :: "u64 \<Rightarrow> u64 \<Rightarrow> u64" where
  "constant_time_lt_w a b = constant_time_msb_w (a XOR ((a XOR b) OR ((a - b) XOR a)))"

definition constant_time_lt_8 :: "u64 \<Rightarrow> u64 \<Rightarrow> u8" where
  "constant_time_lt_8 a b = ucast (constant_time_lt_w a b)"

definition constant_time_ge_w :: "u64 \<Rightarrow> u64 \<Rightarrow> u64" where
  "constant_time_ge_w a b = NOT (constant_time_lt_w a b)"

definition constant_time_ge_8 :: "u64 \<Rightarrow> u64 \<Rightarrow> u8" where
  "constant_time_ge_8 a b = ucast (constant_time_ge_w a b)"

definition constant_time_is_zero_w :: "u64 \<Rightarrow> u64" where
  "constant_time_is_zero_w a = constant_time_msb_w (NOT a AND (a - 1))"

definition constant_time_is_zero_8 :: "u64 \<Rightarrow> u8" where
  "constant_time_is_zero_8 a = ucast (constant_time_is_zero_w a)"

definition constant_time_eq_w :: "u64 \<Rightarrow> u64 \<Rightarrow> u64" where
  "constant_time_eq_w a b = constant_time_is_zero_w (a XOR b)"

definition constant_time_eq_8 :: "u64 \<Rightarrow> u64 \<Rightarrow> u8" where
  "constant_time_eq_8 a b = ucast (constant_time_eq_w a b)"

definition constant_time_select_w :: "u64 \<Rightarrow> u64 \<Rightarrow> u64 \<Rightarrow> u64" where
  "constant_time_select_w msk a b = (msk AND a) OR (NOT msk AND b)"

definition constant_time_select_8 :: "u8 \<Rightarrow> u8 \<Rightarrow> u8 \<Rightarrow> u8" where
  "constant_time_select_8 msk a b =
     ucast (constant_time_select_w (ucast msk) (ucast a) (ucast b))"

section \<open>Masks\<close>

lemma bit63_iff: "bit (w :: u64) 63 \<longleftrightarrow> 2 ^ 63 \<le> unat w"
proof -
  have l: "unat w < 2 ^ 64" using unsigned_less [of w] by simp
  have "unat w div 2 ^ 63 < 2" using l by (simp add: div_less_iff_less_mult)
  moreover have "bit w 63 \<longleftrightarrow> bit (unat w) 63" by (simp add: bit_simps)
  then have "bit w 63 \<longleftrightarrow> odd (unat w div 2 ^ 63)" by (simp only: bit_iff_odd)
  moreover have "unat w div 2 ^ 63 = 0 \<longleftrightarrow> unat w < 2 ^ 63" by (simp add: div_eq_0_iff)
  ultimately show ?thesis using less_2_cases [of "unat w div 2 ^ 63"] by auto
qed

lemma constant_time_msb_eq: "constant_time_msb_w a = (if bit a 63 then - 1 else 0)"
proof -
  have "drop_bit 63 a = (if bit a 63 then 1 else 0)"
  proof (rule bit_word_eqI)
    fix n assume "n < LENGTH(64)"
    show "bit (drop_bit 63 a) n = bit (if bit a 63 then 1 else 0 :: u64) n"
      by (cases n) (auto simp: bit_simps dest: bit_imp_le_length)
  qed
  then show ?thesis by (simp add: constant_time_msb_w_def)
qed

lemma constant_time_lt_eq: "constant_time_lt_w a b = (if a < b then - 1 else 0)"
proof -
  let ?d = "bit (a - b) 63"
  have la: "unat a < 2 ^ 64" and lb: "unat b < 2 ^ 64"
    using unsigned_less [of a] unsigned_less [of b] by simp_all
  have "a < b \<longleftrightarrow> unat a < unat b" by (simp add: word_less_nat_alt)
  moreover have "?d \<longleftrightarrow> unat a < unat b" if "bit a 63 = bit b 63"
  proof (cases "unat a < unat b")
    case False
    then have "unat (a - b) = unat a - unat b" by (simp add: unat_sub word_le_nat_alt)
    with that la False show ?thesis by (auto simp: bit63_iff not_le)
  next
    case True
    then have "unat (a - b) = 2 ^ 64 + unat a - unat b" by (simp add: unat_sub_if' not_le)
    with that lb True show ?thesis by (auto simp: bit63_iff not_le)
  qed
  ultimately show ?thesis
    by (auto simp: constant_time_lt_w_def constant_time_msb_eq bit_simps) (auto simp: bit63_iff)
qed

lemma constant_time_is_zero_eq: "constant_time_is_zero_w a = (if a = 0 then - 1 else 0)"
proof (cases "a = 0")
  case False
  then have "0 < unat a" by (simp add: unat_gt_0)
  then have "unat (a - 1) = unat a - 1" by (simp add: unat_sub word_le_nat_alt)
  then have "\<not> (\<not> bit a 63 \<and> bit (a - 1) 63)" by (auto simp: bit63_iff)
  then have "\<not> bit (NOT a AND (a - 1)) 63" by (simp add: bit_and_iff bit_not_iff)
  then show ?thesis using False by (simp only: constant_time_is_zero_w_def constant_time_msb_eq if_False)
qed (simp add: constant_time_is_zero_w_def constant_time_msb_eq)

lemma constant_time_eq_eq: "constant_time_eq_w a b = (if a = b then - 1 else 0)"
  by (simp add: constant_time_eq_w_def constant_time_is_zero_eq xor_eq_0_iff)

lemma constant_time_select_eq:
  "constant_time_select_8 (- 1) a b = a" "constant_time_select_8 0 a b = b"
  unfolding constant_time_select_8_def constant_time_select_w_def
  by (rule bit_word_eqI; simp add: bit_simps)+

section \<open>Properties\<close>

text \<open>C35: the branch-free comparisons are the comparisons.  For all 64-bit values, \<open>constant_time_lt_w\<close>,
  \<open>constant_time_ge_w\<close>, \<open>constant_time_is_zero_w\<close> and \<open>constant_time_eq_w\<close> are all ones when the
  relation holds and zero when it does not, and a selection with such a mask returns the operand the
  relation picks.\<close>

theorem constant_time_comparisons:
  "constant_time_lt_w a b = (if a < b then - 1 else 0) \<and>
   constant_time_ge_w a b = (if b \<le> a then - 1 else 0) \<and>
   constant_time_is_zero_w a = (if a = 0 then - 1 else 0) \<and>
   constant_time_eq_w a b = (if a = b then - 1 else 0) \<and>
   constant_time_select_w (constant_time_lt_w a b) x y = (if a < b then x else y)"
  by (auto simp: constant_time_lt_eq constant_time_is_zero_eq constant_time_eq_eq constant_time_ge_w_def
      constant_time_select_w_def not_less)

end
