(* ===== verification/Base64.thy ===== *)
theory Base64
  imports ConstTime
begin

unbundle bit_operations_syntax

text \<open>
  \<^verbatim>\<open>crypto/base64/base64.c\<close>: the block functions, and the streaming encoder and decoder with
  their context.  Output is the list of bytes written from \<^verbatim>\<open>out\<close> on; the NUL that the encoder puts
  after each chunk and overwrites with the next is not part of it.
\<close>

section \<open>Characters\<close>

definition constant_time_lt_args_8 :: "u8 \<Rightarrow> u8 \<Rightarrow> u8" where
  "constant_time_lt_args_8 a b =
     (let aw = ucast a; bw = ucast b in ucast (constant_time_msb_w (aw - bw)))"

definition constant_time_in_range_8 :: "u8 \<Rightarrow> u8 \<Rightarrow> u8 \<Rightarrow> u8" where
  "constant_time_in_range_8 a lo hi = constant_time_lt_args_8 (a - lo) (hi - lo + 1)"

definition conv_bin2ascii :: "u8 \<Rightarrow> u8" where
  "conv_bin2ascii a0 =
     (let a = a0 AND 0x3f;
          r = constant_time_select_8 (constant_time_eq_8 (ucast a) 62) 43 47;
          r = constant_time_select_8 (constant_time_lt_args_8 a 62) (a - 52 + 48) r;
          r = constant_time_select_8 (constant_time_lt_args_8 a 52) (a - 26 + 97) r
      in constant_time_select_8 (constant_time_lt_args_8 a 26) (a + 65) r)"

definition base64_ascii_to_bin :: "u8 \<Rightarrow> u8" where
  "base64_ascii_to_bin a =
     (let is_upper = constant_time_in_range_8 a 65 90;
          is_lower = constant_time_in_range_8 a 97 122;
          is_digit = constant_time_in_range_8 a 48 57;
          is_plus = constant_time_eq_8 (ucast a) 43;
          is_slash = constant_time_eq_8 (ucast a) 47;
          is_equals = constant_time_eq_8 (ucast a) 61;
          r = 0xff;
          r = constant_time_select_8 is_upper (a - 65) r;
          r = constant_time_select_8 is_lower (a - 97 + 26) r;
          r = constant_time_select_8 is_digit (a - 48 + 52) r;
          r = constant_time_select_8 is_plus 62 r;
          r = constant_time_select_8 is_slash 63 r
      in constant_time_select_8 is_equals 0 r)"

section \<open>Blocks\<close>

definition EVP_EncodedLength :: "nat \<Rightarrow> nat option" where
  "EVP_EncodedLength len0 =
     (if size_add len0 2 < len0 then None
      else let len = size_add len0 2 div 3
           in if size_mul len 4 div 4 \<noteq> len then None
              else let len = size_mul len 4
                   in if size_add len 1 < len then None else Some (size_add len 1))"

fun EVP_EncodeBlock :: "u8 list \<Rightarrow> u8 list" where
  "EVP_EncodeBlock [] = []"
| "EVP_EncodeBlock [s0] =
     (let l = push_bit 16 (ucast s0) :: u32
      in [conv_bin2ascii (ucast (drop_bit 18 l)), conv_bin2ascii (ucast (drop_bit 12 l)), 61, 61])"
| "EVP_EncodeBlock [s0, s1] =
     (let l = push_bit 16 (ucast s0) OR push_bit 8 (ucast s1) :: u32
      in [conv_bin2ascii (ucast (drop_bit 18 l)), conv_bin2ascii (ucast (drop_bit 12 l)),
          conv_bin2ascii (ucast (drop_bit 6 l)), 61])"
| "EVP_EncodeBlock (s0 # s1 # s2 # src) =
     (let l = (push_bit 16 (ucast s0) OR push_bit 8 (ucast s1)) OR ucast s2 :: u32
      in conv_bin2ascii (ucast (drop_bit 18 l)) # conv_bin2ascii (ucast (drop_bit 12 l)) #
         conv_bin2ascii (ucast (drop_bit 6 l)) # conv_bin2ascii (ucast l) # EVP_EncodeBlock src)"

definition EVP_DecodedLength :: "nat \<Rightarrow> nat option" where
  "EVP_DecodedLength len = (if len mod 4 \<noteq> 0 then None else Some (len div 4 * 3))"

text \<open>The bytes written to \<^verbatim>\<open>out\<close>; their number is \<^verbatim>\<open>*out_num_bytes\<close>.\<close>

definition base64_decode_quad :: "u8 \<Rightarrow> u8 \<Rightarrow> u8 \<Rightarrow> u8 \<Rightarrow> u8 list option" where
  "base64_decode_quad in0 in1 in2 in3 =
     (let a = base64_ascii_to_bin in0; b = base64_ascii_to_bin in1;
          c = base64_ascii_to_bin in2; d = base64_ascii_to_bin in3
      in if a = 0xff \<or> b = 0xff \<or> c = 0xff \<or> d = 0xff then None
         else
           let v = ((push_bit 18 (ucast a) OR push_bit 12 (ucast b)) OR push_bit 6 (ucast c)) OR ucast d :: u32;
               bit_of = (\<lambda>p. if p then 1 else 0 :: u32);
               padding_pattern = ((push_bit 3 (bit_of (in0 = 61)) OR push_bit 2 (bit_of (in1 = 61)))
                   OR push_bit 1 (bit_of (in2 = 61))) OR bit_of (in3 = 61)
           in if padding_pattern = 0
              then Some [ucast (drop_bit 16 v), ucast (drop_bit 8 v), ucast v]
              else if padding_pattern = 1 then Some [ucast (drop_bit 16 v), ucast (drop_bit 8 v)]
              else if padding_pattern = 3 then Some [ucast (drop_bit 16 v)]
              else None)"

text \<open>The loop of \<^verbatim>\<open>EVP_DecodeBase64\<close>: a short quad must be the last one.\<close>

fun decode_quads :: "u8 list \<Rightarrow> u8 list option" where
  "decode_quads (a # b # c # d # rest) =
     (case base64_decode_quad a b c d of
        None \<Rightarrow> None
      | Some out \<Rightarrow>
          if length out \<noteq> 3 \<and> rest \<noteq> [] then None
          else map_option ((@) out) (decode_quads rest))"
| "decode_quads _ = Some []"

definition EVP_DecodeBase64 :: "nat \<Rightarrow> u8 list \<Rightarrow> u8 list option" where
  "EVP_DecodeBase64 max_out inp =
     (if length inp mod 4 \<noteq> 0 then None
      else case EVP_DecodedLength (length inp) of
             None \<Rightarrow> None
           | Some max_len \<Rightarrow> if max_out < max_len then None else decode_quads inp)"

definition EVP_DecodeBlock :: "u8 list \<Rightarrow> u8 list option" where
  "EVP_DecodeBlock src =
     (let src1 = dropWhile (\<lambda>c. c = 32 \<or> c = 9) src;
          src2 = rev (dropWhile (\<lambda>c. c = 32 \<or> c = 9 \<or> c = 13 \<or> c = 10) (rev src1))
      in case EVP_DecodedLength (length src2) of
           None \<Rightarrow> None
         | Some dst_len \<Rightarrow>
             if dst_len > INT_MAX then None
             else case EVP_DecodeBase64 dst_len src2 of
                    None \<Rightarrow> None
                  | Some dst \<Rightarrow> Some (dst @ replicate ((3 - length dst mod 3) mod 3) 0))"

section \<open>Streams\<close>

record EVP_ENCODE_CTX =
  ec_data_used :: nat
  ec_data :: "u8 list"
  ec_eof_seen :: bool
  ec_error_encountered :: bool

definition EVP_EncodeInit :: EVP_ENCODE_CTX where
  "EVP_EncodeInit = \<lparr>ec_data_used = 0, ec_data = replicate 48 0, ec_eof_seen = False,
                     ec_error_encountered = False\<rparr>"

text \<open>Lines of 48 bytes of input; the results are what is written, and \<^verbatim>\<open>total\<close> with the rest of the
  input, or \<open>None\<close> when \<^verbatim>\<open>total\<close> would overflow.\<close>

function encode_lines :: "u8 list \<Rightarrow> nat \<Rightarrow> u8 list \<times> (nat \<times> u8 list) option" where
  "encode_lines inp tot =
     (if 48 \<le> length inp then
        let chunk = EVP_EncodeBlock (take 48 inp)
        in if size_add (size_add tot (length chunk)) 1 < tot then (chunk @ [10], None)
           else let (out, r) = encode_lines (drop 48 inp) (size_add (size_add tot (length chunk)) 1)
                in (chunk @ 10 # out, r)
      else ([], Some (tot, inp)))"
  by pat_completeness auto
termination by (relation "measure (\<lambda>(inp, tot). length inp)") auto

declare encode_lines.simps [simp del]

definition EVP_EncodeUpdate :: "EVP_ENCODE_CTX \<Rightarrow> u8 list \<Rightarrow> u8 list \<times> nat \<times> EVP_ENCODE_CTX" where
  "EVP_EncodeUpdate ctx inp =
     (if inp = [] then ([], 0, ctx)
      else if 48 - ec_data_used ctx > length inp then
        ([], 0, ctx\<lparr>ec_data := take (ec_data_used ctx) (ec_data ctx) @ inp @
                        drop (ec_data_used ctx + length inp) (ec_data ctx),
                    ec_data_used := ec_data_used ctx + length inp\<rparr>)
      else
        let (out0, tot0, inp1, ctx1) =
              (if ec_data_used ctx \<noteq> 0 then
                 let todo = 48 - ec_data_used ctx;
                     full = take (ec_data_used ctx) (ec_data ctx) @ take todo inp;
                     chunk = EVP_EncodeBlock full
                 in (chunk @ [10], length chunk + 1, drop todo inp,
                     ctx\<lparr>ec_data := full, ec_data_used := 0\<rparr>)
               else ([], 0, inp, ctx))
        in case encode_lines inp1 tot0 of
             (out, None) \<Rightarrow> (out0 @ out, 0, ctx1)
           | (out, Some (tot, rest)) \<Rightarrow>
               (out0 @ out, if tot > INT_MAX then 0 else tot,
                ctx1\<lparr>ec_data := rest @ drop (length rest) (ec_data ctx1), ec_data_used := length rest\<rparr>))"

definition EVP_EncodeFinal :: "EVP_ENCODE_CTX \<Rightarrow> u8 list \<times> EVP_ENCODE_CTX" where
  "EVP_EncodeFinal ctx =
     (if ec_data_used ctx = 0 then ([], ctx)
      else (EVP_EncodeBlock (take (ec_data_used ctx) (ec_data ctx)) @ [10], ctx\<lparr>ec_data_used := 0\<rparr>))"

definition EVP_DecodeInit :: EVP_ENCODE_CTX where
  "EVP_DecodeInit = \<lparr>ec_data_used = 0, ec_data = replicate 48 0, ec_eof_seen = False,
                     ec_error_encountered = False\<rparr>"

text \<open>The \<^verbatim>\<open>for\<close> loop over the input characters; \<open>None\<close> is the return of -1.\<close>

fun decode_chars :: "u8 list \<Rightarrow> (u8 list, EVP_ENCODE_CTX) step" where
  "decode_chars [] ctx = (Some [], ctx)"
| "decode_chars (c # cs) ctx =
     (if c = 32 \<or> c = 9 \<or> c = 13 \<or> c = 10 then decode_chars cs ctx
      else if ec_eof_seen ctx then (None, ctx\<lparr>ec_error_encountered := True\<rparr>)
      else
        let data = (ec_data ctx)[ec_data_used ctx := c];
            ctx1 = ctx\<lparr>ec_data := data, ec_data_used := ec_data_used ctx + 1\<rparr>
        in if ec_data_used ctx1 = 4 then
             (case base64_decode_quad (data ! 0) (data ! 1) (data ! 2) (data ! 3) of
                None \<Rightarrow> (None, ctx1\<lparr>ec_error_encountered := True\<rparr>)
              | Some out \<Rightarrow>
                  and_then (decode_chars cs) (\<lambda>out'. ret (out @ out'))
                    (ctx1\<lparr>ec_data_used := 0, ec_eof_seen := (length out < 3 \<or> ec_eof_seen ctx1)\<rparr>))
           else decode_chars cs ctx1)"

text \<open>The results are the return value, what is written and the context; \<^verbatim>\<open>*out_len\<close> is the length of
  what is written unless the return value is -1, and then 0.\<close>

definition EVP_DecodeUpdate :: "EVP_ENCODE_CTX \<Rightarrow> u8 list \<Rightarrow> int \<times> u8 list \<times> EVP_ENCODE_CTX" where
  "EVP_DecodeUpdate ctx inp =
     (if ec_error_encountered ctx then (-1, [], ctx)
      else case decode_chars inp ctx of
             (None, ctx') \<Rightarrow> (-1, [], ctx')
           | (Some out, ctx') \<Rightarrow>
               if length out > INT_MAX then (-1, [], ctx'\<lparr>ec_error_encountered := True\<rparr>)
               else (if ec_eof_seen ctx' then 0 else 1, out, ctx'))"

definition EVP_DecodeFinal :: "EVP_ENCODE_CTX \<Rightarrow> int" where
  "EVP_DecodeFinal ctx = (if ec_error_encountered ctx \<or> ec_data_used ctx \<noteq> 0 then -1 else 1)"

section \<open>Characters: the alphabet and its inverse\<close>

lemma bit63_small_diff:
  fixes a b :: u8
  shows "bit (ucast a - ucast b :: u64) 63 \<longleftrightarrow> a < b"
proof -
  have a: "unat (ucast a :: u64) = unat a" and b: "unat (ucast b :: u64) = unat b"
    by (simp_all add: unat_ucast_u8)
  show ?thesis
  proof (cases "unat a < unat b")
    case True
    then have "unat (ucast a - ucast b :: u64) = 2 ^ 64 + unat a - unat b"
      by (simp add: unat_sub_if' a b not_le)
    moreover have "(9223372036854775808 :: nat) \<le> 18446744073709551616 + unat a - unat b"
      using unat_u8_less [of b] by linarith
    ultimately show ?thesis using True by (simp add: bit63_iff word_less_nat_alt)
  next
    case False
    then have "unat (ucast a - ucast b :: u64) = unat a - unat b"
      by (simp add: unat_sub word_le_nat_alt a b)
    moreover have "unat a - unat b < (9223372036854775808 :: nat)"
      using unat_u8_less [of a] by linarith
    ultimately show ?thesis using False by (simp add: bit63_iff word_less_nat_alt)
  qed
qed

lemma ucast_ones: "(ucast (- 1 :: u64) :: u8) = - 1"
  by (rule bit_word_eqI) (simp add: bit_simps)

lemma constant_time_lt_args_8_eq: "constant_time_lt_args_8 a b = (if a < b then - 1 else 0)"
  by (simp add: constant_time_lt_args_8_def constant_time_msb_eq bit63_small_diff ucast_ones)

lemma constant_time_eq_8_eq: "constant_time_eq_8 a b = (if a = b then - 1 else 0)"
  by (simp add: constant_time_eq_8_def constant_time_eq_eq ucast_ones)

lemma ucast_u8_u64_eq: "(ucast a :: u64) = ucast b \<longleftrightarrow> a = (b :: u8)"
proof -
  have "unat (ucast a :: u64) = unat a" "unat (ucast b :: u64) = unat b" by (simp_all add: unat_ucast_u8)
  then show ?thesis by (metis word_unat_eq_iff)
qed

lemma constant_time_in_range_8_eq:
  assumes "unat lo \<le> unat hi" and "unat hi < 255"
  shows "constant_time_in_range_8 a lo hi = (if lo \<le> a \<and> a \<le> hi then - 1 else 0)"
proof -
  have h: "unat (hi - lo + 1) = unat hi - unat lo + 1"
  proof -
    have "unat (hi - lo) = unat hi - unat lo" using assms by (simp add: unat_sub word_le_nat_alt)
    with assms show ?thesis by (simp add: unat_word_ariths)
  qed
  have "a - lo < hi - lo + 1 \<longleftrightarrow> lo \<le> a \<and> a \<le> hi"
  proof (cases "unat lo \<le> unat a")
    case True
    then have "unat (a - lo) = unat a - unat lo" by (simp add: unat_sub word_le_nat_alt)
    with True h assms show ?thesis by (auto simp: word_less_nat_alt word_le_nat_alt)
  next
    case False
    then have "unat (a - lo) = 256 + unat a - unat lo" by (simp add: unat_sub_if')
    with False h assms show ?thesis using unat_u8_less [of lo] by (auto simp: word_less_nat_alt word_le_nat_alt)
  qed
  then show ?thesis by (simp add: constant_time_in_range_8_def constant_time_lt_args_8_eq)
qed

lemma constant_time_select_if:
  "constant_time_select_8 (if p then - 1 else 0) a b = (if p then a else b)"
  by (simp add: constant_time_select_eq)

lemma conv_bin2ascii_eq:
  "conv_bin2ascii a =
     (let n = a AND 0x3f in
      if n < 26 then n + 65 else if n < 52 then n + 71 else if n < 62 then n - 4
      else if n = 62 then 43 else 47)"
proof -
  have "(ucast (a AND 63) = (62 :: u64)) \<longleftrightarrow> a AND 63 = 62"
    using ucast_u8_u64_eq [of "a AND 63" 62] by simp
  then show ?thesis
    unfolding conv_bin2ascii_def Let_def constant_time_eq_8_eq constant_time_lt_args_8_eq
      constant_time_select_if by simp
qed

lemma base64_ascii_to_bin_eq:
  "base64_ascii_to_bin a =
     (if a = 61 then 0 else if a = 47 then 63 else if a = 43 then 62
      else if 48 \<le> a \<and> a \<le> 57 then a + 4 else if 97 \<le> a \<and> a \<le> 122 then a - 71
      else if 65 \<le> a \<and> a \<le> 90 then a - 65 else 0xff)"
  unfolding base64_ascii_to_bin_def Let_def constant_time_eq_8_eq
  using ucast_u8_u64_eq [of a 61] ucast_u8_u64_eq [of a 47] ucast_u8_u64_eq [of a 43]
  by (simp add: constant_time_select_if constant_time_in_range_8_eq)

lemma u8_low6: "unat (a AND 0x3f :: u8) < 64"
  using unat_mask_less [of a 6] by (simp add: mask_eq_exp_minus_1)

lemma conv_bin2ascii_unat:
  "unat (conv_bin2ascii a) =
     (let n = unat (a AND 0x3f) in
      if n < 26 then n + 65 else if n < 52 then n + 71 else if n < 62 then n - 4
      else if n = 62 then 43 else 47)"
proof -
  define m where "m = a AND 0x3f"
  have m: "unat m < 64" by (simp add: m_def u8_low6)
  have "m = 62 \<longleftrightarrow> unat m = 62" by (simp add: word_unat_eq_iff)
  moreover have "unat (m + 65) = unat m + 65" "unat (m + 71) = unat m + 71"
    using m by (simp_all add: unat_word_ariths)
  moreover have "unat (m - 4) = unat m - 4" if "\<not> unat m < 52"
    using that by (simp add: unat_sub word_le_nat_alt)
  ultimately show ?thesis
    by (simp add: conv_bin2ascii_eq m_def [symmetric] Let_def word_less_nat_alt)
qed

lemma base64_ascii_to_bin_unat:
  "unat (base64_ascii_to_bin a) =
     (let n = unat a in
      if n = 61 then 0 else if n = 47 then 63 else if n = 43 then 62
      else if 48 \<le> n \<and> n \<le> 57 then n + 4 else if 97 \<le> n \<and> n \<le> 122 then n - 71
      else if 65 \<le> n \<and> n \<le> 90 then n - 65 else 255)"
proof -
  have "a = 61 \<longleftrightarrow> unat a = 61" "a = 47 \<longleftrightarrow> unat a = 47" "a = 43 \<longleftrightarrow> unat a = 43"
    by (simp_all add: word_unat_eq_iff)
  moreover have "unat (a + 4) = unat a + 4" if "unat a \<le> 57" using that by (simp add: unat_word_ariths)
  moreover have "unat (a - 71) = unat a - 71" if "97 \<le> unat a" using that by (simp add: unat_sub word_le_nat_alt)
  moreover have "unat (a - 65) = unat a - 65" if "65 \<le> unat a" using that by (simp add: unat_sub word_le_nat_alt)
  ultimately show ?thesis
    by (simp add: base64_ascii_to_bin_eq Let_def word_le_nat_alt)
qed

lemma ascii_to_bin_conv [simp]: "base64_ascii_to_bin (conv_bin2ascii a) = a AND 0x3f"
proof -
  have "unat (base64_ascii_to_bin (conv_bin2ascii a)) = unat (a AND 0x3f)"
    using u8_low6 [of a] by (auto simp: base64_ascii_to_bin_unat conv_bin2ascii_unat Let_def)
  then show ?thesis by (simp only: word_unat_eq_iff)
qed

declare conv_bin2ascii_eq [code] base64_ascii_to_bin_eq [code]

lemma conv_bin2ascii_range:
  "unat (conv_bin2ascii a) \<ge> 43" "conv_bin2ascii a \<noteq> 61" "a AND 0x3f \<noteq> (0xff :: u8)"
  using u8_low6 [of a] by (auto simp: conv_bin2ascii_unat Let_def word_unat_eq_iff split: if_splits)

lemma conv_bin2ascii_not_space:
  "conv_bin2ascii a \<noteq> 32" "conv_bin2ascii a \<noteq> 9" "conv_bin2ascii a \<noteq> 13" "conv_bin2ascii a \<noteq> 10"
  using conv_bin2ascii_range(1) [of a] by (auto simp: word_unat_eq_iff)

lemma ascii_to_bin_pad [simp]: "base64_ascii_to_bin 61 = 0"
  by (simp add: base64_ascii_to_bin_eq)

section \<open>Quads\<close>

lemma decode_quad_full:
  fixes l :: u32
  shows "base64_decode_quad (conv_bin2ascii (ucast (drop_bit 18 l))) (conv_bin2ascii (ucast (drop_bit 12 l)))
     (conv_bin2ascii (ucast (drop_bit 6 l))) (conv_bin2ascii (ucast l)) =
     Some [ucast (drop_bit 16 l), ucast (drop_bit 8 l), ucast l]"
  by (simp add: base64_decode_quad_def Let_def conv_bin2ascii_range)
    (intro conjI u8_eqI; simp add: bit_simps)

lemma decode_quad_two:
  fixes s0 s1 :: u8
  defines "l \<equiv> push_bit 16 (ucast s0) OR push_bit 8 (ucast s1) :: u32"
  shows "base64_decode_quad (conv_bin2ascii (ucast (drop_bit 18 l))) (conv_bin2ascii (ucast (drop_bit 12 l)))
     (conv_bin2ascii (ucast (drop_bit 6 l))) 61 = Some [s0, s1]"
  by (simp add: base64_decode_quad_def Let_def conv_bin2ascii_range)
    (intro conjI u8_eqI; simp add: l_def bit_simps u8_no_bit)

lemma decode_quad_one:
  fixes s0 :: u8
  defines "l \<equiv> push_bit 16 (ucast s0) :: u32"
  shows "base64_decode_quad (conv_bin2ascii (ucast (drop_bit 18 l))) (conv_bin2ascii (ucast (drop_bit 12 l)))
     61 61 = Some [s0]"
  by (simp add: base64_decode_quad_def Let_def conv_bin2ascii_range)
    (intro conjI u8_eqI; simp add: l_def bit_simps u8_no_bit)

lemma decode_quad_three:
  fixes s0 s1 s2 :: u8
  defines "l \<equiv> (push_bit 16 (ucast s0) OR push_bit 8 (ucast s1)) OR ucast s2 :: u32"
  shows "base64_decode_quad (conv_bin2ascii (ucast (drop_bit 18 l))) (conv_bin2ascii (ucast (drop_bit 12 l)))
     (conv_bin2ascii (ucast (drop_bit 6 l))) (conv_bin2ascii (ucast l)) = Some [s0, s1, s2]"
  unfolding decode_quad_full
  by (simp add: l_def) (intro conjI u8_eqI; simp add: bit_simps u8_no_bit)

text \<open>Four characters that decode to \<open>out\<close>, none of them white space.\<close>

definition quad_of :: "u8 list \<Rightarrow> u8 list \<Rightarrow> bool" where
  "quad_of q out \<longleftrightarrow> length q = 4 \<and> base64_decode_quad (q ! 0) (q ! 1) (q ! 2) (q ! 3) = Some out \<and>
     (\<forall>c \<in> set q. c \<noteq> 32 \<and> c \<noteq> 9 \<and> c \<noteq> 13 \<and> c \<noteq> 10)"

lemma EncodeBlock_quad:
  assumes "src \<noteq> []"
  shows "\<exists>q. quad_of q (take 3 src) \<and> EVP_EncodeBlock src = q @ EVP_EncodeBlock (drop 3 src)"
proof (cases src rule: EVP_EncodeBlock.cases)
  case (2 s0)
  let ?l = "push_bit 16 (ucast s0) :: u32"
  have "quad_of [conv_bin2ascii (ucast (drop_bit 18 ?l)), conv_bin2ascii (ucast (drop_bit 12 ?l)), 61, 61] [s0]"
    using decode_quad_one [of s0] by (simp add: quad_of_def conv_bin2ascii_not_space del: drop_bit_or)
  with 2 show ?thesis by (simp add: Let_def)
next
  case (3 s0 s1)
  let ?l = "push_bit 16 (ucast s0) OR push_bit 8 (ucast s1) :: u32"
  have "quad_of [conv_bin2ascii (ucast (drop_bit 18 ?l)), conv_bin2ascii (ucast (drop_bit 12 ?l)),
      conv_bin2ascii (ucast (drop_bit 6 ?l)), 61] [s0, s1]"
    using decode_quad_two [of s0 s1] by (simp add: quad_of_def conv_bin2ascii_not_space del: drop_bit_or)
  with 3 show ?thesis by (simp add: Let_def del: drop_bit_or)
next
  case (4 s0 s1 s2 rest)
  let ?l = "(push_bit 16 (ucast s0) OR push_bit 8 (ucast s1)) OR ucast s2 :: u32"
  have "quad_of [conv_bin2ascii (ucast (drop_bit 18 ?l)), conv_bin2ascii (ucast (drop_bit 12 ?l)),
      conv_bin2ascii (ucast (drop_bit 6 ?l)), conv_bin2ascii (ucast ?l)] [s0, s1, s2]"
    using decode_quad_three [of s0 s1 s2]
    by (simp add: quad_of_def conv_bin2ascii_not_space del: drop_bit_or)
  with 4 show ?thesis by (simp add: Let_def del: drop_bit_or)
qed (use assms in simp)

section \<open>Blocks\<close>

lemma length_EVP_EncodeBlock: "length (EVP_EncodeBlock src) = 4 * ((length src + 2) div 3)"
proof (induction src rule: EVP_EncodeBlock.induct)
  case (4 s0 s1 s2 src)
  have "(length (s0 # s1 # s2 # src) + 2) div 3 = Suc ((length src + 2) div 3)" by simp
  with 4 show ?case by (simp add: Let_def)
qed (simp_all add: Let_def)

lemma EVP_EncodeBlock_append:
  "length xs mod 3 = 0 \<Longrightarrow> EVP_EncodeBlock (xs @ ys) = EVP_EncodeBlock xs @ EVP_EncodeBlock ys"
proof (induction xs rule: EVP_EncodeBlock.induct)
  case (4 s0 s1 s2 src)
  then have "length src mod 3 = 0" by (simp add: mod_Suc split: if_splits)
  with 4 show ?case by (simp add: Let_def)
qed simp_all

lemma decode_quads_quad:
  assumes "quad_of q out"
  shows "decode_quads (q @ rest) =
    (if length out \<noteq> 3 \<and> rest \<noteq> [] then None else map_option ((@) out) (decode_quads rest))"
proof -
  from assms obtain a b c d where "q = [a, b, c, d]"
    by (auto simp: quad_of_def length_Suc_conv numeral_eq_Suc)
  with assms show ?thesis by (simp add: quad_of_def)
qed

lemma decode_quads_EncodeBlock: "decode_quads (EVP_EncodeBlock src) = Some src"
proof (induction src rule: length_induct)
  case (1 src)
  show ?case
  proof (cases "src = []")
    case False
    then obtain q where q: "quad_of q (take 3 src)" "EVP_EncodeBlock src = q @ EVP_EncodeBlock (drop 3 src)"
      using EncodeBlock_quad by blast
    from 1 False have "decode_quads (EVP_EncodeBlock (drop 3 src)) = Some (drop 3 src)" by simp
    then show ?thesis by (cases "3 \<le> length src") (simp_all add: q(2) decode_quads_quad [OF q(1)] decode_quads_quad [OF q(1), of "[]", simplified])
  qed simp
qed

section \<open>The streaming encoder\<close>

text \<open>What the encoder has written when \<open>x\<close> has been given to it, and what it still holds.\<close>

definition full_part :: "u8 list \<Rightarrow> u8 list" where
  "full_part x = take (length x - length x mod 48) x"

definition pending :: "u8 list \<Rightarrow> u8 list" where
  "pending x = drop (length x - length x mod 48) x"

function lines_of :: "u8 list \<Rightarrow> u8 list" where
  "lines_of x =
     (if length x < 48 then [] else EVP_EncodeBlock (take 48 x) @ 10 # lines_of (drop 48 x))"
  by pat_completeness auto
termination by (relation "measure length") auto

declare lines_of.simps [simp del]

lemma length_pending: "length (pending x) = length x mod 48"
  by (simp add: pending_def)

lemma full_pending: "full_part x @ pending x = x"
  by (simp add: full_part_def pending_def)

lemma lines_of_short [simp]: "length x < 48 \<Longrightarrow> lines_of x = []"
  by (subst lines_of.simps) simp

lemma pending_short [simp]: "length x < 48 \<Longrightarrow> pending x = x"
  by (simp add: pending_def)

lemma pending_drop:
  assumes "48 \<le> length x"
  shows "pending (drop 48 x) = pending x"
proof -
  have "length x - 48 - (length x - 48) mod 48 + 48 = length x - length x mod 48"
    using assms by (simp add: le_mod_geq [OF assms] )
  then show ?thesis by (simp add: pending_def)
qed

lemma lines_of_append: "lines_of (x @ y) = lines_of x @ lines_of (pending x @ y)"
proof (induction x rule: lines_of.induct)
  case (1 x)
  show ?case
  proof (cases "length x < 48")
    case False
    then have "lines_of (x @ y) = EVP_EncodeBlock (take 48 x) @ 10 # lines_of (drop 48 x @ y)"
      by (subst lines_of.simps) simp
    also have "lines_of (drop 48 x @ y) = lines_of (drop 48 x) @ lines_of (pending x @ y)"
      using 1 [OF False] False by (simp add: pending_drop)
    also have "EVP_EncodeBlock (take 48 x) @ 10 # (lines_of (drop 48 x) @ lines_of (pending x @ y)) =
      lines_of x @ lines_of (pending x @ y)"
      using False by (subst (3) lines_of.simps) simp
    finally show ?thesis .
  qed simp
qed

lemma pending_append: "pending (x @ y) = pending (pending x @ y)"
proof (induction x rule: lines_of.induct)
  case (1 x)
  show ?case
  proof (cases "length x < 48")
    case False
    then have "pending (x @ y) = pending (drop 48 x @ y)"
      using pending_drop [of "x @ y"] by simp
    with 1 [OF False] False show ?thesis by (simp add: pending_drop)
  qed simp
qed

lemma length_lines_of: "length (lines_of x) = 65 * (length x div 48)"
proof (induction x rule: lines_of.induct)
  case (1 x)
  show ?case
  proof (cases "length x < 48")
    case False
    then have "length x div 48 = Suc ((length x - 48) div 48)" by (simp add: le_div_geq)
    with 1 [OF False] False show ?thesis
      by (subst lines_of.simps) (simp add: length_EVP_EncodeBlock)
  qed simp
qed

lemma encode_lines_eq:
  "tot + length (lines_of inp) \<le> SIZE_MAX \<Longrightarrow>
   encode_lines inp tot = (lines_of inp, Some (tot + length (lines_of inp), pending inp))"
proof (induction inp tot rule: encode_lines.induct)
  case (1 inp tot)
  show ?case
  proof (cases "48 \<le> length inp")
    case True
    then have l: "lines_of inp = EVP_EncodeBlock (take 48 inp) @ 10 # lines_of (drop 48 inp)"
      by (subst lines_of.simps) simp
    have n: "length (EVP_EncodeBlock (take 48 inp)) = 64" using True by (simp add: length_EVP_EncodeBlock)
    have t: "size_add (size_add tot 64) 1 = 65 + tot" using 1(2) l n by simp
    have "encode_lines (drop 48 inp) (65 + tot) =
        (lines_of (drop 48 inp), Some (65 + tot + length (lines_of (drop 48 inp)), pending (drop 48 inp)))"
      using 1(1) [OF True refl] 1(2) t n l by simp
    then show ?thesis using True l n t by (simp add: encode_lines.simps [of inp] Let_def pending_drop)
  qed (simp add: encode_lines.simps [of inp])
qed

definition enc_holds :: "EVP_ENCODE_CTX \<Rightarrow> u8 list \<Rightarrow> bool" where
  "enc_holds ctx x \<longleftrightarrow> length (ec_data ctx) = 48 \<and> ec_data_used ctx = length (pending x) \<and>
     take (ec_data_used ctx) (ec_data ctx) = pending x"

lemma enc_holds_Init: "enc_holds EVP_EncodeInit []"
  by (simp add: enc_holds_def EVP_EncodeInit_def)

lemma EVP_EncodeUpdate_lines:
  assumes h: "enc_holds ctx x" and n: "length inp \<le> 2 ^ 62"
  shows "\<exists>tot ctx'. EVP_EncodeUpdate ctx inp = (lines_of (pending x @ inp), tot, ctx') \<and>
    enc_holds ctx' (x @ inp)"
proof -
  let ?p = "pending x"
  have p: "length ?p < 48" by (simp add: length_pending)
  have p': "length (ec_data ctx) = 48" "ec_data_used ctx = length ?p" "take (length ?p) (ec_data ctx) = ?p"
    using h by (auto simp: enc_holds_def)
  consider "inp = []" | "inp \<noteq> []" "length ?p + length inp < 48" | "inp \<noteq> []" "48 \<le> length ?p + length inp"
    by linarith
  then show ?thesis
  proof cases
    case 1
    then show ?thesis using p h by (simp add: EVP_EncodeUpdate_def)
  next
    case 2
    then have "48 - ec_data_used ctx > length inp" using p p' by linarith
    then show ?thesis using 2 p p' pending_append [of x inp]
      by (simp add: EVP_EncodeUpdate_def enc_holds_def)
  next
    case 3
    define k where "k = (if length ?p = 0 then 0 else 48 - length ?p)"
    define pre where "pre = (if length ?p = 0 then [] else EVP_EncodeBlock (?p @ take k inp) @ [10])"
    define data where "data = (if length ?p = 0 then ec_data ctx else ?p @ take k inp)"
    have np: "\<not> (48 - ec_data_used ctx > length inp)" using 3 p p' by linarith
    have all: "lines_of (?p @ inp) = pre @ lines_of (drop k inp)" "pending (?p @ inp) = pending (drop k inp)"
      using 3 p pending_drop [of "?p @ inp"]
      by (auto simp: k_def pre_def lines_of.simps [of "?p @ inp"] lines_of.simps [of inp] drop_append take_append)
    have pl: "length pre \<le> 65" using 3 p by (auto simp: pre_def k_def length_EVP_EncodeBlock)
    have dl: "length data = 48" using 3 p p' by (auto simp: data_def k_def)
    have "length (lines_of (drop k inp)) \<le> 65 * (length inp div 48)"
      by (simp add: length_lines_of div_le_mono)
    also have "\<dots> \<le> 2 * length inp" by linarith
    finally have "length pre + length (lines_of (drop k inp)) \<le> SIZE_MAX"
      using pl n by (simp add: SIZE_MAX_def)
    then have e: "encode_lines (drop k inp) (length pre) =
      (lines_of (drop k inp), Some (length pre + length (lines_of (drop k inp)), pending (drop k inp)))"
      by (rule encode_lines_eq)
    have "EVP_EncodeUpdate ctx inp =
      (case encode_lines (drop k inp) (length pre) of
             (out, None) \<Rightarrow> (pre @ out, 0, ctx\<lparr>ec_data := data, ec_data_used := 0\<rparr>)
           | (out, Some (tot, rest)) \<Rightarrow>
               (pre @ out, if tot > INT_MAX then 0 else tot,
                ctx\<lparr>ec_data := rest @ drop (length rest) data, ec_data_used := length rest\<rparr>))"
      using 3 np p' by (auto simp: EVP_EncodeUpdate_def k_def pre_def data_def Let_def
          split: prod.splits option.splits)
    then have "EVP_EncodeUpdate ctx inp = (pre @ lines_of (drop k inp),
        if length pre + length (lines_of (drop k inp)) > INT_MAX then 0 else length pre + length (lines_of (drop k inp)),
        ctx\<lparr>ec_data := pending (drop k inp) @ drop (length (pending (drop k inp))) data,
            ec_data_used := length (pending (drop k inp))\<rparr>)"
      by (simp add: e)
    moreover have "length (pending (drop k inp)) < 48" by (simp add: length_pending)
    moreover have "pending (x @ inp) = pending (drop k inp)" using all(2) pending_append [of x inp] by simp
    ultimately show ?thesis using dl by (simp add: all enc_holds_def)
  qed
qed

section \<open>The streaming decoder\<close>

lemma decode_chars_append:
  "decode_chars (xs @ ys) = and_then (decode_chars xs) (\<lambda>o1. and_then (decode_chars ys) (\<lambda>o2. ret (o1 @ o2)))"
proof (rule ext)
  show "decode_chars (xs @ ys) ctx =
    and_then (decode_chars xs) (\<lambda>o1. and_then (decode_chars ys) (\<lambda>o2. ret (o1 @ o2))) ctx" for ctx
  proof (induction xs ctx rule: decode_chars.induct)
    case (1 ctx)
    then show ?case by (auto simp: and_then_def split: prod.splits option.splits)
  next
    case (2 c cs ctx)
    then show ?case
      by (auto simp: and_then_def Let_def split: prod.splits option.splits)
  qed
qed

lemma decode_chars_space: "c = 32 \<or> c = 9 \<or> c = 13 \<or> c = 10 \<Longrightarrow> decode_chars (c # cs) ctx = decode_chars cs ctx"
  by simp

lemma decode_chars_length:
  "decode_chars inp ctx = (Some out, ctx') \<Longrightarrow>
   4 * length out + 3 * ec_data_used ctx' \<le> 3 * (ec_data_used ctx + length inp) \<and>
   ec_error_encountered ctx' = ec_error_encountered ctx"
proof (induction inp ctx arbitrary: out ctx' rule: decode_chars.induct)
  case (2 c cs ctx)
  have q: "length o1 \<le> 3" if "base64_decode_quad w x y z = Some o1" for w x y z o1
    using that by (auto simp: base64_decode_quad_def Let_def split: if_splits)
  show ?case
  proof (cases "c = 32 \<or> c = 9 \<or> c = 13 \<or> c = 10")
    case True
    then show ?thesis using 2(1) [OF True, of out ctx'] 2(4) by simp
  next
    case False
    with 2(4) have e: "\<not> ec_eof_seen ctx" by auto
    let ?data = "(ec_data ctx)[ec_data_used ctx := c]"
    let ?ctx1 = "ctx\<lparr>ec_data := ?data, ec_data_used := ec_data_used ctx + 1\<rparr>"
    show ?thesis
    proof (cases "ec_data_used ?ctx1 = 4")
      case True
      with False e 2(4) obtain o1 o2 where "base64_decode_quad (?data ! 0) (?data ! 1) (?data ! 2) (?data ! 3) = Some o1"
        and "decode_chars cs (?ctx1\<lparr>ec_data_used := 0, ec_eof_seen := (length o1 < 3 \<or> ec_eof_seen ?ctx1)\<rparr>) = (Some o2, ctx')"
        and "out = o1 @ o2"
        by (auto simp: Let_def split: option.splits)
      with 2(2) [OF False e refl refl True] q [of _ _ _ _ o1] True show ?thesis by fastforce
    next
      case f: False
      with False e 2(4) have "decode_chars cs ?ctx1 = (Some out, ctx')" by (simp add: Let_def split: if_splits)
      with 2(3) [OF False e refl refl f] show ?thesis by fastforce
    qed
  qed
qed simp

definition dec_empty :: "bool \<Rightarrow> EVP_ENCODE_CTX \<Rightarrow> bool" where
  "dec_empty e ctx \<longleftrightarrow> length (ec_data ctx) = 48 \<and> ec_data_used ctx = 0 \<and> ec_eof_seen ctx = e \<and>
     \<not> ec_error_encountered ctx"

lemma decode_chars_quad:
  assumes "quad_of q out" and "dec_empty False ctx"
  shows "\<exists>ctx'. decode_chars (q @ rest) ctx = and_then (decode_chars rest) (\<lambda>o2. ret (out @ o2)) ctx' \<and>
    dec_empty (length out < 3) ctx'"
proof -
  from assms(1) obtain a b c d where q: "q = [a, b, c, d]"
    by (auto simp: quad_of_def length_Suc_conv numeral_eq_Suc)
  from assms(2) have "Suc (Suc (Suc (Suc 0))) \<le> length (ec_data ctx)" by (simp add: dec_empty_def)
  then obtain e0 e1 e2 e3 es where "ec_data ctx = e0 # e1 # e2 # e3 # es"
    by (auto simp: Suc_le_length_iff)
  with q assms show ?thesis
    by (auto simp: quad_of_def dec_empty_def Let_def nth_Cons' numeral_eq_Suc)
qed

lemma decode_chars_block:
  assumes "dec_empty False ctx"
  shows "\<exists>ctx'. decode_chars (EVP_EncodeBlock src @ rest) ctx =
      and_then (decode_chars rest) (\<lambda>o2. ret (src @ o2)) ctx' \<and>
    dec_empty (length src mod 3 \<noteq> 0) ctx'"
  using assms
proof (induction src arbitrary: ctx rule: length_induct)
  case (1 src ctx)
  show ?case
  proof (cases "src = []")
    case True
    then show ?thesis using 1(2)
      by (intro exI [of _ ctx]) (auto simp: and_then_def split: prod.splits option.splits)
  next
    case False
    then obtain q where q: "quad_of q (take 3 src)" "EVP_EncodeBlock src = q @ EVP_EncodeBlock (drop 3 src)"
      using EncodeBlock_quad by blast
    obtain c1 where c1: "decode_chars (EVP_EncodeBlock src @ rest) ctx =
        and_then (decode_chars (EVP_EncodeBlock (drop 3 src) @ rest)) (\<lambda>o2. ret (take 3 src @ o2)) c1"
      "dec_empty (length (take 3 src) < 3) c1"
      using decode_chars_quad [OF q(1) 1(2)] q(2) by auto
    show ?thesis
    proof (cases "length src < 3")
      case True
      then have "length src mod 3 \<noteq> 0" using False by simp
      with c1 True show ?thesis by (intro exI [of _ c1]) (simp add: ret_def [abs_def])
    next
      case len: False
      then have "dec_empty False c1" using c1(2) by simp
      then obtain c2 where c2: "decode_chars (EVP_EncodeBlock (drop 3 src) @ rest) c1 =
          and_then (decode_chars rest) (\<lambda>o2. ret (drop 3 src @ o2)) c2"
        "dec_empty (length (drop 3 src) mod 3 \<noteq> 0) c2"
        using 1(1) [rule_format, of "drop 3 src" c1] False by auto
      have "length (drop 3 src) mod 3 = length src mod 3" using len by (simp add: le_mod_geq)
      moreover have "and_then (decode_chars (EVP_EncodeBlock (drop 3 src) @ rest)) (\<lambda>o2. ret (take 3 src @ o2)) c1 =
          and_then (decode_chars rest) (\<lambda>o2. ret (src @ o2)) c2"
        using c2(1) by (simp add: and_then_def [of "decode_chars (EVP_EncodeBlock (drop 3 src) @ rest)"])
          (auto simp: and_then_def append_assoc [symmetric] simp del: append_assoc split: prod.splits option.splits)
      ultimately show ?thesis using c1 c2 by (intro exI [of _ c2]) (simp add: ret_def [abs_def])
    qed
  qed
qed

text \<open>The whole text the encoder produces for \<open>x\<close>.\<close>

definition base64_text :: "u8 list \<Rightarrow> u8 list" where
  "base64_text x = lines_of x @ (if pending x = [] then [] else EVP_EncodeBlock (pending x) @ [10])"

lemma decode_chars_text:
  "dec_empty False ctx \<Longrightarrow> \<exists>e ctx'. decode_chars (base64_text x) ctx = (Some x, ctx') \<and> dec_empty e ctx'"
proof (induction x arbitrary: ctx rule: lines_of.induct)
  case (1 x)
  show ?case
  proof (cases "length x < 48")
    case True
    then show ?thesis
      using decode_chars_block [OF 1(2), of x "[10]"] 1(2) by (auto simp: base64_text_def)
  next
    case False
    then have t: "base64_text x = EVP_EncodeBlock (take 48 x) @ 10 # base64_text (drop 48 x)"
      by (simp add: base64_text_def lines_of.simps [of x] pending_drop)
    obtain c1 where c1: "decode_chars (base64_text x) ctx =
        and_then (decode_chars (10 # base64_text (drop 48 x))) (\<lambda>o2. ret (take 48 x @ o2)) c1"
      "dec_empty (length (take 48 x) mod 3 \<noteq> 0) c1"
      using decode_chars_block [OF 1(2), of "take 48 x"] t by auto
    moreover have "length (take 48 x) mod 3 = 0" using False by (simp add: min_def)
    ultimately obtain e c2 where "decode_chars (base64_text (drop 48 x)) c1 = (Some (drop 48 x), c2)" "dec_empty e c2"
      using 1(1) [OF False, of c1] by auto
    with c1 show ?thesis by auto
  qed
qed

section \<open>Properties\<close>

text \<open>The calls of a client that feeds the chunks of a message one after the other: an encoder, and a
  decoder that stops at the first -1.\<close>

fun encode_all :: "EVP_ENCODE_CTX \<Rightarrow> u8 list list \<Rightarrow> u8 list" where
  "encode_all ctx [] = fst (EVP_EncodeFinal ctx)"
| "encode_all ctx (c # cs) = (let (out, _, ctx') = EVP_EncodeUpdate ctx c in out @ encode_all ctx' cs)"

fun decode_all :: "EVP_ENCODE_CTX \<Rightarrow> u8 list list \<Rightarrow> u8 list option" where
  "decode_all ctx [] = (if EVP_DecodeFinal ctx = 1 then Some [] else None)"
| "decode_all ctx (c # cs) =
     (case EVP_DecodeUpdate ctx c of
        (r, out, ctx') \<Rightarrow> if r = -1 then None else map_option ((@) out) (decode_all ctx' cs))"

lemma encode_all_text:
  "enc_holds ctx x \<Longrightarrow> \<forall>c \<in> set cs. length c \<le> 2 ^ 62 \<Longrightarrow>
   lines_of x @ encode_all ctx cs = base64_text (x @ concat cs)"
proof (induction cs arbitrary: ctx x)
  case Nil
  then show ?case by (auto simp: EVP_EncodeFinal_def enc_holds_def base64_text_def)
next
  case (Cons c cs)
  then obtain tot ctx' where u: "EVP_EncodeUpdate ctx c = (lines_of (pending x @ c), tot, ctx')"
    and h: "enc_holds ctx' (x @ c)" using EVP_EncodeUpdate_lines [of ctx x c] by auto
  show ?case using Cons.IH [OF h] Cons.prems by (simp add: u lines_of_append [of x c])
qed

lemma decode_all_chars:
  "decode_chars (concat cs) ctx = (Some out, ctx') \<Longrightarrow> \<not> ec_error_encountered ctx \<Longrightarrow> dec_empty e ctx' \<Longrightarrow>
   ec_data_used ctx + length (concat cs) \<le> INT_MAX \<Longrightarrow> decode_all ctx cs = Some out"
proof (induction cs arbitrary: ctx out)
  case Nil
  then show ?case by (auto simp: EVP_DecodeFinal_def dec_empty_def)
next
  case (Cons c cs)
  then obtain o1 c1 o2 where d: "decode_chars c ctx = (Some o1, c1)"
    "decode_chars (concat cs) c1 = (Some o2, ctx')" "out = o1 @ o2"
    by (auto simp: decode_chars_append)
  have "4 * length o1 + 3 * ec_data_used c1 \<le> 3 * (ec_data_used ctx + length c)"
    using decode_chars_length [OF d(1)] by simp
  moreover have "\<not> ec_error_encountered c1"
    using decode_chars_length [OF d(1)] Cons.prems(2) by simp
  ultimately show ?case using d Cons by (auto simp: EVP_DecodeUpdate_def)
qed

text \<open>C3: base64 streams round trip under any chunking.  Cut a message into chunks in any way, feed them to
  \<^verbatim>\<open>EVP_EncodeUpdate\<close> and finish; cut the text that comes out into chunks in any other way and feed
  them to \<^verbatim>\<open>EVP_DecodeUpdate\<close>: no call fails, \<^verbatim>\<open>EVP_DecodeFinal\<close> accepts, and the bytes decoded are the
  message.\<close>

theorem base64_stream_roundtrip:
  assumes "concat cs = x" and "length x \<le> 2 ^ 62"
    and "concat ds = encode_all EVP_EncodeInit cs" and "length (concat ds) \<le> INT_MAX"
  shows "decode_all EVP_DecodeInit ds = Some x"
proof -
  have "\<forall>c \<in> set cs. length c \<le> 2 ^ 62"
    using assms(1,2) by (auto simp: in_set_conv_decomp)
  then have "encode_all EVP_EncodeInit cs = base64_text x"
    using encode_all_text [OF enc_holds_Init, of cs] assms(1) by simp
  then have "concat ds = base64_text x" using assms(3) by simp
  moreover have d: "dec_empty False EVP_DecodeInit" by (simp add: dec_empty_def EVP_DecodeInit_def)
  ultimately obtain e ctx' where "decode_chars (concat ds) EVP_DecodeInit = (Some x, ctx')" "dec_empty e ctx'"
    using decode_chars_text [OF d, of x] by auto
  then show ?thesis using decode_all_chars [of ds EVP_DecodeInit x ctx' e] assms(4) d
    by (auto simp: dec_empty_def)
qed

theorem base64_stream_roundtrip_witness:
  "decode_all EVP_DecodeInit [[81, 85], [74, 68, 10], []] = Some [65, 66, 67]"
  by (rule base64_stream_roundtrip [of "[[65], [66, 67]]"]) (simp, simp, code_simp, simp add: INT_MAX_def)

text \<open>C30: \<^verbatim>\<open>EVP_DecodeBase64\<close> inverts \<^verbatim>\<open>EVP_EncodeBlock\<close>, and the buffer that \<^verbatim>\<open>EVP_EncodedLength\<close> asks
  for is exactly the text with its NUL, that of \<^verbatim>\<open>EVP_DecodedLength\<close> enough for what is decoded.\<close>

theorem base64_block_roundtrip:
  assumes "length src \<le> 2 ^ 60"
  shows "EVP_EncodedLength (length src) = Some (length (EVP_EncodeBlock src) + 1) \<and>
    (\<exists>n. EVP_DecodedLength (length (EVP_EncodeBlock src)) = Some n \<and> length src \<le> n \<and>
       EVP_DecodeBase64 n (EVP_EncodeBlock src) = Some src)"
proof -
  have "size_add (length src) 2 = length src + 2" using assms by (simp add: SIZE_MAX_def)
  moreover have "size_mul ((length src + 2) div 3) 4 = (length src + 2) div 3 * 4"
    using assms by (simp add: size_mul_def)
  moreover have "size_add ((length src + 2) div 3 * 4) 1 = (length src + 2) div 3 * 4 + 1"
    using assms by (simp add: SIZE_MAX_def)
  ultimately show ?thesis
    by (simp add: EVP_EncodedLength_def EVP_DecodedLength_def EVP_DecodeBase64_def
        length_EVP_EncodeBlock decode_quads_EncodeBlock)
qed

theorem base64_block_roundtrip_witness:
  "EVP_DecodeBase64 3 (EVP_EncodeBlock [77, 97]) = Some [77, 97]"
  using base64_block_roundtrip [of "[77, 97]"]
  by (simp add: EVP_DecodedLength_def length_EVP_EncodeBlock del: EVP_EncodeBlock.simps)

end
