(* ===== verification/Pb_Stream.thy ===== *)
theory Pb_Stream
  imports Prelude
begin

unbundle bit_operations_syntax

text \<open>
  The streams and the wire format of \<^verbatim>\<open>nanopb/pb_encode.c\<close> and \<^verbatim>\<open>nanopb/pb_decode.c\<close>: reading and
  writing through a buffer or a user callback, varints, zig-zag and fixed-width integers, tags,
  skipping, and length-delimited substreams.  The build has 64-bit integers, \<^verbatim>\<open>PB_ENABLE_MALLOC\<close> and
  \<^verbatim>\<open>PB_FIELD_32BIT\<close>; \<^verbatim>\<open>uint_fast8_t\<close> is 8 bits wide on its targets.
\<close>

section \<open>Streams\<close>

text \<open>
  A source is the memory that remains behind \<^verbatim>\<open>state\<close> when the callback is \<^verbatim>\<open>buf_read\<close>, or a user
  callback with its state.  A user callback that returns true has filled the buffer it was given.
\<close>

datatype 's in_source =
  Buffer "u8 list"
| Callback "'s \<Rightarrow> nat \<Rightarrow> u8 list option \<times> 's" 's

record 's pb_istream =
  is_source :: "'s in_source"
  bytes_left :: nat
  is_errmsg :: "string option"

datatype 's out_sink =
  Sizing
| Out_Buffer "u8 list"
| Out_Callback "'s \<Rightarrow> u8 list \<Rightarrow> bool \<times> 's" 's

text \<open>\<open>Out_Buffer bs\<close>: \<open>bs\<close> has been written from the start of the buffer up to where \<^verbatim>\<open>state\<close> points.\<close>

record 's pb_ostream =
  os_sink :: "'s out_sink"
  max_size :: nat
  bytes_written :: nat
  os_errmsg :: "string option"

text \<open>\<^verbatim>\<open>PB_RETURN_ERROR\<close>: the first message stays.\<close>

definition set_error :: "string \<Rightarrow> string option \<Rightarrow> string option" where
  "set_error m e = (case e of None \<Rightarrow> Some m | Some m' \<Rightarrow> Some m')"

definition is_error :: "string \<Rightarrow> ('a, 's pb_istream) step" where
  "is_error m s = (None, s\<lparr>is_errmsg := set_error m (is_errmsg s)\<rparr>)"

definition os_error :: "string \<Rightarrow> ('a, 's pb_ostream) step" where
  "os_error m s = (None, s\<lparr>os_errmsg := set_error m (os_errmsg s)\<rparr>)"

section \<open>Writing\<close>

definition buf_write :: "u8 list \<Rightarrow> u8 list \<Rightarrow> u8 list" where
  "buf_write mem buf = mem @ buf"

definition pb_ostream_from_buffer :: "nat \<Rightarrow> 's pb_ostream" where
  "pb_ostream_from_buffer bufsize =
     \<lparr>os_sink = Out_Buffer [], max_size = bufsize, bytes_written = 0, os_errmsg = None\<rparr>"

definition PB_OSTREAM_SIZING :: "'s pb_ostream" where
  "PB_OSTREAM_SIZING = \<lparr>os_sink = Sizing, max_size = 0, bytes_written = 0, os_errmsg = None\<rparr>"

text \<open>\<open>cnt\<close> bytes of \<open>buf\<close>; a sizing stream does not look at \<open>buf\<close>, and \<open>[]\<close> stands for \<^verbatim>\<open>NULL\<close> there.\<close>

definition is_sizing :: "'s pb_ostream \<Rightarrow> bool" where
  "is_sizing s = (case os_sink s of Sizing \<Rightarrow> True | _ \<Rightarrow> False)"

definition pb_write :: "u8 list \<Rightarrow> nat \<Rightarrow> (unit, 's pb_ostream) step" where
  "pb_write buf cnt s =
     (let written = s\<lparr>bytes_written := size_add (bytes_written s) cnt\<rparr>
      in if \<not> is_sizing s \<and> size_add (bytes_written s) cnt > max_size s
         then os_error ''stream full'' s
         else case os_sink s of
                Sizing \<Rightarrow> (Some (), written)
              | Out_Buffer mem \<Rightarrow> (Some (), written\<lparr>os_sink := Out_Buffer (buf_write mem (take cnt buf))\<rparr>)
              | Out_Callback f st \<Rightarrow>
                  (case f st (take cnt buf) of
                     (False, st') \<Rightarrow> os_error ''io error'' (s\<lparr>os_sink := Out_Callback f st'\<rparr>)
                   | (True, st') \<Rightarrow> (Some (), written\<lparr>os_sink := Out_Callback f st'\<rparr>)))"

text \<open>The loop that fills \<^verbatim>\<open>buffer\<close>, and the top bit of the last byte cleared after it.\<close>

function varint_loop :: "u64 \<Rightarrow> u8 list" where
  "varint_loop val =
     (if val = 0 then []
      else ((ucast val AND 0x7F) OR 0x80) # varint_loop (drop_bit 7 val))"
  by pat_completeness auto
termination
proof (relation "measure unat")
  fix val :: u64
  assume "val \<noteq> 0"
  then have "unat val div 2 ^ 7 < unat val" by (intro div_less_dividend) (simp_all add: unat_gt_0)
  then show "(drop_bit 7 val, val) \<in> measure unat"
    by (simp add: unat_drop_bit_eq drop_bit_eq_div [where 'a = nat])
qed simp

declare varint_loop.simps [simp del]

definition varint_bytes :: "u64 \<Rightarrow> u8 list" where
  "varint_bytes val =
     (let buffer = varint_loop val in butlast buffer @ [List.last buffer AND 0x7F])"

definition pb_encode_varint :: "u64 \<Rightarrow> (unit, 's pb_ostream) step" where
  "pb_encode_varint val =
     (if val \<le> 0x7F then pb_write [ucast val] 1
      else pb_write (varint_bytes val) (length (varint_bytes val)))"

definition pb_encode_svarint :: "u64 \<Rightarrow> (unit, 's pb_ostream) step" where
  "pb_encode_svarint val =
     (let zigzagged = (if sint val < 0 then NOT (push_bit 1 val) else push_bit 1 val)
      in pb_encode_varint zigzagged)"

definition pb_encode_fixed32 :: "u32 \<Rightarrow> (unit, 's pb_ostream) step" where
  "pb_encode_fixed32 val =
     pb_write [ucast (val AND 0xFF), ucast (drop_bit 8 val AND 0xFF), ucast (drop_bit 16 val AND 0xFF),
               ucast (drop_bit 24 val AND 0xFF)] 4"

definition pb_encode_fixed64 :: "u64 \<Rightarrow> (unit, 's pb_ostream) step" where
  "pb_encode_fixed64 val =
     pb_write [ucast (val AND 0xFF), ucast (drop_bit 8 val AND 0xFF), ucast (drop_bit 16 val AND 0xFF),
               ucast (drop_bit 24 val AND 0xFF), ucast (drop_bit 32 val AND 0xFF), ucast (drop_bit 40 val AND 0xFF),
               ucast (drop_bit 48 val AND 0xFF), ucast (drop_bit 56 val AND 0xFF)] 8"

datatype pb_wire_type = PB_WT_VARINT | PB_WT_64BIT | PB_WT_STRING | PB_WT_32BIT | PB_WT_OTHER nat

text \<open>The enumeration as the integer of the C code; \<open>PB_WT_OTHER\<close> is a number without an enumerator.\<close>

definition wt_code :: "pb_wire_type \<Rightarrow> nat" where
  "wt_code w = (case w of PB_WT_VARINT \<Rightarrow> 0 | PB_WT_64BIT \<Rightarrow> 1 | PB_WT_STRING \<Rightarrow> 2 | PB_WT_32BIT \<Rightarrow> 5
     | PB_WT_OTHER n \<Rightarrow> n)"

definition wt_of_code :: "nat \<Rightarrow> pb_wire_type" where
  "wt_of_code n = (if n = 0 then PB_WT_VARINT else if n = 1 then PB_WT_64BIT else if n = 2 then PB_WT_STRING
     else if n = 5 then PB_WT_32BIT else PB_WT_OTHER n)"

definition pb_encode_tag :: "pb_wire_type \<Rightarrow> u32 \<Rightarrow> (unit, 's pb_ostream) step" where
  "pb_encode_tag wiretype field_number =
     pb_encode_varint (push_bit 3 (ucast field_number) OR word_of_nat (wt_code wiretype))"

definition pb_encode_string :: "u8 list \<Rightarrow> nat \<Rightarrow> (unit, 's pb_ostream) step" where
  "pb_encode_string buffer n =
     and_then (pb_encode_varint (word_of_nat n)) (\<lambda>_. pb_write buffer n)"

section \<open>Reading\<close>

definition pb_istream_from_buffer :: "u8 list \<Rightarrow> nat \<Rightarrow> 's pb_istream" where
  "pb_istream_from_buffer buf bufsize =
     \<lparr>is_source = Buffer buf, bytes_left = bufsize, is_errmsg = None\<rparr>"

definition buf_read :: "u8 list \<Rightarrow> nat \<Rightarrow> u8 list \<times> u8 list" where
  "buf_read mem cnt = (take cnt mem, drop cnt mem)"

text \<open>\<open>pb_read\<close> is the call with a buffer; the result is what the buffer holds afterwards.\<close>

definition pb_read :: "nat \<Rightarrow> (u8 list, 's pb_istream) step" where
  "pb_read cnt s =
     (if bytes_left s < cnt then is_error ''end-of-stream'' s
      else case is_source s of
             Buffer mem \<Rightarrow>
               (Some (fst (buf_read mem cnt)),
                s\<lparr>is_source := Buffer (snd (buf_read mem cnt)), bytes_left := bytes_left s - cnt\<rparr>)
           | Callback f st \<Rightarrow>
               (case f st cnt of
                  (None, st') \<Rightarrow> is_error ''io error'' (s\<lparr>is_source := Callback f st'\<rparr>)
                | (Some bs, st') \<Rightarrow>
                    (Some bs, s\<lparr>is_source := Callback f st', bytes_left := bytes_left s - cnt\<rparr>)))"

text \<open>\<open>pb_skip\<close> is \<^verbatim>\<open>pb_read\<close> with a \<^verbatim>\<open>NULL\<close> buffer: a user callback is asked for blocks of 16.\<close>

function skip_blocks :: "nat \<Rightarrow> (unit, 's pb_istream) step" where
  "skip_blocks cnt =
     (if cnt > 16 then and_then (pb_read 16) (\<lambda>_. skip_blocks (cnt - 16))
      else and_then (pb_read cnt) (\<lambda>_. ret ()))"
  by pat_completeness auto
termination by (relation "measure id") auto

declare skip_blocks.simps [simp del]

definition pb_skip :: "nat \<Rightarrow> (unit, 's pb_istream) step" where
  "pb_skip cnt s =
     (case is_source s of
        Buffer _ \<Rightarrow> and_then (pb_read cnt) (\<lambda>_. ret ()) s
      | Callback _ _ \<Rightarrow> skip_blocks cnt s)"

definition pb_readbyte :: "(u8, 's pb_istream) step" where
  "pb_readbyte s =
     (if bytes_left s = 0 then is_error ''end-of-stream'' s
      else case is_source s of
             Buffer mem \<Rightarrow>
               (Some (mem ! 0), s\<lparr>is_source := Buffer (drop 1 mem), bytes_left := bytes_left s - 1\<rparr>)
           | Callback f st \<Rightarrow>
               (case f st 1 of
                  (None, st') \<Rightarrow> is_error ''io error'' (s\<lparr>is_source := Callback f st'\<rparr>)
                | (Some bs, st') \<Rightarrow>
                    (Some (bs ! 0), s\<lparr>is_source := Callback f st', bytes_left := bytes_left s - 1\<rparr>)))"

text \<open>A read takes its bytes off \<^verbatim>\<open>bytes_left\<close>: the loops over bytes end.\<close>

lemma pb_readbyte_left: "pb_readbyte s = (Some b, s') \<Longrightarrow> bytes_left s' < bytes_left s"
  by (auto simp: pb_readbyte_def is_error_def split: if_splits in_source.splits prod.splits option.splits)

lemma pb_read_left: "pb_read n s = (Some bs, s') \<Longrightarrow> bytes_left s' + n = bytes_left s"
  by (auto simp: pb_read_def is_error_def split: if_splits in_source.splits prod.splits option.splits)

section \<open>Varints\<close>

text \<open>
  The \<^verbatim>\<open>do\<close> loop of \<^verbatim>\<open>pb_decode_varint32_eof\<close> after the first byte: \<open>bitpos\<close> is a \<^verbatim>\<open>uint_fast8_t\<close>
  and wraps.  The result is the value, the last byte and the position after it.
\<close>

function varint32_loop :: "u32 \<Rightarrow> u8 \<Rightarrow> (u32 \<times> u8 \<times> u8, 's pb_istream) step" where
  "varint32_loop result bitpos s =
     (case pb_readbyte s of
        (None, s1) \<Rightarrow> (None, s1)
      | (Some byte, s1) \<Rightarrow>
          if bitpos \<ge> 32 \<and>
             (byte AND 0x7F \<noteq> 0 \<and> (drop_bit 31 result = 0 \<or> byte \<noteq> (if bitpos < 63 then 0xFF else 0x01)))
          then is_error ''varint overflow'' s1
          else
            let result1 = (if bitpos \<ge> 32 then result
                           else result OR push_bit (unat bitpos) (ucast (byte AND 0x7F)));
                bitpos1 = bitpos + 7
            in if byte AND 0x80 \<noteq> 0 then varint32_loop result1 bitpos1 s1
               else (Some (result1, byte, bitpos1), s1))"
  by pat_completeness auto
termination by (relation "measure (\<lambda>(_, _, s). bytes_left s)") (auto dest: pb_readbyte_left [OF sym])

declare varint32_loop.simps [simp del]

text \<open>The results are the value and \<^verbatim>\<open>*eof\<close>.\<close>

definition pb_decode_varint32_eof :: "'s pb_istream \<Rightarrow> u32 option \<times> bool \<times> 's pb_istream" where
  "pb_decode_varint32_eof s =
     (case pb_readbyte s of
        (None, s1) \<Rightarrow> (None, bytes_left s1 = 0, s1)
      | (Some byte, s1) \<Rightarrow>
          if byte AND 0x80 = 0 then (Some (ucast byte), False, s1)
          else
            case varint32_loop (ucast (byte AND 0x7F)) 7 s1 of
              (None, s2) \<Rightarrow> (None, False, s2)
            | (Some (result, byte1, bitpos), s2) \<Rightarrow>
                if bitpos = 35 \<and> byte1 AND 0x70 \<noteq> 0
                then (None, False, snd (is_error ''varint overflow'' s2 :: u32 option \<times> 's pb_istream))
                else (Some result, False, s2))"

definition pb_decode_varint32 :: "(u32, 's pb_istream) step" where
  "pb_decode_varint32 s = (case pb_decode_varint32_eof s of (r, _, s') \<Rightarrow> (r, s'))"

function varint_dec_loop :: "u64 \<Rightarrow> nat \<Rightarrow> (u64, 's pb_istream) step" where
  "varint_dec_loop result bitpos s =
     (if bitpos \<ge> 64 then is_error ''varint overflow'' s
      else case pb_readbyte s of
             (None, s1) \<Rightarrow> (None, s1)
           | (Some byte, s1) \<Rightarrow>
               let result1 = result OR push_bit bitpos (ucast (byte AND 0x7F))
               in if byte AND 0x80 \<noteq> 0 then varint_dec_loop result1 (bitpos + 7) s1
                  else (Some result1, s1))"
  by pat_completeness auto
termination by (relation "measure (\<lambda>(_, _, s). bytes_left s)") (auto dest: pb_readbyte_left [OF sym])

declare varint_dec_loop.simps [simp del]

definition pb_decode_varint :: "(u64, 's pb_istream) step" where
  "pb_decode_varint = varint_dec_loop 0 0"

definition pb_decode_svarint :: "(u64, 's pb_istream) step" where
  "pb_decode_svarint =
     and_then pb_decode_varint
       (\<lambda>val. if val AND 1 \<noteq> 0 then ret (NOT (drop_bit 1 val)) else ret (drop_bit 1 val))"

definition pb_decode_fixed32 :: "(u32, 's pb_istream) step" where
  "pb_decode_fixed32 =
     and_then (pb_read 4) (\<lambda>bytes. ret
       (((ucast (bytes ! 0) OR push_bit 8 (ucast (bytes ! 1))) OR push_bit 16 (ucast (bytes ! 2))) OR
        push_bit 24 (ucast (bytes ! 3))))"

definition pb_decode_fixed64 :: "(u64, 's pb_istream) step" where
  "pb_decode_fixed64 =
     and_then (pb_read 8) (\<lambda>bytes. ret
       (((((((ucast (bytes ! 0) OR push_bit 8 (ucast (bytes ! 1))) OR push_bit 16 (ucast (bytes ! 2))) OR
        push_bit 24 (ucast (bytes ! 3))) OR push_bit 32 (ucast (bytes ! 4))) OR
        push_bit 40 (ucast (bytes ! 5))) OR push_bit 48 (ucast (bytes ! 6))) OR
        push_bit 56 (ucast (bytes ! 7))))"

section \<open>Tags, skipping and substreams\<close>

function pb_skip_varint :: "(unit, 's pb_istream) step" where
  "pb_skip_varint s =
     (case pb_read 1 s of
        (None, s1) \<Rightarrow> (None, s1)
      | (Some bs, s1) \<Rightarrow> if bs ! 0 AND 0x80 \<noteq> 0 then pb_skip_varint s1 else (Some (), s1))"
  by pat_completeness auto
termination by (relation "measure bytes_left") (auto dest!: pb_read_left [OF sym])

declare pb_skip_varint.simps [simp del]

definition pb_skip_string :: "(unit, 's pb_istream) step" where
  "pb_skip_string = and_then pb_decode_varint32 (\<lambda>n. pb_skip (unat n))"

text \<open>The results are the wire type and the tag, or nothing, and \<^verbatim>\<open>*eof\<close>.\<close>

definition pb_decode_tag :: "'s pb_istream \<Rightarrow> (pb_wire_type \<times> u32) option \<times> bool \<times> 's pb_istream" where
  "pb_decode_tag s =
     (case pb_decode_varint32_eof s of
        (None, eof, s1) \<Rightarrow> (None, eof, s1)
      | (Some temp, eof, s1) \<Rightarrow>
          if temp = 0 then (None, True, s1)
          else (Some (wt_of_code (unat (temp AND 7)), drop_bit 3 temp), eof, s1))"

definition pb_skip_field :: "pb_wire_type \<Rightarrow> (unit, 's pb_istream) step" where
  "pb_skip_field wire_type =
     (case wire_type of
        PB_WT_VARINT \<Rightarrow> pb_skip_varint
      | PB_WT_64BIT \<Rightarrow> pb_skip 8
      | PB_WT_STRING \<Rightarrow> pb_skip_string
      | PB_WT_32BIT \<Rightarrow> pb_skip 4
      | PB_WT_OTHER _ \<Rightarrow> is_error ''invalid wire_type'')"

text \<open>\<open>read_raw_varint\<close> is the loop of the varint case; \<open>used\<close> counts the bytes and the result is what
  is in the buffer.\<close>

function read_raw_varint :: "nat \<Rightarrow> nat \<Rightarrow> (u8 list, 's pb_istream) step" where
  "read_raw_varint max_len used s =
     (if used + 1 > max_len then (None, s)
      else case pb_read 1 s of
             (None, s1) \<Rightarrow> (None, s1)
           | (Some bs, s1) \<Rightarrow>
               if bs ! 0 AND 0x80 \<noteq> 0
               then case read_raw_varint max_len (used + 1) s1 of
                      (None, s2) \<Rightarrow> (None, s2)
                    | (Some bs', s2) \<Rightarrow> (Some (bs ! 0 # bs'), s2)
               else (Some [bs ! 0], s1))"
  by pat_completeness auto
termination by (relation "measure (\<lambda>(_, _, s). bytes_left s)") (auto dest!: pb_read_left [OF sym])

declare read_raw_varint.simps [simp del]

definition read_raw_value :: "pb_wire_type \<Rightarrow> nat \<Rightarrow> (u8 list, 's pb_istream) step" where
  "read_raw_value wire_type max_len =
     (case wire_type of
        PB_WT_VARINT \<Rightarrow> read_raw_varint max_len 0
      | PB_WT_64BIT \<Rightarrow> pb_read 8
      | PB_WT_32BIT \<Rightarrow> pb_read 4
      | _ \<Rightarrow> is_error ''invalid wire_type'')"

definition pb_make_string_substream :: "('s pb_istream, 's pb_istream) step" where
  "pb_make_string_substream =
     and_then pb_decode_varint32 (\<lambda>sz s.
       if bytes_left s < unat sz then is_error ''parent stream too short'' s
       else (Some (s\<lparr>bytes_left := unat sz\<rparr>), s\<lparr>bytes_left := bytes_left s - unat sz\<rparr>))"

definition pb_close_string_substream :: "'s pb_istream \<Rightarrow> (unit, 's pb_istream) step" where
  "pb_close_string_substream substream s =
     (case (if bytes_left substream \<noteq> 0 then pb_skip (bytes_left substream) substream else (Some (), substream)) of
        (None, _) \<Rightarrow> (None, s)
      | (Some _, sub') \<Rightarrow> (Some (), s\<lparr>is_source := is_source sub', is_errmsg := is_errmsg sub'\<rparr>))"

end
