(* ===== verification/Pb_Wire.thy ===== *)
theory Pb_Wire
  imports Pb_Stream
begin

unbundle bit_operations_syntax

text \<open>
  The wire layer of nanopb does what the protocol asks.  Two interfaces carry the proofs: \<open>byte_source\<close>,
  a stream that delivers known bytes, and \<open>byte_sink\<close>, one that accepts them.  What each encoder puts
  and each decoder takes is proved once under them; the interpretations are the buffer source, a user
  callback (with the library's own \<^verbatim>\<open>pb_read\<close> as the callback), the buffer sink and the sizing sink.
\<close>

section \<open>Base-128 digits\<close>

text \<open>The wire form of a number: seven bits to a byte, least significant first, the top bit of every
  byte but the last one set.\<close>

function leb :: "nat \<Rightarrow> u8 list" where
  "leb n = (if n < 128 then [word_of_nat n] else word_of_nat (n mod 128 + 128) # leb (n div 128))"
  by pat_completeness auto
termination by (relation "measure id") auto

declare leb.simps [simp del]

lemma leb_small: "n < 128 \<Longrightarrow> leb n = [word_of_nat n]"
  by (simp add: leb.simps)

lemma leb_large: "128 \<le> n \<Longrightarrow> leb n = word_of_nat (n mod 128 + 128) # leb (n div 128)"
  by (subst leb.simps) simp

lemma leb_not_Nil [simp]: "leb n \<noteq> []"
  by (cases "n < 128") (simp_all add: leb_small leb_large)

lemma length_leb_le: "n < 128 ^ k \<Longrightarrow> 0 < k \<Longrightarrow> length (leb n) \<le> k"
proof (induction k arbitrary: n)
  case (Suc k)
  show ?case
  proof (cases "n < 128")
    case False
    then have "0 < k" using Suc.prems by (cases k) auto
    moreover have "n div 128 < 128 ^ k" using Suc.prems by (simp add: less_mult_imp_div_less mult.commute)
    ultimately show ?thesis using Suc.IH False by (simp add: leb_large)
  qed (simp add: leb_small)
qed simp

lemma u8_group:
  assumes "d < 128"
  shows "(word_of_nat (d + 128) :: u8) AND 0x80 \<noteq> 0" "unat ((word_of_nat (d + 128) :: u8) AND 0x7F) = d"
    "(word_of_nat d :: u8) AND 0x80 = 0" "unat ((word_of_nat d :: u8) AND 0x7F) = d"
proof -
  have "unat (word_of_nat (d + 128) :: u8) = d + 128" "unat (word_of_nat d :: u8) = d"
    using assms by (simp_all only: unat_of_nat) simp_all
  with assms show "(word_of_nat (d + 128) :: u8) AND 0x80 \<noteq> 0"
    "unat ((word_of_nat (d + 128) :: u8) AND 0x7F) = d"
    "(word_of_nat d :: u8) AND 0x80 = 0" "unat ((word_of_nat d :: u8) AND 0x7F) = d"
    by (simp_all only: u8_high_bit u8_low7) simp_all
qed

lemma ucast_of_unat: "(ucast (b :: u8) :: 'a::len word) = word_of_nat (unat b)"
  by (simp add: word_unat_eq_iff unsigned_ucast_eq unat_of_nat take_bit_eq_mod)

lemma split_128: "r + n * p = r + n mod 128 * p + n div 128 * (p * 128)" for n :: nat
proof -
  have e: "(q * 128 + m) * p = m * p + q * (p * 128)" for q m by (simp add: algebra_simps)
  have "n * p = (n div 128 * 128 + n mod 128) * p" by (simp only: div_mult_mod_eq)
  then show ?thesis unfolding e by linarith
qed

lemma varint_group:
  "unat v \<noteq> 0 \<Longrightarrow> (ucast v AND 0x7F) OR 0x80 = (word_of_nat (unat v mod 128 + 128) :: u8)" for v :: u64
proof -
  have "unat (ucast v AND (0x7F :: u8)) = unat v mod 256 mod 128"
    by (simp add: u8_low7 unsigned_ucast_eq take_bit_eq_mod)
  also have "\<dots> = unat v mod 128" by (simp add: mod_mod_cancel)
  finally have "ucast v AND (0x7F :: u8) = word_of_nat (unat v mod 128)" by (rule unat_eqD)
  then show ?thesis using u8_cont_byte [of "unat v mod 128"] unat_eqD by (metis add.commute mod_less_divisor zero_less_numeral)
qed

lemma varint_loop_leb:
  "v \<noteq> 0 \<Longrightarrow> butlast (varint_loop v) @ [List.last (varint_loop v) AND 0x7F] = leb (unat v) \<and> varint_loop v \<noteq> []"
proof (induction v rule: varint_loop.induct)
  case (1 v)
  let ?w = "drop_bit 7 v"
  have w: "unat ?w = unat v div 128" by (simp add: unat_drop_bit_eq drop_bit_eq_div [where 'a = nat])
  have b: "(ucast v AND 0x7F) OR 0x80 = (word_of_nat (unat v mod 128 + 128) :: u8)"
    using 1(2) by (intro varint_group) (simp add: unat_eq_0)
  have l: "varint_loop v = word_of_nat (unat v mod 128 + 128) # varint_loop ?w"
    using 1(2) b by (simp add: varint_loop.simps [of v])
  show ?case
  proof (cases "unat v < 128")
    case True
    then have "?w = 0" using w by (simp add: unat_eq_0 [symmetric])
    then have "varint_loop ?w = []" by (simp add: varint_loop.simps)
    moreover have "(word_of_nat (unat v + 128) :: u8) AND 0x7F = word_of_nat (unat v)"
      using u8_group(2) [OF True] unat_eqD by blast
    ultimately show ?thesis using l True by (simp add: leb_small)
  next
    case False
    then have "unat ?w \<noteq> 0" using w by (simp add: div_eq_0_iff)
    then have "?w \<noteq> 0" by auto
    with 1(1) [OF 1(2) this] l w False show ?thesis by (simp add: leb_large)
  qed
qed

lemma pb_encode_varint_leb:
  "pb_encode_varint v = pb_write (leb (unat v)) (length (leb (unat v)))"
proof (cases "unat v < 128")
  case True
  then have "(ucast v :: u8) = word_of_nat (unat v)"
    by (simp add: word_unat_eq_iff unsigned_ucast_eq unat_of_nat take_bit_eq_mod)
  with True show ?thesis by (simp add: pb_encode_varint_def word_le_nat_alt leb_small)
next
  case False
  then have "v \<noteq> 0" by auto
  with False varint_loop_leb [OF this] show ?thesis
    by (simp add: pb_encode_varint_def word_le_nat_alt varint_bytes_def Let_def)
qed

section \<open>Sources\<close>

text \<open>
  What the decoder needs of a source: when it will deliver the bytes \<open>xs @ ys\<close> and the stream allows
  \<open>length xs\<close> more, a read of that many returns \<open>xs\<close> and leaves the source to deliver \<open>ys\<close>.
\<close>

definition advanced :: "'s pb_istream \<Rightarrow> nat \<Rightarrow> 's pb_istream \<Rightarrow> bool" where
  "advanced s n s' \<longleftrightarrow> bytes_left s' + n = bytes_left s \<and> is_errmsg s' = is_errmsg s"

lemma advanced_refl [simp]: "advanced s 0 s"
  by (simp add: advanced_def)

lemma advanced_trans [trans]: "advanced s m s' \<Longrightarrow> advanced s' n s'' \<Longrightarrow> advanced s (m + n) s''"
  by (auto simp: advanced_def)

locale byte_source =
  fixes delivers :: "'s in_source \<Rightarrow> u8 list \<Rightarrow> bool"
  assumes read: "delivers (is_source s) (xs @ ys) \<Longrightarrow> length xs \<le> bytes_left s \<Longrightarrow>
      \<exists>s'. pb_read (length xs) s = (Some xs, s') \<and> delivers (is_source s') ys \<and> advanced s (length xs) s'"
    and readbyte: "delivers (is_source s) (x # ys) \<Longrightarrow> 0 < bytes_left s \<Longrightarrow>
      \<exists>s'. pb_readbyte s = (Some x, s') \<and> delivers (is_source s') ys \<and> advanced s 1 s'"
    and skip: "delivers (is_source s) (xs @ ys) \<Longrightarrow> length xs \<le> bytes_left s \<Longrightarrow>
      \<exists>s'. pb_skip (length xs) s = (Some (), s') \<and> delivers (is_source s') ys \<and> advanced s (length xs) s'"
begin

definition sees :: "'s pb_istream \<Rightarrow> u8 list \<Rightarrow> u8 list \<Rightarrow> bool" where
  "sees s xs ys \<longleftrightarrow> delivers (is_source s) (xs @ ys) \<and> length xs \<le> bytes_left s"

text \<open>\<open>takes p xs r\<close>: the operation \<open>p\<close> consumes exactly \<open>xs\<close> and returns \<open>r\<close>.\<close>

definition takes :: "('a, 's pb_istream) step \<Rightarrow> u8 list \<Rightarrow> 'a \<Rightarrow> bool" where
  "takes p xs r \<longleftrightarrow> (\<forall>s ys. sees s xs ys \<longrightarrow>
     (\<exists>s'. p s = (Some r, s') \<and> delivers (is_source s') ys \<and> advanced s (length xs) s'))"

lemma takesI:
  assumes "\<And>s ys. sees s xs ys \<Longrightarrow> \<exists>s'. p s = (Some r, s') \<and> delivers (is_source s') ys \<and> advanced s (length xs) s'"
  shows "takes p xs r"
  using assms by (simp add: takes_def)

lemma takesD:
  assumes "takes p xs r" and "sees s xs ys"
  obtains s' where "p s = (Some r, s')" "delivers (is_source s') ys" "advanced s (length xs) s'"
  using assms unfolding takes_def by blast

lemma sees_tail:
  assumes "sees s (xs @ zs) ys" and "delivers (is_source s') (zs @ ys)" and "advanced s (length xs) s'"
  shows "sees s' zs ys"
  using assms by (auto simp: sees_def advanced_def)

lemma takes_ret: "takes (ret x) [] x"
  by (rule takesI) (simp add: sees_def)

lemma takes_bind:
  assumes "takes p xs a" and "takes (f a) ys b"
  shows "takes (and_then p f) (xs @ ys) b"
proof (rule takesI)
  fix s zs assume s: "sees s (xs @ ys) zs"
  then have "sees s xs (ys @ zs)" by (simp add: sees_def)
  then obtain s1 where 1: "p s = (Some a, s1)" "delivers (is_source s1) (ys @ zs)" "advanced s (length xs) s1"
    by (rule takesD [OF assms(1)])
  have "sees s1 ys zs" by (rule sees_tail [OF s 1(2,3)])
  then obtain s2 where 2: "f a s1 = (Some b, s2)" "delivers (is_source s2) zs" "advanced s1 (length ys) s2"
    by (rule takesD [OF assms(2)])
  have "advanced s (length (xs @ ys)) s2" using advanced_trans [OF 1(3) 2(3)] by simp
  with 2 show "\<exists>s'. and_then p f s = (Some b, s') \<and> delivers (is_source s') zs \<and> advanced s (length (xs @ ys)) s'"
    by (intro exI [of _ s2]) (simp only: and_then_eval [of p s a s1, OF 1(1)])
qed

lemma takes_map: "takes p xs a \<Longrightarrow> takes (and_then p (\<lambda>x. ret (f x))) xs (f a)"
  using takes_bind [of p xs a "\<lambda>x. ret (f x)" "[]", OF _ takes_ret] by simp

lemma takes_read: "takes (pb_read (length xs)) xs xs"
  by (rule takesI) (auto simp: sees_def intro: read)

lemma takes_skip: "takes (pb_skip (length xs)) xs ()"
  by (rule takesI) (auto simp: sees_def intro: skip)

lemma readbyte_sees:
  assumes "sees s (x # xs) ys"
  obtains s' where "pb_readbyte s = (Some x, s')" "sees s' xs ys" "advanced s 1 s'"
proof -
  from assms obtain s' where "pb_readbyte s = (Some x, s')" "delivers (is_source s') (xs @ ys)" "advanced s 1 s'"
    using readbyte [of s x "xs @ ys"] by (auto simp: sees_def)
  with assms that show thesis by (auto simp: sees_def advanced_def)
qed

lemma read1_sees:
  assumes "sees s (x # xs) ys"
  obtains s' where "pb_read 1 s = (Some [x], s')" "sees s' xs ys" "advanced s 1 s'"
proof -
  from assms obtain s' where "pb_read 1 s = (Some [x], s')" "delivers (is_source s') (xs @ ys)" "advanced s 1 s'"
    using read [of s "[x]" "xs @ ys"] by (auto simp: sees_def)
  with assms that show thesis by (auto simp: sees_def advanced_def)
qed

lemma takes_varint_loop:
  assumes "bp < 64" and "unat r < 2 ^ bp" and "unat r + n * 2 ^ bp < 2 ^ 64"
  shows "takes (varint_dec_loop r bp) (leb n) (word_of_nat (unat r + n * 2 ^ bp))"
  using assms
proof (induction n arbitrary: r bp rule: leb.induct)
  case (1 n r bp)
  have or: "r OR push_bit bp (word_of_nat d) = word_of_nat (unat r + d * 2 ^ bp)" for d
    using push_or [of "unat r" bp d, where 'a = 64] 1(3) by (simp add: or.commute mult.commute add.commute)
  show ?case
  proof (rule takesI)
    fix s ys assume s: "sees s (leb n) ys"
    show "\<exists>s'. varint_dec_loop r bp s = (Some (word_of_nat (unat r + n * 2 ^ bp)), s') \<and>
      delivers (is_source s') ys \<and> advanced s (length (leb n)) s'"
    proof (cases "n < 128")
      case True
      then have "sees s [word_of_nat n] ys" using s by (simp add: leb_small)
      then obtain s' where r: "pb_readbyte s = (Some (word_of_nat n), s')" "sees s' [] ys" "advanced s 1 s'"
        by (rule readbyte_sees)
      have "ucast ((word_of_nat n :: u8) AND 0x7F) = (word_of_nat n :: u64)"
        using u8_group(4) [OF True] by (simp add: ucast_of_unat)
      then show ?thesis using True r 1(2) u8_group(3) [OF True] or [of n]
        by (auto simp: varint_dec_loop.simps [of r bp s] leb_small sees_def)
    next
      case False
      let ?d = "n mod 128"
      have d: "?d < 128" by simp
      have "sees s (word_of_nat (?d + 128) # leb (n div 128)) ys" using s False by (simp add: leb_large)
      then obtain s1 where r1: "pb_readbyte s = (Some (word_of_nat (?d + 128)), s1)"
        "sees s1 (leb (n div 128)) ys" "advanced s 1 s1" by (rule readbyte_sees)
      have u: "ucast ((word_of_nat (?d + 128) :: u8) AND 0x7F) = (word_of_nat ?d :: u64)"
        using u8_group(2) [OF d] by (simp add: ucast_of_unat)
      let ?r = "word_of_nat (unat r + ?d * 2 ^ bp) :: u64"
      have n: "unat r + n * 2 ^ bp = unat r + ?d * 2 ^ bp + n div 128 * 2 ^ (bp + 7)"
        using split_128 [of "unat r" n "2 ^ bp"] by (simp add: power_add)
      have ur: "unat ?r = unat r + ?d * 2 ^ bp"
        using 1(4) n by (simp only: unat_of_nat) simp
      have "unat r + ?d * 2 ^ bp < 2 ^ bp + 127 * 2 ^ bp"
        using 1(3) d by (intro add_less_le_mono mult_le_mono1) auto
      then have b1: "unat ?r < 2 ^ (bp + 7)" unfolding ur by (simp add: power_add)
      have b2: "unat ?r + n div 128 * 2 ^ (bp + 7) < 2 ^ 64" using 1(4) n ur by simp
      have "0 < n div 128" using False by (simp add: div_greater_zero_iff)
      then have "2 ^ (bp + 7) \<le> n div 128 * 2 ^ (bp + 7)" by simp
      then have "(2 :: nat) ^ (bp + 7) < 2 ^ 64" using b2 by linarith
      then have b3: "bp + 7 < 64" by (rule power_less_imp_less_exp [rotated]) simp
      have "takes (varint_dec_loop ?r (bp + 7)) (leb (n div 128)) (word_of_nat (unat r + n * 2 ^ bp))"
        using 1(1) [OF False b3 b1 b2] by (simp only: ur n)
      then obtain s2 where r2: "varint_dec_loop ?r (bp + 7) s1 = (Some (word_of_nat (unat r + n * 2 ^ bp)), s2)"
        "delivers (is_source s2) ys" "advanced s1 (length (leb (n div 128))) s2"
        by (rule takesD [OF _ r1(2)])
      have "varint_dec_loop r bp s = varint_dec_loop ?r (bp + 7) s1"
        using 1(2) r1(1) u8_group(1) [OF d] by (simp add: varint_dec_loop.simps [of r bp s] u or del: of_nat_add)
      with r2 advanced_trans [OF r1(3) r2(3)] False show ?thesis by (simp add: leb_large)
    qed
  qed
qed

lemma takes_varint: "takes pb_decode_varint (leb (unat v)) v"
  using takes_varint_loop [of 0 0 "unat v"] unsigned_less [of v] by (simp add: pb_decode_varint_def)

end

context byte_source
begin

lemma takes_varint32_loop:
  assumes "unat bp \<le> 28" and "7 dvd unat bp" and "unat r < 2 ^ unat bp" and "unat r + n * 2 ^ unat bp < 2 ^ 32" and "sees s (leb n) ys"
  shows "\<exists>b bp' s'. varint32_loop r bp s = (Some (word_of_nat (unat r + n * 2 ^ unat bp), b, bp'), s') \<and>
    (bp' = 35 \<longrightarrow> b AND 0x70 = 0) \<and> delivers (is_source s') ys \<and> advanced s (length (leb n)) s'"
  using assms
proof (induction n arbitrary: r bp s rule: leb.induct)
  case (1 n r bp s)
  have or: "r OR push_bit (unat bp) (word_of_nat d) = word_of_nat (unat r + d * 2 ^ unat bp)" for d
    using push_or [of "unat r" "unat bp" d, where 'a = 32] 1(4) by (simp add: or.commute mult.commute add.commute)
  have nb: "\<not> 32 \<le> bp" using 1(2) by (simp add: word_le_nat_alt)
  have ub: "unat (bp + 7) = unat bp + 7" using 1(2) by (simp add: unat_word_ariths)
  show ?case
  proof (cases "n < 128")
    case True
    then have "sees s [word_of_nat n] ys" using 1(6) by (simp add: leb_small)
    then obtain s' where r: "pb_readbyte s = (Some (word_of_nat n), s')" "sees s' [] ys" "advanced s 1 s'"
      by (rule readbyte_sees)
    have u: "ucast ((word_of_nat n :: u8) AND 0x7F) = (word_of_nat n :: u32)"
      using u8_group(4) [OF True] by (simp add: ucast_of_unat)
    have "(word_of_nat n :: u8) AND 0x70 = 0" if "bp + 7 = 35"
    proof -
      from that have "unat bp = 28" using ub by simp
      then have "n * 2 ^ 28 < 16 * 2 ^ 28" using 1(5) by simp
      then have n: "n < 2 ^ 4" by simp
      have nb: "\<not> bit n 4" "\<not> bit n 5" "\<not> bit n 6"
        using bit_less [OF n, of 4] bit_less [OF n, of 5] bit_less [OF n, of 6] by auto
      show ?thesis
      proof (rule u8_eqI)
      qed (use nb in \<open>auto simp: bit_simps unsigned_of_nat bit_take_bit_iff\<close>)
    qed
    with True r nb u u8_group(3) [OF True] or [of n] show ?thesis
      by (simp add: varint32_loop.simps [of r bp s] leb_small sees_def Let_def)
  next
    case False
    let ?d = "n mod 128"
    have d: "?d < 128" by simp
    have "sees s (word_of_nat (?d + 128) # leb (n div 128)) ys" using 1(6) False by (simp add: leb_large)
    then obtain s1 where r1: "pb_readbyte s = (Some (word_of_nat (?d + 128)), s1)"
      "sees s1 (leb (n div 128)) ys" "advanced s 1 s1" by (rule readbyte_sees)
    have u: "ucast ((word_of_nat (?d + 128) :: u8) AND 0x7F) = (word_of_nat ?d :: u32)"
      using u8_group(2) [OF d] by (simp add: ucast_of_unat)
    let ?r = "word_of_nat (unat r + ?d * 2 ^ unat bp) :: u32"
    have n: "unat r + n * 2 ^ unat bp = unat r + ?d * 2 ^ unat bp + n div 128 * 2 ^ (unat bp + 7)"
      using split_128 [of "unat r" n "2 ^ unat bp"] by (simp add: power_add)
    have ur: "unat ?r = unat r + ?d * 2 ^ unat bp"
      using 1(5) n by (simp only: unat_of_nat) simp
    have "unat r + ?d * 2 ^ unat bp < 2 ^ unat bp + 127 * 2 ^ unat bp"
      using 1(4) d by (intro add_less_le_mono mult_le_mono1) auto
    then have b1: "unat ?r < 2 ^ unat (bp + 7)" unfolding ur ub by (simp add: power_add)
    have b2: "unat ?r + n div 128 * 2 ^ unat (bp + 7) < 2 ^ 32" using 1(5) n ur ub by simp
    have "0 < n div 128" using False by (simp add: div_greater_zero_iff)
    then have "2 ^ unat (bp + 7) \<le> n div 128 * 2 ^ unat (bp + 7)" by simp
    then have "(2 :: nat) ^ unat (bp + 7) < 2 ^ 32" using b2 by linarith
    then have b3: "unat (bp + 7) < 32" by (rule power_less_imp_less_exp [rotated]) simp
    have d7: "7 dvd unat (bp + 7)" using 1(3) ub by simp
    have "\<exists>b bp' s'. varint32_loop ?r (bp + 7) s1 = (Some (word_of_nat (unat ?r + n div 128 * 2 ^ unat (bp + 7)), b, bp'), s') \<and>
      (bp' = 35 \<longrightarrow> b AND 0x70 = 0) \<and> delivers (is_source s') ys \<and> advanced s1 (length (leb (n div 128))) s'"
      using b3 d7 by (intro 1(1) [OF False _ _ b1 b2 r1(2)]) auto
    then obtain b bp' s2 where r2: "varint32_loop ?r (bp + 7) s1 = (Some (word_of_nat (unat r + n * 2 ^ unat bp), b, bp'), s2)"
      "bp' = 35 \<longrightarrow> b AND 0x70 = 0" "delivers (is_source s2) ys" "advanced s1 (length (leb (n div 128))) s2"
      unfolding ur ub n [symmetric] by blast
    have "varint32_loop r bp s = varint32_loop ?r (bp + 7) s1"
      using nb r1(1) u8_group(1) [OF d] by (simp add: varint32_loop.simps [of r bp s] u or del: of_nat_add)
    with r2 advanced_trans [OF r1(3) r2(4)] False show ?thesis by (simp add: leb_large)
  qed
qed


lemma varint32_eof_sees:
  assumes "n < 2 ^ 32" and "sees s (leb n) ys"
  shows "\<exists>s'. pb_decode_varint32_eof s = (Some (word_of_nat n), False, s') \<and> delivers (is_source s') ys \<and>
    advanced s (length (leb n)) s'"
proof (cases "n < 128")
  case True
  then have "sees s [word_of_nat n] ys" using assms(2) by (simp add: leb_small)
  then obtain s' where r: "pb_readbyte s = (Some (word_of_nat n), s')" "sees s' [] ys" "advanced s 1 s'"
    by (rule readbyte_sees)
  have "(word_of_nat n :: u8) AND 0x7F = word_of_nat n"
    using u8_group(4) [OF True] unat_eqD by blast
  then have "ucast (word_of_nat n :: u8) = (word_of_nat n :: u32)"
    using u8_group(4) [OF True] by (metis ucast_of_unat)
  with True r u8_group(3) [OF True] show ?thesis
    by (simp add: pb_decode_varint32_eof_def leb_small sees_def)
next
  case False
  let ?d = "n mod 128"
  have d: "?d < 128" by simp
  have "sees s (word_of_nat (?d + 128) # leb (n div 128)) ys" using assms(2) False by (simp add: leb_large)
  then obtain s1 where r1: "pb_readbyte s = (Some (word_of_nat (?d + 128)), s1)"
    "sees s1 (leb (n div 128)) ys" "advanced s 1 s1" by (rule readbyte_sees)
  have u: "ucast ((word_of_nat (?d + 128) :: u8) AND 0x7F) = (word_of_nat ?d :: u32)"
    using u8_group(2) [OF d] by (simp add: ucast_of_unat)
  have ud: "unat (word_of_nat ?d :: u32) = ?d" by (simp add: unat_of_nat)
  have n: "?d + n div 128 * 2 ^ 7 = n" by simp
  obtain b bp' s2 where r2: "varint32_loop (word_of_nat ?d) 7 s1 = (Some (word_of_nat n, b, bp'), s2)"
    "bp' = 35 \<longrightarrow> b AND 0x70 = 0" "delivers (is_source s2) ys" "advanced s1 (length (leb (n div 128))) s2"
    using takes_varint32_loop [of 7 "word_of_nat ?d" "n div 128" s1 ys] r1(2) ud n assms(1) by auto
  have "pb_decode_varint32_eof s = (Some (word_of_nat n), False, s2)"
    using r1(1) r2(1,2) u8_group(1) [OF d] by (simp add: pb_decode_varint32_eof_def u del: of_nat_add)
  with r2 advanced_trans [OF r1(3) r2(4)] False show ?thesis by (simp add: leb_large)
qed

lemma takes_varint32: "n < 2 ^ 32 \<Longrightarrow> takes pb_decode_varint32 (leb n) (word_of_nat n)"
proof (rule takesI)
  fix s ys assume "n < 2 ^ 32" "sees s (leb n) ys"
  then obtain s' where "pb_decode_varint32_eof s = (Some (word_of_nat n), False, s')" "delivers (is_source s') ys"
    "advanced s (length (leb n)) s'" using varint32_eof_sees by blast
  then show "\<exists>s'. pb_decode_varint32 s = (Some (word_of_nat n), s') \<and> delivers (is_source s') ys \<and>
    advanced s (length (leb n)) s'" by (simp add: pb_decode_varint32_def)
qed

lemma takes_skip_varint: "takes pb_skip_varint (leb n) ()"
proof (induction n rule: leb.induct)
  case (1 n)
  show ?case
  proof (rule takesI)
    fix s ys assume s: "sees s (leb n) ys"
    show "\<exists>s'. pb_skip_varint s = (Some (), s') \<and> delivers (is_source s') ys \<and> advanced s (length (leb n)) s'"
    proof (cases "n < 128")
      case True
      then have "sees s [word_of_nat n] ys" using s by (simp add: leb_small)
      then obtain s' where "pb_read 1 s = (Some [word_of_nat n], s')" "sees s' [] ys" "advanced s 1 s'"
        by (rule read1_sees)
      with True u8_group(3) [OF True] show ?thesis by (simp add: pb_skip_varint.simps [of s] leb_small sees_def)
    next
      case False
      let ?d = "n mod 128"
      have d: "?d < 128" by simp
      have "sees s (word_of_nat (?d + 128) # leb (n div 128)) ys" using s False by (simp add: leb_large)
      then obtain s1 where r1: "pb_read 1 s = (Some [word_of_nat (?d + 128)], s1)"
        "sees s1 (leb (n div 128)) ys" "advanced s 1 s1" by (rule read1_sees)
      obtain s2 where r2: "pb_skip_varint s1 = (Some (), s2)" "delivers (is_source s2) ys"
        "advanced s1 (length (leb (n div 128))) s2"
        by (rule takesD [OF 1 [OF False] r1(2)])
      have "pb_skip_varint s = pb_skip_varint s1"
        using r1(1) u8_group(1) [OF d] by (simp add: pb_skip_varint.simps [of s] del: of_nat_add)
      with r2 advanced_trans [OF r1(3) r2(3)] False show ?thesis by (simp add: leb_large)
    qed
  qed
qed

lemma takes_skip_string:
  assumes "length xs < 2 ^ 32"
  shows "takes pb_skip_string (leb (length xs) @ xs) ()"
  unfolding pb_skip_string_def
proof (rule takes_bind [OF takes_varint32 [OF assms]])
  have "unat (word_of_nat (length xs) :: u32) = length xs" using assms by (simp add: unat_of_nat)
  then show "takes (pb_skip (unat (word_of_nat (length xs) :: u32))) xs ()" using takes_skip [of xs] by simp
qed

end

section \<open>Fixed-width and zig-zag integers\<close>

definition byte_of :: "nat \<Rightarrow> 'a::len word \<Rightarrow> u8" where
  "byte_of k v = ucast (drop_bit k v AND 0xFF)"

lemma bit_byte_of: "bit (byte_of k v) n \<longleftrightarrow> n < 8 \<and> bit v (k + n)"
proof -
  have "bit (0xFF :: 'a::len word) n \<longleftrightarrow> n < LENGTH('a) \<and> n < 8" for n
    using bit_mask_iff [of 8 n, where 'a = "'a word"] by (simp add: mask_eq_exp_minus_1 possible_bit_word)
  moreover have "bit v (k + n) \<Longrightarrow> n < LENGTH('a)" using bit_imp_le_length [of v "k + n"] by simp
  ultimately show ?thesis
    unfolding byte_of_def bit_ucast_iff bit_and_iff bit_drop_bit_eq by auto
qed

lemma bit_from_byte:
  "8 + k \<le> LENGTH('a) \<Longrightarrow> bit (push_bit k (ucast (byte_of k v)) :: 'a::len word) n \<longleftrightarrow> k \<le> n \<and> n < k + 8 \<and> bit v n"
  by (auto simp: bit_push_bit_iff bit_ucast_iff bit_byte_of possible_bit_word dest: bit_imp_le_length)

lemma bit_from_byte_0:
  "8 \<le> LENGTH('a) \<Longrightarrow> bit (ucast (byte_of 0 v) :: 'a::len word) n \<longleftrightarrow> n < 8 \<and> bit (v :: 'a word) n"
  using bit_from_byte [of 0 v n] by simp

lemma fixed32_bytes:
  "((ucast (byte_of 0 v) OR push_bit 8 (ucast (byte_of 8 v))) OR push_bit 16 (ucast (byte_of 16 v))) OR
    push_bit 24 (ucast (byte_of 24 v)) = (v :: u32)"
proof (rule bit_word_eqI)
  fix n assume "n < LENGTH(32)"
  then have "n < 8 \<or> 8 \<le> n \<and> n < 16 \<or> 16 \<le> n \<and> n < 24 \<or> 24 \<le> n \<and> n < 32" by simp presburger
  then show "bit (((ucast (byte_of 0 v) OR push_bit 8 (ucast (byte_of 8 v))) OR push_bit 16 (ucast (byte_of 16 v))) OR
    push_bit 24 (ucast (byte_of 24 v)) :: u32) n = bit v n"
    by (elim disjE; simp add: bit_or_iff bit_from_byte bit_from_byte_0)
qed

lemma fixed64_bytes:
  "((((((ucast (byte_of 0 v) OR push_bit 8 (ucast (byte_of 8 v))) OR push_bit 16 (ucast (byte_of 16 v))) OR
    push_bit 24 (ucast (byte_of 24 v))) OR push_bit 32 (ucast (byte_of 32 v))) OR
    push_bit 40 (ucast (byte_of 40 v))) OR push_bit 48 (ucast (byte_of 48 v))) OR
    push_bit 56 (ucast (byte_of 56 v)) = (v :: u64)"
proof (rule bit_word_eqI)
  fix n assume "n < LENGTH(64)"
  then have "n < 8 \<or> 8 \<le> n \<and> n < 16 \<or> 16 \<le> n \<and> n < 24 \<or> 24 \<le> n \<and> n < 32 \<or> 32 \<le> n \<and> n < 40 \<or>
    40 \<le> n \<and> n < 48 \<or> 48 \<le> n \<and> n < 56 \<or> 56 \<le> n \<and> n < 64" by simp presburger
  then show "bit (((((((ucast (byte_of 0 v) OR push_bit 8 (ucast (byte_of 8 v))) OR push_bit 16 (ucast (byte_of 16 v))) OR
    push_bit 24 (ucast (byte_of 24 v))) OR push_bit 32 (ucast (byte_of 32 v))) OR
    push_bit 40 (ucast (byte_of 40 v))) OR push_bit 48 (ucast (byte_of 48 v))) OR
    push_bit 56 (ucast (byte_of 56 v)) :: u64) n = bit v n"
    by (elim disjE; simp add: bit_or_iff bit_from_byte bit_from_byte_0)
qed

definition zigzag :: "u64 \<Rightarrow> u64" where
  "zigzag v = (if sint v < 0 then NOT (push_bit 1 v) else push_bit 1 v)"

lemma bit_zigzag:
  "bit (zigzag v) n \<longleftrightarrow> n < 64 \<and> (if n = 0 then bit v 63 else bit v 63 \<noteq> bit v (n - 1))"
proof -
  have "sint v < 0 \<longleftrightarrow> bit v 63" by (simp add: bit_last_iff [symmetric])
  then show ?thesis
    by (cases n) (auto simp: zigzag_def bit_not_iff bit_push_bit_iff possible_bit_word simp del: push_bit_Suc)
qed

lemma zigzag_inverse:
  "(if zigzag v AND 1 \<noteq> 0 then NOT (drop_bit 1 (zigzag v)) else drop_bit 1 (zigzag v)) = v"
proof -
  have "zigzag v AND 1 \<noteq> 0 \<longleftrightarrow> bit (zigzag v) 0"
    by (simp add: and_one_eq bit_0 odd_iff_mod_2_eq_one)
  then have o: "zigzag v AND 1 \<noteq> 0 \<longleftrightarrow> bit v 63" by (simp add: bit_zigzag)
  have bound: "n < 64 \<Longrightarrow> \<not> n < 63 \<Longrightarrow> n = 63" for n :: nat by auto
  show ?thesis unfolding o
    by (rule bit_word_eqI) (auto simp: bit_not_iff bit_drop_bit_eq bit_zigzag possible_bit_word dest: bound)
qed

section \<open>Fields on the wire\<close>

text \<open>A field as the wire has it: its number and a value of one of the four wire types.\<close>

datatype wire_value = W_varint u64 | W_64bit u64 | W_string "u8 list" | W_32bit u32

definition wire_type_of :: "wire_value \<Rightarrow> pb_wire_type" where
  "wire_type_of v = (case v of W_varint _ \<Rightarrow> PB_WT_VARINT | W_64bit _ \<Rightarrow> PB_WT_64BIT
     | W_string _ \<Rightarrow> PB_WT_STRING | W_32bit _ \<Rightarrow> PB_WT_32BIT)"

definition fixed32_le :: "u32 \<Rightarrow> u8 list" where
  "fixed32_le v = [byte_of 0 v, byte_of 8 v, byte_of 16 v, byte_of 24 v]"

definition fixed64_le :: "u64 \<Rightarrow> u8 list" where
  "fixed64_le v = [byte_of 0 v, byte_of 8 v, byte_of 16 v, byte_of 24 v, byte_of 32 v, byte_of 40 v,
     byte_of 48 v, byte_of 56 v]"

lemma length_fixed_le: "length (fixed32_le v) = 4" "length (fixed64_le w) = 8"
  by (simp_all add: fixed32_le_def fixed64_le_def)

definition value_bytes :: "wire_value \<Rightarrow> u8 list" where
  "value_bytes v = (case v of W_varint x \<Rightarrow> leb (unat x) | W_64bit x \<Rightarrow> fixed64_le x
     | W_string bs \<Rightarrow> leb (length bs) @ bs | W_32bit x \<Rightarrow> fixed32_le x)"

definition tag_bytes :: "nat \<Rightarrow> pb_wire_type \<Rightarrow> u8 list" where
  "tag_bytes t w = leb (8 * t + wt_code w)"

fun field_bytes :: "nat \<times> wire_value \<Rightarrow> u8 list" where
  "field_bytes (t, v) = tag_bytes t (wire_type_of v) @ value_bytes v"

fun field_ok :: "nat \<times> wire_value \<Rightarrow> bool" where
  "field_ok (t, v) \<longleftrightarrow> 0 < t \<and> t < 2 ^ 29 \<and> (case v of W_string bs \<Rightarrow> length bs < 2 ^ 32 | _ \<Rightarrow> True)"

lemma wt_code_of [simp]: "wt_of_code (wt_code (wire_type_of v)) = wire_type_of v"
  by (cases v) (simp_all add: wt_of_code_def wt_code_def wire_type_of_def)

lemma wt_code_less: "wt_code (wire_type_of v) < 8"
  by (cases v) (simp_all add: wt_code_def wire_type_of_def)

lemma tag_word:
  assumes "w < 8" and "8 * t + w < 2 ^ 32"
  shows "unat ((word_of_nat (8 * t + w) :: u32) AND 7) = w" "drop_bit 3 (word_of_nat (8 * t + w) :: u32) = word_of_nat t"
proof -
  have u: "unat (word_of_nat (8 * t + w) :: u32) = 8 * t + w" using assms(2) by (simp only: unat_of_nat) simp
  have "unat ((word_of_nat (8 * t + w) :: u32) AND 7) = unat (take_bit 3 (word_of_nat (8 * t + w) :: u32))"
    by (simp add: take_bit_eq_mask mask_eq_exp_minus_1)
  also have "\<dots> = (8 * t + w) mod 2 ^ 3"
    by (simp only: unsigned_take_bit_eq u take_bit_eq_mod [where 'a = nat])
  finally show "unat ((word_of_nat (8 * t + w) :: u32) AND 7) = w" using assms(1) by simp
  have "unat (drop_bit 3 (word_of_nat (8 * t + w) :: u32)) = (8 * t + w) div 2 ^ 3"
    by (simp only: unat_drop_bit_eq u drop_bit_eq_div [where 'a = nat])
  then show "drop_bit 3 (word_of_nat (8 * t + w) :: u32) = word_of_nat t"
    using assms(1) by (intro unat_eqD) simp
qed

text \<open>What a user of the streams does with a length-delimited value: open a substream, run \<open>p\<close> on it
  and close it, as \<^verbatim>\<open>pb_dec_submessage\<close> does.\<close>

definition in_substream :: "('a, 's pb_istream) step \<Rightarrow> ('a, 's pb_istream) step" where
  "in_substream p = and_then pb_make_string_substream (\<lambda>sub s.
     case p sub of
       (None, sub') \<Rightarrow> (None, s)
     | (Some r, sub') \<Rightarrow> and_then (pb_close_string_substream sub') (\<lambda>_. ret r) s)"

definition read_rest :: "(u8 list, 's pb_istream) step" where
  "read_rest s = pb_read (bytes_left s) s"

text \<open>One field: its tag, then its value.\<close>

definition decode_value :: "pb_wire_type \<Rightarrow> (wire_value, 's pb_istream) step" where
  "decode_value w = (case w of
      PB_WT_VARINT \<Rightarrow> and_then pb_decode_varint (\<lambda>x. ret (W_varint x))
    | PB_WT_64BIT \<Rightarrow> and_then pb_decode_fixed64 (\<lambda>x. ret (W_64bit x))
    | PB_WT_STRING \<Rightarrow> and_then (in_substream read_rest) (\<lambda>x. ret (W_string x))
    | PB_WT_32BIT \<Rightarrow> and_then pb_decode_fixed32 (\<lambda>x. ret (W_32bit x))
    | PB_WT_OTHER _ \<Rightarrow> fail)"

definition decode_tag :: "(pb_wire_type \<times> u32, 's pb_istream) step" where
  "decode_tag s = (case pb_decode_tag s of (r, _, s') \<Rightarrow> (r, s'))"

definition decode_one :: "(nat \<times> wire_value, 's pb_istream) step" where
  "decode_one = and_then decode_tag (\<lambda>(w, t). and_then (decode_value w) (\<lambda>v. ret (unat t, v)))"

definition skip_one :: "(unit, 's pb_istream) step" where
  "skip_one = and_then decode_tag (\<lambda>(w, t). pb_skip_field w)"

fun decode_fields :: "nat \<Rightarrow> ((nat \<times> wire_value) list, 's pb_istream) step" where
  "decode_fields 0 = ret []"
| "decode_fields (Suc n) = and_then decode_one (\<lambda>f. and_then (decode_fields n) (\<lambda>fs. ret (f # fs)))"

context byte_source
begin

lemma takes_map_eq: "takes p xs a \<Longrightarrow> f a = b \<Longrightarrow> takes (and_then p (\<lambda>x. ret (f x))) xs b"
  using takes_map [of p xs a f] by simp

lemma takes_fixed32: "takes pb_decode_fixed32 (fixed32_le v) v"
proof -
  have "takes (pb_read 4) (fixed32_le v) (fixed32_le v)"
    using takes_read [of "fixed32_le v"] by (simp only: length_fixed_le)
  then show ?thesis unfolding pb_decode_fixed32_def
    by (rule takes_map_eq) (simp add: fixed32_le_def fixed32_bytes)
qed

lemma takes_fixed64: "takes pb_decode_fixed64 (fixed64_le v) v"
proof -
  have "takes (pb_read 8) (fixed64_le v) (fixed64_le v)"
    using takes_read [of "fixed64_le v"] by (simp only: length_fixed_le)
  then show ?thesis unfolding pb_decode_fixed64_def
    by (rule takes_map_eq) (simp add: fixed64_le_def fixed64_bytes)
qed

lemma takes_svarint: "takes pb_decode_svarint (leb (unat (zigzag v))) v"
  unfolding pb_decode_svarint_def
  using takes_map [OF takes_varint [of "zigzag v"], of "\<lambda>x. if x AND 1 \<noteq> 0 then NOT (drop_bit 1 x) else drop_bit 1 x"]
    zigzag_inverse [of v] by (simp add: if_distrib [of ret] cong: if_cong)

lemma takes_tag:
  assumes "0 < t" and "t < 2 ^ 29"
  shows "takes decode_tag (tag_bytes t (wire_type_of v)) (wire_type_of v, word_of_nat t)"
proof (rule takesI)
  fix s ys assume s: "sees s (tag_bytes t (wire_type_of v)) ys"
  let ?n = "8 * t + wt_code (wire_type_of v)"
  have n: "?n < 2 ^ 32" using assms(2) wt_code_less [of v] by simp
  then have "unat (word_of_nat ?n :: u32) = ?n" by (simp only: unat_of_nat) simp
  then have nz: "(word_of_nat ?n :: u32) \<noteq> 0" using assms(1) by (metis add_gr_0 mult_pos_pos not_less0 unat_0 zero_less_numeral)
  obtain s' where "pb_decode_varint32_eof s = (Some (word_of_nat ?n), False, s')" "delivers (is_source s') ys"
    "advanced s (length (leb ?n)) s'"
    using varint32_eof_sees [OF n] s by (auto simp: tag_bytes_def)
  then show "\<exists>s'. decode_tag s = (Some (wire_type_of v, word_of_nat t), s') \<and> delivers (is_source s') ys \<and>
    advanced s (length (tag_bytes t (wire_type_of v))) s'"
    using nz tag_word [OF wt_code_less n]
    by (simp add: decode_tag_def pb_decode_tag_def tag_bytes_def del: of_nat_add of_nat_mult)
qed


text \<open>The same for an operation that is only run when the stream holds exactly \<open>n\<close> bytes.\<close>

definition takes_limited :: "nat \<Rightarrow> ('a, 's pb_istream) step \<Rightarrow> u8 list \<Rightarrow> 'a \<Rightarrow> bool" where
  "takes_limited n p xs r \<longleftrightarrow> (\<forall>s ys. sees s xs ys \<longrightarrow> bytes_left s = n \<longrightarrow>
     (\<exists>s'. p s = (Some r, s') \<and> delivers (is_source s') ys \<and> advanced s (length xs) s'))"

lemma takes_limitedI: "takes p xs r \<Longrightarrow> takes_limited n p xs r"
  by (auto simp: takes_def takes_limited_def)

lemma takes_substream:
  assumes "length (xs @ zs) < 2 ^ 32" and "takes_limited (length (xs @ zs)) p xs r"
  shows "takes (in_substream p) (leb (length (xs @ zs)) @ xs @ zs) r"
proof (rule takesI)
  let ?n = "length (xs @ zs)"
  fix s ys assume s: "sees s (leb ?n @ xs @ zs) ys"
  have n: "unat (word_of_nat ?n :: u32) = ?n" using assms(1) by (simp only: unat_of_nat) simp
  have "sees s (leb ?n) ((xs @ zs) @ ys)" using s by (simp add: sees_def)
  then obtain s1 where 1: "pb_decode_varint32 s = (Some (word_of_nat ?n), s1)"
    "delivers (is_source s1) ((xs @ zs) @ ys)" "advanced s (length (leb ?n)) s1"
    by (rule takesD [OF takes_varint32 [OF assms(1)]])
  have left: "?n \<le> bytes_left s1" using s 1(3) by (auto simp: sees_def advanced_def)
  let ?sub = "s1\<lparr>bytes_left := ?n\<rparr>"
  have "sees ?sub xs (zs @ ys)" using 1(2) by (simp add: sees_def)
  then obtain s2 where 2: "p ?sub = (Some r, s2)" "delivers (is_source s2) (zs @ ys)" "advanced ?sub (length xs) s2"
    using assms(2) unfolding takes_limited_def by fastforce
  have l2: "bytes_left s2 = length zs" using 2(3) by (simp add: advanced_def)
  obtain s3 where 3: "(if bytes_left s2 \<noteq> 0 then pb_skip (bytes_left s2) s2 else (Some (), s2)) = (Some (), s3)"
    "delivers (is_source s3) ys" "is_errmsg s3 = is_errmsg s2"
    using skip [of s2 zs ys] 2(2) l2 by (cases "zs = []") (auto simp: advanced_def)
  let ?s = "s1\<lparr>bytes_left := bytes_left s1 - ?n, is_source := is_source s3, is_errmsg := is_errmsg s3\<rparr>"
  have "in_substream p s = (Some r, ?s)"
    using 1(1) left 2(1) 3(1) n
    by (simp add: in_substream_def pb_make_string_substream_def pb_close_string_substream_def and_then_def del: of_nat_add)
  moreover have "advanced s (length (leb ?n @ xs @ zs)) ?s"
    using 1(3) 2(3) 3(3) left by (auto simp: advanced_def)
  ultimately show "\<exists>s'. in_substream p s = (Some r, s') \<and> delivers (is_source s') ys \<and>
    advanced s (length (leb ?n @ xs @ zs)) s'" using 3(2) by auto
qed

lemma takes_string: "length xs < 2 ^ 32 \<Longrightarrow> takes (in_substream read_rest) (leb (length xs) @ xs) xs"
proof -
  assume "length xs < 2 ^ 32"
  moreover have "takes_limited (length xs) read_rest xs xs"
    using takes_read [of xs] by (simp add: takes_def takes_limited_def read_rest_def)
  ultimately show ?thesis using takes_substream [of xs "[]" read_rest xs] by simp
qed

lemma takes_value: "field_ok (t, v) \<Longrightarrow> takes (decode_value (wire_type_of v)) (value_bytes v) v"
  by (cases v) (auto simp: decode_value_def wire_type_of_def value_bytes_def
      intro!: takes_map_eq takes_varint takes_fixed64 takes_fixed32 takes_string)

lemma takes_one: "field_ok f \<Longrightarrow> takes decode_one (field_bytes f) f"
proof (cases f)
  case (Pair t v)
  assume f: "field_ok f"
  then have t: "0 < t" "t < 2 ^ 29" using Pair by auto
  then have "unat (word_of_nat t :: u32) = t" by (simp add: unat_of_nat)
  moreover have "takes (decode_value (wire_type_of v)) (value_bytes v) v" using takes_value f Pair by blast
  ultimately show ?thesis unfolding decode_one_def Pair field_bytes.simps
    by (intro takes_bind [OF takes_tag [OF t]]) (auto intro: takes_map_eq)
qed

lemma takes_fields: "\<forall>f \<in> set fs. field_ok f \<Longrightarrow> takes (decode_fields (length fs)) (concat (map field_bytes fs)) fs"
proof (induction fs)
  case (Cons f fs)
  then show ?case by (auto intro!: takes_bind takes_one takes_map_eq)
qed (simp add: takes_ret)

lemma takes_skip_value: "field_ok (t, v) \<Longrightarrow> takes (pb_skip_field (wire_type_of v)) (value_bytes v) ()"
  using takes_skip [of "fixed64_le x" for x] takes_skip [of "fixed32_le x" for x]
  by (cases v) (auto simp: pb_skip_field_def wire_type_of_def value_bytes_def length_fixed_le
      intro: takes_skip_varint takes_skip_string)

lemma takes_skip_one: "field_ok f \<Longrightarrow> takes skip_one (field_bytes f) ()"
proof (cases f)
  case (Pair t v)
  assume f: "field_ok f"
  then have t: "0 < t" "t < 2 ^ 29" using Pair by auto
  show ?thesis unfolding skip_one_def Pair field_bytes.simps
    using takes_skip_value f Pair by (intro takes_bind [OF takes_tag [OF t]]) auto
qed

end

section \<open>The sources the code provides\<close>

text \<open>A buffer delivers the bytes behind \<^verbatim>\<open>state\<close>.\<close>

definition buffer_delivers :: "'s in_source \<Rightarrow> u8 list \<Rightarrow> bool" where
  "buffer_delivers src xs \<longleftrightarrow> (\<exists>zs. src = Buffer (xs @ zs))"

interpretation buffer: byte_source buffer_delivers
proof
  fix s :: "'s pb_istream" and xs ys
  assume a: "buffer_delivers (is_source s) (xs @ ys)" "length xs \<le> bytes_left s"
  then obtain zs where z: "is_source s = Buffer (xs @ ys @ zs)" by (auto simp: buffer_delivers_def)
  then show "\<exists>s'. pb_read (length xs) s = (Some xs, s') \<and> buffer_delivers (is_source s') ys \<and> advanced s (length xs) s'"
    using a(2) by (simp add: pb_read_def buf_read_def buffer_delivers_def advanced_def)
  with z show "\<exists>s'. pb_skip (length xs) s = (Some (), s') \<and> buffer_delivers (is_source s') ys \<and> advanced s (length xs) s'"
    by (auto simp: pb_skip_def)
next
  fix s :: "'s pb_istream" and x ys
  assume "buffer_delivers (is_source s) (x # ys)" "0 < bytes_left s"
  then show "\<exists>s'. pb_readbyte s = (Some x, s') \<and> buffer_delivers (is_source s') ys \<and> advanced s 1 s'"
    by (auto simp: pb_readbyte_def buffer_delivers_def advanced_def)
qed

text \<open>What a user callback promises: a request for no more than what it has is granted, in order.\<close>

locale user_source =
  fixes cb :: "'s \<Rightarrow> nat \<Rightarrow> u8 list option \<times> 's"
    and ok :: "'s \<Rightarrow> bool"
    and rest :: "'s \<Rightarrow> u8 list"
  assumes cb_read: "ok st \<Longrightarrow> n \<le> length (rest st) \<Longrightarrow>
    \<exists>st'. cb st n = (Some (take n (rest st)), st') \<and> ok st' \<and> rest st' = drop n (rest st)"
begin

definition user_delivers :: "'s in_source \<Rightarrow> u8 list \<Rightarrow> bool" where
  "user_delivers src xs \<longleftrightarrow> (\<exists>st zs. src = Callback cb st \<and> ok st \<and> rest st = xs @ zs)"

lemma user_read:
  assumes "user_delivers (is_source s) (xs @ ys)" and "length xs \<le> bytes_left s"
  shows "\<exists>s'. pb_read (length xs) s = (Some xs, s') \<and> user_delivers (is_source s') ys \<and> advanced s (length xs) s'"
proof -
  obtain st zs where st: "is_source s = Callback cb st" "ok st" "rest st = xs @ ys @ zs"
    using assms(1) by (auto simp: user_delivers_def)
  then obtain st' where "cb st (length xs) = (Some xs, st')" "ok st'" "rest st' = ys @ zs"
    using cb_read [of st "length xs"] by auto
  with st assms(2) show ?thesis by (simp add: pb_read_def user_delivers_def advanced_def)
qed

lemma user_skip_blocks:
  assumes "user_delivers (is_source s) (xs @ ys)" and "length xs \<le> bytes_left s"
  shows "\<exists>s'. skip_blocks (length xs) s = (Some (), s') \<and> user_delivers (is_source s') ys \<and> advanced s (length xs) s'"
  using assms
proof (induction xs arbitrary: s rule: length_induct)
  case (1 xs s)
  show ?case
  proof (cases "16 < length xs")
    case False
    with user_read [OF 1(2,3)] show ?thesis by (auto simp: skip_blocks.simps [of "length xs"])
  next
    case True
    let ?a = "take 16 xs" and ?b = "drop 16 xs"
    have "user_delivers (is_source s) (?a @ ?b @ ys)"
      using 1(2) by (simp add: append_assoc [symmetric] del: append_assoc)
    then obtain s1 where 2: "pb_read 16 s = (Some ?a, s1)" "user_delivers (is_source s1) (?b @ ys)" "advanced s 16 s1"
      using user_read [of s ?a "?b @ ys"] True 1(3) by (auto simp: min_def)
    have lt: "length ?b < length xs" using True by simp
    have "length ?b \<le> bytes_left s1" using 2(3) 1(3) True by (auto simp: advanced_def)
    then obtain s2 where 3: "skip_blocks (length ?b) s1 = (Some (), s2)" "user_delivers (is_source s2) ys" "advanced s1 (length ?b) s2"
      using 1(1) [rule_format, OF lt 2(2)] by auto
    have "skip_blocks (length xs) s = (Some (), s2)"
      using True 2(1) 3(1) by (simp add: skip_blocks.simps [of "length xs"])
    with 3 advanced_trans [OF 2(3) 3(3)] True show ?thesis by auto
  qed
qed

end

sublocale user_source \<subseteq> user: byte_source user_delivers
proof
  fix s :: "'s pb_istream" and xs ys
  assume a: "user_delivers (is_source s) (xs @ ys)" "length xs \<le> bytes_left s"
  then show "\<exists>s'. pb_read (length xs) s = (Some xs, s') \<and> user_delivers (is_source s') ys \<and> advanced s (length xs) s'"
    by (rule user_read)
  from a show "\<exists>s'. pb_skip (length xs) s = (Some (), s') \<and> user_delivers (is_source s') ys \<and> advanced s (length xs) s'"
    using user_skip_blocks [OF a] by (auto simp: pb_skip_def user_delivers_def)
next
  fix s :: "'s pb_istream" and x ys
  assume a: "user_delivers (is_source s) (x # ys)" "0 < bytes_left s"
  then obtain st zs where st: "is_source s = Callback cb st" "ok st" "rest st = x # ys @ zs"
    by (auto simp: user_delivers_def)
  then obtain st' where "cb st 1 = (Some [x], st')" "ok st'" "rest st' = ys @ zs"
    using cb_read [of st 1] by auto
  with st a(2) show "\<exists>s'. pb_readbyte s = (Some x, s') \<and> user_delivers (is_source s') ys \<and> advanced s 1 s'"
    by (simp add: pb_readbyte_def user_delivers_def advanced_def)
qed

text \<open>A stream over another stream: the callback is \<^verbatim>\<open>pb_read\<close> itself, on an inner stream over a buffer.\<close>

definition inner_rest :: "'s pb_istream \<Rightarrow> u8 list" where
  "inner_rest s = (case is_source s of Buffer mem \<Rightarrow> take (bytes_left s) mem | Callback _ _ \<Rightarrow> [])"

definition inner_ok :: "'s pb_istream \<Rightarrow> bool" where
  "inner_ok s = (case is_source s of Buffer mem \<Rightarrow> bytes_left s \<le> length mem | Callback _ _ \<Rightarrow> False)"

interpretation nested: user_source "\<lambda>s n. pb_read n s" inner_ok inner_rest
proof
  fix s :: "'s pb_istream" and n
  assume a: "inner_ok s" "n \<le> length (inner_rest s)"
  then obtain mem where m: "is_source s = Buffer mem" "bytes_left s \<le> length mem"
    by (auto simp: inner_ok_def split: in_source.splits)
  moreover have "n \<le> bytes_left s" using a(2) m by (simp add: inner_rest_def)
  ultimately show "\<exists>s'. pb_read n s = (Some (take n (inner_rest s)), s') \<and> inner_ok s' \<and> inner_rest s' = drop n (inner_rest s)"
    by (simp add: inner_ok_def inner_rest_def pb_read_def buf_read_def drop_take min_absorb1)
qed

section \<open>Sinks\<close>

text \<open>How much more a stream takes: a sizing stream only counts.\<close>

definition os_limit :: "'s pb_ostream \<Rightarrow> nat" where
  "os_limit s = (if is_sizing s then SIZE_MAX else min (max_size s) SIZE_MAX)"

definition written :: "'s pb_ostream \<Rightarrow> nat \<Rightarrow> 's pb_ostream \<Rightarrow> bool" where
  "written s n s' \<longleftrightarrow> bytes_written s' = bytes_written s + n \<and> os_limit s' = os_limit s \<and> os_errmsg s' = os_errmsg s"

locale byte_sink =
  fixes holds :: "'s out_sink \<Rightarrow> u8 list \<Rightarrow> bool"
  assumes sink_write: "holds (os_sink s) bs \<Longrightarrow> bytes_written s + length xs \<le> os_limit s \<Longrightarrow>
    \<exists>s'. pb_write xs (length xs) s = (Some (), s') \<and> holds (os_sink s') (bs @ xs) \<and> written s (length xs) s'"
begin

definition puts :: "(unit, 's pb_ostream) step \<Rightarrow> u8 list \<Rightarrow> bool" where
  "puts p xs \<longleftrightarrow> (\<forall>s bs. holds (os_sink s) bs \<longrightarrow> bytes_written s + length xs \<le> os_limit s \<longrightarrow>
     (\<exists>s'. p s = (Some (), s') \<and> holds (os_sink s') (bs @ xs) \<and> written s (length xs) s'))"

lemma putsD:
  assumes "puts p xs" and "holds (os_sink s) bs" and "bytes_written s + length xs \<le> os_limit s"
  obtains s' where "p s = (Some (), s')" "holds (os_sink s') (bs @ xs)" "written s (length xs) s'"
  using assms unfolding puts_def by blast

lemma puts_write: "puts (pb_write xs (length xs)) xs"
  by (simp add: puts_def sink_write)

lemma puts_ret: "puts (ret ()) []"
  by (simp add: puts_def written_def)

lemma puts_bind:
  assumes "puts p xs" and "puts (f ()) ys"
  shows "puts (and_then p f) (xs @ ys)"
  unfolding puts_def
proof (intro allI impI)
  fix s bs assume h: "holds (os_sink s) bs" and r: "bytes_written s + length (xs @ ys) \<le> os_limit s"
  then have "bytes_written s + length xs \<le> os_limit s" by simp
  then obtain s1 where 1: "p s = (Some (), s1)" "holds (os_sink s1) (bs @ xs)" "written s (length xs) s1"
    by (rule putsD [OF assms(1) h])
  then have "bytes_written s1 + length ys \<le> os_limit s1" using r by (simp add: written_def)
  then obtain s2 where 2: "f () s1 = (Some (), s2)" "holds (os_sink s2) ((bs @ xs) @ ys)" "written s1 (length ys) s2"
    by (rule putsD [OF assms(2) 1(2)])
  then show "\<exists>s'. and_then p f s = (Some (), s') \<and> holds (os_sink s') (bs @ xs @ ys) \<and> written s (length (xs @ ys)) s'"
    using 1 by (intro exI [of _ s2]) (simp add: and_then_eval [of p s "()" s1] written_def)
qed

lemma puts_varint: "puts (pb_encode_varint v) (leb (unat v))"
  by (simp add: pb_encode_varint_leb puts_write)

lemma puts_svarint: "puts (pb_encode_svarint v) (leb (unat (zigzag v)))"
  by (simp add: pb_encode_svarint_def zigzag_def [symmetric] puts_varint)

lemma puts_fixed32: "puts (pb_encode_fixed32 v) (fixed32_le v)"
proof -
  have "puts (pb_write (fixed32_le v) 4) (fixed32_le v)"
    using puts_write [of "fixed32_le v"] by (simp only: length_fixed_le)
  then show ?thesis by (simp add: pb_encode_fixed32_def fixed32_le_def byte_of_def)
qed

lemma puts_fixed64: "puts (pb_encode_fixed64 v) (fixed64_le v)"
proof -
  have "puts (pb_write (fixed64_le v) 8) (fixed64_le v)"
    using puts_write [of "fixed64_le v"] by (simp only: length_fixed_le)
  then show ?thesis by (simp add: pb_encode_fixed64_def fixed64_le_def byte_of_def)
qed

lemma puts_string: "length xs < 2 ^ 64 \<Longrightarrow> puts (pb_encode_string xs (length xs)) (leb (length xs) @ xs)"
proof -
  assume "length xs < 2 ^ 64"
  then have "unat (word_of_nat (length xs) :: u64) = length xs" by (simp only: unat_of_nat) simp
  then show ?thesis unfolding pb_encode_string_def
    using puts_varint [of "word_of_nat (length xs)"] by (intro puts_bind) (simp_all add: puts_write)
qed

lemma puts_tag:
  assumes "t < 2 ^ 32" and "wt_code w < 8"
  shows "puts (pb_encode_tag w (word_of_nat t)) (tag_bytes t w)"
proof -
  have u: "(ucast (word_of_nat t :: u32) :: u64) = word_of_nat t"
    using assms(1) by (simp add: word_unat_eq_iff unsigned_ucast_eq unat_of_nat take_bit_eq_mod)
  have "push_bit 3 (ucast (word_of_nat t :: u32)) OR word_of_nat (wt_code w) = (word_of_nat (8 * t + wt_code w) :: u64)"
    using push_or [of "wt_code w" 3 t, where 'a = 64] assms
    by (simp add: u)
  moreover have "unat (word_of_nat (8 * t + wt_code w) :: u64) = 8 * t + wt_code w"
    using assms by (simp only: unat_of_nat) simp
  ultimately show ?thesis
    using puts_varint [of "word_of_nat (8 * t + wt_code w)"] by (simp add: pb_encode_tag_def tag_bytes_def)
qed

end

definition encode_value :: "wire_value \<Rightarrow> (unit, 's pb_ostream) step" where
  "encode_value v = (case v of W_varint x \<Rightarrow> pb_encode_varint x | W_64bit x \<Rightarrow> pb_encode_fixed64 x
     | W_string bs \<Rightarrow> pb_encode_string bs (length bs) | W_32bit x \<Rightarrow> pb_encode_fixed32 x)"

definition encode_one :: "nat \<times> wire_value \<Rightarrow> (unit, 's pb_ostream) step" where
  "encode_one f = and_then (pb_encode_tag (wire_type_of (snd f)) (word_of_nat (fst f))) (\<lambda>_. encode_value (snd f))"

fun encode_fields :: "(nat \<times> wire_value) list \<Rightarrow> (unit, 's pb_ostream) step" where
  "encode_fields [] = ret ()"
| "encode_fields (f # fs) = and_then (encode_one f) (\<lambda>_. encode_fields fs)"

context byte_sink
begin

lemma puts_one: "field_ok f \<Longrightarrow> puts (encode_one f) (field_bytes f)"
proof (cases f)
  case (Pair t v)
  assume f: "field_ok f"
  then have "puts (encode_value v) (value_bytes v)" unfolding Pair
    by (cases v) (auto simp: encode_value_def value_bytes_def puts_varint puts_fixed32 puts_fixed64 intro: puts_string)
  moreover have "puts (pb_encode_tag (wire_type_of v) (word_of_nat t)) (tag_bytes t (wire_type_of v))"
    using f Pair wt_code_less by (intro puts_tag) auto
  ultimately show ?thesis unfolding Pair encode_one_def field_bytes.simps by (auto intro: puts_bind)
qed

lemma puts_fields: "\<forall>f \<in> set fs. field_ok f \<Longrightarrow> puts (encode_fields fs) (concat (map field_bytes fs))"
  by (induction fs) (auto intro!: puts_bind puts_one simp: puts_ret simp del: and_then_ret_app)

end

interpretation counting: byte_sink "\<lambda>k bs. k = Sizing"
proof
  fix s :: "'s pb_ostream" and bs xs :: "u8 list"
  assume a: "os_sink s = Sizing" "bytes_written s + length xs \<le> os_limit s"
  then have "bytes_written s + length xs \<le> SIZE_MAX" by (simp add: os_limit_def is_sizing_def)
  then show "\<exists>s'. pb_write xs (length xs) s = (Some (), s') \<and> os_sink s' = Sizing \<and> written s (length xs) s'"
    using a by (simp add: pb_write_def written_def os_limit_def is_sizing_def Let_def)
qed

interpretation memory: byte_sink "\<lambda>k bs. k = Out_Buffer bs"
proof
  fix s :: "'s pb_ostream" and bs xs :: "u8 list"
  assume a: "os_sink s = Out_Buffer bs" "bytes_written s + length xs \<le> os_limit s"
  then have "bytes_written s + length xs \<le> SIZE_MAX" "bytes_written s + length xs \<le> max_size s"
    by (simp_all add: os_limit_def is_sizing_def)
  then show "\<exists>s'. pb_write xs (length xs) s = (Some (), s') \<and> os_sink s' = Out_Buffer (bs @ xs) \<and> written s (length xs) s'"
    using a by (simp add: pb_write_def written_def os_limit_def is_sizing_def Let_def buf_write_def)
qed

section \<open>Safety\<close>

text \<open>
  The state of a stream over a buffer: \<open>bytes_left\<close> never promises more than the memory holds.  No
  call of the wire layer breaks that, and what is consumed is a prefix of what was there.
\<close>

definition reads_from :: "'s pb_istream \<Rightarrow> u8 list \<Rightarrow> nat \<Rightarrow> bool" where
  "reads_from s mem lim \<longleftrightarrow> lim \<le> length mem \<and>
     (\<exists>k. is_source s = Buffer (drop k mem) \<and> k + bytes_left s \<le> lim)"

lemma reads_from_errmsg [simp]: "reads_from (s\<lparr>is_errmsg := e\<rparr>) mem lim = reads_from s mem lim"
  by (simp add: reads_from_def)

lemma pb_read_inside:
  assumes "reads_from s mem lim" and "pb_read n s = (r, s')"
  shows "reads_from s' mem lim \<and> (\<forall>bs. r = Some bs \<longrightarrow> length bs = n)"
proof -
  obtain k where k: "is_source s = Buffer (drop k mem)" "k + bytes_left s \<le> lim" "lim \<le> length mem"
    using assms(1) by (auto simp: reads_from_def)
  show ?thesis
  proof (cases "bytes_left s < n")
    case True
    with assms k show ?thesis by (auto simp: pb_read_def is_error_def reads_from_def)
  next
    case False
    with assms(2) k have "s' = s\<lparr>is_source := Buffer (drop (n + k) mem), bytes_left := bytes_left s - n\<rparr>"
      "r = Some (take n (drop k mem))"
      by (auto simp: pb_read_def buf_read_def)
    with False k show ?thesis by (auto simp: reads_from_def intro!: exI [of _ "n + k"])
  qed
qed

lemma pb_readbyte_inside:
  assumes "reads_from s mem lim" and "pb_readbyte s = (r, s')"
  shows "reads_from s' mem lim"
proof -
  obtain k where k: "is_source s = Buffer (drop k mem)" "k + bytes_left s \<le> lim" "lim \<le> length mem"
    using assms(1) by (auto simp: reads_from_def)
  show ?thesis
  proof (cases "bytes_left s = 0")
    case True
    with assms k show ?thesis by (auto simp: pb_readbyte_def is_error_def reads_from_def)
  next
    case False
    with assms(2) k have "s' = s\<lparr>is_source := Buffer (drop (1 + k) mem), bytes_left := bytes_left s - 1\<rparr>"
      by (auto simp: pb_readbyte_def)
    with False k show ?thesis by (auto simp: reads_from_def intro!: exI [of _ "1 + k"])
  qed
qed

lemma is_error_inside: "reads_from s mem lim \<Longrightarrow> is_error m s = (r, s') \<Longrightarrow> reads_from s' mem lim"
  by (auto simp: is_error_def reads_from_def)

lemma varint32_loop_inside:
  "reads_from s mem lim \<Longrightarrow> varint32_loop r bp s = (x, s') \<Longrightarrow> reads_from s' mem lim"
proof (induction r bp s arbitrary: x s' rule: varint32_loop.induct)
  case (1 result bitpos s)
  obtain y s1 where y: "pb_readbyte s = (y, s1)" by fastforce
  have i: "reads_from s1 mem lim" by (rule pb_readbyte_inside [OF 1(2) y])
  show ?case
  proof (cases y)
    case None
    with y 1(3) i show ?thesis by (simp add: varint32_loop.simps [of result bitpos s])
  next
    case (Some b)
    with 1 y i show ?thesis
      by (auto simp: varint32_loop.simps [of result bitpos s] Let_def split: if_splits dest: is_error_inside)
  qed
qed

lemma varint_dec_loop_inside:
  "reads_from s mem lim \<Longrightarrow> varint_dec_loop r bp s = (x, s') \<Longrightarrow> reads_from s' mem lim"
proof (induction r bp s arbitrary: x s' rule: varint_dec_loop.induct)
  case (1 result bitpos s)
  obtain y s1 where y: "pb_readbyte s = (y, s1)" by fastforce
  have i: "reads_from s1 mem lim" by (rule pb_readbyte_inside [OF 1(2) y])
  show ?case
  proof (cases y)
    case None
    with y 1(2,3) i show ?thesis
      by (auto simp: varint_dec_loop.simps [of result bitpos s] split: if_splits dest: is_error_inside)
  next
    case (Some b)
    with 1 y i show ?thesis
      by (auto simp: varint_dec_loop.simps [of result bitpos s] Let_def split: if_splits dest: is_error_inside)
  qed
qed

lemma pb_skip_inside:
  assumes "reads_from s mem lim" and "pb_skip n s = (r, s')"
  shows "reads_from s' mem lim"
proof -
  obtain y s1 where y: "pb_read n s = (y, s1)" by fastforce
  obtain k where "is_source s = Buffer (drop k mem)" using assms(1) by (auto simp: reads_from_def)
  then have "s' = s1" using assms(2) y
    by (cases y) (auto simp: pb_skip_def)
  with pb_read_inside [OF assms(1) y] show ?thesis by simp
qed

lemma pb_skip_varint_inside:
  "reads_from s mem lim \<Longrightarrow> pb_skip_varint s = (r, s') \<Longrightarrow> reads_from s' mem lim"
proof (induction s arbitrary: r s' rule: pb_skip_varint.induct)
  case (1 s)
  obtain y s1 where y: "pb_read 1 s = (y, s1)" by fastforce
  have i: "reads_from s1 mem lim" using pb_read_inside [OF 1(2) y] by simp
  show ?case using 1 y i
    by (cases y) (auto simp: pb_skip_varint.simps [of s] split: if_splits)
qed

lemma read_raw_varint_inside:
  "reads_from s mem lim \<Longrightarrow> read_raw_varint n u s = (r, s') \<Longrightarrow> reads_from s' mem lim"
proof (induction n u s arbitrary: r s' rule: read_raw_varint.induct)
  case (1 n u s)
  obtain y s1 where y: "pb_read 1 s = (y, s1)" by fastforce
  have i: "reads_from s1 mem lim" using pb_read_inside [OF 1(2) y] by simp
  show ?case
  proof (cases y)
    case None
    with 1(2,3) y i show ?thesis by (auto simp: read_raw_varint.simps [of n u s] split: if_splits)
  next
    case (Some b)
    with 1 y i show ?thesis
      by (auto simp: read_raw_varint.simps [of n u s] split: if_splits prod.splits option.splits)
  qed
qed

lemma pb_decode_varint32_eof_inside:
  assumes "reads_from s mem lim" and "pb_decode_varint32_eof s = (r, e, s')"
  shows "reads_from s' mem lim"
proof -
  obtain y s1 where y: "pb_readbyte s = (y, s1)" by fastforce
  have i: "reads_from s1 mem lim" by (rule pb_readbyte_inside [OF assms(1) y])
  obtain z s2 where z: "varint32_loop (ucast (the y AND 0x7F)) 7 s1 = (z, s2)" by fastforce
  have "reads_from s2 mem lim" by (rule varint32_loop_inside [OF i z])
  with assms(2) y i z show ?thesis
    by (auto simp: pb_decode_varint32_eof_def is_error_def split: option.splits if_splits)
qed

lemma pb_decode_varint32_inside:
  assumes "reads_from s mem lim" and "pb_decode_varint32 s = (r, s')"
  shows "reads_from s' mem lim"
  using assms pb_decode_varint32_eof_inside [OF assms(1)]
  by (auto simp: pb_decode_varint32_def split: prod.splits)

lemma and_then_inside:
  assumes "reads_from s mem lim" and "and_then p f s = (r, s')"
    and "\<And>x s1. p s = (x, s1) \<Longrightarrow> reads_from s1 mem lim"
    and "\<And>x s1. reads_from s1 mem lim \<Longrightarrow> f x s1 = (r, s') \<Longrightarrow> reads_from s' mem lim"
  shows "reads_from s' mem lim"
  using assms by (auto simp: and_then_def split: prod.splits option.splits)

text \<open>The calls on a stream, and the two ends of a substream.\<close>

inductive is_call :: "'s pb_istream \<Rightarrow> 's pb_istream \<Rightarrow> bool" where
  call_read: "pb_read n s = (r, s') \<Longrightarrow> is_call s s'"
| call_skip: "pb_skip n s = (r, s') \<Longrightarrow> is_call s s'"
| call_varint32: "pb_decode_varint32 s = (r, s') \<Longrightarrow> is_call s s'"
| call_varint: "pb_decode_varint s = (v, s') \<Longrightarrow> is_call s s'"
| call_svarint: "pb_decode_svarint s = (v, s') \<Longrightarrow> is_call s s'"
| call_fixed32: "pb_decode_fixed32 s = (w, s') \<Longrightarrow> is_call s s'"
| call_fixed64: "pb_decode_fixed64 s = (v, s') \<Longrightarrow> is_call s s'"
| call_tag: "pb_decode_tag s = (t, eof, s') \<Longrightarrow> is_call s s'"
| call_skip_field: "pb_skip_field w s = (u, s') \<Longrightarrow> is_call s s'"
| call_raw: "read_raw_value w n s = (bs, s') \<Longrightarrow> is_call s s'"
| call_substream: "pb_make_string_substream s = (Some sub, s1) \<Longrightarrow> is_call\<^sup>*\<^sup>* sub sub' \<Longrightarrow>
    pb_close_string_substream sub' s1 = (c, s') \<Longrightarrow> is_call s s'"

lemma pb_make_string_substream_inside:
  assumes "reads_from s mem lim" and "pb_make_string_substream s = (r, s1)"
  shows "reads_from s1 mem lim"
    "r = Some sub \<Longrightarrow> \<exists>lim'. reads_from sub mem lim' \<and> lim' + bytes_left s1 \<le> lim"
proof -
  obtain y s0 where y: "pb_decode_varint32 s = (y, s0)" by fastforce
  have i: "reads_from s0 mem lim" by (rule pb_decode_varint32_inside [OF assms(1) y])
  then obtain k where k: "is_source s0 = Buffer (drop k mem)" "k + bytes_left s0 \<le> lim" "lim \<le> length mem"
    by (auto simp: reads_from_def)
  show "reads_from s1 mem lim"
    using assms(2) y i k by (cases y) (auto simp: pb_make_string_substream_def is_error_def reads_from_def split: if_splits)
  assume "r = Some sub"
  then obtain n where n: "y = Some n" "\<not> bytes_left s0 < unat n" "sub = s0\<lparr>bytes_left := unat n\<rparr>"
    "s1 = s0\<lparr>bytes_left := bytes_left s0 - unat n\<rparr>"
    using assms(2) y by (cases y) (auto simp: pb_make_string_substream_def is_error_def split: if_splits)
  show "\<exists>lim'. reads_from sub mem lim' \<and> lim' + bytes_left s1 \<le> lim"
    using n k by (intro exI [of _ "k + unat n"]) (auto simp: reads_from_def)
qed

lemma pb_close_string_substream_inside:
  assumes "reads_from s1 mem lim" and "reads_from sub mem lim'" and "lim' + bytes_left s1 \<le> lim"
    and "pb_close_string_substream sub s1 = (c, s')"
  shows "reads_from s' mem lim"
proof -
  obtain y s2 where y: "(if bytes_left sub \<noteq> 0 then pb_skip (bytes_left sub) sub else (Some (), sub)) = (y, s2)"
    by fastforce
  have "reads_from s2 mem lim'" using y assms(2) pb_skip_inside [OF assms(2)] by (auto split: if_splits)
  then obtain k where k: "is_source s2 = Buffer (drop k mem)" "k + bytes_left s2 \<le> lim'" "lim' \<le> length mem"
    by (auto simp: reads_from_def)
  show ?thesis
  proof (cases y)
    case None
    with assms(1,4) y show ?thesis by (simp add: pb_close_string_substream_def)
  next
    case (Some u)
    with assms(4) y have "s' = s1\<lparr>is_source := is_source s2, is_errmsg := is_errmsg s2\<rparr>"
      by (simp add: pb_close_string_substream_def)
    with k assms(1,3) show ?thesis by (auto simp: reads_from_def)
  qed
qed

lemma and_then_ret_inside:
  assumes "reads_from s mem lim" and "and_then p f s = (r, s')" and "\<And>x. f x = ret (g x)"
    and "\<And>x s1. p s = (x, s1) \<Longrightarrow> reads_from s1 mem lim"
  shows "reads_from s' mem lim"
  using assms by (auto simp: and_then_def split: prod.splits option.splits)

lemmas inside_rules = pb_skip_inside pb_decode_varint32_inside pb_skip_varint_inside read_raw_varint_inside
  is_error_inside

lemma pb_skip_string_inside:
  assumes "reads_from s mem lim" and "pb_skip_string s = (r, s')"
  shows "reads_from s' mem lim"
  by (rule and_then_inside [OF assms(1) assms(2) [unfolded pb_skip_string_def]])
    (auto intro: inside_rules assms(1))

lemma pb_decode_varint_inside:
  "reads_from s mem lim \<Longrightarrow> pb_decode_varint s = (r, s') \<Longrightarrow> reads_from s' mem lim"
  unfolding pb_decode_varint_def by (rule varint_dec_loop_inside)

lemma pb_read_inside_left: "reads_from s mem lim \<Longrightarrow> pb_read n s = (r, s') \<Longrightarrow> reads_from s' mem lim"
  using pb_read_inside by blast

lemma pb_decode_svarint_inside:
  assumes "reads_from s mem lim" and "pb_decode_svarint s = (r, s')"
  shows "reads_from s' mem lim"
  by (rule and_then_inside [OF assms(1) assms(2) [unfolded pb_decode_svarint_def]])
    (auto intro: pb_decode_varint_inside assms(1) split: if_splits)

lemma pb_decode_fixed_inside:
  assumes "reads_from s mem lim"
  shows "pb_decode_fixed32 s = (r, s') \<Longrightarrow> reads_from s' mem lim"
    "pb_decode_fixed64 s = (r', s') \<Longrightarrow> reads_from s' mem lim"
  unfolding pb_decode_fixed32_def pb_decode_fixed64_def
  by (auto elim!: and_then_inside [OF assms] intro: pb_read_inside_left assms)

lemma pb_decode_tag_inside:
  assumes "reads_from s mem lim" and "pb_decode_tag s = (r, e, s')"
  shows "reads_from s' mem lim"
  using assms(2) pb_decode_varint32_eof_inside [OF assms(1)]
  by (auto simp: pb_decode_tag_def split: prod.splits option.splits if_splits)

lemma pb_skip_field_inside:
  assumes "reads_from s mem lim" and "pb_skip_field w s = (r, s')"
  shows "reads_from s' mem lim"
  using assms by (cases w) (auto simp: pb_skip_field_def intro: inside_rules pb_skip_string_inside)

lemma read_raw_value_inside:
  assumes "reads_from s mem lim" and "read_raw_value w n s = (r, s')"
  shows "reads_from s' mem lim"
  using assms by (cases w) (auto simp: read_raw_value_def intro: inside_rules pb_read_inside_left)

lemma is_call_inside: "is_call s s' \<Longrightarrow> reads_from s mem lim \<Longrightarrow> reads_from s' mem lim"
proof (induction arbitrary: lim rule: is_call.induct)
  case (call_substream s sub s1 sub' c s')
  obtain lim' where l: "reads_from sub mem lim'" "lim' + bytes_left s1 \<le> lim"
    using pb_make_string_substream_inside(2) [OF call_substream(4,1)] by blast
  from call_substream(3) l(1) have "reads_from sub' mem lim'"
    by (induction rule: rtranclp_induct) auto
  with l call_substream(1,2,4) show ?case
    using pb_close_string_substream_inside pb_make_string_substream_inside(1) by blast
qed (blast intro: pb_read_inside_left inside_rules pb_decode_varint_inside pb_decode_svarint_inside
    pb_decode_fixed_inside pb_decode_tag_inside pb_skip_field_inside read_raw_value_inside)+

lemma is_calls_inside: "is_call\<^sup>*\<^sup>* s s' \<Longrightarrow> reads_from s mem lim \<Longrightarrow> reads_from s' mem lim"
  by (induction rule: rtranclp_induct) (auto intro: is_call_inside)

section \<open>Properties\<close>

text \<open>C4: fields round trip.  Whatever list of fields is encoded into a buffer that has room for them,
  the bytes written decode to the same list, the stream ends with the last one, and a sizing stream
  counts exactly the bytes that are written.\<close>

theorem wire_fields_roundtrip:
  assumes "\<forall>f \<in> set fs. field_ok f" and "length (concat (map field_bytes fs)) \<le> n" and "n \<le> SIZE_MAX"
  shows "\<exists>s sz bs. encode_fields fs (pb_ostream_from_buffer n) = (Some (), s) \<and> os_sink s = Out_Buffer bs \<and>
    bytes_written s = length bs \<and>
    encode_fields fs PB_OSTREAM_SIZING = (Some (), sz) \<and> bytes_written sz = length bs \<and>
    (\<exists>t. decode_fields (length fs) (pb_istream_from_buffer bs (length bs)) = (Some fs, t) \<and> bytes_left t = 0)"
proof -
  let ?bs = "concat (map field_bytes fs)"
  let ?o = "pb_ostream_from_buffer n :: 'a pb_ostream"
  have "os_sink ?o = Out_Buffer []" "bytes_written ?o + length ?bs \<le> os_limit ?o"
    using assms(2,3) by (simp_all add: pb_ostream_from_buffer_def os_limit_def is_sizing_def)
  then obtain s where s: "encode_fields fs ?o = (Some (), s)" "os_sink s = Out_Buffer ([] @ ?bs)" "written ?o (length ?bs) s"
    by (rule memory.putsD [OF memory.puts_fields [OF assms(1)]])
  let ?z = "PB_OSTREAM_SIZING :: 'b pb_ostream"
  have "os_sink ?z = Sizing" "bytes_written ?z + length ?bs \<le> os_limit ?z"
    using assms(2,3) by (simp_all add: PB_OSTREAM_SIZING_def os_limit_def is_sizing_def)
  then obtain sz where z: "encode_fields fs ?z = (Some (), sz)" "written ?z (length ?bs) sz"
    by (rule counting.putsD [OF counting.puts_fields [OF assms(1)]])
  let ?i = "pb_istream_from_buffer ?bs (length ?bs) :: 'c pb_istream"
  have "buffer.sees ?i ?bs []"
    by (simp add: buffer.sees_def pb_istream_from_buffer_def buffer_delivers_def)
  then obtain t where t: "decode_fields (length fs) ?i = (Some fs, t)" "advanced ?i (length ?bs) t"
    by (rule buffer.takesD [OF buffer.takes_fields [OF assms(1)]])
  have "bytes_written ?o = 0" "bytes_written ?z = 0" "bytes_left ?i = length ?bs"
    by (simp_all add: pb_ostream_from_buffer_def PB_OSTREAM_SIZING_def pb_istream_from_buffer_def)
  with s z t show ?thesis by (auto simp: written_def advanced_def)
qed

theorem wire_fields_roundtrip_witness:
  "\<exists>s :: unit pb_ostream. encode_fields [(1, W_varint 300), (2, W_string [7, 8])] (pb_ostream_from_buffer 7) = (Some (), s)"
  using wire_fields_roundtrip [of "[(1, W_varint 300), (2, W_string [7, 8])]" 7]
  by (auto simp: tag_bytes_def value_bytes_def leb_small leb_large wire_type_of_def wt_code_def SIZE_MAX_def)

text \<open>C6: an unknown field is skipped exactly.  On a stream whose callback is another stream over a
  buffer, decoding the tag of any field and calling \<^verbatim>\<open>pb_skip_field\<close> leaves the stream at the next
  field: what follows decodes as if the field had not been there.\<close>

theorem skip_field_exact:
  assumes "field_ok f" and "\<forall>g \<in> set fs. field_ok g"
    and "is_source inner = Buffer (field_bytes f @ concat (map field_bytes fs) @ beyond)"
    and "bytes_left inner = length (field_bytes f @ concat (map field_bytes fs))"
    and "s = \<lparr>is_source = Callback (\<lambda>i n. pb_read n i) inner, bytes_left = bytes_left inner, is_errmsg = None\<rparr>"
  shows "\<exists>s'. and_then skip_one (\<lambda>_. decode_fields (length fs)) s = (Some fs, s') \<and> bytes_left s' = 0"
proof -
  let ?bs = "field_bytes f @ concat (map field_bytes fs)"
  have "nested.user.takes (and_then skip_one (\<lambda>_. decode_fields (length fs))) ?bs fs"
    by (rule nested.user.takes_bind [OF nested.user.takes_skip_one [OF assms(1)]
          nested.user.takes_fields [OF assms(2)]])
  moreover have "nested.user.sees s ?bs []"
    using assms(3,4,5) by (simp add: nested.user.sees_def nested.user_delivers_def inner_ok_def inner_rest_def)
  ultimately obtain s' where "and_then skip_one (\<lambda>_. decode_fields (length fs)) s = (Some fs, s')" "advanced s (length ?bs) s'"
    by (rule nested.user.takesD)
  then show ?thesis using assms(4,5) by (auto simp: advanced_def simp del: and_then_Some)
qed

definition skip_example :: "unit pb_istream" where
  "skip_example = \<lparr>is_source = Buffer [18, 2, 7, 8, 8, 5], bytes_left = 6, is_errmsg = None\<rparr>"

theorem skip_field_exact_witness:
  "\<exists>s'. and_then skip_one (\<lambda>_. decode_fields 1)
     \<lparr>is_source = Callback (\<lambda>i n. pb_read n i) skip_example, bytes_left = 6, is_errmsg = None\<rparr> =
     (Some [(1, W_varint 5)], s') \<and> bytes_left s' = 0"
  using skip_field_exact [of "(2, W_string [7, 8])" "[(1, W_varint 5)]" skip_example "[]"]
  by (simp add: skip_example_def tag_bytes_def value_bytes_def leb_small wire_type_of_def wt_code_def
      del: and_then_Some)

text \<open>signed integers round trip through zig-zag varints, for all 64-bit values.\<close>

theorem svarint_roundtrip:
  "\<exists>s bs. pb_encode_svarint v (pb_ostream_from_buffer 10) = (Some (), s) \<and> os_sink s = Out_Buffer bs \<and>
    length bs \<le> 10 \<and> fst (pb_decode_svarint (pb_istream_from_buffer bs (length bs))) = Some v"
proof -
  let ?bs = "leb (unat (zigzag v))"
  let ?o = "pb_ostream_from_buffer 10 :: 'a pb_ostream"
  have "unat (zigzag v) < 2 ^ LENGTH(64)" by (rule unsigned_less)
  then have "unat (zigzag v) < 128 ^ 10" by simp
  then have l: "length ?bs \<le> 10" by (rule length_leb_le) simp
  then have "os_sink ?o = Out_Buffer []" "bytes_written ?o + length ?bs \<le> os_limit ?o"
    by (simp_all add: pb_ostream_from_buffer_def os_limit_def is_sizing_def SIZE_MAX_def)
  then obtain s where s: "pb_encode_svarint v ?o = (Some (), s)" "os_sink s = Out_Buffer ([] @ ?bs)"
    by (rule memory.putsD [OF memory.puts_svarint])
  have "buffer.sees (pb_istream_from_buffer ?bs (length ?bs)) ?bs []"
    by (simp add: buffer.sees_def pb_istream_from_buffer_def buffer_delivers_def)
  then obtain t where "pb_decode_svarint (pb_istream_from_buffer ?bs (length ?bs) :: 'b pb_istream) = (Some v, t)"
    by (rule buffer.takesD [OF buffer.takes_svarint])
  with s l show ?thesis by auto
qed

text \<open>C5: no sequence of reading calls, substreams included, leaves the memory of the stream: as long as
  \<^verbatim>\<open>bytes_left\<close> does not exceed the buffer at the start, every state reached is at a position within the
  part allowed and promises no byte past it.\<close>

theorem stream_calls_stay_inside:
  assumes "is_call\<^sup>*\<^sup>* s s'" and "is_source s = Buffer mem" and "bytes_left s \<le> length mem"
  shows "\<exists>k. is_source s' = Buffer (drop k mem) \<and> k + bytes_left s' \<le> bytes_left s"
proof -
  have "reads_from s mem (bytes_left s)"
    using assms(2,3) by (auto simp: reads_from_def intro!: exI [of _ 0])
  then show ?thesis using is_calls_inside [OF assms(1)] by (auto simp: reads_from_def)
qed

theorem stream_calls_stay_inside_witness:
  "\<exists>k. is_source (snd (pb_read 4 skip_example)) = Buffer (drop k [18, 2, 7, 8, 8, 5]) \<and>
    k + bytes_left (snd (pb_read 4 skip_example)) \<le> 6"
  using stream_calls_stay_inside [of skip_example "snd (pb_read 4 skip_example)" "[18, 2, 7, 8, 8, 5]"]
    r_into_rtranclp [of is_call, OF call_read [of 4 skip_example "fst (pb_read 4 skip_example)"]]
  by (simp add: skip_example_def)

lemma low_7:
  assumes "d < (0x80 :: u8)"
  shows "d AND 0x7F = d \<and> d AND 0x80 = 0"
proof
  have d: "unat d < 128" using assms by (simp add: word_less_nat_alt)
  then show "d AND 0x7F = d" unfolding word_unat_eq_iff u8_low7 by simp
  show "d AND 0x80 = 0" using d by (simp only: u8_high_bit)
qed

context byte_source
begin

text \<open>Continuation bytes without payload: each moves the position by 7.\<close>

lemma varint32_loop_zeros:
  assumes "d < 0x80" and "sees s (replicate k 0x80 @ [d]) ys"
  shows "fst (varint32_loop 0 bp s) =
    (let p = bp + word_of_nat (7 * k) in
     if 32 \<le> p \<and> d \<noteq> 0 then None else Some (if 32 \<le> p then 0 else push_bit (unat p) (ucast d), d, p + 7))"
  using assms(2)
proof (induction k arbitrary: bp s)
  case 0
  then have "sees s [d] ys" by simp
  then obtain s1 where r: "pb_readbyte s = (Some d, s1)" by (rule readbyte_sees)
  then show ?case using low_7 [OF assms(1)] by (simp add: varint32_loop.simps [of 0 bp s] Let_def is_error_def)
next
  case (Suc k)
  then have "sees s (0x80 # replicate k 0x80 @ [d]) ys" by simp
  then obtain s1 where r: "pb_readbyte s = (Some 0x80, s1)" "sees s1 (replicate k 0x80 @ [d]) ys" by (rule readbyte_sees)
  have "varint32_loop 0 bp s = varint32_loop 0 (bp + 7) s1" using r(1) by (simp add: varint32_loop.simps [of 0 bp s] Let_def)
  moreover have "(bp + 7) + word_of_nat (7 * k) = bp + word_of_nat (7 * Suc k)" by (simp add: algebra_simps)
  ultimately show ?case using Suc.IH [OF r(2), of "bp + 7"] by (simp only:)
qed

lemma varint_dec_loop_zeros:
  assumes "64 \<le> bp + 7 * k" and "sees s (replicate k 0x80 @ bs) ys"
  shows "fst (varint_dec_loop r bp s) = None"
  using assms
proof (induction k arbitrary: bp s r)
  case 0
  then show ?case by (simp add: varint_dec_loop.simps [of r bp s] is_error_def)
next
  case (Suc k)
  show ?case
  proof (cases "64 \<le> bp")
    case True
    then show ?thesis by (simp add: varint_dec_loop.simps [of r bp s] is_error_def)
  next
    case False
    have "sees s (0x80 # replicate k 0x80 @ bs) ys" using Suc.prems(2) by simp
    then obtain s1 where 1: "pb_readbyte s = (Some 0x80, s1)" "sees s1 (replicate k 0x80 @ bs) ys" by (rule readbyte_sees)
    then show ?thesis using False Suc.IH [of "bp + 7" s1] Suc.prems(1)
      by (simp add: varint_dec_loop.simps [of r bp s] Let_def)
  qed
qed

end

text \<open>C31: the 32-bit varint reader has no length limit and its bit position wraps.  For the digit \<open>d\<close> behind any
  number \<open>n\<close> of continuation bytes without payload (the number \<open>d * 128 ^ n\<close>), \<^verbatim>\<open>pb_decode_varint32\<close>
  shifts by \<open>7 * n\<close> modulo 256: behind 37 to 40 of them, and 74 to 77 and so on, it accepts a number that
  does not fit 32 bits and returns a wrong value, where \<^verbatim>\<open>pb_decode_varint\<close> reports an overflow from 10 bytes on.\<close>

theorem varint32_position_wraps:
  assumes "d < 0x80"
  shows "fst (pb_decode_varint32 (pb_istream_from_buffer (replicate n 0x80 @ [d]) (n + 1) :: 's pb_istream)) =
      (let p = 7 * n mod 256 in
       if 32 \<le> p \<and> d \<noteq> 0 \<or> p = 28 \<and> d AND 0x70 \<noteq> 0 then None
       else Some (if 32 \<le> p then 0 else push_bit p (ucast d))) \<and>
    (10 \<le> n \<longrightarrow> fst (pb_decode_varint (pb_istream_from_buffer (replicate n 0x80 @ [d]) (n + 1) :: 's pb_istream)) = None)"
proof -
  let ?s = "pb_istream_from_buffer (replicate n 0x80 @ [d]) (n + 1) :: 's pb_istream"
  have s: "buffer.sees ?s (replicate n 0x80 @ [d]) []" by (simp add: buffer.sees_def buffer_delivers_def pb_istream_from_buffer_def)
  have "fst (pb_decode_varint ?s) = None" if "10 \<le> n"
    unfolding pb_decode_varint_def by (rule buffer.varint_dec_loop_zeros [OF _ s]) (use that in simp)
  moreover have "fst (pb_decode_varint32 ?s) = (let p = 7 * n mod 256 in
       if 32 \<le> p \<and> d \<noteq> 0 \<or> p = 28 \<and> d AND 0x70 \<noteq> 0 then None
       else Some (if 32 \<le> p then 0 else push_bit p (ucast d)))"
  proof (cases n)
    case 0
    then have "buffer.sees ?s [d] []" using s by simp
    then obtain s1 where "pb_readbyte ?s = (Some d, s1)" by (rule buffer.readbyte_sees)
    then show ?thesis using 0 low_7 [OF assms] by (simp add: pb_decode_varint32_def pb_decode_varint32_eof_def)
  next
    case (Suc k)
    then have "buffer.sees ?s (0x80 # replicate k 0x80 @ [d]) []" using s by simp
    then obtain s1 where 1: "pb_readbyte ?s = (Some 0x80, s1)" "buffer.sees s1 (replicate k 0x80 @ [d]) []" by (rule buffer.readbyte_sees)
    define p :: u8 where "p = 7 + word_of_nat (7 * k)"
    have p: "p = word_of_nat (7 * n)" using Suc by (simp add: p_def algebra_simps)
    have up: "unat p = 7 * n mod 256" unfolding p by (simp only: unat_of_nat) simp
    have "x + 7 = 35 \<longleftrightarrow> unat x = 28" for x :: u8
      using add_right_cancel [of x 7 28] by (simp add: word_unat_eq_iff)
    then have c: "32 \<le> p \<longleftrightarrow> 32 \<le> 7 * n mod 256" "p + 7 = 35 \<longleftrightarrow> 7 * n mod 256 = 28"
      unfolding up [symmetric] by (simp_all add: word_le_nat_alt)
    have "fst (varint32_loop 0 7 s1) = (if 32 \<le> p \<and> d \<noteq> 0 then None
        else Some (if 32 \<le> p then 0 else push_bit (unat p) (ucast d), d, p + 7))"
      using buffer.varint32_loop_zeros [OF assms 1(2), of 7] by (simp only: p_def [symmetric] Let_def)
    then show ?thesis using 1(1) unfolding Let_def c(1) up
      by (auto simp: pb_decode_varint32_def pb_decode_varint32_eof_def c(2) is_error_def split: prod.splits option.splits if_splits)
  qed
  ultimately show ?thesis by blast
qed

theorem varint32_position_wraps_witness:
  "fst (pb_decode_varint32 (pb_istream_from_buffer (replicate 37 0x80 @ [1]) 38 :: unit pb_istream)) = Some 8 \<and>
   fst (pb_decode_varint (pb_istream_from_buffer (replicate 37 0x80 @ [1]) 38 :: unit pb_istream)) = None"
  using varint32_position_wraps [of 1 37] by (simp add: Let_def push_bit_eq_mult)


end
