(* ===== verification/Pb_Field.thy ===== *)
theory Pb_Field
  imports Pb_Wire
begin

unbundle bit_operations_syntax

text \<open>
  Message descriptors and the field iterator of \<^verbatim>\<open>nanopb/pb.h\<close> and \<^verbatim>\<open>nanopb/pb_common.c\<close>.  A message type is an
  array of field descriptors that ends with \<^verbatim>\<open>PB_LAST_FIELD\<close>; the list holds the entries before it.  The
  message itself is a C struct in memory, which the iterator walks by the offsets and sizes of the
  descriptors.  The build has \<^verbatim>\<open>PB_FIELD_32BIT\<close>, so \<^verbatim>\<open>pb_size_t\<close> has 32 bits; pointers have 8 bytes.
\<close>

section \<open>Descriptors\<close>

text \<open>\<^verbatim>\<open>ptr\<close> is null, the array of the submessage's fields (by its address), or the default value.\<close>

datatype pb_ptr = Ptr_none | Ptr_fields nat | Ptr_default "u8 list"

record pb_field =
  tag :: nat
  ftype :: u8
  data_offset :: nat
  size_offset :: int
  data_size :: nat
  array_size :: nat
  fptr :: pb_ptr

definition PB_LTYPE_VARINT :: u8 where "PB_LTYPE_VARINT = 0x00"
definition PB_LTYPE_UVARINT :: u8 where "PB_LTYPE_UVARINT = 0x01"
definition PB_LTYPE_SVARINT :: u8 where "PB_LTYPE_SVARINT = 0x02"
definition PB_LTYPE_FIXED32 :: u8 where "PB_LTYPE_FIXED32 = 0x03"
definition PB_LTYPE_FIXED64 :: u8 where "PB_LTYPE_FIXED64 = 0x04"
definition PB_LTYPE_LAST_PACKABLE :: u8 where "PB_LTYPE_LAST_PACKABLE = 0x04"
definition PB_LTYPE_BYTES :: u8 where "PB_LTYPE_BYTES = 0x05"
definition PB_LTYPE_STRING :: u8 where "PB_LTYPE_STRING = 0x06"
definition PB_LTYPE_SUBMESSAGE :: u8 where "PB_LTYPE_SUBMESSAGE = 0x07"
definition PB_LTYPE_EXTENSION :: u8 where "PB_LTYPE_EXTENSION = 0x08"
definition PB_LTYPE_FIXED_LENGTH_BYTES :: u8 where "PB_LTYPE_FIXED_LENGTH_BYTES = 0x09"
definition PB_HTYPE_REQUIRED :: u8 where "PB_HTYPE_REQUIRED = 0x00"
definition PB_HTYPE_OPTIONAL :: u8 where "PB_HTYPE_OPTIONAL = 0x10"
definition PB_HTYPE_REPEATED :: u8 where "PB_HTYPE_REPEATED = 0x20"
definition PB_HTYPE_ONEOF :: u8 where "PB_HTYPE_ONEOF = 0x30"
definition PB_ATYPE_STATIC :: u8 where "PB_ATYPE_STATIC = 0x00"
definition PB_ATYPE_POINTER :: u8 where "PB_ATYPE_POINTER = 0x80"
definition PB_ATYPE_CALLBACK :: u8 where "PB_ATYPE_CALLBACK = 0x40"

lemmas pb_type_defs = PB_LTYPE_VARINT_def PB_LTYPE_UVARINT_def PB_LTYPE_SVARINT_def PB_LTYPE_FIXED32_def
  PB_LTYPE_FIXED64_def PB_LTYPE_LAST_PACKABLE_def PB_LTYPE_BYTES_def PB_LTYPE_STRING_def PB_LTYPE_SUBMESSAGE_def
  PB_LTYPE_EXTENSION_def PB_LTYPE_FIXED_LENGTH_BYTES_def PB_HTYPE_REQUIRED_def PB_HTYPE_OPTIONAL_def
  PB_HTYPE_REPEATED_def PB_HTYPE_ONEOF_def PB_ATYPE_STATIC_def PB_ATYPE_POINTER_def PB_ATYPE_CALLBACK_def

definition PB_ATYPE :: "u8 \<Rightarrow> u8" where "PB_ATYPE x = x AND 0xC0"
definition PB_HTYPE :: "u8 \<Rightarrow> u8" where "PB_HTYPE x = x AND 0x30"
definition PB_LTYPE :: "u8 \<Rightarrow> u8" where "PB_LTYPE x = x AND 0x0F"

definition PB_SIZE_MAX :: nat where
  "PB_SIZE_MAX = 2 ^ 32 - 1"

definition PB_LAST_FIELD :: pb_field where
  "PB_LAST_FIELD = \<lparr>tag = 0, ftype = 0, data_offset = 0, size_offset = 0, data_size = 0, array_size = 0,
     fptr = Ptr_none\<rparr>"

definition field_at :: "pb_field list \<Rightarrow> nat \<Rightarrow> pb_field" where
  "field_at fs i = (if i < length fs then fs ! i else PB_LAST_FIELD)"

section \<open>The iterator\<close>

text \<open>Addresses are numbers; \<^verbatim>\<open>iter->pos\<close> is an index into the array.\<close>

record pb_field_iter =
  start :: "pb_field list"
  pos :: nat
  required_field_index :: nat
  dest_struct :: nat
  pData :: nat
  pSize :: nat

definition size_addr :: "nat \<Rightarrow> pb_field \<Rightarrow> nat" where
  "size_addr a f = nat (int a + size_offset f)"

definition pb_field_iter_begin :: "pb_field list \<Rightarrow> nat \<Rightarrow> bool \<times> pb_field_iter" where
  "pb_field_iter_begin fs dest =
     (let f = field_at fs 0; data = dest + data_offset f
      in (tag f \<noteq> 0, \<lparr>start = fs, pos = 0, required_field_index = 0, dest_struct = dest,
            pData = data, pSize = size_addr data f\<rparr>))"

text \<open>The size of a member of the struct, as the iterator works it out.\<close>

definition member_size :: "pb_field \<Rightarrow> nat" where
  "member_size f =
     (if PB_ATYPE (ftype f) = PB_ATYPE_STATIC \<and> PB_HTYPE (ftype f) = PB_HTYPE_REPEATED then data_size f * array_size f
      else if PB_ATYPE (ftype f) = PB_ATYPE_POINTER then 8
      else data_size f)"

definition pb_field_iter_next :: "pb_field_iter \<Rightarrow> bool \<times> pb_field_iter" where
  "pb_field_iter_next it =
     (let prev_field = field_at (start it) (pos it); cur = field_at (start it) (pos it + 1)
      in if tag prev_field = 0 then (False, it)
         else if tag cur = 0 then (False, snd (pb_field_iter_begin (start it) (dest_struct it)))
         else if PB_HTYPE (ftype prev_field) = PB_HTYPE_ONEOF \<and> PB_HTYPE (ftype cur) = PB_HTYPE_ONEOF \<and>
                 data_offset cur = PB_SIZE_MAX
         then (True, it\<lparr>pos := pos it + 1\<rparr>)
         else
           let data = pData it + member_size prev_field + data_offset cur
           in (True, it\<lparr>pos := pos it + 1,
                 required_field_index := (if PB_HTYPE (ftype prev_field) = PB_HTYPE_REQUIRED
                   then required_field_index it + 1 else required_field_index it),
                 pData := data, pSize := size_addr data cur\<rparr>))"

definition wanted :: "nat \<Rightarrow> pb_field \<Rightarrow> bool" where
  "wanted t f \<longleftrightarrow> tag f = t \<and> PB_LTYPE (ftype f) \<noteq> PB_LTYPE_EXTENSION"

text \<open>The \<^verbatim>\<open>do\<close> loops of \<^verbatim>\<open>pb_field_iter_find\<close> and \<^verbatim>\<open>find_extension_field\<close> share their shape.\<close>

partial_function (option) iter_search :: "(pb_field \<Rightarrow> bool) \<Rightarrow> nat \<Rightarrow> pb_field_iter \<Rightarrow> (bool \<times> pb_field_iter) option" where
  "iter_search ok first it =
     (if ok (field_at (start it) (pos it)) then Some (True, it)
      else let it' = snd (pb_field_iter_next it)
           in if pos it' \<noteq> first then iter_search ok first it' else Some (False, it'))"

declare iter_search.simps [code]

definition pb_field_iter_find :: "nat \<Rightarrow> pb_field_iter \<Rightarrow> (bool \<times> pb_field_iter) option" where
  "pb_field_iter_find t it = iter_search (wanted t) (pos it) it"

section \<open>What the iterator does\<close>

text \<open>
  \<open>iter_at fs dest k\<close> is the iterator after \<open>k\<close> steps from the beginning: it stands at field \<open>k\<close>, and the
  steps wrap around at the end of the array.
\<close>

definition fields_ok :: "pb_field list \<Rightarrow> bool" where
  "fields_ok fs \<longleftrightarrow> (\<forall>f \<in> set fs. tag f \<noteq> 0)"

fun iter_at :: "pb_field list \<Rightarrow> nat \<Rightarrow> nat \<Rightarrow> pb_field_iter" where
  "iter_at fs dest 0 = snd (pb_field_iter_begin fs dest)"
| "iter_at fs dest (Suc k) = snd (pb_field_iter_next (iter_at fs dest k))"

lemma tag_field_at: "fields_ok fs \<Longrightarrow> tag (field_at fs i) = 0 \<longleftrightarrow> length fs \<le> i"
  by (auto simp: fields_ok_def field_at_def PB_LAST_FIELD_def)

lemma iter_begin_parts [simp]:
  "start (snd (pb_field_iter_begin fs d)) = fs" "pos (snd (pb_field_iter_begin fs d)) = 0"
  "dest_struct (snd (pb_field_iter_begin fs d)) = d"
  by (simp_all add: pb_field_iter_begin_def Let_def)

lemma iter_at_parts:
  assumes "fields_ok fs" and "k < length fs \<or> k = 0"
  shows "start (iter_at fs d k) = fs \<and> pos (iter_at fs d k) = k \<and> dest_struct (iter_at fs d k) = d"
  using assms(2)
proof (induction k)
  case (Suc k)
  then show ?case using tag_field_at [OF assms(1)]
    by (auto simp: pb_field_iter_next_def Let_def)
qed simp

lemma iter_next_at:
  assumes "fields_ok fs" and "k < length fs"
  shows "pb_field_iter_next (iter_at fs d k) =
    (Suc k < length fs, iter_at fs d (if Suc k < length fs then Suc k else 0))"
proof -
  note p = iter_at_parts [OF assms(1), of k d] and t = tag_field_at [OF assms(1)]
  show ?thesis
  proof (cases "Suc k < length fs")
    case True
    then have "fst (pb_field_iter_next (iter_at fs d k))"
      using p t assms(2) by (simp add: pb_field_iter_next_def Let_def)
    then show ?thesis using True by (simp add: prod_eq_iff)
  next
    case False
    then show ?thesis using p t assms(2) by (simp add: pb_field_iter_next_def Let_def)
  qed
qed

text \<open>
  The search goes once around the array: \<open>d\<close> counts the steps left.  It stops at the first match at or
  after the place it starts from, cyclically.
\<close>

definition from_here :: "nat \<Rightarrow> nat \<Rightarrow> nat list" where
  "from_here first n = [first..<n] @ [0..<first]"

lemma iter_search_at:
  assumes "fields_ok fs" and "first < length fs"
  shows "\<lbrakk>ks \<noteq> []; from_here first (length fs) = js @ ks\<rbrakk> \<Longrightarrow>
    iter_search ok first (iter_at fs d (hd ks)) =
      Some (case List.find (\<lambda>k. ok (fs ! k)) ks of Some k \<Rightarrow> (True, iter_at fs d k) | None \<Rightarrow> (False, iter_at fs d first))"
proof (induction ks arbitrary: js)
  case (Cons k ks)
  have "set (js @ k # ks) = {..<length fs}" using Cons.prems(2) assms(2) by (auto simp: from_here_def simp flip: Cons.prems(2))
  then have k: "k < length fs" by auto
  note p = iter_at_parts [OF assms(1), of k d]
  let ?k' = "if Suc k < length fs then Suc k else 0"
  have nxt: "case ks of [] \<Rightarrow> ?k' = first | k2 # _ \<Rightarrow> ?k' = k2 \<and> k2 \<noteq> first"
  proof -
    have dist: "distinct (js @ k # ks)" using Cons.prems(2) by (metis (no_types) distinct_append distinct_upt
          from_here_def Int_emptyI atLeastLessThan_iff not_less set_upt)
    have nth: "(js @ k # ks) ! i = (if first + i < length fs then first + i else first + i - length fs)"
      if "i < length fs" for i
    proof -
      have "i < length fs - first \<longleftrightarrow> first + i < length fs" by linarith
      then show ?thesis using that assms(2)
        by (cases "first + i < length fs") (simp_all add: from_here_def nth_append flip: Cons.prems(2))
    qed
    have len: "length (js @ k # ks) = length fs" using assms(2) by (simp add: from_here_def flip: Cons.prems(2))
    have kn: "k = (if first + length js < length fs then first + length js else first + length js - length fs)"
      using nth [of "length js"] len by simp
    show ?thesis
    proof (cases ks)
      case Nil
      then have "length js = length fs - 1" using len by simp
      then show ?thesis using kn Nil assms(2) by (auto split: if_splits)
    next
      case (Cons k2 ks')
      then have "k2 = (if first + Suc (length js) < length fs then first + Suc (length js)
          else first + Suc (length js) - length fs)"
        using nth [of "Suc (length js)"] len by (simp add: nth_append)
      then have "?k' = k2 \<and> k2 \<noteq> first" using kn assms(2) len Cons by (auto split: if_splits)
      then show ?thesis using Cons by simp
    qed
  qed
  have step: "iter_search ok first (iter_at fs d k) =
      (if ok (fs ! k) then Some (True, iter_at fs d k)
       else if ?k' \<noteq> first then iter_search ok first (iter_at fs d ?k') else Some (False, iter_at fs d ?k'))"
    using p k iter_next_at [OF assms(1) k, of d] iter_at_parts [OF assms(1), of ?k' d]
    by (subst iter_search.simps) (auto simp: field_at_def Let_def)
  show ?case
  proof (cases ks)
    case Nil
    then show ?thesis using nxt step by simp
  next
    case (Cons k2 ks')
    then have "iter_search ok first (iter_at fs d (hd ks)) =
      Some (case List.find (\<lambda>k. ok (fs ! k)) ks of Some k \<Rightarrow> (True, iter_at fs d k) | None \<Rightarrow> (False, iter_at fs d first))"
      using Cons.IH [of "js @ [k]"] Cons.prems(2) by simp
    then show ?thesis using Cons nxt step by simp
  qed
qed simp

text \<open>
  The offsets of the members as \<^verbatim>\<open>offsetof\<close> gives them, from which the macros of \<^verbatim>\<open>pb.h\<close> compute
  \<^verbatim>\<open>data_offset\<close>: the first one itself, \<^verbatim>\<open>PB_SIZE_MAX\<close> inside a union, and otherwise the gap after the
  member before.
\<close>

definition in_union :: "pb_field \<Rightarrow> pb_field \<Rightarrow> bool" where
  "in_union f g \<longleftrightarrow> PB_HTYPE (ftype f) = PB_HTYPE_ONEOF \<and> PB_HTYPE (ftype g) = PB_HTYPE_ONEOF \<and>
     data_offset g = PB_SIZE_MAX"

definition describes :: "pb_field list \<Rightarrow> nat list \<Rightarrow> bool" where
  "describes fs offs \<longleftrightarrow> length offs = length fs \<and> (fs \<noteq> [] \<longrightarrow> data_offset (fs ! 0) = offs ! 0) \<and>
     (\<forall>i. Suc i < length fs \<longrightarrow>
        (if in_union (fs ! i) (fs ! Suc i) then offs ! Suc i = offs ! i
         else offs ! i + member_size (fs ! i) \<le> offs ! Suc i \<and>
              data_offset (fs ! Suc i) = offs ! Suc i - offs ! i - member_size (fs ! i)))"

lemma iter_at_next:
  assumes "fields_ok fs" and "Suc k < length fs"
  shows "pData (iter_at fs d (Suc k)) = (if in_union (fs ! k) (fs ! Suc k) then pData (iter_at fs d k)
      else pData (iter_at fs d k) + member_size (fs ! k) + data_offset (fs ! Suc k))"
    and "required_field_index (iter_at fs d (Suc k)) = required_field_index (iter_at fs d k) +
      (if PB_HTYPE (ftype (fs ! k)) = PB_HTYPE_REQUIRED then 1 else 0)"
proof -
  have "tag (fs ! k) \<noteq> 0" "tag (fs ! Suc k) \<noteq> 0" "field_at fs k = fs ! k" "field_at fs (Suc k) = fs ! Suc k"
    using assms by (auto simp: fields_ok_def field_at_def)
  then show "pData (iter_at fs d (Suc k)) = (if in_union (fs ! k) (fs ! Suc k) then pData (iter_at fs d k)
      else pData (iter_at fs d k) + member_size (fs ! k) + data_offset (fs ! Suc k))"
    "required_field_index (iter_at fs d (Suc k)) = required_field_index (iter_at fs d k) +
      (if PB_HTYPE (ftype (fs ! k)) = PB_HTYPE_REQUIRED then 1 else 0)"
    using iter_at_parts [OF assms(1), of k d] assms(2)
    by (auto simp: pb_field_iter_next_def Let_def in_union_def pb_type_defs)
qed

lemma iter_at_address:
  assumes "fields_ok fs" and "describes fs offs"
  shows "i < length fs \<Longrightarrow> pData (iter_at fs d i) = d + offs ! i"
proof (induction i)
  case 0
  then show ?case using assms(2) by (auto simp: pb_field_iter_begin_def Let_def field_at_def describes_def)
next
  case (Suc i)
  then show ?case using iter_at_next(1) [OF assms(1), of i d] assms(2) by (auto simp: describes_def split: if_splits)
qed

lemma iter_at_required:
  assumes "fields_ok fs"
  shows "i < length fs \<Longrightarrow> required_field_index (iter_at fs d i) =
    length (filter (\<lambda>f. PB_HTYPE (ftype f) = PB_HTYPE_REQUIRED) (take i fs))"
proof (induction i)
  case (Suc i)
  then show ?case using iter_at_next(2) [OF assms, of i d] by (simp add: take_Suc_conv_app_nth)
qed (simp add: pb_field_iter_begin_def Let_def)

section \<open>Properties\<close>

text \<open>C13: The field iterator of nanopb.  For the descriptors of a struct, the iterator at field \<open>i\<close> points at
  the member's address and counts the required fields before it.  A search for a tag ends, whatever
  the array: it goes once around from where the iterator stands, stops at the first field with that
  tag that is not the extension placeholder, and reports that there is none only when there is none,
  with the iterator back where it was.\<close>

theorem iter_find_exact:
  assumes "fields_ok fs" and "describes fs offs" and "k < length fs"
  shows "pb_field_iter_find t (iter_at fs d k) =
      Some (case List.find (\<lambda>i. wanted t (fs ! i)) ([k..<length fs] @ [0..<k]) of
              Some i \<Rightarrow> (True, iter_at fs d i)
            | None \<Rightarrow> (False, iter_at fs d k)) \<and>
    (\<forall>i < length fs. pData (iter_at fs d i) = d + offs ! i \<and> required_field_index (iter_at fs d i) =
      length (filter (\<lambda>f. PB_HTYPE (ftype f) = PB_HTYPE_REQUIRED) (take i fs)))"
proof -
  have "hd (from_here k (length fs)) = k" "from_here k (length fs) \<noteq> []"
    using assms(3) by (auto simp: from_here_def hd_append)
  then show ?thesis
    using iter_search_at [OF assms(1,3), of "from_here k (length fs)" "[]" "wanted t" d]
      iter_at_parts [OF assms(1), of k d] assms(3) iter_at_address [OF assms(1,2)] iter_at_required [OF assms(1)]
    by (simp add: pb_field_iter_find_def from_here_def)
qed

text \<open>A message with two required 32-bit integers at offsets 0 and 8, with tags 1 and 3.\<close>

definition example_fields :: "pb_field list" where
  "example_fields =
     [\<lparr>tag = 1, ftype = PB_LTYPE_VARINT, data_offset = 0, size_offset = 0, data_size = 4, array_size = 0, fptr = Ptr_none\<rparr>,
      \<lparr>tag = 3, ftype = PB_LTYPE_VARINT, data_offset = 4, size_offset = 0, data_size = 4, array_size = 0, fptr = Ptr_none\<rparr>]"

lemma example_fields_ok: "fields_ok example_fields" "describes example_fields [0, 8]"
  by (auto simp: fields_ok_def describes_def example_fields_def in_union_def member_size_def PB_ATYPE_def PB_HTYPE_def
      pb_type_defs less_Suc_eq)

theorem iter_find_exact_witness:
  "pb_field_iter_find 3 (iter_at example_fields 100 0) = Some (True, iter_at example_fields 100 1) \<and>
   pData (iter_at example_fields 100 1) = 108"
proof -
  have f: "List.find (\<lambda>i. wanted 3 (example_fields ! i)) ([0..<length example_fields] @ [0..<0]) = Some 1"
    by code_simp
  have len: "length example_fields = 2" by (simp add: example_fields_def)
  from iter_find_exact [OF example_fields_ok, of 0 3 100, unfolded f] show ?thesis
    by (auto simp: len simp del: iter_at.simps)
qed

end
