(* ===== verification/Pb_Encode.thy ===== *)
theory Pb_Encode
  imports Pb_Field
begin

unbundle bit_operations_syntax

text \<open>
  The message encoder of \<^verbatim>\<open>nanopb/pb_encode.c\<close>.  A message is a C struct in memory, described by an array of
  field descriptors.  Memory is a function from addresses to bytes, little-endian as on the targets, and
  does not change during an encoding.  User callbacks and extension types are functions of the
  environment, looked up by the pointer that the message holds.  The recursion into submessages follows
  data, so it takes a bound: \<open>None\<close> is the result where the bound is used up, and where a descriptor holds
  what the source would misread; an error of the source is a result of its own.
\<close>

section \<open>Memory, environment and outcomes\<close>

type_synonym 's enc = "'s pb_ostream \<Rightarrow> (unit option \<times> 's pb_ostream) option"

record 's pb_extension_type =
  ext_encode :: "(nat \<Rightarrow> 's enc) option"
  ext_arg :: pb_field

record 's pb_env =
  memory :: "nat \<Rightarrow> u8"
  descriptors :: "nat \<Rightarrow> pb_field list"
  encode_funcs :: "nat \<Rightarrow> pb_field \<Rightarrow> nat \<Rightarrow> 's enc"
  ext_types :: "nat \<Rightarrow> 's pb_extension_type"

definition bytes_at :: "(nat \<Rightarrow> u8) \<Rightarrow> nat \<Rightarrow> nat \<Rightarrow> u8 list" where
  "bytes_at m a n = map (\<lambda>i. m (a + i)) [0..<n]"

fun le_nat :: "u8 list \<Rightarrow> nat" where
  "le_nat [] = 0"
| "le_nat (b # bs) = unat b + 256 * le_nat bs"

definition load_word :: "(nat \<Rightarrow> u8) \<Rightarrow> nat \<Rightarrow> nat \<Rightarrow> 'a::len word" where
  "load_word m a n = word_of_nat (le_nat (bytes_at m a n))"

definition load_ptr :: "(nat \<Rightarrow> u8) \<Rightarrow> nat \<Rightarrow> nat" where
  "load_ptr m a = le_nat (bytes_at m a 8)"

definition load_size :: "(nat \<Rightarrow> u8) \<Rightarrow> nat \<Rightarrow> nat" where
  "load_size m a = le_nat (bytes_at m a 4)"

definition load_bool :: "(nat \<Rightarrow> u8) \<Rightarrow> nat \<Rightarrow> bool" where
  "load_bool m a \<longleftrightarrow> m a \<noteq> 0"

definition call :: "(unit, 's pb_ostream) step \<Rightarrow> 's enc" where
  "call p s = Some (p s)"

definition seq :: "'s enc \<Rightarrow> 's enc \<Rightarrow> 's enc" where
  "seq p q s =
     (case p s of
        None \<Rightarrow> None
      | Some (None, s') \<Rightarrow> Some (None, s')
      | Some (Some _, s') \<Rightarrow> q s')"

definition nothing :: "'s enc" where
  "nothing = call (ret ())"

definition no_meaning :: "'s enc" where
  "no_meaning s = None"

section \<open>Field encoders\<close>

text \<open>The integer at \<^verbatim>\<open>src\<close>, sign- or zero-extended to 64 bits; nothing for another \<^verbatim>\<open>data_size\<close>.\<close>

definition load_int :: "(nat \<Rightarrow> u8) \<Rightarrow> nat \<Rightarrow> nat \<Rightarrow> u64 option" where
  "load_int m n src =
     (if n = 1 then Some (scast (load_word m src 1 :: u8))
      else if n = 2 then Some (scast (load_word m src 2 :: u16))
      else if n = 4 then Some (scast (load_word m src 4 :: u32))
      else if n = 8 then Some (load_word m src 8)
      else None)"

definition load_uint :: "(nat \<Rightarrow> u8) \<Rightarrow> nat \<Rightarrow> nat \<Rightarrow> u64 option" where
  "load_uint m n src =
     (if n = 1 then Some (ucast (load_word m src 1 :: u8))
      else if n = 2 then Some (ucast (load_word m src 2 :: u16))
      else if n = 4 then Some (ucast (load_word m src 4 :: u32))
      else if n = 8 then Some (load_word m src 8)
      else None)"

definition pb_enc_varint :: "'s pb_env \<Rightarrow> pb_field \<Rightarrow> nat \<Rightarrow> 's enc" where
  "pb_enc_varint env f src =
     (case load_int (memory env) (data_size f) src of
        None \<Rightarrow> call (os_error ''invalid data_size'')
      | Some v \<Rightarrow> call (pb_encode_varint v))"

definition pb_enc_uvarint :: "'s pb_env \<Rightarrow> pb_field \<Rightarrow> nat \<Rightarrow> 's enc" where
  "pb_enc_uvarint env f src =
     (case load_uint (memory env) (data_size f) src of
        None \<Rightarrow> call (os_error ''invalid data_size'')
      | Some v \<Rightarrow> call (pb_encode_varint v))"

definition pb_enc_svarint :: "'s pb_env \<Rightarrow> pb_field \<Rightarrow> nat \<Rightarrow> 's enc" where
  "pb_enc_svarint env f src =
     (case load_int (memory env) (data_size f) src of
        None \<Rightarrow> call (os_error ''invalid data_size'')
      | Some v \<Rightarrow> call (pb_encode_svarint v))"

definition pb_enc_fixed32 :: "'s pb_env \<Rightarrow> pb_field \<Rightarrow> nat \<Rightarrow> 's enc" where
  "pb_enc_fixed32 env f src = call (pb_encode_fixed32 (load_word (memory env) src 4))"

definition pb_enc_fixed64 :: "'s pb_env \<Rightarrow> pb_field \<Rightarrow> nat \<Rightarrow> 's enc" where
  "pb_enc_fixed64 env f src = call (pb_encode_fixed64 (load_word (memory env) src 8))"

text \<open>A \<^verbatim>\<open>pb_bytes_array_t\<close>: the size in 4 bytes, then the bytes.\<close>

definition pb_enc_bytes :: "'s pb_env \<Rightarrow> pb_field \<Rightarrow> nat \<Rightarrow> 's enc" where
  "pb_enc_bytes env f src =
     (if src = 0 then call (pb_encode_string [] 0)
      else
        let n = load_size (memory env) src
        in if PB_ATYPE (ftype f) = PB_ATYPE_STATIC \<and> n + 4 > data_size f then call (os_error ''bytes size exceeded'')
           else call (pb_encode_string (bytes_at (memory env) (src + 4) n) n))"

function str_scan :: "(nat \<Rightarrow> u8) \<Rightarrow> nat \<Rightarrow> nat \<Rightarrow> nat \<Rightarrow> nat" where
  "str_scan m p n lim = (if n < lim \<and> m (p + n) \<noteq> 0 then str_scan m p (n + 1) lim else n)"
  by pat_completeness auto
termination by (relation "measure (\<lambda>(m, p, n, lim). lim - n)") auto

declare str_scan.simps [simp del]

definition pb_enc_string :: "'s pb_env \<Rightarrow> pb_field \<Rightarrow> nat \<Rightarrow> 's enc" where
  "pb_enc_string env f src =
     (let limit = (if PB_ATYPE (ftype f) = PB_ATYPE_POINTER then SIZE_MAX else data_size f);
          n = (if src = 0 then 0 else str_scan (memory env) src 0 limit)
      in call (pb_encode_string (bytes_at (memory env) src n) n))"

definition pb_enc_fixed_length_bytes :: "'s pb_env \<Rightarrow> pb_field \<Rightarrow> nat \<Rightarrow> 's enc" where
  "pb_enc_fixed_length_bytes env f src =
     call (pb_encode_string (bytes_at (memory env) src (data_size f)) (data_size f))"

text \<open>
  The argument \<open>p\<close> is the encoding of the submessage, run first on a sizing stream.  \<open>submessage_rest\<close> is the
  part of the function after the length.
\<close>

definition submessage_rest :: "'s enc \<Rightarrow> nat \<Rightarrow> 's enc" where
  "submessage_rest p n s =
     (if is_sizing s then call (pb_write [] n) s
      else if size_add (bytes_written s) n > max_size s then call (os_error ''stream full'') s
      else
        (case p \<lparr>os_sink = os_sink s, max_size = n, bytes_written = 0, os_errmsg = None\<rparr> of
           None \<Rightarrow> None
         | Some (status, sub) \<Rightarrow>
             let s1 = s\<lparr>bytes_written := size_add (bytes_written s) (bytes_written sub),
                        os_sink := os_sink sub, os_errmsg := os_errmsg sub\<rparr>
             in if bytes_written sub \<noteq> n then call (os_error ''submsg size changed'') s1
                else Some (status, s1)))"

definition pb_encode_submessage :: "'s enc \<Rightarrow> 's enc" where
  "pb_encode_submessage p s =
     (case p PB_OSTREAM_SIZING of
        None \<Rightarrow> None
      | Some (None, sub) \<Rightarrow> Some (None, s\<lparr>os_errmsg := os_errmsg sub\<rparr>)
      | Some (Some _, sub) \<Rightarrow>
          seq (call (pb_encode_varint (word_of_nat (bytes_written sub)))) (submessage_rest p (bytes_written sub)) s)"

definition pb_enc_submessage :: "(nat \<Rightarrow> nat \<Rightarrow> 's enc) \<Rightarrow> 's pb_env \<Rightarrow> pb_field \<Rightarrow> nat \<Rightarrow> 's enc" where
  "pb_enc_submessage rec env f src =
     (case fptr f of
        Ptr_none \<Rightarrow> call (os_error ''invalid field descriptor'')
      | Ptr_fields d \<Rightarrow> pb_encode_submessage (rec d src)
      | Ptr_default _ \<Rightarrow> no_meaning)"

text \<open>\<^verbatim>\<open>PB_ENCODERS\<close>: the entry for extensions is null and there are ten entries.\<close>

definition PB_ENCODERS :: "(nat \<Rightarrow> nat \<Rightarrow> 's enc) \<Rightarrow> 's pb_env \<Rightarrow> u8 \<Rightarrow> pb_field \<Rightarrow> nat \<Rightarrow> 's enc" where
  "PB_ENCODERS rec env l =
     (if l = PB_LTYPE_VARINT then pb_enc_varint env
      else if l = PB_LTYPE_UVARINT then pb_enc_uvarint env
      else if l = PB_LTYPE_SVARINT then pb_enc_svarint env
      else if l = PB_LTYPE_FIXED32 then pb_enc_fixed32 env
      else if l = PB_LTYPE_FIXED64 then pb_enc_fixed64 env
      else if l = PB_LTYPE_BYTES then pb_enc_bytes env
      else if l = PB_LTYPE_STRING then pb_enc_string env
      else if l = PB_LTYPE_SUBMESSAGE then pb_enc_submessage rec env
      else if l = PB_LTYPE_FIXED_LENGTH_BYTES then pb_enc_fixed_length_bytes env
      else (\<lambda>_ _. no_meaning))"

section \<open>Encoding a field\<close>

definition pb_encode_tag_for_field :: "pb_field \<Rightarrow> 's enc" where
  "pb_encode_tag_for_field f =
     (let l = PB_LTYPE (ftype f); with_type = (\<lambda>w. call (pb_encode_tag w (word_of_nat (tag f))))
      in if l = PB_LTYPE_VARINT \<or> l = PB_LTYPE_UVARINT \<or> l = PB_LTYPE_SVARINT then with_type PB_WT_VARINT
         else if l = PB_LTYPE_FIXED32 then with_type PB_WT_32BIT
         else if l = PB_LTYPE_FIXED64 then with_type PB_WT_64BIT
         else if l = PB_LTYPE_BYTES \<or> l = PB_LTYPE_STRING \<or> l = PB_LTYPE_SUBMESSAGE \<or>
                 l = PB_LTYPE_FIXED_LENGTH_BYTES then with_type PB_WT_STRING
         else call (os_error ''invalid field type''))"

fun array_loop :: "(nat \<Rightarrow> 's enc) \<Rightarrow> nat \<Rightarrow> nat \<Rightarrow> nat \<Rightarrow> 's enc" where
  "array_loop func step_size p 0 = nothing"
| "array_loop func step_size p (Suc n) = seq (func p) (array_loop func step_size (p + step_size) n)"

text \<open>The end of the packed case: the size \<open>n\<close>, then the items.\<close>

definition packed_items :: "'s enc \<Rightarrow> nat \<Rightarrow> 's enc" where
  "packed_items items n =
     seq (call (pb_encode_varint (word_of_nat n))) (\<lambda>s. if is_sizing s then call (pb_write [] n) s else items s)"

definition encode_array :: "'s pb_env \<Rightarrow> pb_field \<Rightarrow> nat \<Rightarrow> nat \<Rightarrow> (pb_field \<Rightarrow> nat \<Rightarrow> 's enc) \<Rightarrow> 's enc" where
  "encode_array env f data cnt func =
     (if cnt = 0 then nothing
      else if PB_ATYPE (ftype f) \<noteq> PB_ATYPE_POINTER \<and> cnt > array_size f
      then call (os_error ''array max size exceeded'')
      else if PB_LTYPE (ftype f) \<le> PB_LTYPE_LAST_PACKABLE then
        let items = array_loop (func f) (data_size f) data cnt
        in seq (call (pb_encode_tag PB_WT_STRING (word_of_nat (tag f))))
          (if PB_LTYPE (ftype f) = PB_LTYPE_FIXED32 then packed_items items (4 * cnt)
           else if PB_LTYPE (ftype f) = PB_LTYPE_FIXED64 then packed_items items (8 * cnt)
           else (\<lambda>s. case items PB_OSTREAM_SIZING of
                   None \<Rightarrow> None
                 | Some (None, _) \<Rightarrow> Some (None, s)
                 | Some (Some _, sizestream) \<Rightarrow> packed_items items (bytes_written sizestream) s))
      else
        array_loop (\<lambda>p. seq (pb_encode_tag_for_field f)
            (func f (if PB_ATYPE (ftype f) = PB_ATYPE_POINTER \<and>
                        (PB_LTYPE (ftype f) = PB_LTYPE_STRING \<or> PB_LTYPE (ftype f) = PB_LTYPE_BYTES)
                     then load_ptr (memory env) p else p)))
          (data_size f) data cnt)"

text \<open>The positions at which a \<^verbatim>\<open>do ... while (pb_field_iter_next(&iter))\<close> loop runs its body.\<close>

fun iter_walk :: "nat \<Rightarrow> pb_field_iter \<Rightarrow> pb_field_iter list" where
  "iter_walk 0 it = []"
| "iter_walk (Suc n) it = it # (case pb_field_iter_next it of (True, it') \<Rightarrow> iter_walk n it' | (False, _) \<Rightarrow> [])"

definition visited :: "pb_field list \<Rightarrow> nat \<Rightarrow> pb_field_iter list" where
  "visited fs dest =
     (case pb_field_iter_begin fs dest of (True, it) \<Rightarrow> iter_walk (length fs) it | (False, _) \<Rightarrow> [])"

definition pos_field :: "pb_field_iter \<Rightarrow> pb_field" where
  "pos_field it = field_at (start it) (pos it)"

text \<open>The number bounds the nesting; \<open>None\<close> if it is used up.\<close>

fun pb_check_proto3_default_value :: "nat \<Rightarrow> 's pb_env \<Rightarrow> pb_field \<Rightarrow> nat \<Rightarrow> bool option" where
  "pb_check_proto3_default_value 0 env f data = None"
| "pb_check_proto3_default_value (Suc n) env f data =
     (let m = memory env; h = PB_HTYPE (ftype f); l = PB_LTYPE (ftype f);
          static = PB_ATYPE (ftype f) = PB_ATYPE_STATIC
      in if h = PB_HTYPE_REQUIRED then Some False
         else if h = PB_HTYPE_REPEATED then Some (load_size m (size_addr data f) = 0)
         else if h = PB_HTYPE_ONEOF then Some (load_size m (size_addr data f) = 0)
         else if h = PB_HTYPE_OPTIONAL \<and> size_offset f \<noteq> 0 then Some (\<not> load_bool m (size_addr data f))
         else if static \<and> l = PB_LTYPE_BYTES then Some (load_size m data = 0)
         else if static \<and> l = PB_LTYPE_STRING then Some (m data = 0)
         else if static \<and> l = PB_LTYPE_FIXED_LENGTH_BYTES then Some (data_size f = 0)
         else if static \<and> l = PB_LTYPE_SUBMESSAGE then
           (case fptr f of
              Ptr_fields d \<Rightarrow>
                foldr (\<lambda>it r. case pb_check_proto3_default_value n env (pos_field it) (pData it) of
                    None \<Rightarrow> None | Some False \<Rightarrow> Some False | Some True \<Rightarrow> r)
                  (visited (descriptors env d) data) (Some True)
            | _ \<Rightarrow> None)
         else Some (\<forall>i \<in> set [0..<data_size f]. m (data + i) = 0))"

declare pb_check_proto3_default_value.simps [simp del]

definition encode_basic_field :: "nat \<Rightarrow> (nat \<Rightarrow> nat \<Rightarrow> 's enc) \<Rightarrow> 's pb_env \<Rightarrow> pb_field \<Rightarrow> nat \<Rightarrow> 's enc" where
  "encode_basic_field n rec env f data =
     (let m = memory env; h = PB_HTYPE (ftype f);
          func = PB_ENCODERS rec env (PB_LTYPE (ftype f));
          is_ptr = PB_ATYPE (ftype f) = PB_ATYPE_POINTER;
          p = (if is_ptr then load_ptr m data else data);
          size_at = size_addr data f;
          default = (if size_offset f = 0 \<and> h = PB_HTYPE_OPTIONAL
                     then pb_check_proto3_default_value n env f data else Some False)
      in case default of
           None \<Rightarrow> no_meaning
         | Some is_default \<Rightarrow>
             let implicit_has = (if is_ptr then p \<noteq> 0 else \<not> is_default);
                 one = seq (pb_encode_tag_for_field f) (func f p)
             in if h = PB_HTYPE_REQUIRED then
                  (if p = 0 then call (os_error ''missing required field'') else one)
                else if h = PB_HTYPE_OPTIONAL then
                  (if (if size_offset f \<noteq> 0 then load_bool m size_at else implicit_has) then one else nothing)
                else if h = PB_HTYPE_REPEATED then
                  encode_array env f p (if size_offset f \<noteq> 0 then load_size m size_at else array_size f) func
                else if size_offset f = 0 then no_meaning
                else if load_size m size_at = tag f then one else nothing)"

text \<open>A \<^verbatim>\<open>pb_callback_t\<close>: the function pointer in 8 bytes, then \<^verbatim>\<open>arg\<close>.\<close>

definition encode_callback_field :: "'s pb_env \<Rightarrow> pb_field \<Rightarrow> nat \<Rightarrow> 's enc" where
  "encode_callback_field env f data s =
     (let fn = load_ptr (memory env) data
      in if fn = 0 then nothing s
         else case encode_funcs env fn f (data + 8) s of
                None \<Rightarrow> None
              | Some (None, s') \<Rightarrow> call (os_error ''callback error'') s'
              | Some (Some _, s') \<Rightarrow> Some (Some (), s'))"

definition encode_field :: "nat \<Rightarrow> (nat \<Rightarrow> nat \<Rightarrow> 's enc) \<Rightarrow> 's pb_env \<Rightarrow> pb_field \<Rightarrow> nat \<Rightarrow> 's enc" where
  "encode_field n rec env f data =
     (let a = PB_ATYPE (ftype f)
      in if a = PB_ATYPE_STATIC \<or> a = PB_ATYPE_POINTER then encode_basic_field n rec env f data
         else if a = PB_ATYPE_CALLBACK then encode_callback_field env f data
         else call (os_error ''invalid field type''))"

section \<open>Extensions and messages\<close>

text \<open>A \<^verbatim>\<open>pb_extension_t\<close>: \<^verbatim>\<open>type\<close>, \<^verbatim>\<open>dest\<close> and \<^verbatim>\<open>next\<close> in 8 bytes each.\<close>

definition default_extension_encoder :: "nat \<Rightarrow> (nat \<Rightarrow> nat \<Rightarrow> 's enc) \<Rightarrow> 's pb_env \<Rightarrow> nat \<Rightarrow> 's enc" where
  "default_extension_encoder n rec env ext =
     (let f = ext_arg (ext_types env (load_ptr (memory env) ext))
      in encode_field n rec env f
           (if PB_ATYPE (ftype f) = PB_ATYPE_POINTER then ext + 8 else load_ptr (memory env) (ext + 8)))"

fun extension_loop :: "nat \<Rightarrow> nat \<Rightarrow> (nat \<Rightarrow> nat \<Rightarrow> 's enc) \<Rightarrow> 's pb_env \<Rightarrow> nat \<Rightarrow> 's enc" where
  "extension_loop 0 n rec env ext = no_meaning"
| "extension_loop (Suc k) n rec env ext =
     (if ext = 0 then nothing
      else seq (case ext_encode (ext_types env (load_ptr (memory env) ext)) of
                  Some g \<Rightarrow> g ext
                | None \<Rightarrow> default_extension_encoder n rec env ext)
             (extension_loop k n rec env (load_ptr (memory env) (ext + 16))))"

definition encode_extension_field :: "nat \<Rightarrow> (nat \<Rightarrow> nat \<Rightarrow> 's enc) \<Rightarrow> 's pb_env \<Rightarrow> nat \<Rightarrow> 's enc" where
  "encode_extension_field n rec env data = extension_loop n n rec env (load_ptr (memory env) data)"

definition message_body :: "nat \<Rightarrow> (nat \<Rightarrow> nat \<Rightarrow> 's enc) \<Rightarrow> 's pb_env \<Rightarrow> pb_field list \<Rightarrow> nat \<Rightarrow> 's enc" where
  "message_body n rec env fs src =
     foldr (\<lambda>it rest. seq
         (if PB_LTYPE (ftype (pos_field it)) = PB_LTYPE_EXTENSION then encode_extension_field n rec env (pData it)
          else encode_field n rec env (pos_field it) (pData it)) rest)
       (visited fs src) nothing"

fun pb_encode :: "nat \<Rightarrow> 's pb_env \<Rightarrow> nat \<Rightarrow> nat \<Rightarrow> 's enc" where
  "pb_encode 0 env d src = no_meaning"
| "pb_encode (Suc n) env d src = message_body n (pb_encode n env) env (descriptors env d) src"

definition pb_encode_delimited :: "nat \<Rightarrow> 's pb_env \<Rightarrow> nat \<Rightarrow> nat \<Rightarrow> 's enc" where
  "pb_encode_delimited n env d src = pb_encode_submessage (pb_encode n env d src)"

definition pb_encode_nullterminated :: "nat \<Rightarrow> 's pb_env \<Rightarrow> nat \<Rightarrow> nat \<Rightarrow> 's enc" where
  "pb_encode_nullterminated n env d src = seq (pb_encode n env d src) (call (pb_write [0] 1))"

text \<open>\<open>Some None\<close> where the function returns false.\<close>

definition pb_get_encoded_size :: "nat \<Rightarrow> 's pb_env \<Rightarrow> nat \<Rightarrow> nat \<Rightarrow> nat option option" where
  "pb_get_encoded_size n env d src =
     (case pb_encode n env d src PB_OSTREAM_SIZING of
        None \<Rightarrow> None
      | Some (None, _) \<Rightarrow> Some None
      | Some (Some _, stream) \<Rightarrow> Some (Some (bytes_written stream)))"

end
