(* ===== verification/Pb_Memory.thy ===== *)
theory Pb_Memory
  imports Pb_Encode
begin

unbundle bit_operations_syntax

text \<open>
  The world that the message decoder of \<^verbatim>\<open>nanopb/pb_decode.c\<close> runs in: the stream it reads, and memory
  that it writes.  Memory is a function from addresses to bytes with a list of the objects a program may
  touch: those of the caller and of running functions, and the blocks of the heap.  Every access is
  checked against the list.  The result \<open>None\<close> means that the C program has no behaviour left (an access
  outside every object, a pointer freed twice, a null function) or that the bound on nesting is used up;
  an error of the source is \<open>Some (None, _)\<close>.
\<close>

section \<open>Steps\<close>

record 's pb_world =
  stream :: "'s pb_istream"
  ram :: "nat \<Rightarrow> u8"
  objs :: "(nat \<times> nat) list"
  heap :: "(nat \<times> nat) list"
  heap_top :: nat
  heap_calls :: nat
  heap_ok :: "nat \<Rightarrow> nat \<Rightarrow> bool"

type_synonym ('a, 's) dec = "'s pb_world \<Rightarrow> ('a option \<times> 's pb_world) option"

definition give :: "'a \<Rightarrow> ('a, 's) dec" where
  "give x w = Some (Some x, w)"

definition fails :: "('a, 's) dec" where
  "fails w = Some (None, w)"

definition stuck :: "('a, 's) dec" where
  "stuck w = None"

definition bnd :: "('a, 's) dec \<Rightarrow> ('a \<Rightarrow> ('b, 's) dec) \<Rightarrow> ('b, 's) dec" where
  "bnd p f w = Option.bind (p w) (\<lambda>(r, w'). case r of None \<Rightarrow> Some (None, w') | Some x \<Rightarrow> f x w')"

definition also_do :: "(unit, 's) dec \<Rightarrow> ('b, 's) dec \<Rightarrow> ('b, 's) dec" where
  "also_do p q = bnd p (\<lambda>_. q)"

definition only_if :: "bool \<Rightarrow> (unit, 's) dec \<Rightarrow> (unit, 's) dec" where
  "only_if c p = (if c then p else give ())"

text \<open>A call on the stream, and a call whose result is a value here.\<close>

definition rd :: "('a, 's pb_istream) step \<Rightarrow> ('a, 's) dec" where
  "rd p w = (case p (stream w) of (r, s) \<Rightarrow> Some (r, w\<lparr>stream := s\<rparr>))"

definition attempt :: "('a, 's) dec \<Rightarrow> (bool, 's) dec" where
  "attempt p w = Option.bind (p w) (\<lambda>(r, w'). Some (Some (r \<noteq> None), w'))"

text \<open>The call on another stream object; the result holds that object as the call leaves it.\<close>

definition on_stream :: "'s pb_istream \<Rightarrow> ('a, 's) dec \<Rightarrow> ('a option \<times> 's pb_istream, 's) dec" where
  "on_stream sub p w =
     Option.bind (p (w\<lparr>stream := sub\<rparr>)) (\<lambda>(r, w'). Some (Some (r, stream w'), w'\<lparr>stream := stream w\<rparr>))"

text \<open>A loop: \<open>Inl\<close> goes on, \<open>Inr\<close> leaves it.\<close>

partial_function (option) loop_dec :: "('st \<Rightarrow> ('st + 'r, 's) dec) \<Rightarrow> 'st \<Rightarrow> ('r, 's) dec" where
  "loop_dec b st w = Option.bind (b st w) (\<lambda>(r, w').
     case r of None \<Rightarrow> Some (None, w') | Some (Inl st') \<Rightarrow> loop_dec b st' w' | Some (Inr x) \<Rightarrow> Some (Some x, w'))"

declare loop_dec.simps [code]

fun times_dec :: "nat \<Rightarrow> (nat \<Rightarrow> (unit, 's) dec) \<Rightarrow> nat \<Rightarrow> nat \<Rightarrow> (unit, 's) dec" where
  "times_dec 0 p step_size a = give ()"
| "times_dec (Suc n) p step_size a = also_do (p a) (times_dec n p step_size (a + step_size))"

fun each_dec :: "('a \<Rightarrow> (unit, 's) dec) \<Rightarrow> 'a list \<Rightarrow> (unit, 's) dec" where
  "each_dec p [] = give ()"
| "each_dec p (x # xs) = also_do (p x) (each_dec p xs)"

section \<open>Memory\<close>

definition inside :: "'s pb_world \<Rightarrow> nat \<Rightarrow> nat \<Rightarrow> bool" where
  "inside w a n \<longleftrightarrow> n = 0 \<or> (\<exists>(b, sz) \<in> set (objs w @ heap w). b \<le> a \<and> a + n \<le> b + sz)"

definition write_bytes :: "nat \<Rightarrow> u8 list \<Rightarrow> (nat \<Rightarrow> u8) \<Rightarrow> nat \<Rightarrow> u8" where
  "write_bytes a bs m = (\<lambda>i. if a \<le> i \<and> i < a + length bs then bs ! (i - a) else m i)"

definition put_bytes :: "nat \<Rightarrow> u8 list \<Rightarrow> (unit, 's) dec" where
  "put_bytes a bs w =
     (if inside w a (length bs) then Some (Some (), w\<lparr>ram := write_bytes a bs (ram w)\<rparr>) else None)"

definition get_bytes :: "nat \<Rightarrow> nat \<Rightarrow> (u8 list, 's) dec" where
  "get_bytes a n w = (if inside w a n then Some (Some (bytes_at (ram w) a n), w) else None)"

fun le_bytes :: "nat \<Rightarrow> nat \<Rightarrow> u8 list" where
  "le_bytes 0 v = []"
| "le_bytes (Suc n) v = word_of_nat v # le_bytes n (v div 256)"

definition get_nat :: "nat \<Rightarrow> nat \<Rightarrow> (nat, 's) dec" where
  "get_nat n a = bnd (get_bytes a n) (\<lambda>bs. give (le_nat bs))"

text \<open>Pointers have 8 bytes, \<^verbatim>\<open>pb_size_t\<close> has 4, \<^verbatim>\<open>bool\<close> 1.\<close>

definition get_ptr :: "nat \<Rightarrow> (nat, 's) dec" where "get_ptr = get_nat 8"
definition put_ptr :: "nat \<Rightarrow> nat \<Rightarrow> (unit, 's) dec" where "put_ptr a v = put_bytes a (le_bytes 8 v)"
definition get_size :: "nat \<Rightarrow> (nat, 's) dec" where "get_size = get_nat 4"
definition put_size :: "nat \<Rightarrow> nat \<Rightarrow> (unit, 's) dec" where "put_size a v = put_bytes a (le_bytes 4 v)"
definition put_bool :: "nat \<Rightarrow> bool \<Rightarrow> (unit, 's) dec" where "put_bool a v = put_bytes a [if v then 1 else 0]"

definition memset0 :: "nat \<Rightarrow> nat \<Rightarrow> (unit, 's) dec" where
  "memset0 a n = put_bytes a (replicate n 0)"

text \<open>A buffer must be there for a read; a user callback fills it, or fails and leaves it as it was.\<close>

definition read_into :: "nat \<Rightarrow> nat \<Rightarrow> (unit, 's) dec" where
  "read_into a n w = (if inside w a n then bnd (rd (pb_read n)) (\<lambda>bs. put_bytes a (take n bs)) w else None)"

text \<open>An automatic variable of \<open>n\<close> bytes, gone when the function returns.\<close>

definition with_local :: "nat \<Rightarrow> (nat \<Rightarrow> ('a, 's) dec) \<Rightarrow> ('a, 's) dec" where
  "with_local n p w =
     (let a = heap_top w
      in Option.bind (p a (w\<lparr>objs := (a, n) # objs w, heap_top := a + n + 1\<rparr>))
           (\<lambda>(r, w'). Some (r, w'\<lparr>objs := objs w\<rparr>)))"

text \<open>\<^verbatim>\<open>realloc\<close> and \<^verbatim>\<open>free\<close> of the C library: which request succeeds, by number and size, is given by \<open>heap_ok\<close>.\<close>

definition pb_realloc :: "nat \<Rightarrow> nat \<Rightarrow> (nat, 's) dec" where
  "pb_realloc p n w =
     (if p \<noteq> 0 \<and> map_of (heap w) p = None then None
      else if \<not> heap_ok w (heap_calls w) n then Some (Some 0, w\<lparr>heap_calls := Suc (heap_calls w)\<rparr>)
      else
        let a = heap_top w; keep = (case map_of (heap w) p of Some old \<Rightarrow> min old n | None \<Rightarrow> 0)
        in Some (Some a, w\<lparr>heap_calls := Suc (heap_calls w), heap_top := a + n + 1,
             heap := (a, n) # filter (\<lambda>(b, _). b \<noteq> p) (heap w),
             ram := write_bytes a (bytes_at (ram w) p keep) (ram w)\<rparr>))"

definition pb_free :: "nat \<Rightarrow> (unit, 's) dec" where
  "pb_free p w =
     (if p = 0 then Some (Some (), w)
      else if map_of (heap w) p = None then None
      else Some (Some (), w\<lparr>heap := filter (\<lambda>(b, _). b \<noteq> p) (heap w)\<rparr>))"

end
