(* ===== verification/Pb_Decode.thy ===== *)
theory Pb_Decode
  imports Pb_Memory
begin

unbundle bit_operations_syntax

text \<open>
  The message decoder of \<^verbatim>\<open>nanopb/pb_decode.c\<close>, with \<^verbatim>\<open>PB_ENABLE_MALLOC\<close>: field decoders, static, pointer and
  callback fields, extensions, default values, releasing, and the loop over a message.  User callbacks
  are functions of the environment, looked up by the pointer that the message holds.
\<close>

section \<open>Environment\<close>

record 's pb_dec_ext =
  ext_decode :: "(nat \<Rightarrow> u32 \<Rightarrow> pb_wire_type \<Rightarrow> (unit, 's) dec) option"
  ext_field :: pb_field

record 's pb_denv =
  field_lists :: "nat \<Rightarrow> pb_field list"
  decode_funcs :: "nat \<Rightarrow> pb_field \<Rightarrow> nat \<Rightarrow> (unit, 's) dec"
  ext_kinds :: "nat \<Rightarrow> 's pb_dec_ext"

text \<open>\<^verbatim>\<open>data_size * index\<close> in \<^verbatim>\<open>pb_size_t\<close>.\<close>

definition item_offset :: "pb_field \<Rightarrow> nat \<Rightarrow> nat" where
  "item_offset f i = data_size f * i mod 2 ^ 32"

text \<open>A \<^verbatim>\<open>pb_extension_t\<close>: \<^verbatim>\<open>type\<close>, \<^verbatim>\<open>dest\<close> and \<^verbatim>\<open>next\<close> in 8 bytes each, then \<^verbatim>\<open>found\<close>.\<close>

definition iter_from_extension :: "'s pb_denv \<Rightarrow> nat \<Rightarrow> (pb_field_iter, 's) dec" where
  "iter_from_extension env ext =
     bnd (get_ptr ext) (\<lambda>kind. bnd (get_ptr (ext + 8)) (\<lambda>dest.
       let f = ext_field (ext_kinds env kind)
       in give ((snd (pb_field_iter_begin [f] dest))
            \<lparr>pData := if PB_ATYPE (ftype f) = PB_ATYPE_POINTER then ext + 8 else dest, pSize := ext + 24\<rparr>)))"

section \<open>Default values\<close>

definition pb_message_set_to_defaults ::
  "(pb_field_iter \<Rightarrow> (unit, 's) dec) \<Rightarrow> 's pb_denv \<Rightarrow> nat \<Rightarrow> nat \<Rightarrow> (unit, 's) dec" where
  "pb_message_set_to_defaults set_default env d dest = each_dec set_default (visited (field_lists env d) dest)"

text \<open>The initial value of the data of a static field; a null array of fields is not looked at in C.\<close>

definition init_value :: "(pb_field_iter \<Rightarrow> (unit, 's) dec) \<Rightarrow> 's pb_denv \<Rightarrow> pb_field_iter \<Rightarrow> (unit, 's) dec" where
  "init_value set_default env it =
     (let f = pos_field it
      in if PB_LTYPE (ftype f) = PB_LTYPE_SUBMESSAGE then
           (case fptr f of Ptr_fields d \<Rightarrow> pb_message_set_to_defaults set_default env d (pData it) | _ \<Rightarrow> stuck)
         else
           (case fptr f of
              Ptr_default bs \<Rightarrow> if length bs < data_size f then stuck else put_bytes (pData it) (take (data_size f) bs)
            | Ptr_none \<Rightarrow> memset0 (pData it) (data_size f)
            | Ptr_fields _ \<Rightarrow> stuck))"

fun pb_field_set_to_default :: "nat \<Rightarrow> 's pb_denv \<Rightarrow> pb_field_iter \<Rightarrow> (unit, 's) dec" where
  "pb_field_set_to_default 0 env it = stuck"
| "pb_field_set_to_default (Suc n) env it =
     (let f = pos_field it; a = PB_ATYPE (ftype f); h = PB_HTYPE (ftype f)
      in if PB_LTYPE (ftype f) = PB_LTYPE_EXTENSION then
           bnd (get_ptr (pData it)) (loop_dec (\<lambda>ext.
             if ext = 0 then give (Inr ())
             else also_do (put_bool (ext + 24) False)
               (bnd (iter_from_extension env ext) (\<lambda>ext_iter.
                also_do (pb_field_set_to_default n env ext_iter)
                (bnd (get_ptr (ext + 16)) (\<lambda>ext'. give (Inl ext')))))))
         else if a = PB_ATYPE_STATIC then
           if h = PB_HTYPE_OPTIONAL \<and> pSize it \<noteq> pData it
           then also_do (put_bool (pSize it) False) (init_value (pb_field_set_to_default n env) env it)
           else if h = PB_HTYPE_REPEATED \<or> h = PB_HTYPE_ONEOF then put_size (pSize it) 0
           else init_value (pb_field_set_to_default n env) env it
         else if a = PB_ATYPE_POINTER then
           also_do (put_ptr (pData it) 0)
             (only_if (h = PB_HTYPE_REPEATED \<or> h = PB_HTYPE_ONEOF) (put_size (pSize it) 0))
         else give ())"

declare pb_field_set_to_default.simps [simp del]

section \<open>Releasing\<close>

definition pb_release :: "(pb_field_iter \<Rightarrow> (unit, 's) dec) \<Rightarrow> 's pb_denv \<Rightarrow> nat \<Rightarrow> nat \<Rightarrow> (unit, 's) dec" where
  "pb_release release_field env d dest =
     (if dest = 0 then give () else each_dec release_field (visited (field_lists env d) dest))"

text \<open>How many submessages there are at \<^verbatim>\<open>pItem\<close>.\<close>

definition item_count :: "pb_field_iter \<Rightarrow> (nat, 's) dec" where
  "item_count it =
     (let f = pos_field it; static = PB_ATYPE (ftype f) = PB_ATYPE_STATIC
      in if PB_HTYPE (ftype f) = PB_HTYPE_REPEATED then
           if static \<and> pSize it = pData it then give (array_size f)
           else bnd (get_size (pSize it)) (\<lambda>cnt. give (if static \<and> cnt > array_size f then array_size f else cnt))
         else give 1)"

text \<open>The part after \<^verbatim>\<open>Release anything contained\<close>: the memory of a pointer field itself.\<close>

definition release_pointer :: "pb_field_iter \<Rightarrow> (unit, 's) dec" where
  "release_pointer it =
     (let f = pos_field it; h = PB_HTYPE (ftype f); l = PB_LTYPE (ftype f)
      in also_do
           (only_if (h = PB_HTYPE_REPEATED \<and> (l = PB_LTYPE_STRING \<or> l = PB_LTYPE_BYTES))
             (bnd (get_ptr (pData it)) (\<lambda>items. bnd (get_size (pSize it)) (\<lambda>cnt.
               times_dec cnt (\<lambda>a. bnd (get_ptr a) (\<lambda>p. also_do (pb_free p) (put_ptr a 0))) 8 items))))
          (also_do (only_if (h = PB_HTYPE_REPEATED) (put_size (pSize it) 0))
          (bnd (get_ptr (pData it)) (\<lambda>p. also_do (pb_free p) (put_ptr (pData it) 0)))))"

fun pb_release_single_field :: "nat \<Rightarrow> 's pb_denv \<Rightarrow> pb_field_iter \<Rightarrow> (unit, 's) dec" where
  "pb_release_single_field 0 env it = stuck"
| "pb_release_single_field (Suc n) env it =
     (let f = pos_field it; a = PB_ATYPE (ftype f); h = PB_HTYPE (ftype f); l = PB_LTYPE (ftype f);
          body =
            also_do
              (if l = PB_LTYPE_EXTENSION then
                 bnd (get_ptr (pData it)) (loop_dec (\<lambda>ext.
                   if ext = 0 then give (Inr ())
                   else bnd (iter_from_extension env ext) (\<lambda>ext_iter.
                     also_do (pb_release_single_field n env ext_iter)
                     (bnd (get_ptr (ext + 16)) (\<lambda>ext'. give (Inl ext'))))))
               else if l = PB_LTYPE_SUBMESSAGE then
                 bnd (if a = PB_ATYPE_POINTER then get_ptr (pData it) else give (pData it)) (\<lambda>item.
                 bnd (item_count it) (\<lambda>cnt.
                   only_if (item \<noteq> 0)
                     (times_dec cnt (\<lambda>p. case fptr f of
                         Ptr_fields d \<Rightarrow> pb_release (pb_release_single_field n env) env d p
                       | _ \<Rightarrow> stuck) (data_size f) item)))
               else give ())
              (only_if (a = PB_ATYPE_POINTER) (release_pointer it))
      in if h = PB_HTYPE_ONEOF
         then bnd (get_size (pSize it)) (\<lambda>which. only_if (which = tag f) body)
         else body)"

declare pb_release_single_field.simps [simp del]

definition iter_find_dec :: "nat \<Rightarrow> pb_field_iter \<Rightarrow> (bool \<times> pb_field_iter, 's) dec" where
  "iter_find_dec t it w = Option.bind (pb_field_iter_find t it) (\<lambda>r. Some (Some r, w))"

text \<open>The result is the iterator after the call.\<close>

definition pb_release_union_field :: "nat \<Rightarrow> 's pb_denv \<Rightarrow> pb_field_iter \<Rightarrow> (pb_field_iter, 's) dec" where
  "pb_release_union_field n env it =
     bnd (get_size (pSize it)) (\<lambda>old_tag.
       let new_tag = tag (pos_field it)
       in if old_tag = 0 \<or> old_tag = new_tag then give it
          else bnd (iter_find_dec old_tag it) (\<lambda>(found, it1).
            if \<not> found then rd (is_error ''invalid union tag'')
            else also_do (pb_release_single_field n env it1)
              (bnd (iter_find_dec new_tag it1) (\<lambda>(found, it2).
                 if \<not> found then rd (is_error ''iterator error'') else give it2))))"

section \<open>Allocation\<close>

definition allocate_field :: "nat \<Rightarrow> nat \<Rightarrow> nat \<Rightarrow> (unit, 's) dec" where
  "allocate_field data item_size cnt =
     (let check_limit = 2 ^ 32
      in if item_size = 0 \<or> cnt = 0 then rd (is_error ''invalid size'')
         else if (item_size \<ge> check_limit \<or> cnt \<ge> check_limit) \<and> SIZE_MAX div cnt < item_size
         then rd (is_error ''size too large'')
         else bnd (get_ptr data) (\<lambda>old.
              bnd (pb_realloc old (size_mul cnt item_size)) (\<lambda>ptr.
                if ptr = 0 then rd (is_error ''realloc failed'') else put_ptr data ptr)))"

definition initialize_pointer_field :: "nat \<Rightarrow> 's pb_denv \<Rightarrow> nat \<Rightarrow> pb_field \<Rightarrow> (unit, 's) dec" where
  "initialize_pointer_field n env item f =
     (let l = PB_LTYPE (ftype f)
      in if l = PB_LTYPE_STRING \<or> l = PB_LTYPE_BYTES then put_ptr item 0
         else only_if (l = PB_LTYPE_SUBMESSAGE)
           (also_do (memset0 item (data_size f))
             (case fptr f of
                Ptr_fields d \<Rightarrow> pb_message_set_to_defaults (pb_field_set_to_default n env) env d item
              | _ \<Rightarrow> stuck)))"

section \<open>Field decoders\<close>

text \<open>
  An integer is stored in \<^verbatim>\<open>data_size\<close> bytes, and reported as too large when it does not come back from
  there; \<open>back n\<close> is the value that \<open>n\<close> bytes hold.
\<close>

definition store_int :: "(nat \<Rightarrow> u64 \<Rightarrow> u64) \<Rightarrow> pb_field \<Rightarrow> nat \<Rightarrow> u64 \<Rightarrow> (unit, 's) dec" where
  "store_int back f dest v =
     (if data_size f \<in> {8, 4, 2, 1} then
        also_do (put_bytes dest (le_bytes (data_size f) (unat v)))
          (if back (data_size f) v \<noteq> v then rd (is_error ''integer too large'') else give ())
      else rd (is_error ''invalid data_size''))"

definition signed_back :: "nat \<Rightarrow> u64 \<Rightarrow> u64" where
  "signed_back n v =
     (if n = 8 then v else if n = 4 then scast (ucast v :: u32) else if n = 2 then scast (ucast v :: u16)
      else scast (ucast v :: u8))"

definition unsigned_back :: "nat \<Rightarrow> u64 \<Rightarrow> u64" where
  "unsigned_back n v =
     (if n = 8 then v else if n = 4 then ucast (ucast v :: u32) else if n = 2 then ucast (ucast v :: u16)
      else ucast (ucast v :: u8))"

definition pb_dec_varint :: "pb_field \<Rightarrow> nat \<Rightarrow> (unit, 's) dec" where
  "pb_dec_varint f dest =
     bnd (rd pb_decode_varint) (\<lambda>v.
       store_int signed_back f dest (if data_size f = 8 then v else scast (ucast v :: u32)))"

definition pb_dec_uvarint :: "pb_field \<Rightarrow> nat \<Rightarrow> (unit, 's) dec" where
  "pb_dec_uvarint f dest = bnd (rd pb_decode_varint) (store_int unsigned_back f dest)"

definition pb_dec_svarint :: "pb_field \<Rightarrow> nat \<Rightarrow> (unit, 's) dec" where
  "pb_dec_svarint f dest = bnd (rd pb_decode_svarint) (store_int signed_back f dest)"

definition pb_dec_fixed32 :: "pb_field \<Rightarrow> nat \<Rightarrow> (unit, 's) dec" where
  "pb_dec_fixed32 f dest = bnd (rd pb_decode_fixed32) (\<lambda>v. put_bytes dest (le_bytes 4 (unat v)))"

definition pb_dec_fixed64 :: "pb_field \<Rightarrow> nat \<Rightarrow> (unit, 's) dec" where
  "pb_dec_fixed64 f dest = bnd (rd pb_decode_fixed64) (\<lambda>v. put_bytes dest (le_bytes 8 (unat v)))"

definition pb_dec_bytes :: "pb_field \<Rightarrow> nat \<Rightarrow> (unit, 's) dec" where
  "pb_dec_bytes f dest =
     bnd (rd pb_decode_varint32) (\<lambda>size32.
       let n = unat size32; alloc_size = n + 4
       in bnd (if PB_ATYPE (ftype f) = PB_ATYPE_POINTER
               then also_do (allocate_field dest alloc_size 1) (get_ptr dest)
               else if alloc_size > data_size f then rd (is_error ''bytes overflow'') else give dest)
            (\<lambda>bdest. also_do (put_size bdest n) (read_into (bdest + 4) n)))"

text \<open>\<^verbatim>\<open>size + 1\<close> is computed in 32 bits.\<close>

definition pb_dec_string :: "pb_field \<Rightarrow> nat \<Rightarrow> (unit, 's) dec" where
  "pb_dec_string f dest =
     bnd (rd pb_decode_varint32) (\<lambda>size32.
       let n = unat size32; alloc_size = unat (size32 + 1)
       in if alloc_size < n then rd (is_error ''size too large'')
          else bnd (if PB_ATYPE (ftype f) = PB_ATYPE_POINTER
                    then also_do (allocate_field dest alloc_size 1) (get_ptr dest)
                    else if alloc_size > data_size f then rd (is_error ''string overflow'') else give dest)
            (\<lambda>s. bnd (attempt (read_into s n)) (\<lambda>status.
               also_do (put_bytes (s + n) [0]) (if status then give () else fails))))"

definition pb_dec_fixed_length_bytes :: "pb_field \<Rightarrow> nat \<Rightarrow> (unit, 's) dec" where
  "pb_dec_fixed_length_bytes f dest =
     bnd (rd pb_decode_varint32) (\<lambda>size32.
       if size32 = 0 then memset0 dest (data_size f)
       else if unat size32 \<noteq> data_size f then rd (is_error ''incorrect fixed length bytes size'')
       else read_into dest (data_size f))"

text \<open>A call on a substream that is closed afterwards; the status of the call is the result.\<close>

definition in_string_substream :: "(unit, 's) dec \<Rightarrow> (unit, 's) dec" where
  "in_string_substream p =
     bnd (rd pb_make_string_substream) (\<lambda>sub.
     bnd (on_stream sub p) (\<lambda>(status, sub').
     also_do (rd (pb_close_string_substream sub')) (if status \<noteq> None then give () else fails)))"

text \<open>\<^verbatim>\<open>pb_decode\<close> and the other functions of a message, from \<^verbatim>\<open>pb_decode_noinit\<close> and the bound for defaults.\<close>

type_synonym 's msg_dec = "nat \<Rightarrow> nat \<Rightarrow> (unit, 's) dec"

definition decode_with :: "'s msg_dec \<Rightarrow> nat \<Rightarrow> 's pb_denv \<Rightarrow> 's msg_dec" where
  "decode_with noinit n env d dest =
     also_do (pb_message_set_to_defaults (pb_field_set_to_default n env) env d dest)
       (bnd (attempt (noinit d dest)) (\<lambda>status.
          if status then give () else also_do (pb_release (pb_release_single_field n env) env d dest) fails))"

definition pb_dec_submessage :: "'s msg_dec \<Rightarrow> nat \<Rightarrow> 's pb_denv \<Rightarrow> pb_field \<Rightarrow> nat \<Rightarrow> (unit, 's) dec" where
  "pb_dec_submessage noinit n env f dest =
     bnd (rd pb_make_string_substream) (\<lambda>sub.
       case fptr f of
         Ptr_none \<Rightarrow> rd (is_error ''invalid field descriptor'')
       | Ptr_default _ \<Rightarrow> stuck
       | Ptr_fields d \<Rightarrow>
           bnd (on_stream sub (if PB_HTYPE (ftype f) = PB_HTYPE_REPEATED then decode_with noinit n env d dest else noinit d dest))
             (\<lambda>(status, sub').
               also_do (rd (pb_close_string_substream sub')) (if status \<noteq> None then give () else fails)))"

text \<open>\<^verbatim>\<open>PB_DECODERS\<close>: the entry for extensions is null and there are ten entries.\<close>

definition PB_DECODERS :: "'s msg_dec \<Rightarrow> nat \<Rightarrow> 's pb_denv \<Rightarrow> u8 \<Rightarrow> pb_field \<Rightarrow> nat \<Rightarrow> (unit, 's) dec" where
  "PB_DECODERS noinit n env l =
     (if l = PB_LTYPE_VARINT then pb_dec_varint
      else if l = PB_LTYPE_UVARINT then pb_dec_uvarint
      else if l = PB_LTYPE_SVARINT then pb_dec_svarint
      else if l = PB_LTYPE_FIXED32 then pb_dec_fixed32
      else if l = PB_LTYPE_FIXED64 then pb_dec_fixed64
      else if l = PB_LTYPE_BYTES then pb_dec_bytes
      else if l = PB_LTYPE_STRING then pb_dec_string
      else if l = PB_LTYPE_SUBMESSAGE then pb_dec_submessage noinit n env
      else if l = PB_LTYPE_FIXED_LENGTH_BYTES then pb_dec_fixed_length_bytes
      else (\<lambda>_ _. stuck))"
section \<open>Decoding a field\<close>

text \<open>The packed array of a static field: the loop ends at the end of the data, of the array, or at an item that fails.\<close>

definition static_items :: "(nat \<Rightarrow> (unit, 's) dec) \<Rightarrow> pb_field_iter \<Rightarrow> (bool, 's) dec" where
  "static_items func it =
     loop_dec (\<lambda>_ w.
       if bytes_left (stream w) = 0 then give (Inr True) w
       else bnd (get_size (pSize it)) (\<lambda>i.
         if \<not> i < array_size (pos_field it) then give (Inr True)
         else bnd (attempt (func (pData it + item_offset (pos_field it) i))) (\<lambda>ok.
           if \<not> ok then give (Inr False)
           else bnd (get_size (pSize it)) (\<lambda>i. also_do (put_size (pSize it) (i + 1)) (give (Inl ()))))) w) ()"

definition static_packed :: "(nat \<Rightarrow> (unit, 's) dec) \<Rightarrow> pb_field_iter \<Rightarrow> (unit, 's) dec" where
  "static_packed func it =
     bnd (rd pb_make_string_substream) (\<lambda>sub.
     bnd (on_stream sub (static_items func it)) (\<lambda>(status, sub').
       if bytes_left sub' \<noteq> 0 then rd (is_error ''array overflow'')
       else also_do (rd (pb_close_string_substream sub')) (if status = Some True then give () else fails)))"

definition static_repeated :: "(nat \<Rightarrow> (unit, 's) dec) \<Rightarrow> pb_field_iter \<Rightarrow> (unit, 's) dec" where
  "static_repeated func it =
     bnd (get_size (pSize it)) (\<lambda>i.
       also_do (put_size (pSize it) (i + 1))
         (if i \<ge> array_size (pos_field it) then rd (is_error ''array overflow'')
          else func (pData it + item_offset (pos_field it) i)))"

definition decode_static_field :: "'s msg_dec \<Rightarrow> nat \<Rightarrow> 's pb_denv \<Rightarrow> pb_wire_type \<Rightarrow> pb_field_iter \<Rightarrow> (unit, 's) dec" where
  "decode_static_field noinit n env wire_type it =
     (let f = pos_field it; h = PB_HTYPE (ftype f); l = PB_LTYPE (ftype f); func = PB_DECODERS noinit n env l f
      in if h = PB_HTYPE_REQUIRED then func (pData it)
         else if h = PB_HTYPE_OPTIONAL then
           also_do (only_if (pSize it \<noteq> pData it) (put_bool (pSize it) True)) (func (pData it))
         else if h = PB_HTYPE_REPEATED then
           if wire_type = PB_WT_STRING \<and> l \<le> PB_LTYPE_LAST_PACKABLE then static_packed func it
           else static_repeated func it
         else
           also_do (put_size (pSize it) (tag f))
             (also_do
               (only_if (l = PB_LTYPE_SUBMESSAGE)
                 (also_do (memset0 (pData it) (data_size f))
                   (case fptr f of
                      Ptr_fields d \<Rightarrow> pb_message_set_to_defaults (pb_field_set_to_default n env) env d (pData it)
                    | _ \<Rightarrow> stuck)))
               (func (pData it))))"

text \<open>The item at index \<open>i\<close> of the array behind a pointer, cleared and decoded.\<close>

definition pointer_item :: "(nat \<Rightarrow> (unit, 's) dec) \<Rightarrow> nat \<Rightarrow> 's pb_denv \<Rightarrow> pb_field_iter \<Rightarrow> nat \<Rightarrow> (nat, 's) dec" where
  "pointer_item func n env it i =
     bnd (get_ptr (pData it)) (\<lambda>base.
       let item = base + item_offset (pos_field it) i
       in also_do (initialize_pointer_field n env item (pos_field it)) (give item))"

text \<open>The state of the loop is \<^verbatim>\<open>allocated_size\<close>; a zero \<^verbatim>\<open>data_size\<close> is a division by zero.\<close>

definition pointer_items ::
  "(nat \<Rightarrow> (unit, 's) dec) \<Rightarrow> nat \<Rightarrow> 's pb_denv \<Rightarrow> pb_field_iter \<Rightarrow> nat \<Rightarrow> (bool \<times> bool, 's) dec" where
  "pointer_items func n env it =
     loop_dec (\<lambda>allocated w.
       if bytes_left (stream w) = 0 then give (Inr (True, False)) w
       else bnd (get_size (pSize it)) (\<lambda>i.
         if i + 1 > allocated \<and> data_size (pos_field it) = 0 then stuck
         else
           let allocated' = (if i + 1 > allocated
                 then size_add allocated ((bytes_left (stream w) - 1) div data_size (pos_field it) + 1) else allocated)
           in bnd (attempt (only_if (i + 1 > allocated)
                 (allocate_field (pData it) (data_size (pos_field it)) allocated'))) (\<lambda>ok.
              if \<not> ok then give (Inr (False, False))
              else bnd (pointer_item func n env it i) (\<lambda>item.
                bnd (attempt (func item)) (\<lambda>ok.
                  if \<not> ok then give (Inr (False, False))
                  else bnd (get_size (pSize it)) (\<lambda>i.
                    if i = PB_SIZE_MAX then give (Inr (False, True))
                    else also_do (put_size (pSize it) (i + 1)) (give (Inl allocated'))))))) w)"

text \<open>The second result of the loop says that \<^verbatim>\<open>stream->errmsg\<close> is set to \<^verbatim>\<open>too many array entries\<close>.\<close>

definition overwrite_error :: "string \<Rightarrow> (unit, 's) dec" where
  "overwrite_error m = rd (\<lambda>s. (Some (), s\<lparr>is_errmsg := Some m\<rparr>))"

definition pointer_packed :: "(nat \<Rightarrow> (unit, 's) dec) \<Rightarrow> nat \<Rightarrow> 's pb_denv \<Rightarrow> pb_field_iter \<Rightarrow> (unit, 's) dec" where
  "pointer_packed func n env it =
     bnd (get_size (pSize it)) (\<lambda>i.
     bnd (rd pb_make_string_substream) (\<lambda>sub.
     bnd (on_stream sub (pointer_items func n env it i)) (\<lambda>(status, sub').
       also_do (only_if (status = Some (False, True)) (overwrite_error ''too many array entries''))
       (also_do (rd (pb_close_string_substream sub')) (if status = Some (True, False) then give () else fails)))))"

definition pointer_repeated :: "(nat \<Rightarrow> (unit, 's) dec) \<Rightarrow> nat \<Rightarrow> 's pb_denv \<Rightarrow> pb_field_iter \<Rightarrow> (unit, 's) dec" where
  "pointer_repeated func n env it =
     bnd (get_size (pSize it)) (\<lambda>i.
       if i = PB_SIZE_MAX then rd (is_error ''too many array entries'')
       else also_do (put_size (pSize it) (i + 1))
         (also_do (allocate_field (pData it) (data_size (pos_field it)) (i + 1))
           (bnd (pointer_item func n env it i) func)))"

definition pointer_single ::
  "(nat \<Rightarrow> (unit, 's) dec) \<Rightarrow> nat \<Rightarrow> 's pb_denv \<Rightarrow> pb_field_iter \<Rightarrow> (unit, 's) dec" where
  "pointer_single func n env it =
     (let f = pos_field it; l = PB_LTYPE (ftype f)
      in also_do
           (only_if (l = PB_LTYPE_SUBMESSAGE)
             (bnd (get_ptr (pData it)) (\<lambda>p. only_if (p \<noteq> 0) (pb_release_single_field n env it))))
         (also_do (only_if (PB_HTYPE (ftype f) = PB_HTYPE_ONEOF) (put_size (pSize it) (tag f)))
         (if l = PB_LTYPE_STRING \<or> l = PB_LTYPE_BYTES then func (pData it)
          else also_do (allocate_field (pData it) (data_size f) 1)
            (bnd (get_ptr (pData it)) (\<lambda>item. also_do (initialize_pointer_field n env item f) (func item))))))"

definition decode_pointer_field :: "'s msg_dec \<Rightarrow> nat \<Rightarrow> 's pb_denv \<Rightarrow> pb_wire_type \<Rightarrow> pb_field_iter \<Rightarrow> (unit, 's) dec" where
  "decode_pointer_field noinit n env wire_type it =
     (let f = pos_field it; l = PB_LTYPE (ftype f); func = PB_DECODERS noinit n env l f
      in if PB_HTYPE (ftype f) \<noteq> PB_HTYPE_REPEATED then pointer_single func n env it
         else if wire_type = PB_WT_STRING \<and> l \<le> PB_LTYPE_LAST_PACKABLE then pointer_packed func n env it
         else pointer_repeated func n env it)"

text \<open>A \<^verbatim>\<open>pb_callback_t\<close>: the function pointer in 8 bytes, then \<^verbatim>\<open>arg\<close>.  The pointer is read anew for every
  call, so a callback may change it; a call through a null pointer has no meaning.\<close>

definition call_callback :: "'s pb_denv \<Rightarrow> pb_field_iter \<Rightarrow> (unit, 's) dec" where
  "call_callback env it =
     bnd (get_ptr (pData it)) (\<lambda>fn.
       if fn = 0 then stuck else decode_funcs env fn (pos_field it) (pData it + 8))"

definition callback_loop :: "'s pb_denv \<Rightarrow> pb_field_iter \<Rightarrow> (unit, 's) dec" where
  "callback_loop env it =
     loop_dec (\<lambda>_. also_do (call_callback env it)
       (\<lambda>w. give (if bytes_left (stream w) \<noteq> 0 then Inl () else Inr ()) w)) ()"

definition decode_callback_field :: "'s pb_denv \<Rightarrow> pb_wire_type \<Rightarrow> pb_field_iter \<Rightarrow> (unit, 's) dec" where
  "decode_callback_field env wire_type it =
     bnd (if pData it = 0 then give 0 else get_ptr (pData it)) (\<lambda>fn.
       if fn = 0 then rd (pb_skip_field wire_type)
       else if wire_type = PB_WT_STRING then
         bnd (rd pb_make_string_substream) (\<lambda>sub.
         bnd (on_stream sub (callback_loop env it)) (\<lambda>(status, sub').
           if status = None then rd (is_error ''callback failed'')
           else rd (pb_close_string_substream sub')))
       else
         bnd (rd (read_raw_value wire_type 10)) (\<lambda>buffer.
         bnd (on_stream (pb_istream_from_buffer buffer (length buffer)) (call_callback env it)) (\<lambda>(status, _).
           if status = None then fails else give ())))"

definition decode_field :: "'s msg_dec \<Rightarrow> nat \<Rightarrow> 's pb_denv \<Rightarrow> pb_wire_type \<Rightarrow> pb_field_iter \<Rightarrow> (pb_field_iter, 's) dec" where
  "decode_field noinit n env wire_type it =
     bnd (if PB_HTYPE (ftype (pos_field it)) = PB_HTYPE_ONEOF then pb_release_union_field n env it else give it) (\<lambda>it.
       let a = PB_ATYPE (ftype (pos_field it))
       in also_do
           (if a = PB_ATYPE_STATIC then decode_static_field noinit n env wire_type it
            else if a = PB_ATYPE_POINTER then decode_pointer_field noinit n env wire_type it
            else if a = PB_ATYPE_CALLBACK then decode_callback_field env wire_type it
            else rd (is_error ''invalid field type'')) (give it))"

section \<open>Extensions\<close>

definition default_extension_decoder ::
  "'s msg_dec \<Rightarrow> nat \<Rightarrow> 's pb_denv \<Rightarrow> nat \<Rightarrow> u32 \<Rightarrow> pb_wire_type \<Rightarrow> (unit, 's) dec" where
  "default_extension_decoder noinit n env ext t wire_type =
     bnd (get_ptr ext) (\<lambda>kind.
       if tag (ext_field (ext_kinds env kind)) \<noteq> unat t then give ()
       else bnd (iter_from_extension env ext) (\<lambda>it.
         also_do (put_bool (ext + 24) True) (bnd (decode_field noinit n env wire_type it) (\<lambda>_. give ()))))"

definition decode_extension :: "'s msg_dec \<Rightarrow> nat \<Rightarrow> 's pb_denv \<Rightarrow> u32 \<Rightarrow> pb_wire_type \<Rightarrow> pb_field_iter \<Rightarrow> (unit, 's) dec" where
  "decode_extension noinit n env t wire_type it w0 =
     bnd (get_ptr (pData it)) (loop_dec (\<lambda>ext w.
       if ext = 0 \<or> bytes_left (stream w) \<noteq> bytes_left (stream w0) then give (Inr ()) w
       else bnd (get_ptr ext) (\<lambda>kind.
         also_do (case ext_decode (ext_kinds env kind) of
                    Some g \<Rightarrow> g ext t wire_type
                  | None \<Rightarrow> default_extension_decoder noinit n env ext t wire_type)
           (bnd (get_ptr (ext + 16)) (\<lambda>ext'. give (Inl ext')))) w)) w0"

definition is_extension :: "pb_field \<Rightarrow> bool" where
  "is_extension f \<longleftrightarrow> PB_LTYPE (ftype f) = PB_LTYPE_EXTENSION"

definition find_extension_field :: "pb_field_iter \<Rightarrow> (bool \<times> pb_field_iter, 's) dec" where
  "find_extension_field it w = Option.bind (iter_search is_extension (pos it) it) (\<lambda>r. Some (Some r, w))"

section \<open>Decoding a message\<close>

definition PB_MAX_REQUIRED_FIELDS :: nat where
  "PB_MAX_REQUIRED_FIELDS = 64"

text \<open>
  The local variables of \<^verbatim>\<open>pb_decode_noinit\<close>; \<^verbatim>\<open>fixed_count_size\<close> is in memory, because \<^verbatim>\<open>iter.pSize\<close> may
  point to it, and \<^verbatim>\<open>fixed_count_field\<close> is an index into the array of fields.
\<close>

record noinit_state =
  iter :: pb_field_iter
  fields_seen :: "u32 list"
  extension_range_start :: u32
  fixed_count_field :: "nat option"

definition check_fixed_count :: "pb_field list \<Rightarrow> nat \<Rightarrow> nat option \<Rightarrow> (unit, 's) dec" where
  "check_fixed_count fs cell fixed =
     (case fixed of
        None \<Rightarrow> give ()
      | Some p \<Rightarrow> bnd (get_size cell) (\<lambda>cnt.
          if cnt \<noteq> array_size (field_at fs p) then rd (is_error ''wrong size for fixed count field'') else give ()))"

definition fixed_count_step :: "pb_field list \<Rightarrow> nat \<Rightarrow> noinit_state \<Rightarrow> (noinit_state, 's) dec" where
  "fixed_count_step fs cell st =
     (let it = iter st
      in if PB_HTYPE (ftype (pos_field it)) = PB_HTYPE_REPEATED \<and> pSize it = pData it then
           also_do
             (only_if (fixed_count_field st \<noteq> Some (pos it))
               (also_do (check_fixed_count fs cell (fixed_count_field st)) (put_size cell 0)))
             (give (st\<lparr>fixed_count_field := Some (pos it), iter := it\<lparr>pSize := cell\<rparr>\<rparr>))
         else give st)"

definition mark_seen :: "pb_field_iter \<Rightarrow> u32 list \<Rightarrow> u32 list" where
  "mark_seen it seen =
     (let i = required_field_index it
      in if PB_HTYPE (ftype (pos_field it)) = PB_HTYPE_REQUIRED \<and> i < PB_MAX_REQUIRED_FIELDS
         then seen[i div 32 := seen ! (i div 32) OR push_bit (i mod 32) 1] else seen)"

text \<open>A tag without a field: an extension may take it, otherwise the field is skipped.\<close>

definition unknown_field ::
  "'s msg_dec \<Rightarrow> nat \<Rightarrow> 's pb_denv \<Rightarrow> u32 \<Rightarrow> pb_wire_type \<Rightarrow> noinit_state \<Rightarrow> (noinit_state, 's) dec" where
  "unknown_field noinit n env t wire_type st =
     (if t \<ge> extension_range_start st then
        bnd (find_extension_field (iter st)) (\<lambda>(found, it).
          let start_tag = (if found then word_of_nat (tag (pos_field it)) else -1);
              st1 = st\<lparr>iter := it, extension_range_start := start_tag\<rparr>
          in if t \<ge> start_tag then
               (\<lambda>w. also_do (decode_extension noinit n env t wire_type it)
                 (\<lambda>w'. (if bytes_left (stream w') \<noteq> bytes_left (stream w) then give st1
                        else also_do (rd (pb_skip_field wire_type)) (give st1)) w') w)
             else also_do (rd (pb_skip_field wire_type)) (give st1))
      else also_do (rd (pb_skip_field wire_type)) (give st))"

text \<open>One round of the loop; \<open>Inr\<close> at the end of the input.\<close>

definition noinit_round ::
  "'s msg_dec \<Rightarrow> nat \<Rightarrow> 's pb_denv \<Rightarrow> pb_field list \<Rightarrow> nat \<Rightarrow> noinit_state \<Rightarrow> (noinit_state + noinit_state, 's) dec" where
  "noinit_round noinit n env fs cell st w =
     (if bytes_left (stream w) = 0 then give (Inr st) w
      else case pb_decode_tag (stream w) of
             (None, eof, s) \<Rightarrow> (if eof then give (Inr st) else fails) (w\<lparr>stream := s\<rparr>)
           | (Some (wire_type, t), _, s) \<Rightarrow>
               bnd (iter_find_dec (unat t) (iter st)) (\<lambda>(found, it).
                 if \<not> found then
                   bnd (unknown_field noinit n env t wire_type (st\<lparr>iter := it\<rparr>)) (\<lambda>st'. give (Inl st'))
                 else
                   bnd (fixed_count_step fs cell (st\<lparr>iter := it\<rparr>)) (\<lambda>st1.
                   bnd (decode_field noinit n env wire_type (iter st1)) (\<lambda>it'.
                     give (Inl (st1\<lparr>iter := it', fields_seen := mark_seen (iter st1) (fields_seen st1)\<rparr>)))))
                 (w\<lparr>stream := s\<rparr>))"

lemma iter_next_True:
  "pb_field_iter_next it = (True, it') \<Longrightarrow> start it' = start it \<and> pos it' = pos it + 1 \<and> pos it' < length (start it')"
  by (auto simp: pb_field_iter_next_def Let_def field_at_def PB_LAST_FIELD_def split: if_splits)

text \<open>The seek to the end of the fields: the last index and type seen, and the iterator after it.\<close>

function seek_end :: "pb_field_iter \<Rightarrow> nat \<times> u8 \<times> pb_field_iter" where
  "seek_end it =
     (case pb_field_iter_next it of
        (True, it') \<Rightarrow> seek_end it'
      | (False, it') \<Rightarrow> (required_field_index it, ftype (pos_field it), it'))"
  by pat_completeness auto
termination by (relation "measure (\<lambda>it. length (start it) - pos it)") (auto dest: iter_next_True [OF sym])

declare seek_end.simps [simp del]

definition req_field_count :: "pb_field_iter \<Rightarrow> nat" where
  "req_field_count it =
     (case seek_end it of (cnt, last_type, it') \<Rightarrow>
        min PB_MAX_REQUIRED_FIELDS
          (if PB_HTYPE last_type = PB_HTYPE_REQUIRED \<and> tag (pos_field it') \<noteq> 0 then cnt + 1 else cnt))"

definition all_seen :: "nat \<Rightarrow> u32 list \<Rightarrow> bool" where
  "all_seen cnt seen \<longleftrightarrow>
     (\<forall>i \<in> set [0..<cnt div 32]. seen ! i = -1) \<and>
     (cnt mod 32 \<noteq> 0 \<longrightarrow> seen ! (cnt div 32) = drop_bit (32 - cnt mod 32) (-1))"

text \<open>The number bounds the nesting of submessages.\<close>

fun pb_decode_noinit :: "nat \<Rightarrow> 's pb_denv \<Rightarrow> 's msg_dec" where
  "pb_decode_noinit 0 env d dest = stuck"
| "pb_decode_noinit (Suc n) env d dest =
     (let fs = field_lists env d
      in with_local 4 (\<lambda>cell.
           also_do (put_size cell 0)
           (bnd (loop_dec (noinit_round (pb_decode_noinit n env) n env fs cell)
                  \<lparr>iter = snd (pb_field_iter_begin fs dest), fields_seen = [0, 0], extension_range_start = 0,
                   fixed_count_field = None\<rparr>) (\<lambda>st.
              also_do (check_fixed_count fs cell (fixed_count_field st))
                (if all_seen (req_field_count (iter st)) (fields_seen st) then give ()
                 else rd (is_error ''missing required field''))))))"

definition pb_decode :: "nat \<Rightarrow> 's pb_denv \<Rightarrow> 's msg_dec" where
  "pb_decode n env = decode_with (pb_decode_noinit n env) n env"

definition pb_decode_delimited_noinit :: "nat \<Rightarrow> 's pb_denv \<Rightarrow> 's msg_dec" where
  "pb_decode_delimited_noinit n env d dest = in_string_substream (pb_decode_noinit n env d dest)"

definition pb_decode_delimited :: "nat \<Rightarrow> 's pb_denv \<Rightarrow> 's msg_dec" where
  "pb_decode_delimited n env d dest = in_string_substream (pb_decode n env d dest)"

definition pb_decode_nullterminated :: "nat \<Rightarrow> 's pb_denv \<Rightarrow> 's msg_dec" where
  "pb_decode_nullterminated n env = pb_decode n env"

end
