(* ===== verification/Pb_Encode_Props.thy ===== *)
theory Pb_Encode_Props
  imports Pb_Encode
begin

unbundle bit_operations_syntax

text \<open>
  What the message encoder of nanopb promises: the announced size is the written size, an encoding comes
  back, and both hold whatever the memory contains.  The proofs go through two classes of encoders that
  are closed under sequencing, submessages and packed arrays: those that are \<open>definite\<close> and those that
  \<open>return\<close>.
\<close>

section \<open>Encodings that depend on the message only\<close>

text \<open>
  An encoder \<open>emits bs\<close> if a sizing stream only counts \<open>bs\<close>, a buffer that has room takes \<open>bs\<close>, and a
  buffer that has not makes it fail, with a part of \<open>bs\<close> written inside the limit.  It \<open>refuses\<close> if it
  never succeeds on a sizing stream.
\<close>

definition sized :: "nat \<Rightarrow> 's pb_ostream \<Rightarrow> 's pb_ostream" where
  "sized n s = s\<lparr>bytes_written := size_add (bytes_written s) n\<rparr>"

definition put :: "u8 list \<Rightarrow> u8 list \<Rightarrow> 's pb_ostream \<Rightarrow> 's pb_ostream" where
  "put mem bs s = s\<lparr>bytes_written := bytes_written s + length bs, os_sink := Out_Buffer (mem @ bs)\<rparr>"

definition cut_short :: "u8 list \<Rightarrow> u8 list \<Rightarrow> 's pb_ostream \<Rightarrow> (unit option \<times> 's pb_ostream) option \<Rightarrow> bool" where
  "cut_short mem bs s r \<longleftrightarrow>
     (\<exists>k s'. r = Some (None, s') \<and> os_sink s' = Out_Buffer (mem @ take k bs) \<and> k \<le> length bs \<and>
        bytes_written s + k \<le> max_size s)"

definition fresh_sink :: "u8 list \<Rightarrow> 's pb_ostream \<Rightarrow> nat \<Rightarrow> bool" where
  "fresh_sink mem s n \<longleftrightarrow> os_sink s = Out_Buffer mem \<and> os_errmsg s = None \<and> bytes_written s \<le> max_size s \<and>
     bytes_written s + n \<le> SIZE_MAX"

definition counting :: "'s pb_ostream \<Rightarrow> bool" where
  "counting s \<longleftrightarrow> is_sizing s \<and> bytes_written s \<le> SIZE_MAX"

definition emits :: "'s enc \<Rightarrow> u8 list \<Rightarrow> bool" where
  "emits p bs \<longleftrightarrow>
     (\<forall>s. counting s \<longrightarrow> p s = Some (Some (), sized (length bs) s)) \<and>
     (\<forall>s mem. fresh_sink mem s (length bs) \<longrightarrow>
        (if bytes_written s + length bs \<le> max_size s then p s = Some (Some (), put mem bs s)
         else cut_short mem bs s (p s)))"

definition refuses :: "'s enc \<Rightarrow> bool" where
  "refuses p \<longleftrightarrow> (\<forall>s s'. counting s \<longrightarrow> p s \<noteq> Some (Some (), s'))"

definition definite :: "'s enc \<Rightarrow> bool" where
  "definite p \<longleftrightarrow> refuses p \<or> (\<exists>bs. emits p bs)"

lemma emitsI:
  assumes "\<And>s. counting s \<Longrightarrow> p s = Some (Some (), sized (length bs) s)"
    and "\<And>s mem. \<lbrakk>fresh_sink mem s (length bs); bytes_written s + length bs \<le> max_size s\<rbrakk> \<Longrightarrow>
      p s = Some (Some (), put mem bs s)"
    and "\<And>s mem. \<lbrakk>fresh_sink mem s (length bs); max_size s < bytes_written s + length bs\<rbrakk> \<Longrightarrow> cut_short mem bs s (p s)"
  shows "emits p bs"
  using assms by (simp add: emits_def)

lemma emits_sizing: "\<lbrakk>emits p bs; counting s\<rbrakk> \<Longrightarrow> p s = Some (Some (), sized (length bs) s)"
  by (simp add: emits_def)

lemma emits_put:
  "\<lbrakk>emits p bs; fresh_sink mem s (length bs); bytes_written s + length bs \<le> max_size s\<rbrakk> \<Longrightarrow> p s = Some (Some (), put mem bs s)"
  by (auto simp: emits_def)

lemma emits_cut:
  "\<lbrakk>emits p bs; fresh_sink mem s (length bs); max_size s < bytes_written s + length bs\<rbrakk> \<Longrightarrow> cut_short mem bs s (p s)"
  by (auto simp: emits_def)

lemma sized_parts [simp]: "is_sizing (sized n s) = is_sizing s" "bytes_written (sized n s) = size_add (bytes_written s) n"
  by (simp_all add: sized_def is_sizing_def)

lemma counting_sized [simp]: "counting s \<Longrightarrow> counting (sized n s)"
  by (simp add: counting_def size_add_le)

lemma size_add_assoc: "size_add (size_add a b) c = size_add a (b + c)"
  by (simp add: size_add_def mod_simps add.assoc)

lemma sized_sized: "sized n (sized m s) = sized (m + n) s"
  by (simp add: sized_def size_add_assoc)

lemma sized_cong: "m mod 2 ^ 64 = n mod 2 ^ 64 \<Longrightarrow> sized m s = sized n s"
  using mod_add_cong [OF refl, of m "2 ^ 64" n "bytes_written s"] by (simp add: sized_def size_add_def)

lemma put_parts [simp]: "max_size (put mem bs s) = max_size s" "bytes_written (put mem bs s) = bytes_written s + length bs"
  "os_errmsg (put mem bs s) = os_errmsg s" "os_sink (put mem bs s) = Out_Buffer (mem @ bs)"
  by (simp_all add: put_def)

lemma put_put: "put (mem @ bs) cs (put mem bs s) = put mem (bs @ cs) s"
  by (simp add: put_def)

lemma fresh_sink_put:
  "\<lbrakk>fresh_sink mem s (length bs + n); bytes_written s + length bs \<le> max_size s\<rbrakk> \<Longrightarrow> fresh_sink (mem @ bs) (put mem bs s) n"
  by (simp add: fresh_sink_def)

lemma fresh_sink_less: "fresh_sink mem s n \<Longrightarrow> m \<le> n \<Longrightarrow> fresh_sink mem s m"
  by (simp add: fresh_sink_def)

lemma fresh_not_sizing: "fresh_sink mem s n \<Longrightarrow> \<not> is_sizing s"
  by (simp add: fresh_sink_def is_sizing_def)

lemma seq_Some [simp]: "p s = Some (Some u, s') \<Longrightarrow> seq p q s = q s'"
  by (simp add: seq_def)

lemma seq_error [simp]: "p s = Some (None, s') \<Longrightarrow> seq p q s = Some (None, s')"
  by (simp add: seq_def)

lemma emits_nothing: "emits nothing []"
  by (rule emitsI) (simp_all add: nothing_def call_def sized_def put_def fresh_sink_def counting_def)

lemma cut_shortI:
  "\<lbrakk>r = Some (None, s'); os_sink s' = Out_Buffer (mem @ take k bs); k \<le> length bs; bytes_written s + k \<le> max_size s\<rbrakk> \<Longrightarrow>
   cut_short mem bs s r"
  by (auto simp: cut_short_def)

lemma cut_short_left:
  assumes "cut_short mem bs s (p s)"
  shows "cut_short mem (bs @ cs) s (seq p q s)"
proof -
  from assms obtain k s' where "p s = Some (None, s')" "os_sink s' = Out_Buffer (mem @ take k bs)" "k \<le> length bs"
    "bytes_written s + k \<le> max_size s" unfolding cut_short_def by blast
  then show ?thesis by (intro cut_shortI [of _ s' _ k]) simp_all
qed

lemma cut_short_right:
  assumes "p s = Some (Some (), put mem bs s)" and "cut_short (mem @ bs) cs (put mem bs s) (q (put mem bs s))"
  shows "cut_short mem (bs @ cs) s (seq p q s)"
proof -
  from assms(2) obtain k s' where k: "q (put mem bs s) = Some (None, s')" "os_sink s' = Out_Buffer ((mem @ bs) @ take k cs)"
    "k \<le> length cs" "bytes_written s + length bs + k \<le> max_size s"
    unfolding cut_short_def put_parts by blast
  show ?thesis using assms(1) k by (intro cut_shortI [of _ s' _ "length bs + k"]) simp_all
qed

lemma emits_seq:
  assumes "emits p bs" and "emits q cs"
  shows "emits (seq p q) (bs @ cs)"
proof (rule emitsI)
  fix s :: "'a pb_ostream" and mem
  assume f: "fresh_sink mem s (length (bs @ cs))"
  then have fp: "fresh_sink mem s (length bs)" by (rule fresh_sink_less) simp
  {
    assume "bytes_written s + length (bs @ cs) \<le> max_size s"
    then have l: "bytes_written s + length bs \<le> max_size s" "bytes_written s + length bs + length cs \<le> max_size s" by simp_all
    have fq: "fresh_sink (mem @ bs) (put mem bs s) (length cs)" using f l(1) by (intro fresh_sink_put) simp_all
    show "seq p q s = Some (Some (), put mem (bs @ cs) s)"
      using emits_put [OF assms(1) fp l(1)] emits_put [OF assms(2) fq] l(2) by (simp add: put_put)
  next
    assume m: "max_size s < bytes_written s + length (bs @ cs)"
    show "cut_short mem (bs @ cs) s (seq p q s)"
    proof (cases "bytes_written s + length bs \<le> max_size s")
      case True
      have fq: "fresh_sink (mem @ bs) (put mem bs s) (length cs)" using f True by (intro fresh_sink_put) simp_all
      show ?thesis using m by (intro cut_short_right emits_put [OF assms(1) fp True] emits_cut [OF assms(2) fq]) simp
    next
      case False
      then show ?thesis by (intro cut_short_left emits_cut [OF assms(1) fp]) simp
    qed
  }
qed (simp add: emits_sizing [OF assms(1)] emits_sizing [OF assms(2)] sized_sized)

lemma refuses_seq:
  assumes "refuses p \<or> emits p bs \<and> refuses q"
  shows "refuses (seq p q)"
proof -
  { fix s s' :: "'a pb_ostream"
    assume s: "counting s"
    have "seq p q s \<noteq> Some (Some (), s')"
    proof (cases "emits p bs \<and> refuses q")
      case True
      then show ?thesis using emits_sizing [of p bs s] s by (auto simp: refuses_def)
    next
      case False
      then have "refuses p" using assms by blast
      then show ?thesis using s by (auto simp: refuses_def seq_def split: option.splits)
    qed }
  then show ?thesis by (simp add: refuses_def)
qed

lemma definite_seq: "definite p \<Longrightarrow> definite q \<Longrightarrow> definite (seq p q)"
  unfolding definite_def using emits_seq refuses_seq by metis

lemma refuses_error [simp]: "refuses (call (os_error m))"
  by (simp add: refuses_def call_def os_error_def)

lemma refuses_no_meaning [simp]: "refuses no_meaning"
  by (simp add: refuses_def no_meaning_def)

lemma definite_refuses: "refuses p \<Longrightarrow> definite p"
  and definite_emits: "emits p bs \<Longrightarrow> definite p"
  by (auto simp: definite_def)

lemmas definite_simple = definite_refuses [OF refuses_error] definite_refuses [OF refuses_no_meaning]
  definite_emits [OF emits_nothing]

lemma emits_write: "n = length bs \<Longrightarrow> emits (call (pb_write bs n)) bs"
  by (rule emitsI)
    (auto simp: call_def pb_write_def Let_def sized_def put_def fresh_sink_def counting_def is_sizing_def os_error_def cut_short_def
      buf_write_def split: out_sink.splits)

lemma call_seq: "call (and_then p (\<lambda>_. q)) = seq (call p) (call q)"
  by (rule ext) (auto simp: call_def seq_def and_then_def split: prod.splits option.splits)

lemma emits_varint: "emits (call (pb_encode_varint v)) (leb (unat v))"
  unfolding pb_encode_varint_leb by (rule emits_write [OF refl])

lemma emits_string: "emits (call (pb_encode_string bs (length bs))) (leb (length bs mod 2 ^ 64) @ bs)"
  using emits_varint [of "word_of_nat (length bs)"] unfolding pb_encode_string_def call_seq
  by (intro emits_seq emits_write [OF refl]) (simp add: unat_of_nat)

text \<open>What the submessage and the packed array share: the length counted first, then the bytes.\<close>

lemma write_null_sizing: "is_sizing s \<Longrightarrow> call (pb_write [] n) s = Some (Some (), sized n s)"
  by (auto simp: call_def pb_write_def Let_def is_sizing_def sized_def split: out_sink.splits)

lemma counting_SIZING [simp]: "counting PB_OSTREAM_SIZING"
  by (simp add: counting_def is_sizing_def PB_OSTREAM_SIZING_def)

lemma emits_counted:
  assumes "\<And>s. counting s \<Longrightarrow> R s = call (pb_write [] n) s" and "n mod 2 ^ 64 = length bs mod 2 ^ 64"
    and "\<And>s mem. fresh_sink mem s (length bs) \<Longrightarrow> R s = L s" and "emits L bs"
  shows "emits R bs"
proof (rule emitsI)
  fix s :: "'a pb_ostream"
  assume c: "counting s"
  then have "R s = Some (Some (), sized n s)" using assms(1) [OF c] by (simp add: write_null_sizing counting_def)
  then show "R s = Some (Some (), sized (length bs) s)" using sized_cong [OF assms(2)] by simp
qed (simp_all add: assms(3) emits_put [OF assms(4)] emits_cut [OF assms(4)])

lemma emits_length_prefixed:
  assumes "emits R bs" and "n mod 2 ^ 64 = length bs mod 2 ^ 64"
  shows "emits (seq (call (pb_encode_varint (word_of_nat n))) R) (leb (length bs mod 2 ^ 64) @ bs)"
proof (rule emits_seq [OF _ assms(1)])
  show "emits (call (pb_encode_varint (word_of_nat n))) (leb (length bs mod 2 ^ 64))"
    using emits_varint [of "word_of_nat n"] assms(2) by (simp add: unat_of_nat)
qed

lemma emits_submessage_rest:
  assumes "emits p bs"
  shows "emits (submessage_rest p (length bs mod 2 ^ 64)) bs"
proof (rule emitsI)
  fix s :: "'a pb_ostream" and mem
  assume f: "fresh_sink mem s (length bs)"
  let ?sub = "\<lparr>os_sink = os_sink s, max_size = length bs, bytes_written = 0, os_errmsg = None\<rparr>"
  have n: "length bs mod 2 ^ 64 = length bs" "size_add (bytes_written s) (length bs) = bytes_written s + length bs"
    using f by (simp_all add: fresh_sink_def SIZE_MAX_def size_add_def)
  have "fresh_sink mem ?sub (length bs)" using f by (simp add: fresh_sink_def)
  then have "p ?sub = Some (Some (), put mem bs ?sub)" by (intro emits_put [OF assms]) simp_all
  moreover have "os_errmsg s = None" using f by (simp add: fresh_sink_def)
  ultimately show "bytes_written s + length bs \<le> max_size s \<Longrightarrow>
      submessage_rest p (length bs mod 2 ^ 64) s = Some (Some (), put mem bs s)"
    using fresh_not_sizing [OF f] n by (simp add: submessage_rest_def put_def)
  show "max_size s < bytes_written s + length bs \<Longrightarrow> cut_short mem bs s (submessage_rest p (length bs mod 2 ^ 64) s)"
    using f fresh_not_sizing [OF f] n
    by (intro cut_shortI [of _ "snd (os_error ''stream full'' s :: unit option \<times> 'a pb_ostream)" _ 0])
      (simp_all add: submessage_rest_def call_def os_error_def fresh_sink_def)
next
  fix s :: "'a pb_ostream"
  assume "counting s"
  then show "submessage_rest p (length bs mod 2 ^ 64) s = Some (Some (), sized (length bs) s)"
    using sized_cong [of "length bs mod 2 ^ 64" "length bs" s]
    by (simp add: submessage_rest_def counting_def write_null_sizing)
qed

lemma sizing_result: "emits p bs \<Longrightarrow> \<exists>sub. p PB_OSTREAM_SIZING = Some (Some (), sub) \<and> bytes_written sub = length bs mod 2 ^ 64"
  by (simp add: emits_sizing) (simp add: size_add_def PB_OSTREAM_SIZING_def)

lemma emits_submessage:
  assumes "emits p bs"
  shows "emits (pb_encode_submessage p) (leb (length bs mod 2 ^ 64) @ bs)"
proof -
  have "pb_encode_submessage p = seq (call (pb_encode_varint (word_of_nat (length bs mod 2 ^ 64))))
      (submessage_rest p (length bs mod 2 ^ 64))"
    using sizing_result [OF assms] by (auto simp: pb_encode_submessage_def)
  then show ?thesis using emits_length_prefixed [OF emits_submessage_rest [OF assms]] by simp
qed

lemma definite_submessage:
  assumes "definite p"
  shows "definite (pb_encode_submessage p)"
proof (cases "refuses p")
  case True
  have "p PB_OSTREAM_SIZING \<noteq> Some (Some (), sub)" for sub
    using True counting_SIZING unfolding refuses_def counting_def by blast
  then have "refuses (pb_encode_submessage p)"
    by (auto simp: refuses_def pb_encode_submessage_def split: option.splits)
  then show ?thesis by (rule definite_refuses)
next
  case False
  then show ?thesis using assms emits_submessage definite_emits unfolding definite_def by metis
qed

section \<open>Fields\<close>

lemma length_bytes_at [simp]: "length (bytes_at m a n) = n"
  by (simp add: bytes_at_def)

lemma definite_varint: "definite (call (pb_encode_varint v))"
  using emits_varint by (rule definite_emits)

lemma definite_svarint: "definite (call (pb_encode_svarint v))"
  by (simp add: pb_encode_svarint_def Let_def definite_varint)

lemma definite_string: "n = length bs \<Longrightarrow> definite (call (pb_encode_string bs n))"
  using emits_string definite_emits by blast

lemma emits_fixed32: "\<exists>bs. emits (call (pb_encode_fixed32 v)) bs \<and> length bs = 4"
  unfolding pb_encode_fixed32_def by (intro exI conjI, rule emits_write) simp_all

lemma emits_fixed64: "\<exists>bs. emits (call (pb_encode_fixed64 v)) bs \<and> length bs = 8"
  unfolding pb_encode_fixed64_def by (intro exI conjI, rule emits_write) simp_all

lemma definite_tag: "definite (call (pb_encode_tag w n))"
  by (simp add: pb_encode_tag_def definite_varint)

lemma definite_tag_for_field: "definite (pb_encode_tag_for_field f)"
  by (simp add: pb_encode_tag_for_field_def Let_def definite_tag definite_simple)

lemma definite_enc_varint: "definite (pb_enc_varint env f p)" "definite (pb_enc_uvarint env f p)"
  "definite (pb_enc_svarint env f p)"
  by (simp_all add: pb_enc_varint_def pb_enc_uvarint_def pb_enc_svarint_def definite_varint definite_svarint
      definite_simple split: option.split)

lemma definite_enc_fixed: "definite (pb_enc_fixed32 env f p)" "definite (pb_enc_fixed64 env f p)"
  using emits_fixed32 emits_fixed64 unfolding pb_enc_fixed32_def pb_enc_fixed64_def by (blast intro: definite_emits)+

lemma definite_enc_string: "definite (pb_enc_bytes env f p)" "definite (pb_enc_string env f p)"
  "definite (pb_enc_fixed_length_bytes env f p)"
  by (simp_all add: pb_enc_bytes_def pb_enc_string_def pb_enc_fixed_length_bytes_def Let_def definite_string definite_simple)

lemma definite_enc_submessage:
  "(\<And>d src. definite (rec d src)) \<Longrightarrow> definite (pb_enc_submessage rec env f p)"
  by (simp add: pb_enc_submessage_def definite_simple definite_submessage split: pb_ptr.split)

lemma definite_choice: "definite (g a b) \<Longrightarrow> definite (h a b) \<Longrightarrow> definite ((if c then g else h) a b)"
  by simp

lemma definite_encoders:
  assumes "\<And>d src. definite (rec d src)"
  shows "definite (PB_ENCODERS rec env l f p)"
  unfolding PB_ENCODERS_def
  by (intro definite_choice definite_enc_varint definite_enc_fixed definite_enc_string definite_enc_submessage assms
      definite_simple)

lemma definite_array_loop:
  "(\<And>p. definite (func p)) \<Longrightarrow> definite (array_loop func step_size p n)"
  by (induction n arbitrary: p) (simp_all add: definite_simple definite_seq)

lemma array_loop_fixed:
  assumes "\<And>p. \<exists>bs. emits (func p) bs \<and> length bs = k"
  shows "\<exists>bs. emits (array_loop func step_size p n) bs \<and> length bs = k * n"
proof (induction n arbitrary: p)
  case (Suc n)
  obtain bs cs where "emits (func p) bs" "length bs = k" "emits (array_loop func step_size (p + step_size) n) cs"
    "length cs = k * n" using assms [of p] Suc.IH by blast
  then show ?case using emits_seq by (intro exI [of _ "bs @ cs"]) auto
qed (auto intro: emits_nothing)

lemma emits_packed_items:
  assumes "emits L bs" and "n mod 2 ^ 64 = length bs mod 2 ^ 64"
  shows "emits (packed_items L n) (leb (length bs mod 2 ^ 64) @ bs)"
  unfolding packed_items_def
proof (rule emits_length_prefixed [OF _ assms(2)])
  show "emits (\<lambda>s. if is_sizing s then call (pb_write [] n) s else L s) bs"
    by (rule emits_counted [OF _ assms(2) _ assms(1)]) (auto simp: counting_def fresh_not_sizing)
qed

lemma definite_packed:
  assumes "definite L"
  shows "definite (\<lambda>s. case L PB_OSTREAM_SIZING of
      None \<Rightarrow> None
    | Some (None, _) \<Rightarrow> Some (None, s)
    | Some (Some _, sizestream) \<Rightarrow> packed_items L (bytes_written sizestream) s)" (is "definite ?p")
proof (cases "refuses L")
  case True
  have "L PB_OSTREAM_SIZING \<noteq> Some (Some (), sub)" for sub
    using True counting_SIZING unfolding refuses_def counting_def by blast
  then have "refuses ?p" by (auto simp: refuses_def split: option.splits)
  then show ?thesis by (rule definite_refuses)
next
  case False
  then obtain bs where L: "emits L bs" using assms unfolding definite_def by blast
  then obtain sub where "L PB_OSTREAM_SIZING = Some (Some (), sub)" "bytes_written sub = length bs mod 2 ^ 64"
    using sizing_result by blast
  then have "?p = packed_items L (length bs mod 2 ^ 64)" by (intro ext) simp
  then show ?thesis using emits_packed_items [OF L, of "length bs mod 2 ^ 64"] definite_emits by simp
qed

lemma definite_packed_fixed:
  assumes "\<And>p. \<exists>bs. emits (func p) bs \<and> length bs = k"
  shows "definite (packed_items (array_loop func step_size p n) (k * n))"
proof -
  obtain bs where "emits (array_loop func step_size p n) bs" "length bs = k * n"
    using array_loop_fixed [where func = func, OF assms] by blast
  then show ?thesis using emits_packed_items [of _ bs "k * n"] by (intro definite_emits) simp
qed

lemma definite_if: "\<lbrakk>c \<Longrightarrow> definite p; \<not> c \<Longrightarrow> definite q\<rbrakk> \<Longrightarrow> definite (if c then p else q)"
  by simp

lemma definite_encode_array:
  assumes "\<And>d src. definite (rec d src)"
  shows "definite (encode_array env f data cnt (PB_ENCODERS rec env (PB_LTYPE (ftype f))))"
proof -
  let ?func = "PB_ENCODERS rec env (PB_LTYPE (ftype f))"
  let ?L = "array_loop (?func f) (data_size f) data cnt"
  note func = definite_encoders [of rec, OF assms]
  have L: "definite ?L" by (rule definite_array_loop [OF func])
  have fixed32: "definite (packed_items ?L (4 * cnt))" if "PB_LTYPE (ftype f) = PB_LTYPE_FIXED32"
    using that emits_fixed32 by (intro definite_packed_fixed) (simp add: PB_ENCODERS_def pb_type_defs pb_enc_fixed32_def)
  have fixed64: "definite (packed_items ?L (8 * cnt))" if "PB_LTYPE (ftype f) = PB_LTYPE_FIXED64"
    using that emits_fixed64 by (intro definite_packed_fixed) (simp add: PB_ENCODERS_def pb_type_defs pb_enc_fixed64_def)
  consider "cnt = 0" | "cnt \<noteq> 0" "PB_ATYPE (ftype f) \<noteq> PB_ATYPE_POINTER \<and> array_size f < cnt"
    | "cnt \<noteq> 0" "PB_ATYPE (ftype f) = PB_ATYPE_POINTER \<or> cnt \<le> array_size f" "PB_LTYPE (ftype f) \<le> PB_LTYPE_LAST_PACKABLE"
    | "cnt \<noteq> 0" "PB_ATYPE (ftype f) = PB_ATYPE_POINTER \<or> cnt \<le> array_size f" "\<not> PB_LTYPE (ftype f) \<le> PB_LTYPE_LAST_PACKABLE"
    by linarith
  then show ?thesis
  proof cases
    case 3
    then show ?thesis
      unfolding encode_array_def Let_def
      by (simp only: if_False not_less simp_thms)
        (intro definite_if definite_seq definite_tag fixed32 fixed64 definite_packed [OF L] definite_simple; simp)
  next
    case 4
    then show ?thesis
      by (auto simp: encode_array_def Let_def intro!: definite_array_loop definite_seq definite_tag_for_field func)
  qed (simp_all add: encode_array_def definite_simple)
qed

lemma definite_encode_basic_field:
  assumes "\<And>d src. definite (rec d src)"
  shows "definite (encode_basic_field n rec env f data)"
proof -
  note one = definite_seq [OF definite_tag_for_field definite_encoders [of rec, OF assms]]
  have d: "definite (case r of None \<Rightarrow> no_meaning | Some b \<Rightarrow> q b)" if "\<And>b. definite (q b)" for r :: "bool option" and q :: "bool \<Rightarrow> 'a enc"
    using that definite_simple by (cases r) simp_all
  show ?thesis unfolding encode_basic_field_def Let_def
    by (intro d definite_if definite_simple one definite_encode_array [of rec, OF assms])
qed

text \<open>User callbacks that write the same on every stream keep this; the others need not.\<close>

definition well_behaved :: "'s pb_env \<Rightarrow> bool" where
  "well_behaved env \<longleftrightarrow> (\<forall>fn f arg. definite (encode_funcs env fn f arg)) \<and>
     (\<forall>t g ext. ext_encode (ext_types env t) = Some g \<longrightarrow> definite (g ext))"

lemma definite_encode_callback_field:
  assumes "well_behaved env"
  shows "definite (encode_callback_field env f data)"
proof -
  let ?g = "encode_funcs env (load_ptr (memory env) data) f (data + 8)"
  have err: "call (os_error m) s \<noteq> Some (Some (), s')" for m and s s' :: "'a pb_ostream"
    by (simp add: call_def os_error_def)
  consider "load_ptr (memory env) data = 0" | "load_ptr (memory env) data \<noteq> 0" "refuses ?g"
    | bs where "load_ptr (memory env) data \<noteq> 0" "emits ?g bs"
    using assms unfolding well_behaved_def definite_def by blast
  then show ?thesis
  proof cases
    case 1
    then have "encode_callback_field env f data = nothing" by (intro ext) (simp add: encode_callback_field_def)
    then show ?thesis by (simp add: definite_simple)
  next
    case 2
    then have "refuses (encode_callback_field env f data)"
      by (auto simp: refuses_def encode_callback_field_def err split: option.splits)
    then show ?thesis by (rule definite_refuses)
  next
    case (3 bs)
    note g = emits_sizing [OF 3(2)] emits_put [OF 3(2)] emits_cut [OF 3(2)]
    have cs: "cut_short mem bs s (encode_callback_field env f data s)" if "cut_short mem bs s (?g s)" for mem s
      using that 3(1) by (auto simp: cut_short_def encode_callback_field_def call_def os_error_def)
    have "emits (encode_callback_field env f data) bs"
      by (rule emitsI) (simp_all add: cs g, simp_all add: encode_callback_field_def 3(1) g)
    then show ?thesis by (rule definite_emits)
  qed
qed

lemma definite_encode_field:
  assumes "\<And>d src. definite (rec d src)" and "well_behaved env"
  shows "definite (encode_field n rec env f data)"
  by (simp add: encode_field_def Let_def definite_encode_basic_field assms definite_encode_callback_field definite_simple)

lemma definite_extension_loop:
  assumes "\<And>d src. definite (rec d src)" and "well_behaved env"
  shows "definite (extension_loop k n rec env ext)"
proof (induction k arbitrary: ext)
  case (Suc k)
  have "definite (case ext_encode (ext_types env (load_ptr (memory env) ext)) of
      Some g \<Rightarrow> g ext | None \<Rightarrow> default_extension_encoder n rec env ext)"
    using assms by (auto simp: well_behaved_def default_extension_encoder_def Let_def definite_encode_field split: option.split)
  then show ?case using Suc.IH by (simp add: definite_seq definite_simple)
qed (simp add: definite_simple)

lemma definite_message_body:
  assumes "\<And>d src. definite (rec d src)" and "well_behaved env"
  shows "definite (message_body n rec env fs src)"
proof -
  have "definite (foldr (\<lambda>it rest. seq
         (if PB_LTYPE (ftype (pos_field it)) = PB_LTYPE_EXTENSION then encode_extension_field n rec env (pData it)
          else encode_field n rec env (pos_field it) (pData it)) rest) its nothing)" for its
    by (induction its)
      (simp_all add: definite_simple definite_seq encode_extension_field_def definite_extension_loop assms definite_encode_field)
  then show ?thesis by (simp add: message_body_def)
qed

lemma definite_pb_encode: "well_behaved env \<Longrightarrow> definite (pb_encode n env d src)"
  by (induction n arbitrary: d src) (simp_all add: definite_simple definite_message_body)

section \<open>Returning\<close>

text \<open>The \<^verbatim>\<open>do\<close> loop over the fields runs its body once for every field, in order.\<close>

lemma iter_walk_at:
  assumes "fields_ok fs"
  shows "k < length fs \<Longrightarrow> iter_walk n (iter_at fs d k) = map (iter_at fs d) [k..<min (k + n) (length fs)]"
proof (induction n arbitrary: k)
  case (Suc n)
  show ?case
  proof (cases "Suc k < length fs")
    case True
    then have "[k..<min (k + Suc n) (length fs)] = k # [Suc k..<min (Suc k + n) (length fs)]"
      using Suc.prems by (simp add: upt_conv_Cons min_def)
    then show ?thesis using Suc.IH [OF True] True iter_next_at [OF assms Suc.prems, of d] by (simp del: iter_at.simps)
  next
    case False
    then have "[k..<min (k + Suc n) (length fs)] = [k]" using Suc.prems by (simp add: upt_conv_Cons)
    then show ?thesis using False iter_next_at [OF assms Suc.prems, of d] by (simp del: iter_at.simps)
  qed
qed simp

lemma visited_all:
  assumes "fields_ok fs"
  shows "visited fs d = map (iter_at fs d) [0..<length fs]"
proof (cases fs)
  case Nil
  then show ?thesis by (simp add: visited_def split: prod.split bool.split)
next
  case (Cons f fs')
  then have "pb_field_iter_begin fs d = (True, iter_at fs d 0)"
    using assms by (simp add: pb_field_iter_begin_def Let_def field_at_def fields_ok_def)
  then show ?thesis using iter_walk_at [OF assms, of 0 "length fs" d] Cons by (simp add: visited_def del: iter_at.simps)
qed

lemma visited_fields:
  assumes "fields_ok fs" and "it \<in> set (visited fs d)"
  shows "pos_field it \<in> set fs"
proof -
  obtain k where "k < length fs" "it = iter_at fs d k" using assms by (auto simp: visited_all)
  then show ?thesis using iter_at_parts [OF assms(1), of k d] by (simp add: pos_field_def field_at_def)
qed

text \<open>
  A schema without extensions: each type is one the encoder knows, a oneof has its \<^verbatim>\<open>which\<close> member, and a
  submessage's descriptors are less deep than those of the message.
\<close>

definition schema_field_ok :: "(nat \<Rightarrow> nat) \<Rightarrow> nat \<Rightarrow> pb_field \<Rightarrow> bool" where
  "schema_field_ok depth k f \<longleftrightarrow>
     PB_LTYPE (ftype f) \<le> PB_LTYPE_FIXED_LENGTH_BYTES \<and> PB_LTYPE (ftype f) \<noteq> PB_LTYPE_EXTENSION \<and>
     (PB_HTYPE (ftype f) = PB_HTYPE_ONEOF \<longrightarrow> size_offset f \<noteq> 0) \<and>
     (PB_LTYPE (ftype f) = PB_LTYPE_SUBMESSAGE \<longrightarrow> (case fptr f of Ptr_fields d \<Rightarrow> depth d < k | _ \<Rightarrow> False))"

definition schema_ok :: "(nat \<Rightarrow> pb_field list) \<Rightarrow> (nat \<Rightarrow> nat) \<Rightarrow> bool" where
  "schema_ok ds depth \<longleftrightarrow> (\<forall>d. fields_ok (ds d) \<and> (\<forall>f \<in> set (ds d). schema_field_ok depth (depth d) f))"

definition returns :: "'s enc \<Rightarrow> bool" where
  "returns p \<longleftrightarrow> (\<forall>s. p s \<noteq> None)"

lemma returns_call: "returns (call p)"
  by (simp add: returns_def call_def)

lemma returns_nothing: "returns nothing"
  by (simp add: nothing_def returns_call)

lemma returns_seq: "returns p \<Longrightarrow> returns q \<Longrightarrow> returns (seq p q)"
  by (auto simp: returns_def seq_def split: option.split)

lemma returns_if: "\<lbrakk>c \<Longrightarrow> returns p; \<not> c \<Longrightarrow> returns q\<rbrakk> \<Longrightarrow> returns (if c then p else q)"
  by simp

lemma returns_counted:
  "returns p \<Longrightarrow> returns (\<lambda>s. if is_sizing s then call (pb_write [] n) s else p s)"
  by (simp add: returns_def call_def)

lemma returns_packed_items: "returns p \<Longrightarrow> returns (packed_items p n)"
  unfolding packed_items_def by (intro returns_seq returns_call returns_counted)

lemma returns_submessage:
  assumes "returns p"
  shows "returns (pb_encode_submessage p)"
proof -
  have "returns (submessage_rest p n)" for n
    using assms by (auto simp: returns_def submessage_rest_def call_def Let_def simp del: not_None_eq split: option.split)
  then have "returns (seq (call q) (submessage_rest p n))" for q n
    by (rule returns_seq [OF returns_call])
  then show ?thesis using assms unfolding returns_def pb_encode_submessage_def
    by (auto simp del: not_None_eq split: option.split)
qed

lemma returns_packed:
  assumes "returns p"
  shows "returns (\<lambda>s. case p PB_OSTREAM_SIZING of
      None \<Rightarrow> None
    | Some (None, _) \<Rightarrow> Some (None, s)
    | Some (Some _, sizestream) \<Rightarrow> packed_items p (bytes_written sizestream) s)"
  using assms returns_packed_items [OF assms] unfolding returns_def
  by (auto simp del: not_None_eq split: option.split)

lemma returns_array_loop: "(\<And>p. returns (func p)) \<Longrightarrow> returns (array_loop func step_size p n)"
  by (induction n arbitrary: p) (simp_all add: returns_nothing returns_seq)

lemma if_not_None: "\<lbrakk>c \<Longrightarrow> p \<noteq> None; \<not> c \<Longrightarrow> q \<noteq> None\<rbrakk> \<Longrightarrow> (if c then p else q) \<noteq> None"
  by simp

lemma default_value_returns:
  assumes "schema_ok (descriptors env) depth"
  shows "schema_field_ok depth k f \<Longrightarrow> k < n \<Longrightarrow> pb_check_proto3_default_value n env f data \<noteq> None"
proof (induction n arbitrary: k f data)
  case (Suc n)
  have all: "foldr (\<lambda>it r. case pb_check_proto3_default_value n env (pos_field it) (pData it) of
        None \<Rightarrow> None | Some False \<Rightarrow> Some False | Some True \<Rightarrow> r) its (Some True) \<noteq> None"
    if "depth d < k" and "set its \<subseteq> set (visited (descriptors env d) data)" for d its
    using that(2)
  proof (induction its)
    case (Cons it its)
    then have "pos_field it \<in> set (descriptors env d)" using visited_fields assms by (auto simp: schema_ok_def)
    then have "pb_check_proto3_default_value n env (pos_field it) (pData it) \<noteq> None"
      using Suc.IH [of "depth d"] assms that(1) Suc.prems(2) by (simp add: schema_ok_def)
    then show ?case using Cons by (auto split: bool.split)
  qed simp
  have "(case fptr f of
        Ptr_fields d \<Rightarrow> foldr (\<lambda>it r. case pb_check_proto3_default_value n env (pos_field it) (pData it) of
          None \<Rightarrow> None | Some False \<Rightarrow> Some False | Some True \<Rightarrow> r) (visited (descriptors env d) data) (Some True)
      | _ \<Rightarrow> None) \<noteq> None" if "PB_LTYPE (ftype f) = PB_LTYPE_SUBMESSAGE"
    using Suc.prems(1) all [OF _ subset_refl] that by (cases "fptr f") (simp_all add: schema_field_ok_def del: not_None_eq)
  then show ?case unfolding pb_check_proto3_default_value.simps(2) Let_def
    by (intro if_not_None option.distinct) blast
qed simp

lemma PB_HTYPE_cases: "PB_HTYPE x \<in> {PB_HTYPE_REQUIRED, PB_HTYPE_OPTIONAL, PB_HTYPE_REPEATED, PB_HTYPE_ONEOF}"
proof -
  have c: "(0x30 :: u8) = push_bit 4 (mask 2)" by (simp add: mask_numeral)
  have "x AND 0x30 = push_bit 4 (take_bit 2 (drop_bit 4 x))" unfolding c
    by (rule bit_word_eqI) (auto simp: bit_simps)
  moreover have "unat (take_bit 2 (drop_bit 4 x)) < 4" using take_bit_nat_less_exp [of 2 "unat (drop_bit 4 x)"] unfolding unsigned_take_bit_eq by simp
  then have "unat (take_bit 2 (drop_bit 4 x)) \<in> {0, 1, 2, 3}" by auto
  then have "take_bit 2 (drop_bit 4 x) \<in> {0, 1, 2, 3}" by (simp add: word_unat_eq_iff)
  ultimately have "x AND 0x30 \<in> {0, 0x10, 0x20, 0x30}" by auto
  then show ?thesis by (simp add: PB_HTYPE_def pb_type_defs)
qed

lemma returns_encoders:
  assumes "\<And>d' src. depth d' < k \<Longrightarrow> returns (rec d' src)" and "schema_field_ok depth k f"
  shows "returns (PB_ENCODERS rec env (PB_LTYPE (ftype f)) f p)"
proof -
  have enc: "returns (pb_enc_varint env f p)" "returns (pb_enc_uvarint env f p)" "returns (pb_enc_svarint env f p)"
    "returns (pb_enc_fixed32 env f p)" "returns (pb_enc_fixed64 env f p)" "returns (pb_enc_bytes env f p)"
    "returns (pb_enc_string env f p)" "returns (pb_enc_fixed_length_bytes env f p)"
    by (simp_all add: pb_enc_varint_def pb_enc_uvarint_def pb_enc_svarint_def pb_enc_fixed32_def pb_enc_fixed64_def
        pb_enc_bytes_def pb_enc_string_def pb_enc_fixed_length_bytes_def Let_def returns_call split: option.split)
  have sub: "returns (pb_enc_submessage rec env f p)" if "PB_LTYPE (ftype f) = PB_LTYPE_SUBMESSAGE"
    using assms that by (cases "fptr f") (simp_all add: pb_enc_submessage_def schema_field_ok_def returns_submessage)
  have "PB_LTYPE (ftype f) \<noteq> PB_LTYPE_EXTENSION" "PB_LTYPE (ftype f) \<le> PB_LTYPE_FIXED_LENGTH_BYTES"
    using assms(2) by (simp_all add: schema_field_ok_def)
  then have "unat (PB_LTYPE (ftype f)) \<le> 9" "unat (PB_LTYPE (ftype f)) \<noteq> 8"
    by (simp_all add: pb_type_defs word_le_nat_alt word_unat_eq_iff)
  then have "unat (PB_LTYPE (ftype f)) \<in> {0, 1, 2, 3, 4, 5, 6, 7, 9}" by auto
  then have "PB_LTYPE (ftype f) \<in> {PB_LTYPE_VARINT, PB_LTYPE_UVARINT, PB_LTYPE_SVARINT, PB_LTYPE_FIXED32, PB_LTYPE_FIXED64,
      PB_LTYPE_BYTES, PB_LTYPE_STRING, PB_LTYPE_SUBMESSAGE, PB_LTYPE_FIXED_LENGTH_BYTES}"
    by (simp add: pb_type_defs word_unat_eq_iff)
  then show ?thesis using enc sub by (elim insertE) (simp_all add: PB_ENCODERS_def)
qed

lemma returns_tag_for_field: "returns (pb_encode_tag_for_field f)"
  by (simp add: pb_encode_tag_for_field_def Let_def returns_call)

lemma returns_encode_array:
  assumes "\<And>p. returns (func f p)"
  shows "returns (encode_array env f data cnt func)"
  unfolding encode_array_def Let_def
  by (intro returns_if returns_nothing returns_call returns_seq returns_packed_items returns_packed returns_array_loop
      returns_tag_for_field assms)

lemma returns_encode_field:
  assumes "schema_ok (descriptors env) depth" and "\<And>d' src. depth d' < k \<Longrightarrow> returns (rec d' src)"
    and "schema_field_ok depth k f" and "k < n" and "\<And>fn f arg. returns (encode_funcs env fn f arg)"
  shows "returns (encode_field n rec env f data)"
proof -
  note func = returns_encoders [of depth k rec, OF assms(2,3)]
  obtain b where b: "(if size_offset f = 0 \<and> PB_HTYPE (ftype f) = PB_HTYPE_OPTIONAL
      then pb_check_proto3_default_value n env f data else Some False) = Some b"
    using default_value_returns [OF assms(1,3,4), of data] by (cases "size_offset f = 0 \<and> PB_HTYPE (ftype f) = PB_HTYPE_OPTIONAL") auto
  have oneof: "\<lbrakk>PB_HTYPE (ftype f) \<noteq> PB_HTYPE_REQUIRED; PB_HTYPE (ftype f) \<noteq> PB_HTYPE_OPTIONAL;
      PB_HTYPE (ftype f) \<noteq> PB_HTYPE_REPEATED; size_offset f = 0\<rbrakk> \<Longrightarrow> returns no_meaning"
    using assms(3) PB_HTYPE_cases [of "ftype f"] by (auto simp: schema_field_ok_def)
  have basic: "returns (encode_basic_field n rec env f data)"
    unfolding encode_basic_field_def Let_def b option.case
    by (intro returns_if returns_call returns_nothing returns_seq returns_tag_for_field func returns_encode_array oneof)
  have cb: "returns (encode_callback_field env f data)"
    using assms(5) by (auto simp: returns_def encode_callback_field_def nothing_def call_def Let_def simp del: not_None_eq split: option.split)
  show ?thesis unfolding encode_field_def Let_def by (intro returns_if basic cb returns_call)
qed

lemma returns_pb_encode:
  assumes "schema_ok (descriptors env) depth" and "\<And>fn f arg. returns (encode_funcs env fn f arg)"
  shows "depth d + 1 < n \<Longrightarrow> returns (pb_encode n env d src)"
proof (induction n arbitrary: d src)
  case (Suc n)
  have field: "schema_field_ok depth (depth d) f" if "f \<in> set (descriptors env d)" for f
    using that assms(1) by (simp add: schema_ok_def)
  have rec: "returns (pb_encode n env d' src')" if "depth d' < depth d" for d' src'
    using that Suc by simp
  have "returns (foldr (\<lambda>it rest. seq
         (if PB_LTYPE (ftype (pos_field it)) = PB_LTYPE_EXTENSION then encode_extension_field n (pb_encode n env) env (pData it)
          else encode_field n (pb_encode n env) env (pos_field it) (pData it)) rest) its nothing)"
    if "set its \<subseteq> set (visited (descriptors env d) src)" for its
    using that
  proof (induction its)
    case (Cons it its)
    then have "schema_field_ok depth (depth d) (pos_field it)"
      using visited_fields assms(1) field by (auto simp: schema_ok_def)
    moreover from this have "PB_LTYPE (ftype (pos_field it)) \<noteq> PB_LTYPE_EXTENSION" by (simp add: schema_field_ok_def)
    moreover have "depth d < n" using Suc.prems by simp
    ultimately show ?case using Cons returns_encode_field [OF assms(1) rec _ _ assms(2)] by (simp add: returns_seq)
  qed (simp add: returns_nothing)
  then show ?case by (simp add: message_body_def)
qed simp

section \<open>Properties\<close>

text \<open>The result of an encoding into a buffer of a given size.\<close>

definition fills :: "'s enc \<Rightarrow> nat \<Rightarrow> u8 list \<Rightarrow> bool" where
  "fills p bufsize bs \<longleftrightarrow>
     (if length bs \<le> bufsize
      then p (pb_ostream_from_buffer bufsize) =
        Some (Some (), \<lparr>os_sink = Out_Buffer bs, max_size = bufsize, bytes_written = length bs, os_errmsg = None\<rparr>)
      else \<exists>k s'. p (pb_ostream_from_buffer bufsize) = Some (None, s') \<and> os_sink s' = Out_Buffer (take k bs) \<and> k \<le> bufsize)"

lemma emits_fills:
  assumes "emits p bs" and "length bs \<le> SIZE_MAX"
  shows "fills p bufsize bs"
proof -
  have f: "fresh_sink [] (pb_ostream_from_buffer bufsize) (length bs)"
    using assms(2) by (simp add: fresh_sink_def pb_ostream_from_buffer_def)
  show ?thesis
  proof (cases "length bs \<le> bufsize")
    case True
    then show ?thesis using emits_put [OF assms(1) f] by (simp add: fills_def put_def pb_ostream_from_buffer_def)
  next
    case False
    then obtain k s' where "p (pb_ostream_from_buffer bufsize) = Some (None, s')" "os_sink s' = Out_Buffer (take k bs)"
      "k \<le> bufsize"
      using emits_cut [OF assms(1) f] by (auto simp: cut_short_def pb_ostream_from_buffer_def)
    then show ?thesis using False unfolding fills_def by auto
  qed
qed

lemma length_leb_mod: "length (leb (n mod 2 ^ 64)) \<le> 10"
proof (rule length_leb_le)
  have "n mod 2 ^ 64 < 2 ^ 64" by simp
  then show "n mod 2 ^ 64 < 128 ^ 10" by simp
qed simp

text \<open>C12: The size that nanopb announces is the size that it writes.  Whatever the message and its descriptors, and
  with callbacks that write the same on every stream: if \<^verbatim>\<open>pb_get_encoded_size\<close> returns a size, then there
  is one byte string of that size (modulo 2^64) which \<^verbatim>\<open>pb_encode\<close> writes into every buffer that holds
  it, \<^verbatim>\<open>pb_encode_delimited\<close> writes after its length and \<^verbatim>\<open>pb_encode_nullterminated\<close> before a zero byte.  In
  a smaller buffer they return an error and have written a part of it inside the buffer.\<close>

theorem encoded_size_exact:
  assumes "well_behaved env" and "pb_get_encoded_size n env d src = Some (Some sz)"
  shows "\<exists>bs. sz = length bs mod 2 ^ 64 \<and>
    (length bs + 10 \<le> SIZE_MAX \<longrightarrow> (\<forall>bufsize.
      fills (pb_encode n env d src) bufsize bs \<and>
      fills (pb_encode_delimited n env d src) bufsize (leb sz @ bs) \<and>
      fills (pb_encode_nullterminated n env d src) bufsize (bs @ [0])))"
proof -
  let ?p = "pb_encode n env d src"
  have "\<not> refuses ?p"
    using assms(2) counting_SIZING
    by (auto simp: pb_get_encoded_size_def refuses_def counting_def split: option.splits)
  then obtain bs where bs: "emits ?p bs" using definite_pb_encode [OF assms(1)] unfolding definite_def by blast
  have sz: "sz = length bs mod 2 ^ 64"
    using sizing_result [OF bs] assms(2) by (auto simp: pb_get_encoded_size_def)
  have deli: "emits (pb_encode_delimited n env d src) (leb sz @ bs)"
    unfolding pb_encode_delimited_def sz by (rule emits_submessage [OF bs])
  have null: "emits (pb_encode_nullterminated n env d src) (bs @ [0])"
    unfolding pb_encode_nullterminated_def by (intro emits_seq bs emits_write) simp
  have "length (leb sz) \<le> 10" unfolding sz by (rule length_leb_mod)
  then have "fills ?p bufsize bs \<and> fills (pb_encode_delimited n env d src) bufsize (leb sz @ bs) \<and>
      fills (pb_encode_nullterminated n env d src) bufsize (bs @ [0])" if "length bs + 10 \<le> SIZE_MAX" for bufsize
    using that by (intro conjI emits_fills bs deli null) simp_all
  then show ?thesis using sz by blast
qed

text \<open>A struct with the numbers 150 and 5 at its two members.\<close>

definition example_memory :: "nat \<Rightarrow> u8" where
  "example_memory a = (if a = 100 then 150 else if a = 108 then 5 else 0)"

definition example_env :: "unit pb_env" where
  "example_env = \<lparr>memory = example_memory, descriptors = (\<lambda>d. if d = 0 then example_fields else []),
     encode_funcs = (\<lambda>_ _ _. nothing), ext_types = (\<lambda>_. \<lparr>ext_encode = None, ext_arg = PB_LAST_FIELD\<rparr>)\<rparr>"

lemma example_well_behaved: "well_behaved example_env"
  by (simp add: well_behaved_def example_env_def definite_simple)

theorem encoded_size_exact_witness:
  "\<exists>bs. 5 = length bs mod 2 ^ 64 \<and>
    (length bs + 10 \<le> SIZE_MAX \<longrightarrow> (\<forall>bufsize.
      fills (pb_encode 2 example_env 0 100) bufsize bs \<and>
      fills (pb_encode_delimited 2 example_env 0 100) bufsize (leb 5 @ bs) \<and>
      fills (pb_encode_nullterminated 2 example_env 0 100) bufsize (bs @ [0])))"
proof (rule encoded_size_exact [OF example_well_behaved])
  show "pb_get_encoded_size 2 example_env 0 100 = Some (Some 5)" by code_simp
qed

text \<open>C14: An encoding comes back.  For a schema whose submessages nest to a given depth, without extensions and with
  callbacks that return, \<^verbatim>\<open>pb_encode\<close> returns a result on every stream and for every content of memory:
  the recursion into submessages, for the size, for the bytes and for the default values, is bounded by
  that depth.\<close>

theorem pb_encode_returns:
  assumes "schema_ok (descriptors env) depth" and "\<forall>fn f arg. returns (encode_funcs env fn f arg)"
  shows "\<exists>r s'. pb_encode (depth d + 2) env d src s = Some (r, s')"
  using returns_pb_encode [OF assms(1), of d "depth d + 2" src] assms(2) by (auto simp: returns_def)

theorem pb_encode_returns_witness: "\<exists>r s'. pb_encode 2 example_env 0 100 PB_OSTREAM_SIZING = Some (r, s')"
proof -
  have "\<forall>f \<in> set example_fields. schema_field_ok (\<lambda>_. 0) 0 f" by code_simp
  then have "schema_ok (descriptors example_env) (\<lambda>_. 0)"
    using example_fields_ok(1) by (simp add: schema_ok_def example_env_def fields_ok_def)
  from pb_encode_returns [OF this, of 0 100] show ?thesis
    by (simp add: example_env_def returns_nothing numeral_2_eq_2)
qed

text \<open>
  The check for a default value compares \<^verbatim>\<open>data_size\<close> bytes at the member.  For a pointer, \<^verbatim>\<open>data_size\<close> is
  the size of what it points to, and the member has 8 bytes: the result for a null pointer to a larger
  object depends on bytes outside the member.
\<close>

definition pointer_field :: pb_field where
  "pointer_field = \<lparr>tag = 1, ftype = PB_ATYPE_POINTER OR PB_HTYPE_OPTIONAL OR PB_LTYPE_SUBMESSAGE, data_offset = 0,
     size_offset = 0, data_size = 9, array_size = 0, fptr = Ptr_fields 1\<rparr>"

lemma default_check_reads_past_pointer:
  "pb_check_proto3_default_value 1 (example_env\<lparr>memory := \<lambda>_. 0\<rparr>) pointer_field 200 = Some True"
  "pb_check_proto3_default_value 1 (example_env\<lparr>memory := (\<lambda>_. 0)(208 := 1)\<rparr>) pointer_field 200 = Some False"
  "member_size pointer_field = 8"
  by code_simp+

end
