(* ===== verification/Pb_Decode_Safe.thy ===== *)
theory Pb_Decode_Safe
  imports Pb_Decode Pb_Encode_Props
begin

unbundle bit_operations_syntax

text \<open>
  Memory safety and termination of the message decoder.  For descriptors whose fields are all in the
  struct itself, decoding comes back on every input, reads and writes only inside the struct that it is
  given and its own local variables, and changes nothing else.  The proofs follow the code with rules
  for a judgement \<open>safe S p Q\<close>: from a world in which the ranges \<open>S\<close> belong to live objects, \<open>p\<close> returns,
  changes only \<open>S\<close>, and a result satisfies \<open>Q\<close>.
\<close>

section \<open>Streams only get shorter\<close>

definition shrinks :: "('a, 's pb_istream) step \<Rightarrow> bool" where
  "shrinks p \<longleftrightarrow> (\<forall>s. bytes_left (snd (p s)) \<le> bytes_left s)"

named_theorems shrinks_intros

lemma shrinksD: "shrinks p \<Longrightarrow> p s = (r, s') \<Longrightarrow> bytes_left s' \<le> bytes_left s"
  by (metis shrinks_def snd_conv)

lemma shrinks_and_then [shrinks_intros]:
  assumes "shrinks p" and "\<And>x. shrinks (f x)"
  shows "shrinks (and_then p f)"
proof -
  have "bytes_left (snd (and_then p f s)) \<le> bytes_left s" for s
    using shrinksD [OF assms(1)] assms(2) order_trans
    by (fastforce simp: and_then_def shrinks_def split: prod.split option.split)
  then show ?thesis by (simp add: shrinks_def)
qed

lemma shrinks_ret [shrinks_intros]: "shrinks (ret x)"
  by (simp add: shrinks_def ret_def)

lemma shrinks_error [shrinks_intros]: "shrinks (is_error m)"
  by (simp add: shrinks_def is_error_def)

lemma shrinks_if [shrinks_intros]: "shrinks p \<Longrightarrow> shrinks q \<Longrightarrow> shrinks (if c then p else q)"
  by simp

lemma shrinks_read [shrinks_intros]: "shrinks (pb_read n)"
  by (auto simp: shrinks_def pb_read_def is_error_def split: in_source.split prod.split option.split)

lemma shrinks_readbyte [shrinks_intros]: "shrinks pb_readbyte"
  by (auto simp: shrinks_def pb_readbyte_def is_error_def split: in_source.split prod.split option.split)

lemma shrinks_skip_blocks: "bytes_left (snd (skip_blocks n s)) \<le> bytes_left s" for s :: "'s pb_istream"
proof (induction n arbitrary: s rule: less_induct)
  case (less n)
  have "shrinks (skip_blocks n :: (unit, 's pb_istream) step)"
  proof (cases "16 < n")
    case True
    then have "shrinks (skip_blocks (n - 16) :: (unit, 's pb_istream) step)" using less by (simp add: shrinks_def)
    then show ?thesis using True by (subst skip_blocks.simps) (auto intro!: shrinks_intros)
  next
    case False
    then show ?thesis by (subst skip_blocks.simps) (auto intro!: shrinks_intros)
  qed
  then show ?case by (simp add: shrinks_def)
qed

lemma shrinks_skip [shrinks_intros]: "shrinks (pb_skip n)"
proof -
  have "shrinks (and_then (pb_read n) (\<lambda>_. ret ()))" by (intro shrinks_intros)
  then show ?thesis using shrinks_skip_blocks by (auto simp: shrinks_def pb_skip_def split: in_source.split)
qed

lemma varint32_loop_left: "bytes_left (snd (varint32_loop v b s)) \<le> bytes_left s"
proof (induction v b s rule: varint32_loop.induct)
  case (1 v b s)
  show ?case
    using 1 shrinksD [OF shrinks_readbyte, of s]
    by (subst varint32_loop.simps)
      (fastforce simp: is_error_def Let_def split: prod.split option.split dest: order_trans)
qed

lemma varint32_eof_left:
  "pb_decode_varint32_eof s = (r, e, s') \<Longrightarrow> bytes_left s' \<le> bytes_left s \<and> (r \<noteq> None \<longrightarrow> bytes_left s' < bytes_left s)"
proof -
  assume a: "pb_decode_varint32_eof s = (r, e, s')"
  obtain b s1 where b: "pb_readbyte s = (b, s1)" by fastforce
  have l: "bytes_left s1 \<le> bytes_left s" using shrinksD [OF shrinks_readbyte b] .
  have l': "b \<noteq> None \<Longrightarrow> bytes_left s1 < bytes_left s" using pb_readbyte_left b by blast
  have v: "varint32_loop v 7 s1 = (x, s2) \<Longrightarrow> bytes_left s2 \<le> bytes_left s1" for v x s2
    using varint32_loop_left [of v 7 s1] by simp
  show ?thesis using a b l l'
    by (fastforce simp: pb_decode_varint32_eof_def is_error_def split: option.splits prod.splits if_splits dest: v)
qed

lemma shrinks_varint32 [shrinks_intros]: "shrinks pb_decode_varint32"
  using varint32_eof_left by (fastforce simp: shrinks_def pb_decode_varint32_def split: prod.split)

lemma varint_dec_loop_left: "bytes_left (snd (varint_dec_loop v b s)) \<le> bytes_left s"
proof (induction v b s rule: varint_dec_loop.induct)
  case (1 v b s)
  show ?case
    using 1 shrinksD [OF shrinks_readbyte, of s]
    by (subst varint_dec_loop.simps)
      (fastforce simp: is_error_def Let_def split: prod.split option.split dest: order_trans)
qed

lemma shrinks_varint [shrinks_intros]: "shrinks pb_decode_varint"
  using varint_dec_loop_left by (auto simp: shrinks_def pb_decode_varint_def)

lemma shrinks_svarint [shrinks_intros]: "shrinks pb_decode_svarint"
  unfolding pb_decode_svarint_def by (intro shrinks_intros)

lemma shrinks_fixed [shrinks_intros]: "shrinks pb_decode_fixed32" "shrinks pb_decode_fixed64"
  unfolding pb_decode_fixed32_def pb_decode_fixed64_def by (intro shrinks_intros)+

lemma skip_varint_left: "bytes_left (snd (pb_skip_varint s)) \<le> bytes_left s"
proof (induction s rule: pb_skip_varint.induct)
  case (1 s)
  show ?case
    using 1 shrinksD [OF shrinks_read, of 1 s]
    by (subst pb_skip_varint.simps) (fastforce split: prod.split option.split dest: order_trans)
qed

lemma shrinks_skip_field [shrinks_intros]: "shrinks (pb_skip_field t :: (unit, 's pb_istream) step)"
proof -
  have "shrinks (pb_skip_varint :: (unit, 's pb_istream) step)" by (simp add: shrinks_def skip_varint_left)
  moreover have "shrinks (pb_skip_string :: (unit, 's pb_istream) step)" unfolding pb_skip_string_def by (intro shrinks_intros)
  ultimately show ?thesis by (cases t) (simp_all add: pb_skip_field_def shrinks_intros)
qed

lemma shrinks_make_substream [shrinks_intros]: "shrinks pb_make_string_substream"
proof -
  have "shrinks (\<lambda>s. if bytes_left s < unat sz then is_error m s
      else (Some (s\<lparr>bytes_left := unat sz\<rparr>), s\<lparr>bytes_left := bytes_left s - unat sz\<rparr>))" for m and sz :: u32
    by (simp add: shrinks_def is_error_def)
  then show ?thesis unfolding pb_make_string_substream_def by (intro shrinks_intros)
qed

lemma shrinks_close_substream [shrinks_intros]: "shrinks (pb_close_string_substream sub)"
  by (auto simp: shrinks_def pb_close_string_substream_def split: option.split prod.split)

lemma decode_tag_left:
  "pb_decode_tag s = (r, e, s') \<Longrightarrow> bytes_left s' \<le> bytes_left s \<and> (r \<noteq> None \<longrightarrow> bytes_left s' < bytes_left s)"
  using varint32_eof_left by (fastforce simp: pb_decode_tag_def split: prod.splits option.splits if_splits)

text \<open>The decoders of the packable types take at least a byte.\<close>

lemma varint_takes_byte: "pb_decode_varint s = (Some v, s') \<Longrightarrow> bytes_left s' < bytes_left s"
proof -
  assume a: "pb_decode_varint s = (Some v, s')"
  then obtain b s1 where b: "pb_readbyte s = (Some b, s1)"
    by (auto simp: pb_decode_varint_def varint_dec_loop.simps [of 0 0 s] split: prod.splits option.splits)
  then have "s' = s1 \<or> (\<exists>u. varint_dec_loop u 7 s1 = (Some v, s'))"
    using a by (auto simp: pb_decode_varint_def varint_dec_loop.simps [of 0 0 s] Let_def split: if_splits)
  then have "bytes_left s' \<le> bytes_left s1" using varint_dec_loop_left [of _ 7 s1] by (metis order_refl snd_conv)
  then show ?thesis using pb_readbyte_left [OF b] by simp
qed

lemma fixed_takes_byte:
  "pb_decode_fixed32 s = (Some v, s') \<Longrightarrow> bytes_left s' < bytes_left s"
  "pb_decode_fixed64 s = (Some w, s') \<Longrightarrow> bytes_left s' < bytes_left s"
  using pb_read_left [of 4 s] pb_read_left [of 8 s] by (auto simp: pb_decode_fixed32_def pb_decode_fixed64_def)

lemma svarint_takes_byte: "pb_decode_svarint s = (Some v, s') \<Longrightarrow> bytes_left s' < bytes_left s"
  using varint_takes_byte by (fastforce simp: pb_decode_svarint_def split: if_splits)

section \<open>Changes confined to given ranges\<close>

definition covers :: "(nat \<times> nat) set \<Rightarrow> nat \<Rightarrow> nat \<Rightarrow> bool" where
  "covers S a n \<longleftrightarrow> n = 0 \<or> (\<exists>(b, m) \<in> S. b \<le> a \<and> a + n \<le> b + m)"

definition avail :: "(nat \<times> nat) set \<Rightarrow> 's pb_world \<Rightarrow> bool" where
  "avail S w \<longleftrightarrow> (\<forall>(a, n) \<in> S. inside w a n \<and> (n = 0 \<or> a + n \<le> heap_top w))"

definition keeps :: "(nat \<times> nat) set \<Rightarrow> 's pb_world \<Rightarrow> 's pb_world \<Rightarrow> bool" where
  "keeps S w w' \<longleftrightarrow> objs w' = objs w \<and> heap w' = heap w \<and> heap_top w \<le> heap_top w' \<and>
     bytes_left (stream w') \<le> bytes_left (stream w) \<and>
     (\<forall>i < heap_top w. (\<forall>(a, n) \<in> S. \<not> (a \<le> i \<and> i < a + n)) \<longrightarrow> ram w' i = ram w i)"

definition safe :: "(nat \<times> nat) set \<Rightarrow> ('a, 's) dec \<Rightarrow> ('a \<Rightarrow> bool) \<Rightarrow> bool" where
  "safe S p Q \<longleftrightarrow>
     (\<forall>w. avail S w \<longrightarrow> (\<exists>r w'. p w = Some (r, w') \<and> keeps S w w' \<and> (\<forall>x. r = Some x \<longrightarrow> Q x)))"

abbreviation any :: "'a \<Rightarrow> bool" where
  "any \<equiv> (\<lambda>_. True)"

named_theorems safe_intros

lemma keeps_refl [simp]: "keeps S w w"
  by (simp add: keeps_def)

lemma keeps_trans: "keeps S w w' \<Longrightarrow> keeps S w' w'' \<Longrightarrow> keeps S w w''"
  by (auto simp: keeps_def)

lemma inside_objects: "objs w' = objs w \<Longrightarrow> heap w' = heap w \<Longrightarrow> inside w' a n = inside w a n"
  by (simp add: inside_def)

lemma keeps_avail: "keeps S w w' \<Longrightarrow> avail T w \<Longrightarrow> avail T w'"
proof -
  assume k: "keeps S w w'" and a: "avail T w"
  have i: "inside w' b n = inside w b n" for b n using k by (intro inside_objects) (simp_all add: keeps_def)
  have t: "heap_top w \<le> heap_top w'" using k by (simp add: keeps_def)
  have "inside w' b n \<and> (n = 0 \<or> b + n \<le> heap_top w')" if "(b, n) \<in> T" for b n
  proof -
    have "inside w b n \<and> (n = 0 \<or> b + n \<le> heap_top w)" using bspec [OF a [unfolded avail_def] that] by simp
    then show ?thesis unfolding i using t by linarith
  qed
  then show ?thesis unfolding avail_def by blast
qed

lemma inside_part: "inside w b m \<Longrightarrow> b \<le> a \<Longrightarrow> a + n \<le> b + m \<Longrightarrow> inside w a n"
proof -
  assume i: "inside w b m" "b \<le> a" "a + n \<le> b + m"
  show ?thesis
  proof (cases "n = 0")
    case False
    then have "m \<noteq> 0" using i by linarith
    then obtain c sz where "(c, sz) \<in> set (objs w @ heap w)" "c \<le> b" "b + m \<le> c + sz"
      using i(1) unfolding inside_def by blast
    then show ?thesis using i(2,3) unfolding inside_def by (intro disjI2 bexI [of _ "(c, sz)"]) simp_all
  qed (simp add: inside_def)
qed

lemma covers_inside:
  assumes "covers S a n" and "avail S w"
  shows "inside w a n"
proof (cases "n = 0")
  case False
  then obtain b m where b: "(b, m) \<in> S" "b \<le> a" "a + n \<le> b + m" using assms(1) unfolding covers_def by blast
  then have "inside w b m" using bspec [OF assms(2) [unfolded avail_def] b(1)] by simp
  then show ?thesis using b(2,3) by (rule inside_part)
qed (simp add: inside_def)

lemma covers_part: "covers S a n \<Longrightarrow> a \<le> b \<Longrightarrow> b + m \<le> a + n \<Longrightarrow> covers S b m"
  by (fastforce simp: covers_def)

lemma safeI:
  "(\<And>w. avail S w \<Longrightarrow> \<exists>r w'. p w = Some (r, w') \<and> keeps S w w' \<and> (\<forall>x. r = Some x \<longrightarrow> Q x)) \<Longrightarrow> safe S p Q"
  by (simp add: safe_def)

lemma safeE:
  assumes "safe S p Q" and "avail S w"
  obtains r w' where "p w = Some (r, w')" "keeps S w w'" "\<And>x. r = Some x \<Longrightarrow> Q x"
  using assms unfolding safe_def by blast

lemma safe_weaken: "safe S p Q \<Longrightarrow> (\<And>x. Q x \<Longrightarrow> R x) \<Longrightarrow> safe S p R"
  unfolding safe_def by blast

lemma safe_any: "safe S p Q \<Longrightarrow> safe S p any"
  by (erule safe_weaken) simp

lemma safe_give [safe_intros]: "Q x \<Longrightarrow> safe S (give x) Q"
  by (simp add: safe_def give_def)

lemma safe_fails [safe_intros]: "safe S fails Q"
  by (simp add: safe_def fails_def)

lemma safe_bnd:
  fixes p :: "('a, 's) dec"
  assumes "safe S p Q" and "\<And>x. Q x \<Longrightarrow> safe S (f x) R"
  shows "safe S (bnd p f) R"
proof (rule safeI)
  fix w :: "'s pb_world" assume w: "avail S w"
  obtain r w1 where p: "p w = Some (r, w1)" "keeps S w w1" "\<And>x. r = Some x \<Longrightarrow> Q x" using safeE [OF assms(1) w] by blast
  show "\<exists>r w'. bnd p f w = Some (r, w') \<and> keeps S w w' \<and> (\<forall>x. r = Some x \<longrightarrow> R x)"
  proof (cases r)
    case (Some x)
    obtain r2 w2 where "f x w1 = Some (r2, w2)" "keeps S w1 w2" "\<And>x. r2 = Some x \<Longrightarrow> R x"
      using safeE [OF assms(2) [OF p(3) [OF Some]] keeps_avail [OF p(2) w]] by blast
    then show ?thesis using p(1) Some keeps_trans [OF p(2)] by (simp add: bnd_def)
  qed (simp add: bnd_def p(1,2))
qed

lemma safe_bnd_any [safe_intros]: "safe S p any \<Longrightarrow> (\<And>x. safe S (f x) R) \<Longrightarrow> safe S (bnd p f) R"
  by (rule safe_bnd)

lemma safe_also_do [safe_intros]: "safe S p any \<Longrightarrow> safe S q R \<Longrightarrow> safe S (also_do p q) R"
  unfolding also_do_def by (rule safe_bnd)

lemma safe_if [safe_intros]:
  "(c \<Longrightarrow> safe S p Q) \<Longrightarrow> (\<not> c \<Longrightarrow> safe S q Q) \<Longrightarrow> safe S (if c then p else q) Q"
  by simp

lemma safe_only_if [safe_intros]: "(c \<Longrightarrow> safe S p any) \<Longrightarrow> safe S (only_if c p) any"
  by (simp add: only_if_def safe_give)

lemma safe_rd [safe_intros]: "shrinks p \<Longrightarrow> safe S (rd p) any"
  by (rule safeI) (auto simp: rd_def keeps_def dest: shrinksD split: prod.split)

lemma safe_attempt [safe_intros]: "safe S p any \<Longrightarrow> safe S (attempt p) any"
  by (rule safeI, erule (1) safeE) (auto simp: attempt_def)

lemma safe_on_stream [safe_intros]:
  fixes p :: "('a, 's) dec"
  assumes "safe S p any"
  shows "safe S (on_stream sub p) any"
proof (rule safeI)
  fix w :: "'s pb_world" assume "avail S w"
  then have "avail S (w\<lparr>stream := sub\<rparr>)" by (simp add: avail_def inside_def)
  then obtain r w' where "p (w\<lparr>stream := sub\<rparr>) = Some (r, w')" "keeps S (w\<lparr>stream := sub\<rparr>) w'"
    using safeE [OF assms] by blast
  then show "\<exists>r w'. on_stream sub p w = Some (r, w') \<and> keeps S w w' \<and> (\<forall>x. r = Some x \<longrightarrow> True)"
    by (simp add: on_stream_def keeps_def)
qed

lemma safe_get_bytes [safe_intros]: "covers S a n \<Longrightarrow> safe S (get_bytes a n) any"
  by (rule safeI) (simp add: get_bytes_def covers_inside)

lemma safe_get_nat [safe_intros]: "covers S a n \<Longrightarrow> safe S (get_nat n a) any"
  unfolding get_nat_def by (intro safe_intros TrueI)

lemma safe_get_size [safe_intros]: "covers S a 4 \<Longrightarrow> safe S (get_size a) any"
  unfolding get_size_def by (intro safe_intros)

lemma safe_put_bytes [safe_intros]:
  assumes "covers S a (length bs)"
  shows "safe S (put_bytes a bs :: (unit, 's) dec) any"
proof (rule safeI)
  fix w :: "'s pb_world" assume w: "avail S w"
  have "ram w i = write_bytes a bs (ram w) i" if "\<forall>(b, n) \<in> S. \<not> (b \<le> i \<and> i < b + n)" for i
    using assms that by (fastforce simp: covers_def write_bytes_def)
  then show "\<exists>r w'. put_bytes a bs w = Some (r, w') \<and> keeps S w w' \<and> (\<forall>x. r = Some x \<longrightarrow> True)"
    using covers_inside [OF assms w] by (auto simp: put_bytes_def keeps_def)
qed

lemma length_le_bytes [simp]: "length (le_bytes n v) = n"
  by (induction n arbitrary: v) simp_all

lemma safe_put_size [safe_intros]: "covers S a 4 \<Longrightarrow> safe S (put_size a v) any"
  unfolding put_size_def by (intro safe_intros) simp

lemma safe_put_bool [safe_intros]: "covers S a 1 \<Longrightarrow> safe S (put_bool a v) any"
  unfolding put_bool_def by (intro safe_intros) simp

lemma safe_memset0 [safe_intros]: "covers S a n \<Longrightarrow> safe S (memset0 a n) any"
  unfolding memset0_def by (intro safe_intros) simp

lemma safe_read_into [safe_intros]:
  assumes "covers S a n"
  shows "safe S (read_into a n :: (unit, 's) dec) any"
proof -
  have "covers S a (length (take n bs))" for bs :: "u8 list" using assms by (rule covers_part) simp_all
  then have "safe S (bnd (rd (pb_read n)) (\<lambda>bs. put_bytes a (take n bs)) :: (unit, 's) dec) any"
    by (intro safe_intros shrinks_intros)
  then show ?thesis unfolding safe_def read_into_def by (simp add: covers_inside [OF assms])
qed

lemma safe_times [safe_intros]:
  "(\<And>i. i < n \<Longrightarrow> safe S (p (a + i * k)) any) \<Longrightarrow> safe S (times_dec n p k a) any"
proof (induction n arbitrary: a)
  case (Suc n)
  have "safe S (p a) any" using Suc.prems [of 0] by simp
  moreover have "safe S (times_dec n p k (a + k)) any"
    using Suc.prems [of "Suc _"] by (intro Suc.IH) (simp add: algebra_simps)
  ultimately show ?case by (simp add: safe_also_do)
qed (simp add: safe_give)

lemma safe_each [safe_intros]: "(\<And>x. x \<in> set xs \<Longrightarrow> safe S (p x) any) \<Longrightarrow> safe S (each_dec p xs) any"
  by (induction xs) (simp_all add: safe_give safe_also_do)

text \<open>A loop whose rounds go on only after taking a byte of the stream.\<close>

lemma safe_loop:
  fixes b :: "'st \<Rightarrow> ('st + 'r, 's) dec"
  assumes "\<And>st. I st \<Longrightarrow> safe S (b st) (\<lambda>r. case r of Inl st' \<Rightarrow> I st' | Inr x \<Rightarrow> Q x)"
    and "\<And>st w st' w'. \<lbrakk>I st; avail S w; b st w = Some (Some (Inl st'), w')\<rbrakk> \<Longrightarrow> bytes_left (stream w') < bytes_left (stream w)"
    and "I st"
  shows "safe S (loop_dec b st) Q"
proof (rule safeI)
  fix w :: "'s pb_world" assume "avail S w"
  then show "\<exists>r w'. loop_dec b st w = Some (r, w') \<and> keeps S w w' \<and> (\<forall>x. r = Some x \<longrightarrow> Q x)" using assms(3)
  proof (induction "bytes_left (stream w)" arbitrary: st w rule: less_induct)
    case less
    obtain r w1 where b: "b st w = Some (r, w1)" "keeps S w w1"
      "\<And>x. r = Some x \<Longrightarrow> (case x of Inl st' \<Rightarrow> I st' | Inr x \<Rightarrow> Q x)"
      using safeE [OF assms(1) [OF less.prems(2)] less.prems(1)] by blast
    show ?case
    proof (cases "\<exists>st'. r = Some (Inl st')")
      case True
      then obtain st' where st': "r = Some (Inl st')" by blast
      have "bytes_left (stream w1) < bytes_left (stream w)" using assms(2) less.prems b(1) st' by blast
      then obtain r2 w2 where "loop_dec b st' w1 = Some (r2, w2)" "keeps S w1 w2" "\<forall>x. r2 = Some x \<longrightarrow> Q x"
        using less.hyps [of w1 st'] keeps_avail [OF b(2) less.prems(1)] b(3) [OF st'] by auto
      then show ?thesis using b(1) st' keeps_trans [OF b(2)] by (subst loop_dec.simps) simp
    next
      case False
      then show ?thesis using b by (subst loop_dec.simps) (auto split: option.split sum.split)
    qed
  qed
qed

text \<open>The object of an automatic variable is new and goes away.\<close>

lemma safe_with_local:
  fixes p :: "nat \<Rightarrow> ('a, 's) dec"
  assumes "\<And>a. safe (insert (a, n) S) (p a) Q"
  shows "safe S (with_local n p) Q"
proof (rule safeI)
  fix w :: "'s pb_world" assume w: "avail S w"
  let ?a = "heap_top w"
  let ?w = "w\<lparr>objs := (?a, n) # objs w, heap_top := ?a + n + 1\<rparr>"
  have "avail (insert (?a, n) S) ?w" using w by (fastforce simp: avail_def inside_def)
  then obtain r w' where "p ?a ?w = Some (r, w')" "keeps (insert (?a, n) S) ?w w'" "\<And>x. r = Some x \<Longrightarrow> Q x"
    using safeE [OF assms] by blast
  then show "\<exists>r w'. with_local n p w = Some (r, w') \<and> keeps S w w' \<and> (\<forall>x. r = Some x \<longrightarrow> Q x)"
    by (auto simp: with_local_def Let_def keeps_def)
qed

section \<open>Structs without pointers\<close>

text \<open>
  What the descriptor of a static field at offset \<open>off\<close> of a struct of size \<open>sz\<close> says: the member, its
  \<^verbatim>\<open>has\<close>, count or \<^verbatim>\<open>which\<close> member and the default value are where the decoder will look for them.  An array
  of fixed count must have room for the \<^verbatim>\<open>pb_size_t\<close> that \<^verbatim>\<open>pb_field_set_to_default\<close> writes over it.
\<close>

definition has_room :: "nat \<Rightarrow> nat \<Rightarrow> int \<Rightarrow> nat \<Rightarrow> bool" where
  "has_room sz off delta n \<longleftrightarrow> 0 \<le> int off + delta \<and> int off + delta + int n \<le> int sz"

definition static_type :: "(nat \<Rightarrow> nat) \<Rightarrow> (nat \<Rightarrow> nat) \<Rightarrow> nat \<Rightarrow> pb_field \<Rightarrow> bool" where
  "static_type depth sizes k f \<longleftrightarrow>
     PB_ATYPE (ftype f) = PB_ATYPE_STATIC \<and> PB_LTYPE (ftype f) \<le> PB_LTYPE_FIXED_LENGTH_BYTES \<and>
     PB_LTYPE (ftype f) \<noteq> PB_LTYPE_EXTENSION \<and>
     (PB_LTYPE (ftype f) = PB_LTYPE_FIXED32 \<longrightarrow> 4 \<le> data_size f) \<and>
     (PB_LTYPE (ftype f) = PB_LTYPE_FIXED64 \<longrightarrow> 8 \<le> data_size f) \<and>
     (if PB_LTYPE (ftype f) = PB_LTYPE_SUBMESSAGE
      then case fptr f of Ptr_fields d \<Rightarrow> depth d < k \<and> sizes d \<le> data_size f | _ \<Rightarrow> False
      else case fptr f of Ptr_fields _ \<Rightarrow> False | Ptr_default bs \<Rightarrow> data_size f \<le> length bs | Ptr_none \<Rightarrow> True)"

definition static_field :: "(nat \<Rightarrow> nat) \<Rightarrow> (nat \<Rightarrow> nat) \<Rightarrow> nat \<Rightarrow> nat \<Rightarrow> nat \<Rightarrow> pb_field \<Rightarrow> bool" where
  "static_field depth sizes k sz off f \<longleftrightarrow>
     static_type depth sizes k f \<and> off + member_size f \<le> sz \<and>
     (PB_HTYPE (ftype f) = PB_HTYPE_OPTIONAL \<longrightarrow> size_offset f \<noteq> 0 \<longrightarrow> has_room sz off (size_offset f) 1) \<and>
     (PB_HTYPE (ftype f) \<in> {PB_HTYPE_REPEATED, PB_HTYPE_ONEOF} \<longrightarrow> has_room sz off (size_offset f) 4)"

definition static_schema :: "(nat \<Rightarrow> pb_field list) \<Rightarrow> (nat \<Rightarrow> nat) \<Rightarrow> (nat \<Rightarrow> nat) \<Rightarrow> (nat \<Rightarrow> nat list) \<Rightarrow> bool" where
  "static_schema ds depth sizes offs \<longleftrightarrow>
     (\<forall>d. fields_ok (ds d) \<and> describes (ds d) (offs d) \<and> sizes d < 2 ^ 32 \<and>
        (\<forall>i < length (ds d). static_field depth sizes (depth d) (sizes d) (offs d ! i) (ds d ! i)))"

text \<open>
  An iterator that stands at a field of the struct at \<open>dest\<close>; for an array of fixed count, \<^verbatim>\<open>pSize\<close> may point
  to the local variable at \<open>cell\<close>.  The array of an empty message has its terminator only.
\<close>

definition iter_in :: "pb_field list \<Rightarrow> nat \<Rightarrow> nat \<Rightarrow> pb_field_iter \<Rightarrow> bool" where
  "iter_in fs dest cell it \<longleftrightarrow>
     (\<exists>k. (k < length fs \<or> k = 0) \<and>
        (it = iter_at fs dest k \<or>
         PB_HTYPE (ftype (field_at fs k)) = PB_HTYPE_REPEATED \<and> it = (iter_at fs dest k)\<lparr>pSize := cell\<rparr>))"

lemma iter_at_in: "k < length fs \<or> k = 0 \<Longrightarrow> iter_in fs dest cell (iter_at fs dest k)"
  unfolding iter_in_def by blast

lemma iter_next_psize:
  assumes "PB_HTYPE (ftype (pos_field it)) = PB_HTYPE_REPEATED"
  shows "snd (pb_field_iter_next (it\<lparr>pSize := c\<rparr>)) = snd (pb_field_iter_next it) \<or> tag (pos_field it) = 0"
  using assms by (simp add: pb_field_iter_next_def Let_def pos_field_def pb_type_defs)

lemma iter_next_in:
  assumes "fields_ok fs" and "k < length fs"
    and "it = iter_at fs dest k \<or> PB_HTYPE (ftype (field_at fs k)) = PB_HTYPE_REPEATED \<and> it = (iter_at fs dest k)\<lparr>pSize := c\<rparr>"
  shows "snd (pb_field_iter_next it) = iter_at fs dest (if Suc k < length fs then Suc k else 0)"
proof -
  have p: "pos_field (iter_at fs dest k) = field_at fs k"
    using iter_at_parts [OF assms(1), of k dest] assms(2) by (simp add: pos_field_def)
  then have "tag (pos_field (iter_at fs dest k)) \<noteq> 0" using tag_field_at [OF assms(1), of k] assms(2) by simp
  then have e: "snd (pb_field_iter_next ((iter_at fs dest k)\<lparr>pSize := c\<rparr>)) = snd (pb_field_iter_next (iter_at fs dest k))"
    if "PB_HTYPE (ftype (field_at fs k)) = PB_HTYPE_REPEATED"
    using iter_next_psize [of "iter_at fs dest k" c] p that by simp
  have "snd (pb_field_iter_next it) = snd (pb_field_iter_next (iter_at fs dest k))"
    using assms(3) by (elim disjE conjE) (simp_all only: e)
  then show ?thesis using iter_next_at [OF assms(1,2), of dest] by (simp del: iter_at.simps)
qed

lemma iter_inE:
  assumes "iter_in fs dest cell it" and "fields_ok fs"
  obtains k where "k < length fs \<or> k = 0" "start it = fs" "pos it = k" "pos_field it = field_at fs k"
    "it = iter_at fs dest k \<or> PB_HTYPE (ftype (field_at fs k)) = PB_HTYPE_REPEATED \<and> it = (iter_at fs dest k)\<lparr>pSize := cell\<rparr>"
proof -
  obtain k where k: "k < length fs \<or> k = 0" "it = iter_at fs dest k \<or>
      PB_HTYPE (ftype (field_at fs k)) = PB_HTYPE_REPEATED \<and> it = (iter_at fs dest k)\<lparr>pSize := cell\<rparr>"
    using assms(1) unfolding iter_in_def by blast
  have "start it = start (iter_at fs dest k)" "pos it = pos (iter_at fs dest k)" using k(2) by auto
  then have "start it = fs" "pos it = k" using iter_at_parts [OF assms(2) k(1), of dest] by simp_all
  then show thesis using that k by (simp add: pos_field_def)
qed

lemma find_in: "List.find P xs = Some x \<Longrightarrow> x \<in> set xs"
  by (auto simp: find_Some_iff)

text \<open>A search stays among these iterators.\<close>

lemma iter_search_in:
  assumes "fields_ok fs" and "iter_in fs dest cell it"
  shows "\<exists>b it'. iter_search ok (pos it) it = Some (b, it') \<and> iter_in fs dest cell it'"
proof -
  obtain k where k: "k < length fs \<or> k = 0" "it = iter_at fs dest k \<or>
      PB_HTYPE (ftype (field_at fs k)) = PB_HTYPE_REPEATED \<and> it = (iter_at fs dest k)\<lparr>pSize := cell\<rparr>"
    and start: "start it = fs" and pos: "pos it = k" using iter_inE [OF assms(2,1)] by metis
  note parts = start iter_at_parts [OF assms(1) k(1), of dest]
  show ?thesis
  proof (cases "k < length fs")
    case False
    then have fs: "fs = []" "k = 0" using k(1) by auto
    have "pb_field_iter_next it = (False, it)"
      using pos parts(1) fs by (simp add: pb_field_iter_next_def Let_def field_at_def PB_LAST_FIELD_def)
    then show ?thesis using assms(2) pos by (subst iter_search.simps) (auto simp: Let_def)
  next
    case True
    let ?k' = "if Suc k < length fs then Suc k else 0"
    have nxt: "snd (pb_field_iter_next it) = iter_at fs dest ?k'" by (rule iter_next_in [OF assms(1) True k(2)])
    have k': "?k' < length fs" using True by auto
    have pos': "pos (iter_at fs dest ?k') = ?k'" using iter_at_parts [OF assms(1), of ?k' dest] k' by blast
    have step: "iter_search ok (pos it) it = (if ok (field_at fs k) then Some (True, it)
        else if ?k' \<noteq> k then iter_search ok k (iter_at fs dest ?k') else Some (False, iter_at fs dest ?k'))"
      using pos parts(1) nxt pos' by (subst iter_search.simps) (simp add: Let_def)
    have round: "iter_search ok k (iter_at fs dest k) = (if ok (field_at fs k) then Some (True, iter_at fs dest k)
        else if ?k' \<noteq> k then iter_search ok k (iter_at fs dest ?k') else Some (False, iter_at fs dest ?k'))"
      using parts(2) iter_next_at [OF assms(1) True, of dest] pos' by (subst iter_search.simps) (simp add: Let_def)
    have "hd (from_here k (length fs)) = k" "from_here k (length fs) \<noteq> []"
      using True by (auto simp: from_here_def hd_append)
    then have s: "iter_search ok k (iter_at fs dest k) = Some (case List.find (\<lambda>k. ok (fs ! k)) (from_here k (length fs)) of
        Some k \<Rightarrow> (True, iter_at fs dest k) | None \<Rightarrow> (False, iter_at fs dest k))"
      using iter_search_at [OF assms(1) True, of "from_here k (length fs)" "[]" ok dest] by (simp del: iter_at.simps)
    have "\<exists>b j. iter_search ok k (iter_at fs dest k) = Some (b, iter_at fs dest j) \<and> j < length fs"
    proof (cases "List.find (\<lambda>k. ok (fs ! k)) (from_here k (length fs))")
      case (Some j)
      then have "j < length fs" using find_in [OF Some] True by (auto simp: from_here_def)
      then show ?thesis using s Some by (intro exI [of _ True] exI [of _ j]) simp
    qed (use s True in auto)
    then obtain b j where "iter_search ok k (iter_at fs dest k) = Some (b, iter_at fs dest j)" "j < length fs" by blast
    then show ?thesis using step round iter_at_in [of j fs dest cell] assms(2) iter_at_in [of ?k' fs dest cell] k'
      by (auto split: if_splits simp del: iter_at.simps)
  qed
qed

text \<open>What the functions on one field need of its iterator: the ranges that they touch belong to \<open>S\<close>.\<close>

definition reach :: "(nat \<Rightarrow> nat) \<Rightarrow> (nat \<Rightarrow> nat) \<Rightarrow> (nat \<times> nat) set \<Rightarrow> nat \<Rightarrow> pb_field_iter \<Rightarrow> bool" where
  "reach depth sizes S k it \<longleftrightarrow>
     (let f = pos_field it
      in static_type depth sizes k f \<and> member_size f < 2 ^ 32 \<and> covers S (pData it) (member_size f) \<and>
         (PB_HTYPE (ftype f) = PB_HTYPE_OPTIONAL \<longrightarrow> pSize it \<noteq> pData it \<longrightarrow> covers S (pSize it) 1) \<and>
         (PB_HTYPE (ftype f) \<in> {PB_HTYPE_REPEATED, PB_HTYPE_ONEOF} \<longrightarrow> covers S (pSize it) 4))"

text \<open>The members of a union share the \<^verbatim>\<open>which\<close> member of the first of them.\<close>

lemma iter_at_psize:
  assumes "fields_ok fs" and "describes fs offs"
  shows "k < length fs \<Longrightarrow> \<exists>j < length fs. pSize (iter_at fs d k) = size_addr (d + offs ! j) (fs ! j) \<and>
    (j = k \<or> PB_HTYPE (ftype (fs ! j)) = PB_HTYPE_ONEOF \<and> PB_HTYPE (ftype (fs ! k)) = PB_HTYPE_ONEOF)"
proof (induction k)
  case 0
  then show ?case using assms(2)
    by (intro exI [of _ 0]) (auto simp: pb_field_iter_begin_def Let_def field_at_def describes_def)
next
  case (Suc k)
  have t: "tag (fs ! k) \<noteq> 0" "tag (fs ! Suc k) \<noteq> 0" "field_at fs k = fs ! k" "field_at fs (Suc k) = fs ! Suc k"
    using assms(1) Suc.prems by (auto simp: fields_ok_def field_at_def)
  show ?case
  proof (cases "in_union (fs ! k) (fs ! Suc k)")
    case True
    then have "pSize (iter_at fs d (Suc k)) = pSize (iter_at fs d k)" "PB_HTYPE (ftype (fs ! Suc k)) = PB_HTYPE_ONEOF"
      using iter_at_parts [OF assms(1), of k d] Suc.prems t by (auto simp: pb_field_iter_next_def Let_def in_union_def)
    moreover obtain j where "j < length fs" "pSize (iter_at fs d k) = size_addr (d + offs ! j) (fs ! j)"
      "j = k \<or> PB_HTYPE (ftype (fs ! j)) = PB_HTYPE_ONEOF"
      using Suc.IH Suc.prems by (auto simp del: iter_at.simps)
    moreover have "PB_HTYPE (ftype (fs ! k)) = PB_HTYPE_ONEOF" using True by (simp add: in_union_def)
    ultimately show ?thesis by (intro exI [of _ j]) (auto simp del: iter_at.simps)
  next
    case False
    then have "pSize (iter_at fs d (Suc k)) = size_addr (pData (iter_at fs d (Suc k))) (fs ! Suc k)"
      using iter_at_parts [OF assms(1), of k d] Suc.prems t by (auto simp: pb_field_iter_next_def Let_def in_union_def)
    then show ?thesis using iter_at_address [OF assms Suc.prems, of d] Suc.prems by (intro exI [of _ "Suc k"]) simp
  qed
qed

lemma has_room_covers:
  assumes "covers S dest sz" and "has_room sz off (size_offset f) n"
  shows "covers S (size_addr (dest + off) f) n"
  using assms(2) by (intro covers_part [OF assms(1)]) (auto simp: has_room_def size_addr_def)

lemma schema_fields:
  assumes "static_schema ds depth sizes offs"
  shows "fields_ok (ds d)" "describes (ds d) (offs d)" "sizes d < 2 ^ 32"
    "k < length (ds d) \<Longrightarrow> static_field depth sizes (depth d) (sizes d) (offs d ! k) (ds d ! k)"
  using assms by (auto simp: static_schema_def)

lemma last_field_reach: "pos_field it = PB_LAST_FIELD \<Longrightarrow> reach depth sizes S k it"
  by (simp add: reach_def static_type_def PB_LAST_FIELD_def Let_def member_size_def covers_def PB_ATYPE_def PB_LTYPE_def
      PB_HTYPE_def pb_type_defs)

lemma iter_at_reach:
  assumes "static_schema ds depth sizes offs" and "covers S dest (sizes d)" and "k < length (ds d)"
  shows "reach depth sizes S (depth d) (iter_at (ds d) dest k)"
proof -
  note sch = schema_fields [OF assms(1), where d = d]
  let ?it = "iter_at (ds d) dest k" and ?f = "ds d ! k"
  note sf = sch(4) [OF assms(3)]
  have f: "pos_field ?it = ?f" using iter_at_parts [OF sch(1), of k dest] assms(3) by (simp add: pos_field_def field_at_def)
  have data: "pData ?it = dest + offs d ! k" by (rule iter_at_address [OF sch(1,2) assms(3)])
  have member: "covers S (pData ?it) (member_size ?f)"
    using sf by (intro covers_part [OF assms(2)]) (simp_all add: data static_field_def)
  obtain j where j: "j < length (ds d)" "pSize ?it = size_addr (dest + offs d ! j) (ds d ! j)"
    "j = k \<or> PB_HTYPE (ftype (ds d ! j)) = PB_HTYPE_ONEOF \<and> PB_HTYPE (ftype ?f) = PB_HTYPE_ONEOF"
    using iter_at_psize [OF sch(1,2) assms(3)] by blast
  note sj = sch(4) [OF j(1)]
  have "size_offset ?f \<noteq> 0" if "PB_HTYPE (ftype ?f) = PB_HTYPE_OPTIONAL" "pSize ?it \<noteq> pData ?it"
    using that j(2,3) data by (auto simp: size_addr_def pb_type_defs)
  then have one: "covers S (pSize ?it) 1" if "PB_HTYPE (ftype ?f) = PB_HTYPE_OPTIONAL" "pSize ?it \<noteq> pData ?it"
    using that j(2,3) sf has_room_covers [OF assms(2)] by (auto simp: static_field_def pb_type_defs)
  have four: "covers S (pSize ?it) 4" if "PB_HTYPE (ftype ?f) \<in> {PB_HTYPE_REPEATED, PB_HTYPE_ONEOF}"
    using that j(2,3) sf sj has_room_covers [OF assms(2)] by (auto simp: static_field_def)
  show ?thesis using sf sch(3) member one four unfolding reach_def Let_def f
    by (auto simp: static_field_def)
qed

lemma visited_reach:
  assumes "static_schema ds depth sizes offs" and "covers S dest (sizes d)" and "it \<in> set (visited (ds d) dest)"
  shows "reach depth sizes S (depth d) it"
  using assms(3) iter_at_reach [OF assms(1,2)] visited_all [OF schema_fields(1) [OF assms(1)]] by auto

lemma iter_in_reach:
  assumes "static_schema ds depth sizes offs" and "covers S dest (sizes d)" and "covers S cell 4"
    and "iter_in (ds d) dest cell it"
  shows "reach depth sizes S (depth d) it"
proof -
  obtain k where k: "k < length (ds d) \<or> k = 0" "pos_field it = field_at (ds d) k"
    "it = iter_at (ds d) dest k \<or>
     PB_HTYPE (ftype (field_at (ds d) k)) = PB_HTYPE_REPEATED \<and> it = (iter_at (ds d) dest k)\<lparr>pSize := cell\<rparr>"
    using iter_inE [OF assms(4) schema_fields(1) [OF assms(1)]] by metis
  show ?thesis
  proof (cases "k < length (ds d)")
    case True
    note r = iter_at_reach [OF assms(1,2) True]
    have f: "pos_field (iter_at (ds d) dest k) = field_at (ds d) k"
      using iter_at_parts [OF schema_fields(1) [OF assms(1)] k(1), of dest] by (simp add: pos_field_def)
    show ?thesis using k(3)
    proof (elim disjE conjE)
      assume "PB_HTYPE (ftype (field_at (ds d) k)) = PB_HTYPE_REPEATED" "it = (iter_at (ds d) dest k)\<lparr>pSize := cell\<rparr>"
      then show ?thesis using r assms(3) unfolding reach_def Let_def k(2) f by (auto simp: pb_type_defs)
    qed (simp only: r)
  next
    case False
    then show ?thesis using k by (intro last_field_reach) (simp add: field_at_def)
  qed
qed

section \<open>Default values and releasing\<close>

lemma reachD:
  assumes "reach depth sizes S k it" and "pos_field it = f"
  shows "static_type depth sizes k f" "member_size f < 2 ^ 32" "covers S (pData it) (member_size f)"
    "PB_HTYPE (ftype f) = PB_HTYPE_OPTIONAL \<Longrightarrow> pSize it \<noteq> pData it \<Longrightarrow> covers S (pSize it) 1"
    "PB_HTYPE (ftype f) = PB_HTYPE_REPEATED \<or> PB_HTYPE (ftype f) = PB_HTYPE_ONEOF \<Longrightarrow> covers S (pSize it) 4"
  using assms by (auto simp: reach_def Let_def)

lemma static_typeD:
  assumes "static_type depth sizes k f"
  shows "PB_ATYPE (ftype f) = PB_ATYPE_STATIC" "PB_LTYPE (ftype f) \<le> PB_LTYPE_FIXED_LENGTH_BYTES"
    "PB_LTYPE (ftype f) \<noteq> PB_LTYPE_EXTENSION"
    "PB_LTYPE (ftype f) = PB_LTYPE_FIXED32 \<Longrightarrow> 4 \<le> data_size f"
    "PB_LTYPE (ftype f) = PB_LTYPE_FIXED64 \<Longrightarrow> 8 \<le> data_size f"
    "PB_LTYPE (ftype f) = PB_LTYPE_SUBMESSAGE \<Longrightarrow> \<exists>d. fptr f = Ptr_fields d \<and> depth d < k \<and> sizes d \<le> data_size f"
    "PB_LTYPE (ftype f) \<noteq> PB_LTYPE_SUBMESSAGE \<Longrightarrow> fptr f = Ptr_fields d \<Longrightarrow> False"
    "PB_LTYPE (ftype f) \<noteq> PB_LTYPE_SUBMESSAGE \<Longrightarrow> fptr f = Ptr_default bs \<Longrightarrow> data_size f \<le> length bs"
  using assms by (auto simp: static_type_def split: if_splits pb_ptr.splits)

text \<open>An item of a member: the member itself, or the one at an index of an array.\<close>

lemma static_item:
  assumes "static_type depth sizes k f" and "member_size f < 2 ^ 32" and "covers S a (member_size f)"
  shows "PB_HTYPE (ftype f) \<noteq> PB_HTYPE_REPEATED \<Longrightarrow> covers S a (data_size f)"
    "PB_HTYPE (ftype f) = PB_HTYPE_REPEATED \<Longrightarrow> i < array_size f \<Longrightarrow> covers S (a + item_offset f i) (data_size f)"
    "PB_HTYPE (ftype f) = PB_HTYPE_REPEATED \<Longrightarrow> i < array_size f \<Longrightarrow> covers S (a + i * data_size f) (data_size f)"
proof -
  note st = static_typeD(1) [OF assms(1)]
  show "covers S a (data_size f)" if "PB_HTYPE (ftype f) \<noteq> PB_HTYPE_REPEATED"
    using assms(3) that st by (simp add: member_size_def pb_type_defs)
  assume r: "PB_HTYPE (ftype f) = PB_HTYPE_REPEATED" and i: "i < array_size f"
  then have m: "member_size f = data_size f * array_size f" using st by (simp add: member_size_def)
  have "data_size f * Suc i \<le> data_size f * array_size f" using i by (intro mult_le_mono) simp_all
  then have le: "data_size f * i + data_size f \<le> member_size f" unfolding m by simp
  then have "data_size f * i < 2 ^ 32" using assms(2) by linarith
  then have "item_offset f i = data_size f * i" by (simp add: item_offset_def)
  then show "covers S (a + item_offset f i) (data_size f)" "covers S (a + i * data_size f) (data_size f)"
    using le by (auto intro!: covers_part [OF assms(3)] simp: mult.commute)
qed

lemma safe_set_to_default:
  assumes "static_schema (field_lists env) depth sizes offs"
  shows "\<lbrakk>reach depth sizes S k it; k < n\<rbrakk> \<Longrightarrow> safe S (pb_field_set_to_default n env it) any"
proof (induction n arbitrary: k it)
  case (Suc n)
  let ?f = "pos_field it"
  note r = reachD [OF Suc.prems(1) refl]
  note st = static_typeD [OF r(1)]
  have init: "safe S (init_value (pb_field_set_to_default n env) env it) any" if h: "PB_HTYPE (ftype ?f) \<noteq> PB_HTYPE_REPEATED"
  proof -
    note c = static_item(1) [OF r(1-3) h]
    show ?thesis
    proof (cases "PB_LTYPE (ftype ?f) = PB_LTYPE_SUBMESSAGE")
      case True
      then obtain d where d: "fptr ?f = Ptr_fields d" "depth d < k" "sizes d \<le> data_size ?f" using st(6) by blast
      have "covers S (pData it) (sizes d)" using d(3) by (intro covers_part [OF c]) simp_all
      then have "safe S (pb_message_set_to_defaults (pb_field_set_to_default n env) env d (pData it)) any"
        unfolding pb_message_set_to_defaults_def using d(2) Suc.prems(2)
        by (intro safe_each Suc.IH [OF visited_reach [OF assms, where d = d]]) simp_all
      then show ?thesis using True d(1) by (simp add: init_value_def Let_def)
    next
      case False
      then show ?thesis using c st(7,8) by (cases "fptr ?f")
          (auto simp: init_value_def Let_def intro!: safe_intros covers_part [OF c])
    qed
  qed
  show ?case
    unfolding pb_field_set_to_default.simps Let_def using st(1,3) r(4,5) init
    by (auto simp: pb_type_defs intro!: safe_intros)
qed simp

lemma safe_set_message_defaults:
  assumes "static_schema (field_lists env) depth sizes offs" and "covers S dest (sizes d)" and "depth d < n"
  shows "safe S (pb_message_set_to_defaults (pb_field_set_to_default n env) env d dest) any"
  unfolding pb_message_set_to_defaults_def
  by (intro safe_each safe_set_to_default [OF assms(1) _ assms(3)] visited_reach [OF assms(1,2)])

lemma safe_item_count:
  assumes "reach depth sizes S k it"
  shows "safe S (item_count it) (\<lambda>n. if PB_HTYPE (ftype (pos_field it)) = PB_HTYPE_REPEATED then n \<le> array_size (pos_field it) else n = 1)"
proof -
  note r = reachD [OF assms refl] and st = static_typeD(1) [OF reachD(1) [OF assms refl]]
  show ?thesis unfolding item_count_def Let_def
    by (intro safe_if safe_give safe_bnd_any safe_get_size r(5)) (simp_all add: st)
qed

lemma safe_release_single:
  assumes "static_schema (field_lists env) depth sizes offs"
  shows "\<lbrakk>reach depth sizes S k it; k < n\<rbrakk> \<Longrightarrow> safe S (pb_release_single_field n env it) any"
proof (induction n arbitrary: k it)
  case (Suc n)
  let ?f = "pos_field it"
  note r = reachD [OF Suc.prems(1) refl]
  note st = static_typeD [OF r(1)]
  have items: "safe S (bnd (item_count it) (\<lambda>cnt. only_if (pData it \<noteq> 0)
      (times_dec cnt (\<lambda>p. case fptr ?f of
           Ptr_fields d \<Rightarrow> pb_release (pb_release_single_field n env) env d p | _ \<Rightarrow> stuck) (data_size ?f) (pData it)))) any"
    if sub: "PB_LTYPE (ftype ?f) = PB_LTYPE_SUBMESSAGE"
  proof (rule safe_bnd [OF safe_item_count [OF Suc.prems(1)]], intro safe_only_if safe_times)
    fix cnt i
    assume "if PB_HTYPE (ftype ?f) = PB_HTYPE_REPEATED then cnt \<le> array_size ?f else cnt = 1" "i < cnt"
    then have c: "covers S (pData it + i * data_size ?f) (data_size ?f)"
      using static_item [OF r(1-3)] by (cases "PB_HTYPE (ftype ?f) = PB_HTYPE_REPEATED") auto
    obtain d where d: "fptr ?f = Ptr_fields d" "depth d < k" "sizes d \<le> data_size ?f" using st(6) [OF sub] by blast
    have "covers S (pData it + i * data_size ?f) (sizes d)" using d(3) by (intro covers_part [OF c]) simp_all
    then have "safe S (pb_release (pb_release_single_field n env) env d (pData it + i * data_size ?f)) any"
      unfolding pb_release_def using d(2) Suc.prems(2)
      by (intro safe_if safe_give safe_each Suc.IH [OF visited_reach [OF assms, where d = d]] TrueI) simp_all
    then show "safe S (case fptr ?f of
           Ptr_fields d \<Rightarrow> pb_release (pb_release_single_field n env) env d (pData it + i * data_size ?f) | _ \<Rightarrow> stuck) any"
      using d(1) by simp
  qed
  have ns: "PB_ATYPE (ftype ?f) \<noteq> PB_ATYPE_POINTER" using st(1) by (simp add: pb_type_defs)
  have give: "bnd (give x) g = g x" for x :: nat and g :: "nat \<Rightarrow> (unit, 'a) dec"
    by (rule ext) (simp add: bnd_def give_def)
  show ?case
    unfolding pb_release_single_field.simps Let_def using ns st(3)
    by (simp only: if_False give)
      (intro safe_if safe_also_do safe_bnd_any safe_get_size safe_only_if safe_give TrueI items r(5); simp)
qed simp

lemma safe_release:
  assumes "static_schema (field_lists env) depth sizes offs" and "covers S dest (sizes d)" and "depth d < n"
  shows "safe S (pb_release (pb_release_single_field n env) env d dest) any"
  unfolding pb_release_def
  by (intro safe_if safe_give safe_each safe_release_single [OF assms(1) _ assms(3)] visited_reach [OF assms(1,2)] TrueI)

section \<open>Field decoders\<close>

lemma safe_error [safe_intros]: "safe S (rd (is_error m)) Q"
  by (rule safeI) (simp add: rd_def is_error_def keeps_def)

lemma safe_store_int: "covers S dest (data_size f) \<Longrightarrow> safe S (store_int bk f dest v) any"
  unfolding store_int_def by (intro safe_intros shrinks_intros TrueI) simp_all

lemma safe_dec_bytes:
  assumes "PB_ATYPE (ftype f) = PB_ATYPE_STATIC" and c: "covers S dest (data_size f)"
  shows "safe S (pb_dec_bytes f dest) any" "safe S (pb_dec_string f dest) any"
    "safe S (pb_dec_fixed_length_bytes f dest) any"
proof -
  have static: "PB_ATYPE (ftype f) \<noteq> PB_ATYPE_POINTER" using assms(1) by (simp add: pb_type_defs)
  have part: "covers S (dest + i) n" if "i + n \<le> data_size f" for i n using that by (intro covers_part [OF c]) simp_all
  have room: "safe S (if c then rd (is_error m) else give dest) (\<lambda>a. a = dest \<and> \<not> c)" for c m
    by (simp add: safe_give safe_error)
  note len = safe_bnd_any [OF safe_rd [OF shrinks_varint32]]
  show "safe S (pb_dec_bytes f dest) any"
    unfolding pb_dec_bytes_def Let_def using static
    by (intro len, simp only: if_False, intro safe_bnd [OF room] safe_also_do safe_put_size safe_read_into)
      (use part [of 0 4] part [of 4] in auto)
  show "safe S (pb_dec_fixed_length_bytes f dest) any"
    unfolding pb_dec_fixed_length_bytes_def using c
    by (intro len safe_if safe_memset0 safe_error safe_read_into)
  have str: "unat v < data_size f" if "\<not> data_size f < unat (v + 1)" "\<not> unat (v + 1) < unat v" for v :: u32
  proof -
    have "unat (v + 1) = (unat v + 1) mod 2 ^ 32" by (simp add: unat_word_ariths)
    moreover have "unat v < 2 ^ 32" using unsigned_less [of v] by simp
    ultimately show ?thesis using that by (cases "unat v + 1 = 2 ^ 32") simp_all
  qed
  show "safe S (pb_dec_string f dest) any"
    unfolding pb_dec_string_def Let_def using static
    by (intro len safe_if safe_error, simp only: if_False,
        intro safe_bnd [OF room] safe_bnd_any safe_attempt [OF safe_read_into] safe_also_do safe_put_bytes safe_if safe_give
          safe_fails TrueI)
      (use str part [of 0] part [of _ 1] in \<open>auto simp: less_imp_le Suc_le_eq\<close>)
qed

definition static_noinit :: "(nat \<Rightarrow> nat) \<Rightarrow> (nat \<Rightarrow> nat) \<Rightarrow> nat \<Rightarrow> 's msg_dec \<Rightarrow> bool" where
  "static_noinit depth sizes k noinit \<longleftrightarrow>
     (\<forall>d dest S. depth d < k \<longrightarrow> covers S dest (sizes d) \<longrightarrow> safe S (noinit d dest) any)"

lemma safe_decode_with:
  assumes "static_schema (field_lists env) depth sizes offs" and "covers S dest (sizes d)" and "depth d < n"
    and "safe S (noinit d dest) any"
  shows "safe S (decode_with noinit n env d dest) any"
  unfolding decode_with_def
  by (intro safe_also_do safe_bnd_any safe_attempt [OF assms(4)] safe_set_message_defaults [OF assms(1-3)]
      safe_if safe_give safe_fails safe_release [OF assms(1-3)] TrueI)

lemma safe_decoders:
  assumes "static_schema (field_lists env) depth sizes offs" and "static_noinit depth sizes k noinit" and "k \<le> n"
    and "static_type depth sizes k f" and "covers S dest (data_size f)"
  shows "safe S (PB_DECODERS noinit n env (PB_LTYPE (ftype f)) f dest) any"
proof -
  note st = static_typeD [OF assms(4)]
  let ?l = "PB_LTYPE (ftype f)"
  have ints: "safe S (pb_dec_varint f dest) any" "safe S (pb_dec_uvarint f dest) any" "safe S (pb_dec_svarint f dest) any"
    unfolding pb_dec_varint_def pb_dec_uvarint_def pb_dec_svarint_def
    by (intro safe_bnd_any safe_rd shrinks_intros safe_store_int assms(5))+
  have fixed: "?l = PB_LTYPE_FIXED32 \<Longrightarrow> safe S (pb_dec_fixed32 f dest) any"
    "?l = PB_LTYPE_FIXED64 \<Longrightarrow> safe S (pb_dec_fixed64 f dest) any"
    unfolding pb_dec_fixed32_def pb_dec_fixed64_def using st(4,5)
    by (auto intro!: safe_intros shrinks_intros covers_part [OF assms(5)])
  have sub: "safe S (pb_dec_submessage noinit n env f dest) any" if l: "?l = PB_LTYPE_SUBMESSAGE"
  proof -
    obtain d where d: "fptr f = Ptr_fields d" "depth d < k" "sizes d \<le> data_size f" using st(6) [OF l] by blast
    have c: "covers S dest (sizes d)" using d(3) by (intro covers_part [OF assms(5)]) simp_all
    then have n: "safe S (noinit d dest) any" using assms(2) d(2) unfolding static_noinit_def by blast
    have w: "safe S (decode_with noinit n env d dest) any"
      using d(2) assms(3) c n by (intro safe_decode_with [OF assms(1)]) simp_all
    have "safe S (case x of (status, sub') \<Rightarrow>
        also_do (rd (pb_close_string_substream sub')) (if status \<noteq> None then give () else fails)) any" for x :: "unit option \<times> 'a pb_istream"
      by (cases x) (simp only: prod.case, intro safe_also_do safe_rd shrinks_intros safe_if safe_give safe_fails TrueI)
    then show ?thesis unfolding pb_dec_submessage_def d(1)
      by (simp only: pb_ptr.case) (intro safe_bnd_any safe_rd shrinks_intros safe_on_stream safe_if n w)
  qed
  have "unat ?l \<le> 9" "unat ?l \<noteq> 8"
    using st(2,3) by (simp_all add: pb_type_defs word_le_nat_alt word_unat_eq_iff)
  then have "unat ?l \<in> {0, 1, 2, 3, 4, 5, 6, 7, 9}" by auto
  then have "?l \<in> {PB_LTYPE_VARINT, PB_LTYPE_UVARINT, PB_LTYPE_SVARINT, PB_LTYPE_FIXED32, PB_LTYPE_FIXED64,
      PB_LTYPE_BYTES, PB_LTYPE_STRING, PB_LTYPE_SUBMESSAGE, PB_LTYPE_FIXED_LENGTH_BYTES}"
    by (simp add: pb_type_defs word_unat_eq_iff)
  then show ?thesis using ints fixed sub safe_dec_bytes [OF st(1) assms(5)]
    by (elim insertE emptyE) (simp_all add: PB_DECODERS_def pb_type_defs)
qed

text \<open>The decoders of the packable types take at least a byte when they succeed.\<close>

lemma bnd_SomeE:
  assumes "bnd p f w = Some (Some y, w2)"
  obtains x w1 where "p w = Some (Some x, w1)" "f x w1 = Some (Some y, w2)"
  using assms by (auto simp: bnd_def bind_eq_Some_conv split: option.splits)

lemma also_do_SomeE:
  assumes "also_do p q w = Some (Some y, w2)"
  obtains w1 where "p w = Some (Some (), w1)" "q w1 = Some (Some y, w2)"
  using assms unfolding also_do_def by (auto elim: bnd_SomeE)

lemma put_bytes_stream: "put_bytes a bs w = Some (r, w') \<Longrightarrow> stream w' = stream w"
  by (auto simp: put_bytes_def split: if_splits)

lemma put_size_stream: "put_size a v w = Some (r, w') \<Longrightarrow> stream w' = stream w"
  unfolding put_size_def by (rule put_bytes_stream)

lemma get_size_stream: "get_size a w = Some (r, w') \<Longrightarrow> w' = w"
  by (auto simp: get_size_def get_nat_def get_bytes_def bnd_def give_def bind_eq_Some_conv split: if_splits)

lemma store_int_stream: "store_int bk f a v w = Some (Some u, w') \<Longrightarrow> stream w' = stream w"
  by (auto simp: store_int_def rd_def is_error_def give_def dest: put_bytes_stream elim!: also_do_SomeE split: if_splits)

lemma rd_SomeE:
  assumes "rd p w = Some (Some x, w')"
  obtains s where "p (stream w) = (Some x, s)" "w' = w\<lparr>stream := s\<rparr>"
  using assms by (auto simp: rd_def split: prod.splits)

lemma decoder_takes_byte:
  assumes "PB_LTYPE (ftype f) \<le> PB_LTYPE_LAST_PACKABLE"
    and "PB_DECODERS noinit n env (PB_LTYPE (ftype f)) f dest w = Some (Some u, w')"
  shows "bytes_left (stream w') < bytes_left (stream w)"
proof -
  have int: "bytes_left (stream w') < bytes_left (stream w)"
    if "bnd (rd p) (\<lambda>v. store_int bk f dest (g v)) w = Some (Some u, w')"
      "\<And>v s'. p (stream w) = (Some v, s') \<Longrightarrow> bytes_left s' < bytes_left (stream w)" for p bk g
    using that by (auto elim!: bnd_SomeE rd_SomeE dest!: store_int_stream)
  have word: "bytes_left (stream w') < bytes_left (stream w)"
    if "bnd (rd p) (\<lambda>v. put_bytes dest (g v)) w = Some (Some u, w')"
      "\<And>v s'. p (stream w) = (Some v, s') \<Longrightarrow> bytes_left s' < bytes_left (stream w)" for p g
    using that by (auto elim!: bnd_SomeE rd_SomeE dest!: put_bytes_stream)
  have "unat (PB_LTYPE (ftype f)) \<le> 4" using assms(1) by (simp add: pb_type_defs word_le_nat_alt)
  then have "unat (PB_LTYPE (ftype f)) \<in> {0, 1, 2, 3, 4}" by auto
  then have "PB_LTYPE (ftype f) \<in> {PB_LTYPE_VARINT, PB_LTYPE_UVARINT, PB_LTYPE_SVARINT, PB_LTYPE_FIXED32, PB_LTYPE_FIXED64}"
    by (simp add: pb_type_defs word_unat_eq_iff)
  then show ?thesis
  proof (elim insertE emptyE)
    assume "PB_LTYPE (ftype f) = PB_LTYPE_VARINT"
    then have "pb_dec_varint f dest w = Some (Some u, w')" using assms(2) by (simp add: PB_DECODERS_def pb_type_defs)
    then show ?thesis unfolding pb_dec_varint_def by (rule int [OF _ varint_takes_byte])
  next
    assume "PB_LTYPE (ftype f) = PB_LTYPE_UVARINT"
    then have "pb_dec_uvarint f dest w = Some (Some u, w')" using assms(2) by (simp add: PB_DECODERS_def pb_type_defs)
    then show ?thesis unfolding pb_dec_uvarint_def by (rule int [OF _ varint_takes_byte])
  next
    assume "PB_LTYPE (ftype f) = PB_LTYPE_SVARINT"
    then have "pb_dec_svarint f dest w = Some (Some u, w')" using assms(2) by (simp add: PB_DECODERS_def pb_type_defs)
    then show ?thesis unfolding pb_dec_svarint_def by (rule int [OF _ svarint_takes_byte])
  next
    assume "PB_LTYPE (ftype f) = PB_LTYPE_FIXED32"
    then have "pb_dec_fixed32 f dest w = Some (Some u, w')" using assms(2) by (simp add: PB_DECODERS_def pb_type_defs)
    then show ?thesis unfolding pb_dec_fixed32_def by (rule word [OF _ fixed_takes_byte(1)])
  next
    assume "PB_LTYPE (ftype f) = PB_LTYPE_FIXED64"
    then have "pb_dec_fixed64 f dest w = Some (Some u, w')" using assms(2) by (simp add: PB_DECODERS_def pb_type_defs)
    then show ?thesis unfolding pb_dec_fixed64_def by (rule word [OF _ fixed_takes_byte(2)])
  qed
qed

section \<open>Fields and messages\<close>

text \<open>The context of a field: its struct has depth \<open>k\<close>, and the nested calls have a bound above it.\<close>

lemma safe_static_items:
  assumes "reach depth sizes S k it" and "PB_HTYPE (ftype (pos_field it)) = PB_HTYPE_REPEATED"
    and "\<And>a. covers S a (data_size (pos_field it)) \<Longrightarrow> safe S (func a) any"
    and "\<And>a w u w'. func a w = Some (Some u, w') \<Longrightarrow> bytes_left (stream w') < bytes_left (stream w)"
  shows "safe S (static_items func it) any"
proof -
  let ?f = "pos_field it"
  note r = reachD [OF assms(1) refl]
  note item = static_item(2) [OF r(1-3) assms(2)] and cnt = r(5) [OF disjI1 [OF assms(2)]]
  let ?body = "\<lambda>(_::unit) w. (if bytes_left (stream w) = 0 then give (Inr True) w
       else bnd (get_size (pSize it)) (\<lambda>i.
         if \<not> i < array_size ?f then give (Inr True)
         else bnd (attempt (func (pData it + item_offset ?f i))) (\<lambda>ok.
           if \<not> ok then give (Inr False)
           else bnd (get_size (pSize it)) (\<lambda>i. also_do (put_size (pSize it) (i + 1)) (give (Inl ()))))) w)"
  have "safe S (?body st) any" for st
  proof -
    have "safe S (bnd (get_size (pSize it)) (\<lambda>i.
         if \<not> i < array_size ?f then give (Inr True)
         else bnd (attempt (func (pData it + item_offset ?f i))) (\<lambda>ok.
           if \<not> ok then give (Inr False)
           else bnd (get_size (pSize it)) (\<lambda>i. also_do (put_size (pSize it) (i + 1)) (give (Inl ())))))) any"
      by (intro safe_bnd_any safe_get_size safe_if safe_give safe_attempt safe_also_do safe_put_size cnt assms(3) item TrueI) simp
    then show ?thesis unfolding safe_def by (simp add: give_def)
  qed
  moreover have "bytes_left (stream w') < bytes_left (stream w)"
    if "?body st w = Some (Some (Inl st'), w')" for st st' w w'
    using that assms(4)
    by (auto simp: give_def attempt_def bind_eq_Some_conv dest!: get_size_stream put_size_stream
        elim!: bnd_SomeE also_do_SomeE split: if_splits)
  ultimately show ?thesis unfolding static_items_def
    by (intro safe_loop [where I = any]) (auto intro: safe_weaken split: sum.split)
qed

lemma safe_static_packed:
  assumes "safe S (static_items func it) any"
  shows "safe S (static_packed func it) any"
proof -
  have "safe S (case x of (status, sub') \<Rightarrow>
       if bytes_left sub' \<noteq> 0 then rd (is_error m)
       else also_do (rd (pb_close_string_substream sub')) (if status = Some True then give () else fails)) any" for x m
    by (cases x) (simp only: prod.case, intro safe_if safe_error safe_also_do safe_rd shrinks_intros safe_give safe_fails TrueI)
  then show ?thesis unfolding static_packed_def
    by (intro safe_bnd_any safe_rd shrinks_intros safe_on_stream assms)
qed

lemma safe_static_field:
  assumes "static_schema (field_lists env) depth sizes offs" and "static_noinit depth sizes k noinit" and "k \<le> n"
    and "reach depth sizes S k it"
  shows "safe S (decode_static_field noinit n env wire_type it) any"
proof -
  let ?f = "pos_field it"
  let ?func = "PB_DECODERS noinit n env (PB_LTYPE (ftype ?f)) ?f"
  note r = reachD [OF assms(4) refl]
  note item = static_item [OF r(1-3)]
  note func = safe_decoders [OF assms(1-3) r(1)]
  have repeated: "safe S (static_repeated ?func it) any" if "PB_HTYPE (ftype ?f) = PB_HTYPE_REPEATED"
    unfolding static_repeated_def using r(5) item(2) that
    by (intro safe_bnd_any safe_get_size safe_also_do safe_put_size safe_if safe_error func) simp_all
  have packed: "safe S (static_packed ?func it) any"
    if "PB_HTYPE (ftype ?f) = PB_HTYPE_REPEATED" "PB_LTYPE (ftype ?f) \<le> PB_LTYPE_LAST_PACKABLE"
    using decoder_takes_byte [OF that(2)]
    by (intro safe_static_packed safe_static_items [OF assms(4) that(1)] func) blast+
  have defaults: "safe S (case fptr ?f of
      Ptr_fields d \<Rightarrow> pb_message_set_to_defaults (pb_field_set_to_default n env) env d (pData it) | _ \<Rightarrow> stuck) any"
    if l: "PB_LTYPE (ftype ?f) = PB_LTYPE_SUBMESSAGE" and h: "PB_HTYPE (ftype ?f) \<noteq> PB_HTYPE_REPEATED"
  proof -
    obtain d where d: "fptr ?f = Ptr_fields d" "depth d < k" "sizes d \<le> data_size ?f"
      using static_typeD(6) [OF r(1) l] by blast
    have "covers S (pData it) (sizes d)" using d(3) by (intro covers_part [OF item(1) [OF h]]) simp_all
    then show ?thesis using safe_set_message_defaults [OF assms(1)] d assms(3) by simp
  qed
  show ?thesis unfolding decode_static_field_def Let_def using PB_HTYPE_cases [of "ftype ?f"]
    by (intro safe_if safe_also_do safe_only_if safe_put_bool safe_put_size safe_memset0 func packed repeated defaults
        item(1) r(4,5)) (auto simp: pb_type_defs)
qed

lemma iter_search_found: "iter_search ok first it = Some (True, it') \<Longrightarrow> ok (field_at (start it') (pos it'))"
proof -
  assume a: "iter_search ok first it = Some (True, it')"
  have "fst (True, it') \<longrightarrow> ok (field_at (start (snd (True, it'))) (pos (snd (True, it'))))"
    by (rule iter_search.raw_induct [OF _ a, where P = "\<lambda>ok first it y. fst y \<longrightarrow> ok (field_at (start (snd y)) (pos (snd y)))"])
      (auto simp: Let_def split: if_splits, blast)
  then show ?thesis by simp
qed

lemma decode_tag_bound: "pb_decode_tag s = (Some (wire_type, t), e, s') \<Longrightarrow> t \<noteq> -1"
proof
  assume a: "pb_decode_tag s = (Some (wire_type, t), e, s')" and t: "t = -1"
  from a obtain temp :: u32 where "t = drop_bit 3 temp" by (auto simp: pb_decode_tag_def split: prod.splits option.splits if_splits)
  then have "unat t = unat temp div 8" by (simp add: unat_drop_bit_eq drop_bit_eq_div [where 'a = nat])
  moreover have "unat temp < 2 ^ 32" using unsigned_less [of temp] by simp
  moreover have "unat (-1 :: u32) = 2 ^ 32 - 1" by (simp add: unsigned_minus_1_eq_mask mask_eq_exp_minus_1)
  ultimately show False using t by simp
qed

lemma safe_find:
  assumes "fields_ok fs" and "iter_in fs dest cell it"
  shows "safe S (iter_find_dec t it) (\<lambda>(b, it'). iter_in fs dest cell it')"
proof -
  obtain b it' where "pb_field_iter_find t it = Some (b, it')" "iter_in fs dest cell it'"
    using iter_search_in [OF assms] unfolding pb_field_iter_find_def by blast
  then show ?thesis by (intro safeI) (simp add: iter_find_dec_def)
qed

text \<open>The context of a message: the descriptors, the struct, the local variable and the bounds.\<close>

definition static_message ::
  "'s pb_denv \<Rightarrow> (nat \<Rightarrow> nat) \<Rightarrow> (nat \<Rightarrow> nat) \<Rightarrow> (nat \<Rightarrow> nat list) \<Rightarrow> nat \<Rightarrow> nat \<Rightarrow> nat \<Rightarrow> (nat \<times> nat) set \<Rightarrow> nat \<Rightarrow>
   's msg_dec \<Rightarrow> bool" where
  "static_message env depth sizes offs d dest cell S n noinit \<longleftrightarrow>
     static_schema (field_lists env) depth sizes offs \<and> covers S dest (sizes d) \<and> covers S cell 4 \<and>
     depth d < n \<and> static_noinit depth sizes (depth d) noinit"

lemma static_messageD:
  assumes "static_message env depth sizes offs d dest cell S n noinit"
  shows "static_schema (field_lists env) depth sizes offs" "covers S dest (sizes d)" "covers S cell 4"
    "depth d < n" "static_noinit depth sizes (depth d) noinit" "fields_ok (field_lists env d)"
    "iter_in (field_lists env d) dest cell it \<Longrightarrow> reach depth sizes S (depth d) it"
  using assms schema_fields(1) [of "field_lists env"] iter_in_reach [of "field_lists env"]
  unfolding static_message_def by blast+

lemma safe_union:
  assumes m: "static_message env depth sizes offs d dest cell S n noinit"
    and it: "iter_in (field_lists env d) dest cell it" and one: "PB_HTYPE (ftype (pos_field it)) = PB_HTYPE_ONEOF"
  shows "safe S (pb_release_union_field n env it) (iter_in (field_lists env d) dest cell)"
proof -
  note sm = static_messageD [OF m]
  have step2: "safe S (bnd (iter_find_dec t it1) (\<lambda>(found, it2). if \<not> found then rd (is_error m) else give it2)) (iter_in (field_lists env d) dest cell)"
    if "iter_in (field_lists env d) dest cell it1" for it1 t m
    by (rule safe_bnd [OF safe_find [OF sm(6) that]]) (auto intro: safe_error safe_give)
  have step1: "safe S (case x of (found, it1) \<Rightarrow>
      if \<not> found then rd (is_error m)
      else also_do (pb_release_single_field n env it1) (bnd (iter_find_dec t it1) (\<lambda>(found, it2).
             if \<not> found then rd (is_error m') else give it2))) (iter_in (field_lists env d) dest cell)"
    if "(\<lambda>(b, it'). iter_in (field_lists env d) dest cell it') x" for x m m' t
    using that safe_release_single [OF sm(1) sm(7) sm(4)] step2
    by (cases x) (auto intro!: safe_if safe_error safe_also_do)
  show ?thesis unfolding pb_release_union_field_def Let_def
    using reachD(5) [OF sm(7) [OF it] refl] one it
    by (intro safe_bnd_any safe_get_size safe_if safe_give safe_bnd [OF safe_find [OF sm(6) it] step1]) simp_all
qed

lemma safe_field:
  assumes m: "static_message env depth sizes offs d dest cell S n noinit" and it: "iter_in (field_lists env d) dest cell it"
  shows "safe S (decode_field noinit n env wire_type it) (iter_in (field_lists env d) dest cell)"
proof -
  note sm = static_messageD [OF m]
  have first: "safe S (if PB_HTYPE (ftype (pos_field it)) = PB_HTYPE_ONEOF then pb_release_union_field n env it else give it) (iter_in (field_lists env d) dest cell)"
    using safe_union [OF m it] it by (simp add: safe_give)
  have "safe S (also_do
      (if PB_ATYPE (ftype (pos_field it')) = PB_ATYPE_STATIC then decode_static_field noinit n env wire_type it'
       else if PB_ATYPE (ftype (pos_field it')) = PB_ATYPE_POINTER then decode_pointer_field noinit n env wire_type it'
       else if PB_ATYPE (ftype (pos_field it')) = PB_ATYPE_CALLBACK then decode_callback_field env wire_type it'
       else rd (is_error m)) (give it')) (iter_in (field_lists env d) dest cell)" if "iter_in (field_lists env d) dest cell it'" for it' m
    using safe_static_field [OF sm(1,5) less_imp_le [OF sm(4)] sm(7) [OF that]] that
      static_typeD(1) [OF reachD(1) [OF sm(7) [OF that] refl]]
    by (simp add: safe_also_do safe_give)
  then show ?thesis unfolding decode_field_def Let_def by (rule safe_bnd [OF first])
qed

lemma safe_unknown:
  assumes m: "static_message env depth sizes offs d dest cell S n noinit" and "iter_in (field_lists env d) dest cell (iter st)" and "t \<noteq> -1"
  shows "safe S (unknown_field noinit n env t wire_type st) (\<lambda>st'. iter_in (field_lists env d) dest cell (iter st'))"
proof -
  have skip: "safe S (also_do (rd (pb_skip_field wire_type)) (give st')) (\<lambda>st'. iter_in (field_lists env d) dest cell (iter st'))" if "iter_in (field_lists env d) dest cell (iter st')" for st'
    using that by (intro safe_also_do safe_rd shrinks_intros safe_give)
  have found: "safe S (find_extension_field (iter st)) (\<lambda>(b, it'). \<not> b \<and> iter_in (field_lists env d) dest cell it')"
  proof -
    obtain b it' where s: "iter_search is_extension (pos (iter st)) (iter st) = Some (b, it')" "iter_in (field_lists env d) dest cell it'"
      using iter_search_in [OF static_messageD(6) [OF m] assms(2)] by blast
    have "\<not> is_extension (pos_field it')"
      using static_typeD(3) [OF reachD(1) [OF static_messageD(7) [OF m s(2)] refl]] by (simp add: is_extension_def)
    then have "\<not> b" using iter_search_found s(1) by (cases b) (auto simp: pos_field_def)
    then show ?thesis using s by (intro safeI) (simp add: find_extension_field_def)
  qed
  have "\<not> t \<ge> -1" using assms(3) by (simp add: word_order.extremum_unique)
  then show ?thesis unfolding unknown_field_def Let_def
    by (intro safe_if skip assms(2) safe_bnd [OF found]) (auto intro!: skip)
qed

lemma safe_check_fixed: "covers S cell 4 \<Longrightarrow> safe S (check_fixed_count fs cell fixed) any"
  unfolding check_fixed_count_def by (cases fixed) (auto intro!: safe_intros)

lemma safe_fixed_count:
  assumes m: "static_message env depth sizes offs d dest cell S n noinit" and it: "iter_in (field_lists env d) dest cell (iter st)"
  shows "safe S (fixed_count_step fs cell st) (\<lambda>st'. iter_in (field_lists env d) dest cell (iter st'))"
proof -
  have "iter_in (field_lists env d) dest cell ((iter st)\<lparr>pSize := cell\<rparr>)" if "PB_HTYPE (ftype (pos_field (iter st))) = PB_HTYPE_REPEATED"
  proof -
    obtain k where k: "k < length (field_lists env d) \<or> k = 0" "pos_field (iter st) = field_at (field_lists env d) k"
      "iter st = iter_at (field_lists env d) dest k \<or> PB_HTYPE (ftype (field_at (field_lists env d) k)) = PB_HTYPE_REPEATED \<and>
       iter st = (iter_at (field_lists env d) dest k)\<lparr>pSize := cell\<rparr>"
      using iter_inE [OF it static_messageD(6) [OF m]] by metis
    have "(iter st)\<lparr>pSize := cell\<rparr> = (iter_at (field_lists env d) dest k)\<lparr>pSize := cell\<rparr>" using k(3) by auto
    then show ?thesis unfolding iter_in_def using k(1,2) that by auto
  qed
  then show ?thesis unfolding fixed_count_step_def Let_def using it
    by (intro safe_if safe_also_do safe_only_if safe_check_fixed safe_put_size static_messageD(3) [OF m] safe_give) simp_all
qed

definition rest_of_field ::
  "'s msg_dec \<Rightarrow> nat \<Rightarrow> 's pb_denv \<Rightarrow> nat \<Rightarrow> pb_field list \<Rightarrow> noinit_state \<Rightarrow> pb_wire_type \<Rightarrow> u32 \<Rightarrow> (noinit_state + noinit_state, 's) dec" where
  "rest_of_field noinit n env cell fs st wire_type t =
     bnd (iter_find_dec (unat t) (iter st)) (\<lambda>(found, it).
       if \<not> found then
         bnd (unknown_field noinit n env t wire_type (st\<lparr>iter := it\<rparr>)) (\<lambda>st'. give (Inl st'))
       else
         bnd (fixed_count_step fs cell (st\<lparr>iter := it\<rparr>)) (\<lambda>st1.
         bnd (decode_field noinit n env wire_type (iter st1)) (\<lambda>it'.
           give (Inl (st1\<lparr>iter := it', fields_seen := mark_seen (iter st1) (fields_seen st1)\<rparr>)))))"

definition round_ok :: "'s pb_denv \<Rightarrow> nat \<Rightarrow> nat \<Rightarrow> nat \<Rightarrow> noinit_state + noinit_state \<Rightarrow> bool" where
  "round_ok env d dest cell r \<longleftrightarrow> (case r of Inl st' \<Rightarrow> iter_in (field_lists env d) dest cell (iter st') | Inr st' \<Rightarrow> iter_in (field_lists env d) dest cell (iter st'))"

lemma safe_rest:
  assumes m: "static_message env depth sizes offs d dest cell S n noinit" and it: "iter_in (field_lists env d) dest cell (iter st)" and "t \<noteq> -1"
  shows "safe S (rest_of_field noinit n env cell fs st wire_type t) (round_ok env d dest cell)"
proof -
  have unknown: "safe S (bnd (unknown_field noinit n env t wire_type (st\<lparr>iter := it\<rparr>)) (\<lambda>st'. give (Inl st'))) (round_ok env d dest cell)"
    if "iter_in (field_lists env d) dest cell it" for it
    using that assms(3) by (intro safe_bnd [OF safe_unknown [OF m]] safe_give) (simp_all add: round_ok_def)
  have known: "safe S (bnd (fixed_count_step fs cell (st\<lparr>iter := it\<rparr>)) (\<lambda>st1.
         bnd (decode_field noinit n env wire_type (iter st1)) (\<lambda>it'.
           give (Inl (st1\<lparr>iter := it', fields_seen := mark_seen (iter st1) (fields_seen st1)\<rparr>))))) (round_ok env d dest cell)"
    if "iter_in (field_lists env d) dest cell it" for it
    using that by (intro safe_bnd [OF safe_fixed_count [OF m]] safe_bnd [OF safe_field [OF m]] safe_give) (simp_all add: round_ok_def)
  show ?thesis unfolding rest_of_field_def
    by (rule safe_bnd [OF safe_find [OF static_messageD(6) [OF m] it]]) (auto intro!: unknown known)
qed

lemma noinit_round_cases:
  "noinit_round noinit n env fs cell st w =
     (if bytes_left (stream w) = 0 then Some (Some (Inr st), w)
      else case pb_decode_tag (stream w) of
             (None, eof, s) \<Rightarrow> Some (if eof then Some (Inr st) else None, w\<lparr>stream := s\<rparr>)
           | (Some (wire_type, t), _, s) \<Rightarrow> rest_of_field noinit n env cell fs st wire_type t (w\<lparr>stream := s\<rparr>))"
  by (auto simp: noinit_round_def rest_of_field_def give_def fails_def split: prod.split option.split)

lemma noinit_round_round:
  assumes m: "static_message env depth sizes offs d dest cell S n noinit" and it: "iter_in (field_lists env d) dest cell (iter st)" and "avail S w"
  shows "\<exists>r w'. noinit_round noinit n env fs cell st w = Some (r, w') \<and> keeps S w w' \<and> (\<forall>x. r = Some x \<longrightarrow> round_ok env d dest cell x) \<and>
    (\<forall>st'. r = Some (Inl st') \<longrightarrow> bytes_left (stream w') < bytes_left (stream w))"
proof (cases "bytes_left (stream w) = 0")
  case False
  obtain r eof s where t: "pb_decode_tag (stream w) = (r, eof, s)" by (cases "pb_decode_tag (stream w)")
  note left = decode_tag_left [OF t]
  show ?thesis
  proof (cases r)
    case None
    then show ?thesis using False t left it by (simp add: noinit_round_cases keeps_def round_ok_def)
  next
    case (Some wt)
    then obtain wire_type u where u: "r = Some (wire_type, u)" by (cases wt) blast
    have "u \<noteq> -1" using decode_tag_bound t u by blast
    moreover have "avail S (w\<lparr>stream := s\<rparr>)" using assms(3) by (simp add: avail_def inside_def)
    ultimately obtain r' w' where "rest_of_field noinit n env cell fs st wire_type u (w\<lparr>stream := s\<rparr>) = Some (r', w')"
      "keeps S (w\<lparr>stream := s\<rparr>) w'" "\<And>x. r' = Some x \<Longrightarrow> round_ok env d dest cell x"
      using safeE [OF safe_rest [OF m it]] by metis
    then show ?thesis using False t u left by (auto simp: noinit_round_cases keeps_def)
  qed
qed (use it in \<open>simp add: noinit_round_cases round_ok_def\<close>)

lemma safe_messages:
  assumes m: "static_message env depth sizes offs d dest cell S n noinit"
  shows "iter_in (field_lists env d) dest cell (iter st) \<Longrightarrow> safe S (loop_dec (noinit_round noinit n env fs cell) st) any"
proof (rule safe_loop [where I = "\<lambda>st. iter_in (field_lists env d) dest cell (iter st)"])
  show "safe S (noinit_round noinit n env fs cell st) (\<lambda>r. case r of Inl st' \<Rightarrow> iter_in (field_lists env d) dest cell (iter st') | Inr x \<Rightarrow> True)"
    if "iter_in (field_lists env d) dest cell (iter st)" for st
    using noinit_round_round [OF m that] unfolding safe_def round_ok_def by (fastforce split: sum.splits)
  show "bytes_left (stream w') < bytes_left (stream w)"
    if "iter_in (field_lists env d) dest cell (iter st)" "avail S w" "noinit_round noinit n env fs cell st w = Some (Some (Inl st'), w')" for st w st' w'
    using noinit_round_round [OF m that(1,2), of fs] that(3) by auto
qed


text \<open>The messages of a struct, with the local variable that each call makes.\<close>

lemma safe_noinit:
  assumes "static_schema (field_lists env) depth sizes offs"
  shows "\<lbrakk>covers S dest (sizes d); depth d + 1 < n\<rbrakk> \<Longrightarrow> safe S (pb_decode_noinit n env d dest) any"
proof (induction n arbitrary: S d dest)
  case (Suc n)
  have "safe (insert (cell, 4) S) (also_do (put_size cell 0)
      (bnd (loop_dec (noinit_round (pb_decode_noinit n env) n env (field_lists env d) cell)
         \<lparr>iter = snd (pb_field_iter_begin (field_lists env d) dest), fields_seen = [0, 0], extension_range_start = 0,
          fixed_count_field = None\<rparr>) (\<lambda>st.
         also_do (check_fixed_count (field_lists env d) cell (fixed_count_field st))
           (if all_seen (req_field_count (iter st)) (fields_seen st) then give ()
            else rd (is_error m))))) any" for cell m
  proof -
    have m: "static_message env depth sizes offs d dest cell (insert (cell, 4) S) n (pb_decode_noinit n env)"
      unfolding static_message_def
    proof (intro conjI assms)
      show "covers (insert (cell, 4) S) dest (sizes d)" using Suc.prems(1) by (auto simp: covers_def)
      show "covers (insert (cell, 4) S) cell 4" by (simp add: covers_def)
      show "static_noinit depth sizes (depth d) (pb_decode_noinit n env)"
        using Suc.IH Suc.prems(2) unfolding static_noinit_def by simp
    qed (use Suc.prems(2) in simp)
    have first: "iter_in (field_lists env d) dest cell (snd (pb_field_iter_begin (field_lists env d) dest))"
      using iter_at_in [of 0 "field_lists env d" dest cell] by simp
    show ?thesis
      by (intro safe_also_do safe_put_size safe_bnd_any safe_messages [OF m] safe_check_fixed safe_if safe_give safe_error TrueI) (simp_all add: first covers_def)
  qed
  then show ?case unfolding pb_decode_noinit.simps Let_def by (rule safe_with_local)
qed simp

section \<open>Properties\<close>

text \<open>C15: Decoding a struct without pointers is memory-safe and comes back.  For descriptors whose fields are static,
  with the offsets of the struct, and for every input over every kind of stream, every content of memory
  and every outcome of allocations, \<^verbatim>\<open>pb_decode\<close> returns: no access is outside a live object, no loop runs
  on.  It leaves the objects and the heap as they were, changes memory only inside the struct, and does
  not lengthen the stream.\<close>

theorem static_decode_stays_inside:
  assumes "static_schema (field_lists env) depth sizes offs"
    and "inside w dest (sizes d)" and "dest + sizes d \<le> heap_top w"
  shows "\<exists>r w'. pb_decode (depth d + 2) env d dest w = Some (r, w') \<and>
    objs w' = objs w \<and> heap w' = heap w \<and> bytes_left (stream w') \<le> bytes_left (stream w) \<and>
    (\<forall>i. i < heap_top w \<longrightarrow> \<not> (dest \<le> i \<and> i < dest + sizes d) \<longrightarrow> ram w' i = ram w i)"
proof -
  let ?S = "{(dest, sizes d)}"
  have c: "covers ?S dest (sizes d)" by (simp add: covers_def)
  have "safe ?S (pb_decode (depth d + 2) env d dest) any"
    unfolding pb_decode_def by (intro safe_decode_with [OF assms(1) c] safe_noinit [OF assms(1) c]) simp_all
  moreover have "avail ?S w" using assms(2,3) by (simp add: avail_def)
  ultimately show ?thesis by (rule safeE) (auto simp: keeps_def)
qed

text \<open>The message with two required integers, in an object of 12 bytes.\<close>

definition example_denv :: "unit pb_denv" where
  "example_denv = \<lparr>field_lists = (\<lambda>d. if d = 0 then example_fields else []), decode_funcs = (\<lambda>_ _ _. stuck),
     ext_kinds = (\<lambda>_. \<lparr>ext_decode = None, ext_field = PB_LAST_FIELD\<rparr>)\<rparr>"

definition example_world :: "u8 list \<Rightarrow> unit pb_world" where
  "example_world bs = \<lparr>stream = pb_istream_from_buffer bs (length bs), ram = (\<lambda>_. 0xA5), objs = [(100, 12)], heap = [],
     heap_top = 1000, heap_calls = 0, heap_ok = (\<lambda>_ _. True)\<rparr>"

lemma example_static:
  "static_schema (field_lists example_denv) (\<lambda>_. 0) (\<lambda>_. 12) (\<lambda>d. if d = 0 then [0, 8] else [])"
proof -
  have "static_field (\<lambda>_. 0) (\<lambda>_. 12) 0 12 ([0, 8] ! i) (example_fields ! i)" if "i < 2" for i
  proof -
    have "i = 0 \<or> i = 1" using that by linarith
    then show ?thesis by (elim disjE) (simp, code_simp)+
  qed
  moreover have "length example_fields = 2" by (simp add: example_fields_def)
  moreover have "describes [] []" by (simp add: describes_def)
  ultimately show ?thesis
    using example_fields_ok by (simp add: static_schema_def example_denv_def fields_ok_def)
qed

theorem static_decode_stays_inside_witness:
  "\<exists>r w'. pb_decode 2 example_denv 0 100 (example_world [8, 150, 1, 24, 5]) = Some (r, w') \<and>
    (\<forall>i. i < 1000 \<longrightarrow> \<not> (100 \<le> i \<and> i < 112) \<longrightarrow> ram w' i = 0xA5)"
  using static_decode_stays_inside [OF example_static, of "example_world [8, 150, 1, 24, 5]" 100 0]
  by (auto simp: example_world_def inside_def numeral_2_eq_2)

text \<open>
  Three messages that the theorem leaves out.  An array of two bytes with a fixed count; an array of strings
  behind a pointer; and a union of an integer and a string behind a pointer.  \<open>run_decode\<close> decodes into an object of
  \<open>sz\<close> bytes at 100, where request number \<open>oom\<close> of the heap is refused, and gives the status.
\<close>

definition fixed_pair :: "pb_field list" where
  "fixed_pair = [\<lparr>tag = 1, ftype = PB_ATYPE_STATIC OR PB_HTYPE_REPEATED OR PB_LTYPE_VARINT, data_offset = 0, size_offset = 0,
     data_size = 1, array_size = 2, fptr = Ptr_none\<rparr>]"

definition string_list :: "pb_field list" where
  "string_list = [\<lparr>tag = 1, ftype = PB_ATYPE_POINTER OR PB_HTYPE_REPEATED OR PB_LTYPE_STRING, data_offset = 8,
     size_offset = -8, data_size = 8, array_size = 0, fptr = Ptr_none\<rparr>]"

definition int_or_string :: "pb_field list" where
  "int_or_string =
     [\<lparr>tag = 1, ftype = PB_ATYPE_STATIC OR PB_HTYPE_ONEOF OR PB_LTYPE_VARINT, data_offset = 8, size_offset = -8,
       data_size = 4, array_size = 0, fptr = Ptr_none\<rparr>,
      \<lparr>tag = 2, ftype = PB_ATYPE_POINTER OR PB_HTYPE_ONEOF OR PB_LTYPE_STRING, data_offset = PB_SIZE_MAX, size_offset = -8,
       data_size = 1, array_size = 0, fptr = Ptr_none\<rparr>]"

definition run_decode :: "pb_field list \<Rightarrow> nat \<Rightarrow> nat \<Rightarrow> u8 list \<Rightarrow> unit option option" where
  "run_decode fs sz oom bs =
     map_option fst (pb_decode 2 (example_denv\<lparr>field_lists := \<lambda>_. fs\<rparr>) 0 100
       ((example_world bs)\<lparr>objs := [(100, sz)], heap_ok := \<lambda>call n. call \<noteq> oom\<rparr>))"

text \<open>The three ways out of memory, on examples.  \<open>None\<close> is an access outside every object or a pointer that is not one.  The
  defaults of an array of fixed count write four bytes over a struct of two; when the second allocation of
  a repeated pointer field fails, releasing walks one entry past the array; and a string that replaces an
  integer in a union hands the integer to \<^verbatim>\<open>realloc\<close>.  The same calls succeed in a struct of four bytes,
  without the failure, and without the integer before.\<close>

theorem decode_leaves_memory:
  "run_decode fixed_pair 2 9 [8, 1, 8, 1] = None \<and> run_decode fixed_pair 4 9 [8, 1, 8, 1] = Some (Some ()) \<and>
   run_decode string_list 16 2 [10, 1, 65, 10, 1, 66] = None \<and>
   run_decode string_list 16 9 [10, 1, 65, 10, 1, 66] = Some (Some ()) \<and>
   run_decode int_or_string 16 9 [8, 5, 18, 1, 65] = None \<and> run_decode int_or_string 16 9 [18, 1, 65] = Some (Some ())"
  by code_simp

text \<open>C16: the default of an array of fixed count is four zero bytes at its start.  Let the first member of a message be
  an array with a fixed count, whose entry has no place for a count.  Then \<^verbatim>\<open>pb_field_set_to_default\<close>
  zeroes neither all of the array nor only the array: it writes a count of four bytes where the array begins, and
  \<^verbatim>\<open>pb_decode\<close> of the message, for every input, every environment and every state of memory, leaves
  memory when the object ends less than four bytes after that place.\<close>

theorem fixed_count_default:
  assumes "field_lists env d = f # fs" and "tag f \<noteq> 0"
    and "PB_ATYPE (ftype f) = PB_ATYPE_STATIC" and "PB_HTYPE (ftype f) = PB_HTYPE_REPEATED"
    and "PB_LTYPE (ftype f) \<noteq> PB_LTYPE_EXTENSION" and "size_offset f = 0"
  shows "pb_field_set_to_default (Suc n) env (snd (pb_field_iter_begin (f # fs) a)) w =
      (if inside w (a + data_offset f) 4
       then Some (Some (), w\<lparr>ram := write_bytes (a + data_offset f) [0, 0, 0, 0] (ram w)\<rparr>) else None) \<and>
    (\<not> inside w (a + data_offset f) 4 \<longrightarrow> pb_decode (Suc n) env d a w = None)"
proof -
  let ?it = "snd (pb_field_iter_begin (f # fs) a)"
  have it: "pos_field ?it = f" "pSize ?it = a + data_offset f"
    using assms(6) by (simp_all add: pb_field_iter_begin_def Let_def field_at_def pos_field_def size_addr_def)
  have one: "pb_field_set_to_default (Suc n) env ?it w = (if inside w (a + data_offset f) 4
       then Some (Some (), w\<lparr>ram := write_bytes (a + data_offset f) [0, 0, 0, 0] (ram w)\<rparr>) else None)"
  proof -
    have z: "le_bytes 4 0 = [0, 0, 0, 0]" by code_simp
    have h: "PB_HTYPE (ftype f) \<noteq> PB_HTYPE_OPTIONAL" using assms(4) by (simp add: PB_HTYPE_OPTIONAL_def PB_HTYPE_REPEATED_def)
    have "pb_field_set_to_default (Suc n) env ?it = put_size (a + data_offset f) 0"
      unfolding pb_field_set_to_default.simps Let_def it using assms(3-5) h by simp
    moreover have "length [0, 0, 0, 0 :: u8] = 4" by simp
    ultimately show ?thesis by (simp only: put_size_def put_bytes_def z)
  qed
  moreover have "pb_decode (Suc n) env d a w = None" if "\<not> inside w (a + data_offset f) 4"
  proof -
    have "pb_field_iter_begin (f # fs) a = (True, ?it)"
      using assms(2) by (simp add: pb_field_iter_begin_def Let_def field_at_def)
    then have "\<exists>its. visited (f # fs) a = ?it # its"
      unfolding visited_def by (cases "pb_field_iter_begin (f # fs) a") auto
    then obtain its where "visited (field_lists env d) a = ?it # its" using assms(1) by auto
    then show ?thesis using one that
      by (simp add: pb_decode_def decode_with_def pb_message_set_to_defaults_def also_do_def bnd_def)
  qed
  ultimately show ?thesis by blast
qed

theorem fixed_count_default_witness:
  "run_decode fixed_pair 2 9 [] = None"
proof -
  let ?env = "example_denv\<lparr>field_lists := \<lambda>_. fixed_pair\<rparr>"
  let ?w = "(example_world [])\<lparr>objs := [(100, 2)], heap_ok := \<lambda>call n. call \<noteq> 9\<rparr>"
  have fs: "field_lists ?env 0 = hd fixed_pair # []" by (simp add: fixed_pair_def)
  have t: "tag (hd fixed_pair) \<noteq> 0" "PB_ATYPE (ftype (hd fixed_pair)) = PB_ATYPE_STATIC"
    "PB_HTYPE (ftype (hd fixed_pair)) = PB_HTYPE_REPEATED" "PB_LTYPE (ftype (hd fixed_pair)) \<noteq> PB_LTYPE_EXTENSION"
    "size_offset (hd fixed_pair) = 0" by code_simp+
  have "\<not> inside ?w (100 + data_offset (hd fixed_pair)) 4" by (simp add: inside_def example_world_def fixed_pair_def)
  then have "pb_decode 2 ?env 0 100 ?w = None"
    using fixed_count_default [OF fs t, of 1 100 ?w] by (simp add: numeral_2_eq_2)
  then show ?thesis by (simp add: run_decode_def)
qed

end
