(* ===== verification/Lhash.thy ===== *)
theory Lhash
  imports Mem
begin

text \<open>
  The chained hash table of \<^verbatim>\<open>crypto/lhash/lhash.c\<close>.  The array of buckets is a list of chains, a chain
  the list of its items in order; an item is its address, its hash value and its
  data pointer; addresses are given out in order and never twice.  The callbacks
  \<^verbatim>\<open>comp\<close> and \<^verbatim>\<open>hash\<close> are fields of the table, as in the code, and what they promise is the locale
  \<open>lhash_keys\<close>.  The allocator is that of theory \<open>Mem\<close>: an operation takes its state and returns it,
  and an allocation that fails is one the allocator refuses.
\<close>

section \<open>Model\<close>

definition kMinNumBuckets :: nat where "kMinNumBuckets = 16"
definition kMaxAverageChainLength :: nat where "kMaxAverageChainLength = 2"
definition kMinAverageChainLength :: nat where "kMinAverageChainLength = 1"

record 'a LHASH_ITEM =
  item_addr :: nat
  item_hash :: u32
  item_data :: 'a

record 'a LHASH =
  lh_items :: nat
  buckets :: "'a LHASH_ITEM list list"
  callback_depth :: nat
  fresh_addr :: nat
  lh_comp :: "'a \<Rightarrow> 'a \<Rightarrow> int"
  lh_hash :: "'a \<Rightarrow> u32"

abbreviation num_buckets :: "'a LHASH \<Rightarrow> nat" where
  "num_buckets lh \<equiv> length (buckets lh)"

definition UINT_MAX :: nat where "UINT_MAX = 2 ^ 32 - 1"

text \<open>Pointers and \<^verbatim>\<open>LHASH_ITEM\<close> (\<^verbatim>\<open>data\<close>, \<^verbatim>\<open>next\<close>, \<^verbatim>\<open>hash\<close>) take 8 and 24 bytes, \<^verbatim>\<open>_LHASH\<close> 48.\<close>

definition lh_new :: "('a \<Rightarrow> u32) \<Rightarrow> ('a \<Rightarrow> 'a \<Rightarrow> int) \<Rightarrow> ('a LHASH, mem) step" where
  "lh_new h c =
     and_then (OPENSSL_malloc 48) (\<lambda>r m.
       case OPENSSL_malloc (8 * kMinNumBuckets) m of
         (None, m1) \<Rightarrow> (None, OPENSSL_free (Some r) m1)
       | (Some _, m1) \<Rightarrow>
           (Some \<lparr>lh_items = 0, buckets = replicate kMinNumBuckets [], callback_depth = 0,
                  fresh_addr = 0, lh_comp = c, lh_hash = h\<rparr>, m1))"

definition lh_num_items :: "'a LHASH \<Rightarrow> nat" where
  "lh_num_items lh = lh_items lh"

text \<open>The chain that \<open>data\<close> belongs to, the position of the item equal to it, or of the end of the
  chain, and the hash value.\<close>

fun chain_index :: "('a \<Rightarrow> 'a \<Rightarrow> int) \<Rightarrow> 'a LHASH_ITEM list \<Rightarrow> 'a \<Rightarrow> nat" where
  "chain_index c [] data = 0"
| "chain_index c (cur # chain) data = (if c (item_data cur) data = 0 then 0 else Suc (chain_index c chain data))"

definition get_next_ptr_and_hash :: "'a LHASH \<Rightarrow> 'a \<Rightarrow> nat \<times> nat \<times> u32" where
  "get_next_ptr_and_hash lh data =
     (let h = lh_hash lh data; b = unat h mod num_buckets lh
      in (b, chain_index (lh_comp lh) (buckets lh ! b) data, h))"

definition lh_retrieve :: "'a LHASH \<Rightarrow> 'a \<Rightarrow> 'a option" where
  "lh_retrieve lh data =
     (case get_next_ptr_and_hash lh data of
        (b, i, _) \<Rightarrow> if i < length (buckets lh ! b) then Some (item_data (buckets lh ! b ! i)) else None)"

text \<open>Every item goes to the front of its new chain.\<close>

definition rebucket_chain :: "nat \<Rightarrow> 'a LHASH_ITEM list \<Rightarrow> 'a LHASH_ITEM list list \<Rightarrow> 'a LHASH_ITEM list list" where
  "rebucket_chain n chain bs =
     foldl (\<lambda>bs cur. let nb = unat (item_hash cur) mod n in bs[nb := cur # bs ! nb]) bs chain"

definition rebucket_all :: "nat \<Rightarrow> 'a LHASH_ITEM list list \<Rightarrow> 'a LHASH_ITEM list list" where
  "rebucket_all n old = foldl (\<lambda>bs chain. rebucket_chain n chain bs) (replicate n []) old"

definition lh_rebucket :: "nat \<Rightarrow> 'a LHASH \<Rightarrow> mem \<Rightarrow> 'a LHASH \<times> mem" where
  "lh_rebucket new_num_buckets lh m =
     (let alloc_size = size_mul 8 new_num_buckets
      in if alloc_size div 8 \<noteq> new_num_buckets then (lh, m)
         else case OPENSSL_malloc alloc_size m of
                (None, m1) \<Rightarrow> (lh, m1)
              | (Some _, m1) \<Rightarrow>
                  (lh\<lparr>buckets := rebucket_all new_num_buckets (buckets lh)\<rparr>,
                   OPENSSL_free (Some (replicate (8 * num_buckets lh) 0)) m1))"

definition lh_maybe_resize :: "'a LHASH \<Rightarrow> mem \<Rightarrow> 'a LHASH \<times> mem" where
  "lh_maybe_resize lh m =
     (if callback_depth lh > 0 then (lh, m)
      else
        let avg_chain_length = lh_items lh div num_buckets lh
        in if avg_chain_length > kMaxAverageChainLength then
             let new_num_buckets = size_mul (num_buckets lh) 2
             in if new_num_buckets > num_buckets lh then lh_rebucket new_num_buckets lh m else (lh, m)
           else if avg_chain_length < kMinAverageChainLength \<and> num_buckets lh > kMinNumBuckets then
             lh_rebucket (max (num_buckets lh div 2) kMinNumBuckets) lh m
           else (lh, m))"

text \<open>The results are the return value, \<^verbatim>\<open>*old_data\<close> and the table.\<close>

definition lh_insert :: "'a \<Rightarrow> 'a LHASH \<Rightarrow> mem \<Rightarrow> bool \<times> 'a option \<times> 'a LHASH \<times> mem" where
  "lh_insert data lh m =
     (case get_next_ptr_and_hash lh data of
        (b, i, h) \<Rightarrow>
          let chain = buckets lh ! b
          in if i < length chain then
               (True, Some (item_data (chain ! i)),
                lh\<lparr>buckets := (buckets lh)[b := chain[i := (chain ! i)\<lparr>item_data := data\<rparr>]]\<rparr>, m)
             else
               case OPENSSL_malloc 24 m of
                 (None, m1) \<Rightarrow> (False, None, lh, m1)
               | (Some _, m1) \<Rightarrow>
                   (case lh_maybe_resize
                       (lh\<lparr>buckets := (buckets lh)[b := chain @ [\<lparr>item_addr = fresh_addr lh, item_hash = h, item_data = data\<rparr>]],
                           lh_items := lh_items lh + 1, fresh_addr := fresh_addr lh + 1\<rparr>) m1 of
                      (lh2, m2) \<Rightarrow> (True, None, lh2, m2)))"

definition lh_delete :: "'a \<Rightarrow> 'a LHASH \<Rightarrow> mem \<Rightarrow> 'a option \<times> 'a LHASH \<times> mem" where
  "lh_delete data lh m =
     (case get_next_ptr_and_hash lh data of
        (b, i, h) \<Rightarrow>
          let chain = buckets lh ! b
          in if \<not> i < length chain then (None, lh, m)
             else
               case lh_maybe_resize
                   (lh\<lparr>buckets := (buckets lh)[b := take i chain @ drop (Suc i) chain],
                       lh_items := lh_items lh - 1\<rparr>)
                   (OPENSSL_free (Some (replicate 24 0)) m) of
                 (lh2, m2) \<Rightarrow> (Some (item_data (chain ! i)), lh2, m2))"

text \<open>The frees of \<^verbatim>\<open>lh_free\<close>: every item, then the array, then the table.\<close>

definition lh_free :: "'a LHASH option \<Rightarrow> mem \<Rightarrow> mem" where
  "lh_free lh m =
     (case lh of
        None \<Rightarrow> m
      | Some lh \<Rightarrow>
          OPENSSL_free (Some (replicate 48 0))
            (OPENSSL_free (Some (replicate (8 * num_buckets lh) 0))
              (foldl (\<lambda>m n. OPENSSL_free (Some (replicate 24 0)) m) m (concat (buckets lh)))))"

text \<open>A pointer to an item is its address, \<open>None\<close> the null pointer.  An item is looked up by its
  address in whatever chain it stands; the address of a freed item is found nowhere.\<close>

definition first_item :: "'a LHASH_ITEM list \<Rightarrow> nat option" where
  "first_item chain = (case chain of [] \<Rightarrow> None | cur # _ \<Rightarrow> Some (item_addr cur))"

fun item_in :: "nat \<Rightarrow> 'a LHASH_ITEM list \<Rightarrow> ('a LHASH_ITEM \<times> nat option) option" where
  "item_in p [] = None"
| "item_in p (cur # chain) = (if item_addr cur = p then Some (cur, first_item chain) else item_in p chain)"

fun item_at :: "nat \<Rightarrow> 'a LHASH_ITEM list list \<Rightarrow> ('a LHASH_ITEM \<times> nat option) option" where
  "item_at p [] = None"
| "item_at p (chain # bs) = (case item_in p chain of None \<Rightarrow> item_at p bs | Some r \<Rightarrow> Some r)"

text \<open>The callback gets the table itself and may change it, and so gives the state of the caller, the
  table and the memory; \<open>next\<close> is read before the call.  A walk that follows a pointer to an item that
  the callback has freed, or that does not end, is \<open>None\<close>.\<close>

type_synonym ('a, 's) callback = "'a \<Rightarrow> 's \<Rightarrow> 'a LHASH \<Rightarrow> mem \<Rightarrow> ('s \<times> 'a LHASH \<times> mem) option"

partial_function (option) doall_chain ::
  "('a, 's) callback \<Rightarrow> nat option \<Rightarrow> 's \<Rightarrow> 'a LHASH \<Rightarrow> mem \<Rightarrow> ('s \<times> 'a LHASH \<times> mem) option" where
  "doall_chain func cur s lh m =
     (case cur of
        None \<Rightarrow> Some (s, lh, m)
      | Some p \<Rightarrow>
          Option.bind (item_at p (buckets lh)) (\<lambda>(item, next).
            Option.bind (func (item_data item) s lh m) (\<lambda>(s1, lh1, m1).
              doall_chain func next s1 lh1 m1)))"

partial_function (option) doall_buckets ::
  "('a, 's) callback \<Rightarrow> nat \<Rightarrow> 's \<Rightarrow> 'a LHASH \<Rightarrow> mem \<Rightarrow> ('s \<times> 'a LHASH \<times> mem) option" where
  "doall_buckets func i s lh m =
     (if i < num_buckets lh then
        Option.bind (doall_chain func (first_item (buckets lh ! i)) s lh m) (\<lambda>(s1, lh1, m1).
          doall_buckets func (i + 1) s1 lh1 m1)
      else Some (s, lh, m))"

definition lh_doall_internal ::
  "('a, 's) callback \<Rightarrow> 'a LHASH option \<Rightarrow> 's \<Rightarrow> mem \<Rightarrow> ('a LHASH option \<times> 's \<times> mem) option" where
  "lh_doall_internal func lho s m =
     (case lho of
        None \<Rightarrow> Some (None, s, m)
      | Some lh \<Rightarrow>
          let lh0 = (if callback_depth lh < UINT_MAX then lh\<lparr>callback_depth := callback_depth lh + 1\<rparr> else lh)
          in Option.bind (doall_buckets func 0 s lh0 m) (\<lambda>(s1, lh1, m1).
               let lh2 = (if callback_depth lh1 < UINT_MAX then lh1\<lparr>callback_depth := callback_depth lh1 - 1\<rparr> else lh1)
               in case lh_maybe_resize lh2 m1 of (lh3, m3) \<Rightarrow> Some (Some lh3, s1, m3)))"

definition lh_doall :: "('a, 's) callback \<Rightarrow> 'a LHASH option \<Rightarrow> 's \<Rightarrow> mem \<Rightarrow> ('a LHASH option \<times> 's \<times> mem) option" where
  "lh_doall func = lh_doall_internal func"

definition lh_doall_arg ::
  "('a \<Rightarrow> 'b \<Rightarrow> 's \<Rightarrow> 'a LHASH \<Rightarrow> mem \<Rightarrow> ('s \<times> 'a LHASH \<times> mem) option) \<Rightarrow> 'b \<Rightarrow>
   'a LHASH option \<Rightarrow> 's \<Rightarrow> mem \<Rightarrow> ('a LHASH option \<times> 's \<times> mem) option" where
  "lh_doall_arg func arg = lh_doall_internal (\<lambda>d. func d arg)"

definition lh_strhash :: "u8 list option \<Rightarrow> u32" where
  "lh_strhash c = (case c of None \<Rightarrow> 0 | Some s \<Rightarrow> OPENSSL_hash32 (take (strlen s) s))"

text \<open>\<^verbatim>\<open>strcmp\<close>, of which the tables need only when it is 0.\<close>

fun strcmp :: "u8 list \<Rightarrow> u8 list \<Rightarrow> int" where
  "strcmp (a # as) (b # bs) = (if a \<noteq> b then (if a < b then -1 else 1) else if a = 0 then 0 else strcmp as bs)"
| "strcmp (a # as) [] = (if a = 0 then 0 else 1)"
| "strcmp [] (b # bs) = (if b = 0 then 0 else -1)"
| "strcmp [] [] = 0"

section \<open>Chains and buckets\<close>

lemma chain_index_le: "chain_index c chain data \<le> length chain"
  by (induction chain data rule: chain_index.induct) auto

lemma chain_index_found:
  "chain_index c chain data < length chain \<Longrightarrow>
   c (item_data (chain ! chain_index c chain data)) data = 0 \<and> chain ! chain_index c chain data \<in> set chain"
  by (induction c chain data rule: chain_index.induct) (auto split: if_splits)

lemma chain_index_missing:
  "\<not> chain_index c chain data < length chain \<longleftrightarrow> (\<forall>x \<in> set chain. c (item_data x) data \<noteq> 0)"
  by (induction c chain data rule: chain_index.induct) auto

lemma mset_concat_update:
  "i < length xs \<Longrightarrow> mset (concat (xs[i := ys])) + mset (xs ! i) = mset (concat xs) + mset ys"
proof (induction xs arbitrary: i)
  case (Cons x xs)
  then show ?case by (cases i) (auto simp: ac_simps)
qed simp

definition placed :: "nat \<Rightarrow> 'a LHASH_ITEM list list \<Rightarrow> bool" where
  "placed n bs \<longleftrightarrow> length bs = n \<and> (\<forall>b < n. \<forall>x \<in> set (bs ! b). unat (item_hash x) mod n = b)"

lemma placed_update: "placed n bs \<Longrightarrow> b < n \<Longrightarrow> \<forall>x \<in> set ys. unat (item_hash x) mod n = b \<Longrightarrow> placed n (bs[b := ys])"
  by (auto simp: placed_def nth_list_update)

lemma placed_bucket:
  assumes "placed n bs" and "0 < n" and "x \<in> set (concat bs)"
  shows "x \<in> set (bs ! (unat (item_hash x) mod n))"
proof -
  from assms(3) obtain c where "c \<in> set bs" "x \<in> set c" by auto
  then obtain b where "b < length bs" "x \<in> set (bs ! b)" by (auto simp: in_set_conv_nth [of c])
  with assms(1) show ?thesis by (auto simp: placed_def)
qed

lemma rebucket_chain_placed:
  assumes "0 < n" and "placed n bs"
  shows "placed n (rebucket_chain n chain bs) \<and>
    mset (concat (rebucket_chain n chain bs)) = mset chain + mset (concat bs)"
  using assms(2)
proof (induction chain arbitrary: bs)
  case (Cons x chain)
  let ?b = "unat (item_hash x) mod n"
  have b: "?b < length bs" using Cons.prems assms(1) by (simp add: placed_def)
  have p: "placed n (bs[?b := x # bs ! ?b])"
    using Cons.prems assms(1) by (intro placed_update) (auto simp: placed_def)
  have "rebucket_chain n (x # chain) bs = rebucket_chain n chain (bs[?b := x # bs ! ?b])"
    by (simp add: rebucket_chain_def Let_def)
  with Cons.IH [OF p] mset_concat_update [OF b, of "x # bs ! ?b"] show ?case by simp
qed (simp add: rebucket_chain_def)

lemma rebucket_all_placed:
  assumes "0 < n"
  shows "placed n (rebucket_all n old) \<and> mset (concat (rebucket_all n old)) = mset (concat old)"
proof -
  have gen: "placed n (foldl (\<lambda>bs chain. rebucket_chain n chain bs) bs old) \<and>
    mset (concat (foldl (\<lambda>bs chain. rebucket_chain n chain bs) bs old)) = mset (concat old) + mset (concat bs)"
    if "placed n bs" for bs
    using that
  proof (induction old arbitrary: bs)
    case (Cons chain old)
    with rebucket_chain_placed [OF assms Cons.prems, of chain] show ?case by simp
  qed simp
  have "placed n (replicate n [])" by (simp add: placed_def)
  from gen [OF this] show ?thesis by (simp add: rebucket_all_def)
qed

section \<open>The table as a map\<close>

text \<open>What the callbacks of a table promise: \<open>comp\<close> is zero on an equivalence, and equal data have the
  same hash value.\<close>

locale lhash_keys =
  fixes hash :: "'a \<Rightarrow> u32" and comp :: "'a \<Rightarrow> 'a \<Rightarrow> int" and dom_of :: "'a \<Rightarrow> bool"
  assumes comp_refl: "dom_of x \<Longrightarrow> comp x x = 0"
    and comp_sym: "dom_of x \<Longrightarrow> dom_of y \<Longrightarrow> comp x y = 0 \<Longrightarrow> comp y x = 0"
    and comp_trans: "dom_of x \<Longrightarrow> dom_of y \<Longrightarrow> dom_of z \<Longrightarrow> comp x y = 0 \<Longrightarrow> comp y z = 0 \<Longrightarrow> comp x z = 0"
    and comp_hash: "dom_of x \<Longrightarrow> dom_of y \<Longrightarrow> comp x y = 0 \<Longrightarrow> hash x = hash y"
begin

definition data_of :: "'a LHASH \<Rightarrow> 'a multiset" where
  "data_of lh = image_mset item_data (mset (concat (buckets lh)))"

definition lh_inv :: "'a LHASH \<Rightarrow> bool" where
  "lh_inv lh \<longleftrightarrow> lh_comp lh = comp \<and> lh_hash lh = hash \<and> kMinNumBuckets \<le> num_buckets lh \<and>
     placed (num_buckets lh) (buckets lh) \<and> lh_items lh = length (concat (buckets lh)) \<and>
     (\<forall>x \<in> set (concat (buckets lh)). item_hash x = hash (item_data x) \<and> dom_of (item_data x)) \<and>
     (\<forall>k. dom_of k \<longrightarrow> size (filter_mset (\<lambda>d. comp d k = 0) (data_of lh)) \<le> 1)"

lemma lh_inv_pos: "lh_inv lh \<Longrightarrow> 0 < num_buckets lh"
  by (auto simp: lh_inv_def kMinNumBuckets_def)

lemma bucket_in_concat: "b < num_buckets lh \<Longrightarrow> x \<in> set (buckets lh ! b) \<Longrightarrow> x \<in> set (concat (buckets lh))"
  by (auto intro: nth_mem)

text \<open>An item equal to \<open>k\<close> can only be in the chain of \<open>k\<close>, and there is at most one.\<close>

lemma lookup_chain:
  assumes "lh_inv lh" and "dom_of k" and "get_next_ptr_and_hash lh k = (b, i, h)"
  shows "b < num_buckets lh" "h = hash k" "b = unat h mod num_buckets lh"
    "(i < length (buckets lh ! b)) \<longleftrightarrow> (\<exists>d \<in># data_of lh. comp d k = 0)"
    "i < length (buckets lh ! b) \<Longrightarrow> comp (item_data (buckets lh ! b ! i)) k = 0 \<and> buckets lh ! b ! i \<in> set (buckets lh ! b)"
proof -
  have eqs: "h = hash k" "b = unat h mod num_buckets lh" "i = chain_index comp (buckets lh ! b) k"
    using assms(1,3) by (auto simp: get_next_ptr_and_hash_def lh_inv_def Let_def)
  then show b: "b < num_buckets lh" and "h = hash k" "b = unat h mod num_buckets lh"
    using lh_inv_pos [OF assms(1)] by auto
  show f: "i < length (buckets lh ! b) \<Longrightarrow> comp (item_data (buckets lh ! b ! i)) k = 0 \<and> buckets lh ! b ! i \<in> set (buckets lh ! b)"
    using chain_index_found [of comp "buckets lh ! b" k] eqs(3) by simp
  show "(i < length (buckets lh ! b)) \<longleftrightarrow> (\<exists>d \<in># data_of lh. comp d k = 0)"
  proof
    assume i: "i < length (buckets lh ! b)"
    with f have "buckets lh ! b ! i \<in> set (concat (buckets lh))" using bucket_in_concat b by blast
    then have "item_data (buckets lh ! b ! i) \<in># data_of lh" by (simp add: data_of_def)
    with f i show "\<exists>d \<in># data_of lh. comp d k = 0" by blast
  next
    assume "\<exists>d \<in># data_of lh. comp d k = 0"
    then obtain x where x: "x \<in> set (concat (buckets lh))" "comp (item_data x) k = 0" by (auto simp: data_of_def)
    then have "item_hash x = hash (item_data x)" "dom_of (item_data x)" using assms(1) by (auto simp: lh_inv_def)
    then have "item_hash x = h" using comp_hash [of "item_data x" k] assms(2) x(2) eqs(1) by simp
    then have "x \<in> set (buckets lh ! b)"
      using placed_bucket [of "num_buckets lh" "buckets lh" x] assms(1) lh_inv_pos x(1) eqs(2) by (simp add: lh_inv_def)
    then show "i < length (buckets lh ! b)"
      using chain_index_missing [of comp "buckets lh ! b" k] x(2) eqs(3) by auto
  qed
qed

lemma unique_item:
  assumes "lh_inv lh" and "dom_of k" and "d \<in># data_of lh" and "d' \<in># data_of lh" and "comp d k = 0" and "comp d' k = 0"
  shows "d = d'"
proof (rule ccontr)
  assume n: "d \<noteq> d'"
  have "{#d, d'#} \<subseteq># filter_mset (\<lambda>d. comp d k = 0) (data_of lh)"
    using assms n by (simp add: insert_subset_eq_iff in_diff_count)
  then have "2 \<le> size (filter_mset (\<lambda>d. comp d k = 0) (data_of lh))"
    using size_mset_mono by fastforce
  with assms(1,2) show False by (fastforce simp: lh_inv_def)
qed

lemma lh_retrieve_iff:
  assumes "lh_inv lh" and "dom_of k"
  shows "lh_retrieve lh k = Some d \<longleftrightarrow> d \<in># data_of lh \<and> comp d k = 0"
proof -
  obtain b i h where g: "get_next_ptr_and_hash lh k = (b, i, h)" by (metis prod_cases3)
  note l = lookup_chain [OF assms g]
  show ?thesis
  proof (cases "i < length (buckets lh ! b)")
    case True
    let ?x = "buckets lh ! b ! i"
    have "?x \<in> set (concat (buckets lh))" using bucket_in_concat l(1) l(5) [OF True] by blast
    then have x: "item_data ?x \<in># data_of lh" "comp (item_data ?x) k = 0" using l(5) [OF True] by (auto simp: data_of_def)
    have "lh_retrieve lh k = Some (item_data ?x)" using True by (simp add: lh_retrieve_def g)
    then have "lh_retrieve lh k = Some d \<longleftrightarrow> d = item_data ?x" by auto
    also have "\<dots> \<longleftrightarrow> d \<in># data_of lh \<and> comp d k = 0"
      using x unique_item [OF assms _ x(1) _ x(2)] by blast
    finally show ?thesis .
  next
    case False
    then show ?thesis using l(4) by (auto simp: lh_retrieve_def g)
  qed
qed

end

section \<open>The operations keep the table and implement the map\<close>

lemma option_eqI: "(\<And>d. x = Some d \<longleftrightarrow> y = Some d) \<Longrightarrow> x = y"
  by (cases x; cases y) auto

context lhash_keys
begin

lemma lh_inv_rebuild:
  assumes "lh_inv lh" and "kMinNumBuckets \<le> n" and "placed n bs" and "mset (concat bs) = mset (concat (buckets lh))"
  shows "lh_inv (lh\<lparr>buckets := bs\<rparr>) \<and> data_of (lh\<lparr>buckets := bs\<rparr>) = data_of lh"
proof -
  have "length (concat bs) = length (concat (buckets lh))" "set (concat bs) = set (concat (buckets lh))"
    using assms(4) mset_eq_length mset_eq_setD by blast+
  moreover have "length bs = n" using assms(3) by (simp add: placed_def)
  ultimately show ?thesis using assms by (auto simp: lh_inv_def data_of_def simp del: set_concat)
qed

lemma lh_rebucket_inv:
  assumes "lh_inv lh" and "kMinNumBuckets \<le> n" and "lh_rebucket n lh m = (lh', m')"
  shows "lh_inv lh' \<and> data_of lh' = data_of lh \<and> callback_depth lh' = callback_depth lh"
proof -
  have "0 < n" using assms(2) by (simp add: kMinNumBuckets_def)
  then have "lh_inv (lh\<lparr>buckets := rebucket_all n (buckets lh)\<rparr>) \<and> data_of (lh\<lparr>buckets := rebucket_all n (buckets lh)\<rparr>) = data_of lh"
    using rebucket_all_placed by (intro lh_inv_rebuild [OF assms(1,2)]) auto
  with assms(1,3) show ?thesis by (auto simp: lh_rebucket_def Let_def split: if_splits prod.splits option.splits)
qed

lemma lh_maybe_resize_cases:
  assumes "kMinNumBuckets \<le> num_buckets lh"
  shows "lh_maybe_resize lh m = (lh, m) \<or> (\<exists>n \<ge> kMinNumBuckets. lh_maybe_resize lh m = lh_rebucket n lh m)"
  using assms unfolding lh_maybe_resize_def Let_def
  by (auto intro: exI [of _ "max (num_buckets lh div 2) kMinNumBuckets"] exI [of _ "size_mul (num_buckets lh) 2"])

lemma lh_maybe_resize_inv:
  assumes "lh_inv lh" and "lh_maybe_resize lh m = (lh', m')"
  shows "lh_inv lh'" "data_of lh' = data_of lh" "callback_depth lh' = callback_depth lh"
proof -
  have "kMinNumBuckets \<le> num_buckets lh" using assms(1) by (simp add: lh_inv_def)
  then consider "lh_maybe_resize lh m = (lh, m)" | n where "kMinNumBuckets \<le> n" "lh_rebucket n lh m = (lh', m')"
    using lh_maybe_resize_cases [of lh m] assms(2) by auto
  then have "lh_inv lh' \<and> data_of lh' = data_of lh \<and> callback_depth lh' = callback_depth lh"
    by cases (use assms lh_rebucket_inv [OF assms(1)] in auto)
  then show "lh_inv lh'" "data_of lh' = data_of lh" "callback_depth lh' = callback_depth lh" by auto
qed

text \<open>A new chain in one bucket.\<close>

lemma data_of_update:
  assumes "b < num_buckets lh"
  shows "data_of (lh\<lparr>buckets := (buckets lh)[b := ch], lh_items := k\<rparr>) + image_mset item_data (mset (buckets lh ! b)) =
    data_of lh + image_mset item_data (mset ch)"
  using arg_cong [OF mset_concat_update [OF assms, of ch], of "image_mset item_data"] by (simp add: data_of_def)

lemma lh_inv_update:
  assumes "lh_inv lh" and b: "b < num_buckets lh"
    and ch: "\<And>x. x \<in> set ch \<Longrightarrow> item_hash x = hash (item_data x) \<and> dom_of (item_data x) \<and> unat (hash (item_data x)) mod num_buckets lh = b"
    and u: "\<And>k. dom_of k \<Longrightarrow>
      size (filter_mset (\<lambda>d. comp d k = 0) (data_of (lh\<lparr>buckets := (buckets lh)[b := ch], lh_items := n\<rparr>))) \<le> 1"
    and n: "n + length (buckets lh ! b) = lh_items lh + length ch"
  shows "lh_inv (lh\<lparr>buckets := (buckets lh)[b := ch], lh_items := n\<rparr>)"
proof -
  have "placed (num_buckets lh) ((buckets lh)[b := ch])"
    using assms(1) b ch by (intro placed_update) (auto simp: lh_inv_def)
  moreover have "length (concat ((buckets lh)[b := ch])) + length (buckets lh ! b) = length (concat (buckets lh)) + length ch"
    using arg_cong [OF mset_concat_update [OF b, of ch], of size] by (simp add: size_mset)
  moreover have "x \<in> set ch \<or> x \<in> set (concat (buckets lh))" if "x \<in> set (concat ((buckets lh)[b := ch]))" for x
    using that set_update_subset_insert [of "buckets lh" b ch] by auto
  then have "\<forall>x \<in> set (concat ((buckets lh)[b := ch])). item_hash x = hash (item_data x) \<and> dom_of (item_data x)"
    using ch assms(1) unfolding lh_inv_def by blast
  ultimately show ?thesis using assms(1) u n unfolding lh_inv_def by (simp del: length_concat set_concat)
qed

lemma add_unique:
  assumes "lh_inv lh" and "dom_of x" and "\<And>d. d \<in># data_of lh \<Longrightarrow> comp d x \<noteq> 0" and "dom_of k"
  shows "size (filter_mset (\<lambda>d. comp d k = 0) (data_of lh + {#x#})) \<le> 1"
proof (cases "comp x k = 0")
  case True
  have "comp d k \<noteq> 0" if "d \<in># data_of lh" for d
  proof
    assume "comp d k = 0"
    moreover have "dom_of d" using that assms(1) by (auto simp: lh_inv_def data_of_def)
    ultimately have "comp d x = 0" using comp_trans [of d k x] comp_sym [of x k] True assms(2,4) by auto
    with assms(3) that show False by blast
  qed
  then have "filter_mset (\<lambda>d. comp d k = 0) (data_of lh) = {#}" by (auto simp: multiset_eq_iff not_in_iff [symmetric])
  with True show ?thesis by simp
next
  case False
  with assms(1,4) show ?thesis by (auto simp: lh_inv_def)
qed

lemma remove_unique:
  assumes "lh_inv lh" and "dom_of k" and "D + E = data_of lh"
  shows "size (filter_mset (\<lambda>d. comp d k = 0) D) \<le> 1"
proof -
  have "size (filter_mset (\<lambda>d. comp d k = 0) (D + E)) \<le> 1" using assms by (auto simp: lh_inv_def)
  then show ?thesis by simp
qed

lemma item_facts:
  assumes "lh_inv lh" and "b < num_buckets lh" and "x \<in> set (buckets lh ! b)"
  shows "item_hash x = hash (item_data x) \<and> dom_of (item_data x) \<and> unat (hash (item_data x)) mod num_buckets lh = b"
proof -
  have "item_hash x = hash (item_data x) \<and> dom_of (item_data x)"
    using assms(1) bucket_in_concat [OF assms(2,3)] unfolding lh_inv_def by blast
  moreover have "unat (item_hash x) mod num_buckets lh = b"
    using assms unfolding lh_inv_def placed_def by blast
  ultimately show ?thesis by auto
qed

end

lemma mset_remove_nth:
  assumes "i < length xs"
  shows "mset (take i xs @ drop (Suc i) xs) + {#xs ! i#} = mset xs"
proof -
  have "mset xs = mset (take i xs @ xs ! i # drop (Suc i) xs)" using id_take_nth_drop [OF assms] by simp
  then show ?thesis by simp
qed

lemma mset_swap:
  fixes A B C N x y :: "'b multiset"
  assumes "A + C = B + N" and "N + x = C + y"
  shows "A + x = B + y"
proof -
  have "(A + x) + C = (A + C) + x" by (simp add: ac_simps)
  also have "\<dots> = B + (N + x)" unfolding assms(1) by (simp add: ac_simps)
  also have "\<dots> = (B + y) + C" unfolding assms(2) by (simp add: ac_simps)
  finally show ?thesis by simp
qed

lemma mset_replace_nth: "i < length xs \<Longrightarrow> mset (xs[i := y]) + {#xs ! i#} = mset xs + {#y#}"
  by (simp add: mset_update)

context lhash_keys
begin

lemma retrieve_data:
  assumes "lh_inv lh" and "lh_inv lh'" and "dom_of k"
    and "\<And>d. comp d k = 0 \<Longrightarrow> d \<in># data_of lh' \<longleftrightarrow> d \<in># data_of lh"
  shows "lh_retrieve lh' k = lh_retrieve lh k"
  by (rule option_eqI) (use assms in \<open>auto simp: lh_retrieve_iff\<close>)

lemma fresh_addr_irrelevant:
  "lh_inv (lh\<lparr>fresh_addr := a\<rparr>) = lh_inv lh" "data_of (lh\<lparr>fresh_addr := a\<rparr>) = data_of lh"
  by (simp_all add: lh_inv_def data_of_def)

lemma lh_insert_map:
  assumes inv: "lh_inv lh" and dom: "dom_of data" and ins: "lh_insert data lh m = (ok, old, lh', m')"
  shows "old = lh_retrieve lh data \<and> lh_inv lh' \<and> (\<not> ok \<longrightarrow> lh' = lh) \<and> (old \<noteq> None \<longrightarrow> ok) \<and>
    (ok \<longrightarrow> (\<forall>k. dom_of k \<longrightarrow> lh_retrieve lh' k = (if comp data k = 0 then Some data else lh_retrieve lh k)))"
proof -
  obtain b i h where g: "get_next_ptr_and_hash lh data = (b, i, h)" by (metis prod_cases3)
  note l = lookup_chain [OF inv dom g]
  let ?ch = "buckets lh ! b"
  show ?thesis
  proof (cases "i < length ?ch")
    case True
    let ?x = "?ch ! i"
    let ?new = "?ch[i := ?x\<lparr>item_data := data\<rparr>]"
    have x: "comp (item_data ?x) data = 0" "?x \<in> set ?ch" using l(5) [OF True] by auto
    have xf: "item_hash ?x = hash (item_data ?x)" "dom_of (item_data ?x)" "unat (hash (item_data ?x)) mod num_buckets lh = b"
      using item_facts [OF inv l(1) x(2)] by auto
    have hx: "hash (item_data ?x) = hash data" using comp_hash xf(2) dom x(1) by blast
    have r: "lh' = lh\<lparr>buckets := (buckets lh)[b := ?new], lh_items := lh_items lh\<rparr>" "ok" "old = Some (item_data ?x)"
      using ins True by (auto simp: lh_insert_def g Let_def)
    have "data_of lh' + image_mset item_data (mset ?ch) = data_of lh + image_mset item_data (mset ?new)"
      unfolding r(1) by (rule data_of_update [OF l(1)])
    moreover have "image_mset item_data (mset ?new) + {#item_data ?x#} = image_mset item_data (mset ?ch) + {#data#}"
      using arg_cong [OF mset_replace_nth [OF True, of "?x\<lparr>item_data := data\<rparr>"], of "image_mset item_data"] by simp
    ultimately have dat: "data_of lh' + {#item_data ?x#} = data_of lh + {#data#}"
      by (rule mset_swap)
    have xin: "item_data ?x \<in># data_of lh" using bucket_in_concat [OF l(1) x(2)] unfolding data_of_def by simp
    then obtain D where D: "data_of lh = add_mset (item_data ?x) D" by (meson multi_member_split)
    with dat have D': "data_of lh' = add_mset data D" by simp
    have same: "comp (item_data ?x) k = 0 \<longleftrightarrow> comp data k = 0" if "dom_of k" for k
      using comp_trans [of "item_data ?x" data k] comp_trans [of data "item_data ?x" k] comp_sym [of "item_data ?x" data] that dom xf(2) x(1)
      by blast
    have u: "size (filter_mset (\<lambda>d. comp d k = 0) (data_of lh')) \<le> 1" if "dom_of k" for k
      using inv that same [OF that] D D' by (auto simp: lh_inv_def split: if_splits)
    have i': "lh_inv lh'" unfolding r(1)
    proof (rule lh_inv_update [OF inv l(1)])
      fix y assume "y \<in> set ?new"
      then consider "y = ?x\<lparr>item_data := data\<rparr>" | "y \<in> set ?ch" using set_update_subset_insert [of ?ch i] by auto
      then show "item_hash y = hash (item_data y) \<and> dom_of (item_data y) \<and> unat (hash (item_data y)) mod num_buckets lh = b"
        by cases (use xf hx dom item_facts [OF inv l(1)] in auto)
    qed (use u r(1) in auto)
    have "lh_retrieve lh' k = (if comp data k = 0 then Some data else lh_retrieve lh k)" if "dom_of k" for k
    proof (cases "comp data k = 0")
      case True
      then show ?thesis using lh_retrieve_iff [OF i' that, of data] D' by simp
    next
      case False
      then show ?thesis using retrieve_data [OF inv i' that] same [OF that] D D' by auto
    qed
    moreover have "lh_retrieve lh data = old" using r(3) lh_retrieve_iff [OF inv dom] xin x(1) by simp
    ultimately show ?thesis using i' r(2) by simp
  next
    case False
    then have none: "\<forall>d \<in># data_of lh. comp d data \<noteq> 0" using l(4) by blast
    then have r0: "lh_retrieve lh data = None" using lh_retrieve_iff [OF inv dom] by (metis not_None_eq)
    show ?thesis
    proof (cases "fst (OPENSSL_malloc 24 m)")
      case None
      then show ?thesis using ins False r0 inv by (auto simp: lh_insert_def g Let_def split: prod.splits option.splits)
    next
      case (Some p)
      let ?new = "\<lparr>item_addr = fresh_addr lh, item_hash = h, item_data = data\<rparr>"
      let ?lh0 = "lh\<lparr>buckets := (buckets lh)[b := ?ch @ [?new]], lh_items := lh_items lh + 1\<rparr>"
      let ?lh1 = "?lh0\<lparr>fresh_addr := fresh_addr lh + 1\<rparr>"
      have r: "lh_maybe_resize ?lh1 (snd (OPENSSL_malloc 24 m)) = (lh', m')" "ok" "old = None"
        using ins False Some by (auto simp: lh_insert_def g Let_def split: prod.splits)
      have "data_of ?lh0 + image_mset item_data (mset ?ch) = data_of lh + image_mset item_data (mset (?ch @ [\<lparr>item_addr = fresh_addr lh, item_hash = h, item_data = data\<rparr>]))"
        by (rule data_of_update [OF l(1)])
      then have D1: "data_of ?lh0 = data_of lh + {#data#}" by simp
      have i0: "lh_inv ?lh0"
      proof (rule lh_inv_update [OF inv l(1)])
        fix y assume "y \<in> set (?ch @ [\<lparr>item_addr = fresh_addr lh, item_hash = h, item_data = data\<rparr>])"
        then consider "y = \<lparr>item_addr = fresh_addr lh, item_hash = h, item_data = data\<rparr>" | "y \<in> set ?ch" by auto
        then show "item_hash y = hash (item_data y) \<and> dom_of (item_data y) \<and> unat (hash (item_data y)) mod num_buckets lh = b"
        proof cases
          case 1
          then show ?thesis using l(2) l(3) [symmetric] dom by simp
        qed (rule item_facts [OF inv l(1)])
      next
        fix k assume "dom_of k"
        then show "size (filter_mset (\<lambda>d. comp d k = 0) (data_of ?lh0)) \<le> 1"
          unfolding D1 using add_unique [OF inv dom] none by blast
      qed simp
      then have "lh_inv ?lh1" by (simp only: fresh_addr_irrelevant)
      then have res: "lh_inv lh'" "data_of lh' = data_of ?lh0"
        using lh_maybe_resize_inv [OF _ r(1)] by (simp_all only: fresh_addr_irrelevant)
      have "lh_retrieve lh' k = (if comp data k = 0 then Some data else lh_retrieve lh k)" if "dom_of k" for k
      proof (cases "comp data k = 0")
        case True
        then show ?thesis using lh_retrieve_iff [OF res(1) that, of data] res(2) D1 by simp
      next
        case False
        then show ?thesis using retrieve_data [OF inv res(1) that] res(2) D1 by auto
      qed
      with r0 r res(1) show ?thesis by simp
    qed
  qed
qed

lemma lh_delete_map:
  assumes inv: "lh_inv lh" and dom: "dom_of data" and del: "lh_delete data lh m = (r, lh', m')"
  shows "r = lh_retrieve lh data \<and> lh_inv lh' \<and>
    (\<forall>k. dom_of k \<longrightarrow> lh_retrieve lh' k = (if comp data k = 0 then None else lh_retrieve lh k))"
proof -
  obtain b i h where g: "get_next_ptr_and_hash lh data = (b, i, h)" by (metis prod_cases3)
  note l = lookup_chain [OF inv dom g]
  let ?ch = "buckets lh ! b"
  have same: "comp d k = 0 \<longleftrightarrow> comp d data = 0" if "dom_of k" "dom_of d" "comp data k = 0" for d k
    using comp_trans [of d data k] comp_trans [of d k data] comp_sym [of data k] that dom by blast
  have doms: "dom_of d" if "d \<in># data_of lh" for d using that inv by (auto simp: lh_inv_def data_of_def)
  show ?thesis
  proof (cases "i < length ?ch")
    case False
    then have none: "\<forall>d \<in># data_of lh. comp d data \<noteq> 0" using l(4) by blast
    have "lh_retrieve lh k = None" if "dom_of k" "comp data k = 0" for k
      using lh_retrieve_iff [OF inv that(1)] none same [OF that(1) doms that(2)] by (metis not_None_eq)
    moreover have "r = None" "lh' = lh" using del False by (auto simp: lh_delete_def g Let_def)
    ultimately show ?thesis using inv dom comp_refl by auto
  next
    case True
    let ?x = "?ch ! i"
    let ?new = "take i ?ch @ drop (Suc i) ?ch"
    let ?lh1 = "lh\<lparr>buckets := (buckets lh)[b := ?new], lh_items := lh_items lh - 1\<rparr>"
    have x: "comp (item_data ?x) data = 0" "?x \<in> set ?ch" using l(5) [OF True] by auto
    have rr: "lh_maybe_resize ?lh1 (OPENSSL_free (Some (replicate 24 0)) m) = (lh', m')" "r = Some (item_data ?x)"
      using del True by (auto simp: lh_delete_def g Let_def split: prod.splits)
    have xin: "item_data ?x \<in># data_of lh" using bucket_in_concat [OF l(1) x(2)] unfolding data_of_def by simp
    have "data_of ?lh1 + image_mset item_data (mset ?ch) = data_of lh + image_mset item_data (mset ?new)"
      by (rule data_of_update [OF l(1)])
    moreover have "image_mset item_data (mset ?new) + {#item_data ?x#} = image_mset item_data (mset ?ch) + {#}"
      using arg_cong [OF mset_remove_nth [OF True], of "image_mset item_data"] by simp
    ultimately have "data_of ?lh1 + {#item_data ?x#} = data_of lh + {#}" by (rule mset_swap)
    then have D1: "data_of ?lh1 + {#item_data ?x#} = data_of lh" by simp
    have "0 < lh_items lh" using inv bucket_in_concat [OF l(1) x(2)] unfolding lh_inv_def by (metis length_pos_if_in_set)
    then have i1: "lh_inv ?lh1"
    proof (intro lh_inv_update [OF inv l(1)])
      fix y assume "y \<in> set ?new"
      then have "y \<in> set ?ch" by (auto dest: in_set_takeD in_set_dropD)
      then show "item_hash y = hash (item_data y) \<and> dom_of (item_data y) \<and> unat (hash (item_data y)) mod num_buckets lh = b"
        using item_facts [OF inv l(1)] by blast
    next
      fix k assume "dom_of k"
      then show "size (filter_mset (\<lambda>d. comp d k = 0) (data_of ?lh1)) \<le> 1"
        by (rule remove_unique [OF inv _ D1])
    qed (use True in auto)
    note res = lh_maybe_resize_inv [OF i1 rr(1)]
    have "lh_retrieve lh' k = (if comp data k = 0 then None else lh_retrieve lh k)" if k: "dom_of k" for k
    proof (cases "comp data k = 0")
      case True
      have "\<not> (d \<in># data_of lh' \<and> comp d k = 0)" for d
      proof
        assume d: "d \<in># data_of lh' \<and> comp d k = 0"
        then have d2: "{#d, item_data ?x#} \<subseteq># data_of lh" unfolding res(2) D1 [symmetric] by auto
        have "comp (item_data ?x) k = 0" using same [OF k doms True] xin x(1) by blast
        with d have "{#d, item_data ?x#} \<subseteq># filter_mset (\<lambda>d. comp d k = 0) (data_of lh)"
          using multiset_filter_mono [OF d2, of "\<lambda>d. comp d k = 0"] by simp
        then have "2 \<le> size (filter_mset (\<lambda>d. comp d k = 0) (data_of lh))" using size_mset_mono by fastforce
        with inv k show False by (fastforce simp: lh_inv_def)
      qed
      with lh_retrieve_iff [OF res(1) k] True show ?thesis by (metis not_None_eq)
    next
      case False
      have "comp (item_data ?x) k \<noteq> 0"
        using False comp_trans [of data "item_data ?x" k] comp_sym [of "item_data ?x" data] x(1) doms [OF xin] dom k by blast
      with False show ?thesis using retrieve_data [OF inv res(1) k] res(2) D1 [symmetric] by auto
    qed
    moreover have "lh_retrieve lh data = r" using rr(2) lh_retrieve_iff [OF inv dom] xin x(1) by simp
    ultimately show ?thesis using res(1) by simp
  qed
qed

lemma lh_new_map:
  assumes "lh_new hash comp m = (Some lh, m')"
  shows "lh_inv lh \<and> (\<forall>k. lh_retrieve lh k = None)"
proof -
  have lh: "lh = \<lparr>lh_items = 0, buckets = replicate kMinNumBuckets [], callback_depth = 0, fresh_addr = 0, lh_comp = comp, lh_hash = hash\<rparr>"
    using assms by (auto simp: lh_new_def and_then_def split: prod.splits option.splits)
  have "unat (hash k) mod kMinNumBuckets < kMinNumBuckets" for k
    by (auto simp: kMinNumBuckets_def)
  then show ?thesis
    by (auto simp: lh lh_inv_def data_of_def placed_def lh_retrieve_def get_next_ptr_and_hash_def Let_def)
qed

end

section \<open>Tables of strings\<close>

lemma strcmp_eq_0: "strcmp a b = 0 \<longleftrightarrow> takeWhile (\<lambda>c. c \<noteq> 0) a = takeWhile (\<lambda>c. c \<noteq> 0) b"
  by (induction a b rule: strcmp.induct) auto

lemma lh_strhash_eq: "lh_strhash (Some s) = OPENSSL_hash32 (takeWhile (\<lambda>c. c \<noteq> 0) s)"
  by (simp add: lh_strhash_def strlen_def takeWhile_eq_take [symmetric])

interpretation strings: lhash_keys "\<lambda>s. lh_strhash (Some s)" strcmp c_string
  by unfold_locales (simp_all add: strcmp_eq_0 lh_strhash_eq)

text \<open>The frame of the allocator.\<close>

lemma OPENSSL_malloc_ok: "mem_ok (snd (OPENSSL_malloc n m)) = mem_ok m"
  by (simp add: OPENSSL_malloc_def libc_malloc_def and_then_def ret_def)

lemma OPENSSL_free_ok: "mem_ok (OPENSSL_free p m) = mem_ok m"
  by (simp add: OPENSSL_free_def libc_free_def Let_def split: option.split)

lemma lh_maybe_resize_ok: "lh_maybe_resize lh m = (lh', m') \<Longrightarrow> mem_ok m' = mem_ok m"
  using OPENSSL_malloc_ok [of _ m]
  by (auto simp: lh_maybe_resize_def lh_rebucket_def Let_def OPENSSL_free_ok split: if_splits prod.splits option.splits)
    (metis snd_conv)+

lemma OPENSSL_malloc_24: "\<forall>i. mem_ok m i 32 \<Longrightarrow> fst (OPENSSL_malloc 24 m) \<noteq> None"
  by (simp add: OPENSSL_malloc_def libc_malloc_def OPENSSL_MALLOC_PREFIX_def and_then_def ret_def SIZE_MAX_def)

lemma lh_insert_succeeds:
  assumes "\<forall>i. mem_ok m i 32" and "lh_insert data lh m = (ok, old, lh', m')"
  shows "ok \<and> mem_ok m' = mem_ok m"
proof -
  obtain p m1 where p: "OPENSSL_malloc 24 m = (Some p, m1)"
    using OPENSSL_malloc_24 [OF assms(1)] by (metis not_None_eq prod.collapse)
  then have "mem_ok m1 = mem_ok m" using OPENSSL_malloc_ok [of 24 m] by simp
  then show ?thesis using assms(2) p
    by (auto simp: lh_insert_def Let_def split: prod.splits if_splits dest!: lh_maybe_resize_ok)
qed

lemma lh_delete_ok: "lh_delete data lh m = (r, lh', m') \<Longrightarrow> mem_ok m' = mem_ok m"
  by (auto simp: lh_delete_def Let_def OPENSSL_free_ok split: prod.splits if_splits dest!: lh_maybe_resize_ok)

section \<open>Properties\<close>

text \<open>A client's calls on a table of C strings, and the map they are meant to update: strings count up
  to their NUL.\<close>

datatype lh_op = Lh_insert "u8 list" | Lh_delete "u8 list" | Lh_retrieve "u8 list"

fun op_string :: "lh_op \<Rightarrow> u8 list" where
  "op_string (Lh_insert s) = s"
| "op_string (Lh_delete s) = s"
| "op_string (Lh_retrieve s) = s"

fun lh_run :: "lh_op list \<Rightarrow> u8 list LHASH \<Rightarrow> mem \<Rightarrow> u8 list option list" where
  "lh_run [] lh m = []"
| "lh_run (Lh_insert s # ops) lh m = (case lh_insert s lh m of (_, old, lh', m') \<Rightarrow> old # lh_run ops lh' m')"
| "lh_run (Lh_delete s # ops) lh m = (case lh_delete s lh m of (r, lh', m') \<Rightarrow> r # lh_run ops lh' m')"
| "lh_run (Lh_retrieve s # ops) lh m = lh_retrieve lh s # lh_run ops lh m"

definition c_key :: "u8 list \<Rightarrow> u8 list" where
  "c_key s = takeWhile (\<lambda>c. c \<noteq> 0) s"

fun map_run :: "lh_op list \<Rightarrow> (u8 list \<Rightarrow> u8 list option) \<Rightarrow> u8 list option list" where
  "map_run [] f = []"
| "map_run (Lh_insert s # ops) f = f (c_key s) # map_run ops (f(c_key s := Some s))"
| "map_run (Lh_delete s # ops) f = f (c_key s) # map_run ops (f(c_key s := None))"
| "map_run (Lh_retrieve s # ops) f = f (c_key s) # map_run ops f"

lemma lh_run_map:
  assumes "strings.lh_inv lh" and "\<forall>i. mem_ok m i 32" and "\<forall>op \<in> set ops. c_string (op_string op)"
    and "\<forall>k. c_string k \<longrightarrow> lh_retrieve lh k = f (c_key k)"
  shows "lh_run ops lh m = map_run ops f"
  using assms
proof (induction ops arbitrary: lh m f)
  case (Cons op ops)
  have op: "c_string (op_string op)" using Cons.prems(3) by simp
  show ?case
  proof (cases op)
    case (Lh_insert s)
    obtain ok old lh' m' where r: "lh_insert s lh m = (ok, old, lh', m')" by (metis prod_cases4)
    have ok: "ok" "mem_ok m' = mem_ok m" using lh_insert_succeeds [OF Cons.prems(2) r] by auto
    have s: "c_string s" using op Lh_insert by simp
    note i = strings.lh_insert_map [OF Cons.prems(1) s r]
    have "\<forall>k. c_string k \<longrightarrow> lh_retrieve lh' k = (f(c_key s := Some s)) (c_key k)"
      using i ok Cons.prems(4) by (auto simp: strcmp_eq_0 c_key_def)
    then have "lh_run ops lh' m' = map_run ops (f(c_key s := Some s))"
      using i ok Cons.prems by (intro Cons.IH) auto
    with r i Cons.prems(4) s Lh_insert show ?thesis by simp
  next
    case (Lh_delete s)
    obtain rr lh' m' where r: "lh_delete s lh m = (rr, lh', m')" by (metis prod_cases3)
    have s: "c_string s" using op Lh_delete by simp
    note i = strings.lh_delete_map [OF Cons.prems(1) s r]
    have "\<forall>k. c_string k \<longrightarrow> lh_retrieve lh' k = (f(c_key s := None)) (c_key k)"
      using i Cons.prems(4) by (auto simp: strcmp_eq_0 c_key_def)
    then have "lh_run ops lh' m' = map_run ops (f(c_key s := None))"
      using i lh_delete_ok [OF r] Cons.prems by (intro Cons.IH) auto
    with r i Cons.prems(4) s Lh_delete show ?thesis by simp
  next
    case (Lh_retrieve s)
    with op Cons show ?thesis by simp
  qed
qed simp

text \<open>C17: the hash table refines a map.  Starting from a new table of C strings, any sequence of
  insertions, deletions and lookups, with all the resizing it causes and whether or not the allocator
  grants the new bucket arrays, returns what the same sequence returns on a map from strings: the
  old entry for an insertion, the entry removed for a deletion.\<close>

theorem lhash_refines_map:
  assumes "lh_new (\<lambda>s. lh_strhash (Some s)) strcmp m = (Some lh, m')" and "\<forall>i. mem_ok m' i 32"
    and "\<forall>op \<in> set ops. c_string (op_string op)"
  shows "lh_run ops lh m' = map_run ops (\<lambda>_. None)"
  using strings.lh_new_map [OF assms(1)] assms(2,3) by (intro lh_run_map) auto

definition tiny_table :: "u8 list LHASH" where
  "tiny_table = \<lparr>lh_items = 0, buckets = replicate 16 [], callback_depth = 0, fresh_addr = 0, lh_comp = strcmp,
     lh_hash = (\<lambda>s. lh_strhash (Some s))\<rparr>"

theorem lhash_refines_map_witness:
  "lh_run [Lh_insert [97, 0], Lh_insert [97, 0, 5], Lh_delete [98, 0]] tiny_table (snd (lh_new (\<lambda>s. lh_strhash (Some s)) strcmp tiny_mem)) =
   [None, Some [97, 0], None]"
proof -
  have "mem_ok (snd (lh_new (\<lambda>s. lh_strhash (Some s)) strcmp tiny_mem)) = (\<lambda>i n. n < 1000)"
    by (simp add: lh_new_def tiny_mem_def OPENSSL_malloc_def libc_malloc_def and_then_def ret_def
        OPENSSL_MALLOC_PREFIX_def kMinNumBuckets_def SIZE_MAX_def)
  moreover have "lh_new (\<lambda>s. lh_strhash (Some s)) strcmp tiny_mem =
      (Some tiny_table, snd (lh_new (\<lambda>s. lh_strhash (Some s)) strcmp tiny_mem))"
    by (simp add: lh_new_def tiny_mem_def tiny_table_def OPENSSL_malloc_def libc_malloc_def and_then_def ret_def
        OPENSSL_MALLOC_PREFIX_def kMinNumBuckets_def SIZE_MAX_def)
  ultimately show ?thesis
    using lhash_refines_map [of tiny_mem tiny_table _ "[Lh_insert [97, 0], Lh_insert [97, 0, 5], Lh_delete [98, 0]]"]
    by (simp add: c_string_def c_key_def)
qed

lemma tiny_table_inv: "strings.lh_inv tiny_table"
  by (simp add: strings.lh_inv_def tiny_table_def placed_def kMinNumBuckets_def strings.data_of_def)

end
