(* ===== verification/Lhash_Walk.thy ===== *)
theory Lhash_Walk
  imports Lhash "HOL-Library.Sublist"
begin

text \<open>
  The walk \<^verbatim>\<open>lh_doall\<close> of \<^verbatim>\<open>crypto/lhash/lhash.c\<close> while its callback changes the table.  The pointer to
  the next item is read before the callback runs, and \<^verbatim>\<open>callback_depth\<close> keeps the table from being
  rebucketed under it.  \<open>table_calls\<close> says what a callback may do: insert, and delete the item it was
  called on.  Then every chain keeps what follows the visited item, up to replaced data and new items at
  the end (\<open>chain_kept\<close>), the walk meets every item of the start, and what was refused is made up
  for at the end.
\<close>

section \<open>What a callback does\<close>

fun visits :: "('a, 's) callback \<Rightarrow> 'a list \<Rightarrow> 's \<Rightarrow> 'a LHASH \<Rightarrow> mem \<Rightarrow> ('s \<times> 'a LHASH \<times> mem) option" where
  "visits func [] s lh m = Some (s, lh, m)"
| "visits func (d # ds) s lh m = Option.bind (func d s lh m) (\<lambda>(s1, lh1, m1). visits func ds s1 lh1 m1)"

text \<open>\<open>table_calls del n lh m lh' m'\<close>: insertions and deletions lead from \<open>lh\<close> to \<open>lh'\<close>, at most \<open>n\<close> of the
  insertions add an item, and only data that satisfy \<open>del\<close> are deleted.\<close>

inductive table_calls :: "('a \<Rightarrow> bool) \<Rightarrow> ('a \<Rightarrow> bool) \<Rightarrow> nat \<Rightarrow> 'a LHASH \<Rightarrow> mem \<Rightarrow> 'a LHASH \<Rightarrow> mem \<Rightarrow> bool"
  for key_ok del where
  calls_done: "table_calls key_ok del n lh m lh m"
| calls_insert: "table_calls key_ok del n lh m lh1 m1 \<Longrightarrow> key_ok a \<Longrightarrow> lh_insert a lh1 m1 = (r, old, lh2, m2) \<Longrightarrow>
    n' = (if old = None then n + 1 else n) \<Longrightarrow> table_calls key_ok del n' lh m lh2 m2"
| calls_delete: "table_calls key_ok del n lh m lh1 m1 \<Longrightarrow> key_ok a \<Longrightarrow> del a \<Longrightarrow> lh_delete a lh1 m1 = (r, lh2, m2) \<Longrightarrow>
    table_calls key_ok del n lh m lh2 m2"

text \<open>A callback that keeps to these calls, and adds no more items than \<open>room\<close> of its state says.\<close>

definition callback_within :: "('a \<Rightarrow> bool) \<Rightarrow> ('a \<Rightarrow> 'a \<Rightarrow> bool) \<Rightarrow> ('s \<Rightarrow> nat) \<Rightarrow> ('a, 's) callback \<Rightarrow> bool" where
  "callback_within key_ok same room func \<longleftrightarrow>
     (\<forall>d s lh m. key_ok d \<longrightarrow> (\<exists>s' lh' m' n. func d s lh m = Some (s', lh', m') \<and>
        table_calls key_ok (same d) n lh m lh' m' \<and> n + room s' \<le> room s))"

section \<open>Chains while the table changes\<close>

definition label :: "('a \<Rightarrow> 'k) \<Rightarrow> 'a LHASH_ITEM \<Rightarrow> nat \<times> 'k" where
  "label key x = (item_addr x, key (item_data x))"

text \<open>A part of a chain without the key \<open>k\<close> stays together, with at most \<open>n\<close> new items behind.\<close>

definition chain_kept :: "('a \<Rightarrow> 'k) \<Rightarrow> 'k \<Rightarrow> nat \<Rightarrow> 'a LHASH_ITEM list \<Rightarrow> 'a LHASH_ITEM list \<Rightarrow> bool" where
  "chain_kept key k n c c' \<longleftrightarrow> length c' \<le> length c + n \<and>
     (\<forall>pre suf post. c = pre @ suf @ post \<longrightarrow> k \<notin> (key \<circ> item_data) ` set suf \<longrightarrow>
        (\<exists>pre' suf' post'. c' = pre' @ suf' @ post' \<and> map (label key) suf' = map (label key) suf \<and>
           length post' \<le> length post + n))"

lemma chain_keptI [intro]:
  assumes "length c' \<le> length c + n"
    and "\<And>pre suf post. c = pre @ suf @ post \<Longrightarrow> k \<notin> (key \<circ> item_data) ` set suf \<Longrightarrow>
      \<exists>pre' suf' post'. c' = pre' @ suf' @ post' \<and> map (label key) suf' = map (label key) suf \<and>
        length post' \<le> length post + n"
  shows "chain_kept key k n c c'"
  using assms unfolding chain_kept_def by blast

lemma chain_keptE:
  assumes "chain_kept key k n c c'" and "c = pre @ suf @ post" and "k \<notin> (key \<circ> item_data) ` set suf"
  obtains pre' suf' post' where "c' = pre' @ suf' @ post'" "map (label key) suf' = map (label key) suf"
    "length post' \<le> length post + n"
  using assms unfolding chain_kept_def by blast

lemma parts_again:
  assumes "c' = pre' @ suf' @ post'" and "map (label key) suf' = map (label key) suf" and "length post' \<le> n"
  shows "\<exists>pre' suf' post'. c' = pre' @ suf' @ post' \<and> map (label key) suf' = map (label key) suf \<and> length post' \<le> n"
  using assms by blast

lemma label_keys: "map (label key) xs = map (label key) ys \<Longrightarrow> (key \<circ> item_data) ` set xs = (key \<circ> item_data) ` set ys"
proof -
  assume "map (label key) xs = map (label key) ys"
  then have "snd ` label key ` set xs = snd ` label key ` set ys" by (metis set_map)
  then show ?thesis by (simp add: label_def image_image comp_def)
qed

lemma chain_kept_refl: "chain_kept key k 0 c c"
  by (rule chain_keptI) (simp, rule parts_again, assumption, simp_all)

lemma chain_kept_mono: "chain_kept key k n c c' \<Longrightarrow> n \<le> n' \<Longrightarrow> chain_kept key k n' c c'"
  by (rule chain_keptI) (simp add: chain_kept_def, erule (2) chain_keptE, rule parts_again, assumption+, simp)

lemma chain_kept_trans:
  assumes "chain_kept key k n c c'" and "chain_kept key k n' c' c''"
  shows "chain_kept key k (n + n') c c''"
proof
  show "length c'' \<le> length c + (n + n')" using assms by (simp add: chain_kept_def)
next
  fix pre suf post assume c: "c = pre @ suf @ post" "k \<notin> (key \<circ> item_data) ` set suf"
  obtain pre1 suf1 post1 where 1: "c' = pre1 @ suf1 @ post1" "map (label key) suf1 = map (label key) suf"
    "length post1 \<le> length post + n"
    using chain_keptE [OF assms(1) c] .
  have "k \<notin> (key \<circ> item_data) ` set suf1" using c(2) label_keys [OF 1(2)] by simp
  then obtain pre2 suf2 post2 where "c'' = pre2 @ suf2 @ post2" "map (label key) suf2 = map (label key) suf1"
    "length post2 \<le> length post1 + n'"
    using chain_keptE [OF assms(2) 1(1)] by blast
  with 1 show "\<exists>pre' suf' post'. c'' = pre' @ suf' @ post' \<and> map (label key) suf' = map (label key) suf \<and>
        length post' \<le> length post + (n + n')" by (intro exI [of _ pre2] exI [of _ suf2] exI [of _ post2]) auto
qed

text \<open>The three changes of a chain: an item's data are replaced by equal data, an item is added at the end,
  an item with the key is removed.\<close>

lemma chain_kept_relabel:
  assumes "map (label key) c' = map (label key) c"
  shows "chain_kept key k 0 c c'"
proof
  show "length c' \<le> length c + 0" using arg_cong [OF assms, of length] by simp
next
  fix pre suf post assume c: "c = pre @ suf @ post"
  have "length c' = length c" using arg_cong [OF assms, of length] by simp
  let ?suf' = "take (length suf) (drop (length pre) c')"
  have 1: "c' = take (length pre) c' @ ?suf' @ drop (length suf) (drop (length pre) c')"
    by (metis append_take_drop_id)
  have 2: "map (label key) ?suf' = map (label key) suf"
    using assms c by (metis append_eq_conv_conj drop_map length_map map_append take_map)
  have 3: "length (drop (length suf) (drop (length pre) c')) \<le> length post + 0"
    using c \<open>length c' = length c\<close> by simp
  show "\<exists>pre' suf' post'. c' = pre' @ suf' @ post' \<and> map (label key) suf' = map (label key) suf \<and>
      length post' \<le> length post + 0"
    by (rule parts_again [OF 1 2 3])
qed

lemma chain_kept_replace:
  assumes "i < length c" and "key a = key (item_data (c ! i))"
  shows "chain_kept key k 0 c (c[i := (c ! i)\<lparr>item_data := a\<rparr>])"
  using assms by (intro chain_kept_relabel nth_equalityI) (auto simp: label_def nth_list_update)

lemma chain_kept_append: "chain_kept key k 1 c (c @ [x])"
  by (rule chain_keptI) force+

lemma chain_kept_remove:
  assumes i: "i < length c" and k: "key (item_data (c ! i)) = k"
  shows "chain_kept key k 0 c (take i c @ drop (Suc i) c)"
proof
  show "length (take i c @ drop (Suc i) c) \<le> length c + 0" using i by simp
next
  fix pre suf post assume c: "c = pre @ suf @ post" and n: "k \<notin> (key \<circ> item_data) ` set suf"
  have "\<not> (length pre \<le> i \<and> i < length pre + length suf)"
  proof
    assume a: "length pre \<le> i \<and> i < length pre + length suf"
    then have "c ! i = suf ! (i - length pre)" "i - length pre < length suf" using c by (auto simp: nth_append)
    then have "c ! i \<in> set suf" by simp
    with n k show False by force
  qed
  then consider "i < length pre" | "length pre + length suf \<le> i" by linarith
  then show "\<exists>pre' suf' post'. take i c @ drop (Suc i) c = pre' @ suf' @ post' \<and>
      map (label key) suf' = map (label key) suf \<and> length post' \<le> length post + 0"
  proof cases
    case 1
    then have "take i c @ drop (Suc i) c = (take i pre @ drop (Suc i) pre) @ suf @ post" using c by simp
    then show ?thesis by (rule parts_again) auto
  next
    case 2
    then have "take i c @ drop (Suc i) c =
      pre @ suf @ (take (i - length pre - length suf) post @ drop (Suc (i - length pre - length suf)) post)"
      using c by (simp add: Suc_diff_le)
    then show ?thesis by (rule parts_again) (use 2 i c in auto)
  qed
qed


section \<open>Items found by their addresses\<close>

lemma item_in_here:
  "distinct (map item_addr (pre @ x # suf)) \<Longrightarrow> item_in (item_addr x) (pre @ x # suf) = Some (x, first_item suf)"
  by (induction pre) auto

lemma item_in_missing: "p \<notin> set (map item_addr c) \<Longrightarrow> item_in p c = None"
  by (induction c) auto

lemma item_at_here:
  assumes "distinct (map item_addr (concat bs))" and "i < length bs" and "bs ! i = pre @ x # suf"
  shows "item_at (item_addr x) bs = Some (x, first_item suf)"
  using assms
proof (induction bs arbitrary: i)
  case (Cons c bs)
  show ?case
  proof (cases i)
    case 0
    with Cons.prems show ?thesis using item_in_here [of pre x suf] by simp
  next
    case (Suc j)
    with Cons.prems have "bs ! j \<in> set bs" using nth_mem [of j bs] by simp
    moreover from Suc Cons.prems have "x \<in> set (bs ! j)" by (auto simp del: set_concat intro: nth_mem)
    ultimately have "x \<in> set (concat bs)" by auto
    then have "item_addr x \<notin> set (map item_addr c)" using Cons.prems(1) by (auto simp: image_iff)
    then have "item_in (item_addr x) c = None" by (rule item_in_missing)
    with Cons Suc show ?thesis by simp
  qed
qed simp

text \<open>No two items have one address, and the next address is new.\<close>

definition addrs_ok :: "'a LHASH \<Rightarrow> bool" where
  "addrs_ok lh \<longleftrightarrow> distinct (map item_addr (concat (buckets lh))) \<and>
     (\<forall>x \<in> set (concat (buckets lh)). item_addr x < fresh_addr lh)"

lemma addrs_ok_mset:
  assumes "mset (map item_addr (concat (buckets lh))) = mset as"
  shows "addrs_ok lh \<longleftrightarrow> distinct as \<and> (\<forall>a \<in> set as. a < fresh_addr lh)"
proof -
  have "set as = item_addr ` set (concat (buckets lh))" using mset_eq_setD [OF assms] by simp
  then show ?thesis using mset_eq_imp_distinct_iff [OF assms] by (simp add: addrs_ok_def del: set_concat)
qed

lemma addrs_okD:
  assumes "addrs_ok lh" and "mset (map item_addr (concat (buckets lh'))) = mset (map item_addr (concat (buckets lh)))"
    and "fresh_addr lh' = fresh_addr lh"
  shows "addrs_ok lh'"
  using assms(1,3) unfolding addrs_ok_mset [OF assms(2)] addrs_ok_mset [OF refl [of "mset (map item_addr (concat (buckets lh)))"]]
  by simp

lemma addrs_ok_smaller:
  assumes "addrs_ok lh" and "mset (map item_addr (concat (buckets lh))) = add_mset a (mset (map item_addr (concat (buckets lh'))))"
    and "fresh_addr lh' = fresh_addr lh"
  shows "addrs_ok lh'"
proof -
  have "mset (map item_addr (concat (buckets lh))) = mset (a # map item_addr (concat (buckets lh')))" using assms(2) by simp
  from addrs_ok_mset [OF this] assms(1,3) show ?thesis by (auto simp: addrs_ok_def)
qed

lemma addrs_ok_larger:
  assumes "addrs_ok lh" and "mset (map item_addr (concat (buckets lh'))) = add_mset (fresh_addr lh) (mset (map item_addr (concat (buckets lh))))"
    and "fresh_addr lh' = fresh_addr lh + 1"
  shows "addrs_ok lh'"
proof -
  have "mset (map item_addr (concat (buckets lh'))) = mset (fresh_addr lh # map item_addr (concat (buckets lh)))" using assms(2) by simp
  from addrs_ok_mset [OF this] assms(1,3) show ?thesis by (force simp: addrs_ok_def)
qed

lemma addrs_of_update:
  "b < length bs \<Longrightarrow> mset (map item_addr (concat (bs[b := c']))) + mset (map item_addr (bs ! b)) =
    mset (map item_addr (concat bs)) + mset (map item_addr c')"
  using arg_cong [OF mset_concat_update [of b bs c'], of "image_mset item_addr"] by (simp only: mset_map image_mset_union)


section \<open>Calls within a walk\<close>

text \<open>In addition to \<open>lhash_keys\<close>: the classes of equal data have names.\<close>

locale lhash_walk = lhash_keys +
  fixes key :: "'a \<Rightarrow> 'k"
  assumes comp_key: "dom_of x \<Longrightarrow> dom_of y \<Longrightarrow> comp x y = 0 \<longleftrightarrow> key x = key y"
begin

definition table_kept :: "'k \<Rightarrow> nat \<Rightarrow> 'a LHASH \<Rightarrow> 'a LHASH \<Rightarrow> bool" where
  "table_kept k n lh lh' \<longleftrightarrow> num_buckets lh' = num_buckets lh \<and> callback_depth lh' = callback_depth lh \<and>
     (\<exists>g. sum g {..<num_buckets lh} = n \<and> (\<forall>b < num_buckets lh. chain_kept key k (g b) (buckets lh ! b) (buckets lh' ! b)))"

lemma table_kept_refl: "table_kept k 0 lh lh"
  by (auto simp: table_kept_def chain_kept_refl intro: exI [of _ "\<lambda>_. 0"])

lemma table_kept_trans:
  assumes "table_kept k n lh lh1" and "table_kept k n' lh1 lh2"
  shows "table_kept k (n + n') lh lh2"
proof -
  obtain g g' where "sum g {..<num_buckets lh} = n" "\<forall>b < num_buckets lh. chain_kept key k (g b) (buckets lh ! b) (buckets lh1 ! b)"
    "sum g' {..<num_buckets lh} = n'" "\<forall>b < num_buckets lh. chain_kept key k (g' b) (buckets lh1 ! b) (buckets lh2 ! b)"
    using assms by (auto simp: table_kept_def)
  then show ?thesis using assms unfolding table_kept_def
    by (intro conjI exI [of _ "\<lambda>b. g b + g' b"]) (auto simp: sum.distrib intro: chain_kept_trans)
qed

lemma table_kept_one:
  assumes b: "b < num_buckets lh" and "buckets lh' = (buckets lh)[b := c']" and "callback_depth lh' = callback_depth lh"
    and "chain_kept key k n (buckets lh ! b) c'"
  shows "table_kept k n lh lh'"
proof -
  let ?g = "\<lambda>x. if x = b then n else 0"
  have "sum ?g {..<num_buckets lh} = n" using b by simp
  moreover have "\<forall>x < num_buckets lh. chain_kept key k (?g x) (buckets lh ! x) (buckets lh' ! x)"
    using assms chain_kept_refl by (auto simp: nth_list_update)
  ultimately show ?thesis using assms unfolding table_kept_def by (auto intro: exI [of _ ?g])
qed

lemma no_resize: "0 < callback_depth lh \<Longrightarrow> lh_maybe_resize lh m = (lh, m)"
  by (simp add: lh_maybe_resize_def)

text \<open>An item equal to \<open>a\<close> found in its chain has the key of \<open>a\<close>.\<close>

lemma found_key:
  assumes "lh_inv lh" and "dom_of a" and "get_next_ptr_and_hash lh a = (b, i, h)" and "i < length (buckets lh ! b)"
  shows "key (item_data (buckets lh ! b ! i)) = key a"
proof -
  note l = lookup_chain [OF assms(1,2,3)]
  have "dom_of (item_data (buckets lh ! b ! i))" using item_facts [OF assms(1) l(1)] l(5) [OF assms(4)] by blast
  then show ?thesis using comp_key l(5) [OF assms(4)] assms(2) by blast
qed

lemma insert_step:
  assumes inv: "lh_inv lh" "addrs_ok lh" "0 < callback_depth lh" and a: "dom_of a"
    and r: "lh_insert a lh m = (ok, old, lh', m')"
  shows "lh_inv lh' \<and> addrs_ok lh' \<and> table_kept k (if old = None then 1 else 0) lh lh'"
proof -
  obtain b i h where g: "get_next_ptr_and_hash lh a = (b, i, h)" by (metis prod_cases3)
  note l = lookup_chain [OF inv(1) a g]
  let ?ch = "buckets lh ! b"
  have i': "lh_inv lh'" using lh_insert_map [OF inv(1) a r] by simp
  show ?thesis
  proof (cases "i < length ?ch")
    case True
    let ?new = "?ch[i := (?ch ! i)\<lparr>item_data := a\<rparr>]"
    have e: "lh' = lh\<lparr>buckets := (buckets lh)[b := ?new]\<rparr>" "old = Some (item_data (?ch ! i))"
      using r True by (auto simp: lh_insert_def g Let_def)
    have n: "map item_addr ?new = map item_addr ?ch"
      using True by (simp add: map_update list_update_same_conv)
    then have "addrs_ok lh'"
      using addrs_of_update [OF l(1), of ?new] by (intro addrs_okD [OF inv(2)]) (simp_all add: e)
    moreover have "table_kept k 0 lh lh'"
      by (rule table_kept_one [OF l(1) _ _ chain_kept_replace [OF True found_key [OF inv(1) a g True, symmetric]]]) (simp_all add: e)
    ultimately show ?thesis using i' e by simp
  next
    case False
    show ?thesis
    proof (cases "fst (OPENSSL_malloc 24 m)")
      case None
      then have "lh' = lh" "old = None" using r False by (auto simp: lh_insert_def g Let_def split: prod.splits)
      moreover have "table_kept k 1 lh lh"
        by (rule table_kept_one [OF l(1) _ _ chain_kept_mono [OF chain_kept_refl]]) simp_all
      ultimately show ?thesis using inv by simp
    next
      case (Some p)
      let ?x = "\<lparr>item_addr = fresh_addr lh, item_hash = h, item_data = a\<rparr>"
      have e: "lh' = lh\<lparr>buckets := (buckets lh)[b := ?ch @ [?x]], lh_items := lh_items lh + 1, fresh_addr := fresh_addr lh + 1\<rparr>"
        "old = None"
        using r False Some inv(3) by (auto simp: lh_insert_def g Let_def no_resize split: prod.splits)
      have "addrs_ok lh'"
        using addrs_of_update [OF l(1), of "?ch @ [?x]"] by (intro addrs_ok_larger [OF inv(2)]) (simp_all add: e)
      moreover have "table_kept k 1 lh lh'"
        by (rule table_kept_one [OF l(1) _ _ chain_kept_append [of key k ?ch ?x]]) (simp_all add: e)
      ultimately show ?thesis using i' e by simp
    qed
  qed
qed

lemma delete_step:
  assumes inv: "lh_inv lh" "addrs_ok lh" "0 < callback_depth lh" and a: "dom_of a"
    and r: "lh_delete a lh m = (res, lh', m')"
  shows "lh_inv lh' \<and> addrs_ok lh' \<and> table_kept (key a) 0 lh lh'"
proof -
  obtain b i h where g: "get_next_ptr_and_hash lh a = (b, i, h)" by (metis prod_cases3)
  note l = lookup_chain [OF inv(1) a g]
  let ?ch = "buckets lh ! b"
  have i': "lh_inv lh'" using lh_delete_map [OF inv(1) a r] by simp
  show ?thesis
  proof (cases "i < length ?ch")
    case True
    let ?new = "take i ?ch @ drop (Suc i) ?ch"
    have e: "lh' = lh\<lparr>buckets := (buckets lh)[b := ?new], lh_items := lh_items lh - 1\<rparr>"
      using r True inv(3) by (auto simp: lh_delete_def g Let_def no_resize split: prod.splits)
    have "image_mset item_addr (mset ?ch) = add_mset (item_addr (?ch ! i)) (image_mset item_addr (mset ?new))"
      using arg_cong [OF mset_remove_nth [OF True], of "image_mset item_addr"] by simp
    then have "addrs_ok lh'"
      using addrs_of_update [OF l(1), of ?new] by (intro addrs_ok_smaller [OF inv(2), where a = "item_addr (?ch ! i)"]) (simp_all add: e)
    moreover have "table_kept (key a) 0 lh lh'"
      by (rule table_kept_one [OF l(1) _ _ chain_kept_remove [where key = key and k = "key a", OF True found_key [OF inv(1) a g True]]]) (simp_all add: e)
    ultimately show ?thesis using i' by simp
  next
    case False
    then have "lh' = lh" using r by (auto simp: lh_delete_def g Let_def)
    then show ?thesis using inv table_kept_refl by simp
  qed
qed

text \<open>All the calls of one callback.\<close>

lemma calls_kept:
  assumes "table_calls dom_of (\<lambda>a. comp d a = 0) n lh m lh' m'" and "dom_of d"
    and "lh_inv lh" and "addrs_ok lh" and "0 < callback_depth lh"
  shows "lh_inv lh' \<and> addrs_ok lh' \<and> table_kept (key d) n lh lh'"
  using assms
proof (induction rule: table_calls.induct)
  case (calls_done n lh m)
  have "table_kept (key d) n lh lh" if "0 < num_buckets lh"
    by (rule table_kept_one [OF that _ _ chain_kept_mono [OF chain_kept_refl]]) simp_all
  then show ?case using calls_done lh_inv_pos by simp
next
  case (calls_insert n lh m lh1 m1 a r old lh2 m2 n')
  then have k: "lh_inv lh1" "addrs_ok lh1" "table_kept (key d) n lh lh1" by auto
  then have "0 < callback_depth lh1" using calls_insert.prems by (simp add: table_kept_def)
  from insert_step [OF k(1,2) this calls_insert.hyps(2,3), of "key d"]
  have s: "lh_inv lh2" "addrs_ok lh2" "table_kept (key d) (if old = None then 1 else 0) lh1 lh2" by auto
  have "n' = n + (if old = None then 1 else 0)" using calls_insert.hyps(4) by simp
  then show ?case using s(1,2) table_kept_trans [OF k(3) s(3)] by simp
next
  case (calls_delete n lh m lh1 m1 a r lh2 m2)
  then have k: "lh_inv lh1" "addrs_ok lh1" "table_kept (key d) n lh lh1" by auto
  then have "0 < callback_depth lh1" using calls_delete.prems by (simp add: table_kept_def)
  moreover have "key a = key d" using calls_delete comp_key by simp
  ultimately show ?case
    using delete_step [OF k(1,2) _ calls_delete.hyps(2,4)] table_kept_trans [OF k(3), of 0 lh2] by simp
qed

text \<open>An item of a chain differs in its key from those behind it and from those of other chains.\<close>

lemma item_keys:
  assumes "lh_inv lh" and "b < num_buckets lh" and "x \<in> set (buckets lh ! b)" and "b' < num_buckets lh"
    and "y \<in> set (buckets lh ! b')" and "b \<noteq> b'"
  shows "key (item_data y) \<noteq> key (item_data x)"
proof
  assume e: "key (item_data y) = key (item_data x)"
  have x: "dom_of (item_data x)" "unat (hash (item_data x)) mod num_buckets lh = b"
    using item_facts [OF assms(1,2,3)] by auto
  have y: "dom_of (item_data y)" "unat (hash (item_data y)) mod num_buckets lh = b'"
    using item_facts [OF assms(1,4,5)] by auto
  have "hash (item_data y) = hash (item_data x)" using comp_key comp_hash e x(1) y(1) by blast
  with x y assms(6) show False by simp
qed

lemma keys_behind:
  assumes "lh_inv lh" and "b < num_buckets lh" and "buckets lh ! b = pre @ x # suf" and "y \<in> set suf"
  shows "key (item_data y) \<noteq> key (item_data x)"
proof
  assume e: "key (item_data y) = key (item_data x)"
  have d: "dom_of (item_data x)" "dom_of (item_data y)" using item_facts [OF assms(1,2)] assms(3,4) by auto
  have "mset (concat ((buckets lh)[b := []])) + mset (pre @ x # suf) = mset (concat (buckets lh))"
    using mset_concat_update [OF assms(2), of "[]"] assms(3) by simp
  then have "mset (concat (buckets lh)) = mset (concat ((buckets lh)[b := []])) + mset (pre @ x # suf)" ..
  then have "data_of lh = image_mset item_data (mset (concat ((buckets lh)[b := []]))) + image_mset item_data (mset (pre @ x # suf))"
    by (simp only: data_of_def image_mset_union)
  moreover obtain s1 s2 where "suf = s1 @ y # s2" using assms(4) by (meson split_list)
  ultimately obtain D where D: "data_of lh = add_mset (item_data x) (add_mset (item_data y) D)" by simp
  have "size (filter_mset (\<lambda>d. comp d (item_data x) = 0) (data_of lh)) \<le> 1" using assms(1) d by (simp add: lh_inv_def)
  then show False using comp_key [OF d(2,1)] comp_refl [OF d(1)] e by (simp add: D)
qed

section \<open>The walk\<close>

text \<open>After a part of the walk in chain \<open>i\<close>: the chains to come have their items still.\<close>

definition walk_kept :: "nat \<Rightarrow> 'a LHASH \<Rightarrow> 'a LHASH \<Rightarrow> bool" where
  "walk_kept i lh lh' \<longleftrightarrow> lh_inv lh' \<and> addrs_ok lh' \<and> num_buckets lh' = num_buckets lh \<and>
     callback_depth lh' = callback_depth lh \<and>
     (\<forall>b < num_buckets lh. i < b \<longrightarrow>
        subseq (map (key \<circ> item_data) (buckets lh ! b)) (map (key \<circ> item_data) (buckets lh' ! b)))"

definition to_come :: "nat \<Rightarrow> 'a LHASH \<Rightarrow> nat" where
  "to_come i lh = (\<Sum>b \<in> {Suc i..<num_buckets lh}. length (buckets lh ! b))"

lemma walk_kept_trans:
  assumes 1: "walk_kept i lh lh1" and 2: "walk_kept i lh1 lh2"
  shows "walk_kept i lh lh2"
proof -
  have "subseq (map (key \<circ> item_data) (buckets lh ! b)) (map (key \<circ> item_data) (buckets lh2 ! b))"
    if "b < num_buckets lh" "i < b" for b
    by (rule subseq_order.order_trans [of _ "map (key \<circ> item_data) (buckets lh1 ! b)"])
      (use 1 2 that in \<open>simp_all add: walk_kept_def\<close>)
  with 1 2 show ?thesis by (simp add: walk_kept_def)
qed

lemma walk_kept_later: "walk_kept i lh lh1 \<Longrightarrow> i \<le> j \<Longrightarrow> walk_kept j lh lh1"
  by (auto simp: walk_kept_def)

lemma label_subseq:
  assumes "map (label key) suf' = map (label key) suf"
  shows "map (key \<circ> item_data) suf' = map (key \<circ> item_data) suf"
  using arg_cong [OF assms, of "map snd"] by (simp add: label_def comp_def)

lemma callback_step:
  assumes f: "callback_within dom_of (\<lambda>d a. comp d a = 0) room func"
    and inv: "lh_inv lh" "addrs_ok lh" "0 < callback_depth lh"
    and i: "i < num_buckets lh" "buckets lh ! i = pre @ x # suf"
  shows "\<exists>s1 lh1 m1 pre1 suf1 post1. func (item_data x) s lh m = Some (s1, lh1, m1) \<and> walk_kept i lh lh1 \<and>
    buckets lh1 ! i = pre1 @ suf1 @ post1 \<and> map (label key) suf1 = map (label key) suf \<and>
    length post1 + room s1 \<le> room s \<and> length post1 + room s1 + to_come i lh1 \<le> room s + to_come i lh"
proof -
  let ?N = "num_buckets lh"
  let ?k = "key (item_data x)"
  have x: "x \<in> set (buckets lh ! i)" using i(2) by simp
  have d: "dom_of (item_data x)" using item_facts [OF inv(1) i(1) x] by blast
  then obtain s1 lh1 m1 n where r: "func (item_data x) s lh m = Some (s1, lh1, m1)"
    "table_calls dom_of (\<lambda>a. comp (item_data x) a = 0) n lh m lh1 m1" "n + room s1 \<le> room s"
    using f unfolding callback_within_def by blast
  have k: "lh_inv lh1" "addrs_ok lh1" "table_kept ?k n lh lh1" using calls_kept [OF r(2) d inv] by auto
  then obtain g where g: "sum g {..<?N} = n" and ch: "\<And>b. b < ?N \<Longrightarrow> chain_kept key ?k (g b) (buckets lh ! b) (buckets lh1 ! b)"
    and N: "num_buckets lh1 = ?N" and dep: "callback_depth lh1 = callback_depth lh"
    unfolding table_kept_def by blast
  have k0: "?k \<notin> (key \<circ> item_data) ` set suf" using keys_behind [OF inv(1) i] by force
  obtain pre1 suf1 post1 where p: "buckets lh1 ! i = pre1 @ suf1 @ post1" "map (label key) suf1 = map (label key) suf"
    "length post1 \<le> g i"
    by (rule chain_keptE [OF ch [OF i(1)], of "pre @ [x]" suf "[]"]) (use k0 i(2) in auto)
  have "subseq (map (key \<circ> item_data) (buckets lh ! b)) (map (key \<circ> item_data) (buckets lh1 ! b))" if b: "b < ?N" "i < b" for b
  proof -
    have k1: "?k \<notin> (key \<circ> item_data) ` set (buckets lh ! b)" using item_keys [OF inv(1) i(1) x b(1)] b(2) by force
    obtain pre' suf' post' where e: "buckets lh1 ! b = pre' @ suf' @ post'" "map (label key) suf' = map (label key) (buckets lh ! b)"
      by (rule chain_keptE [OF ch [OF b(1)], of "[]" "buckets lh ! b" "[]"]) (use k1 in auto)
    show ?thesis unfolding e(1) map_append label_subseq [OF e(2)]
      by (intro list_emb_append2 list_emb_prefix subseq_order.order_refl)
  qed
  then have w: "walk_kept i lh lh1" using k N dep by (simp add: walk_kept_def)
  have "to_come i lh1 \<le> (\<Sum>b \<in> {Suc i..<?N}. length (buckets lh ! b) + g b)"
    unfolding to_come_def N using ch by (intro sum_mono) (simp add: chain_kept_def)
  then have c: "to_come i lh1 \<le> to_come i lh + sum g {Suc i..<?N}" by (simp add: to_come_def sum.distrib)
  have s1: "g i + sum g {Suc i..<?N} = sum g {i..<?N}" using i(1) by (simp add: sum.atLeast_Suc_lessThan)
  have s2: "sum g {i..<?N} \<le> sum g {..<?N}" by (rule sum_mono2) auto
  from s1 s2 have "length post1 + room s1 + to_come i lh1 \<le> room s + to_come i lh" using g c p(3) r(3) by linarith
  moreover have "length post1 + room s1 \<le> room s"
    using s1 s2 g p(3) r(3) by linarith
  ultimately show ?thesis using r(1) w p by blast
qed

lemma doall_chain_walk:
  assumes f: "callback_within dom_of (\<lambda>d a. comp d a = 0) room func"
    and "lh_inv lh" "addrs_ok lh" "0 < callback_depth lh" and "i < num_buckets lh" "buckets lh ! i = pre @ suf"
  shows "\<exists>xs s' lh' m'. doall_chain func (first_item suf) s lh m = Some (s', lh', m') \<and>
    visits func xs s lh m = Some (s', lh', m') \<and> walk_kept i lh lh' \<and>
    subseq (map (key \<circ> item_data) suf) (map key xs) \<and>
    length xs + room s' + to_come i lh' \<le> length suf + room s + to_come i lh"
  using assms(2-)
proof (induction "length suf + room s" arbitrary: pre suf s lh m rule: less_induct)
  case less
  show ?case
  proof (cases suf)
    case Nil
    have "walk_kept i lh lh" using less.prems by (simp add: walk_kept_def)
    then show ?thesis using Nil
      by (intro exI [of _ "[]"] exI [of _ s] exI [of _ lh] exI [of _ m]) (simp add: first_item_def doall_chain.simps [of func None])
  next
    case (Cons x rest)
    have c: "buckets lh ! i = pre @ x # rest" using less.prems(5) Cons by simp
    obtain s1 lh1 m1 pre1 suf1 post1 where 1: "func (item_data x) s lh m = Some (s1, lh1, m1)" "walk_kept i lh lh1"
      "buckets lh1 ! i = pre1 @ suf1 @ post1" "map (label key) suf1 = map (label key) rest"
      "length post1 + room s1 \<le> room s" "length post1 + room s1 + to_come i lh1 \<le> room s + to_come i lh"
      using callback_step [OF f less.prems(1-4) c] by blast
    have a: "item_at (item_addr x) (buckets lh) = Some (x, first_item rest)"
      using less.prems(2,4) c by (intro item_at_here) (auto simp: addrs_ok_def)
    have e: "doall_chain func (first_item suf) s lh m = doall_chain func (first_item rest) s1 lh1 m1"
      using Cons a 1(1) by (simp add: first_item_def doall_chain.simps [of func "Some (item_addr x)"])
    have v: "visits func (item_data x # xs) s lh m = visits func xs s1 lh1 m1" for xs using 1(1) by simp
    show ?thesis
    proof (cases rest)
      case Nil
      then have "doall_chain func (first_item rest) s1 lh1 m1 = Some (s1, lh1, m1)"
        by (simp add: first_item_def doall_chain.simps [of func None])
      with e v [of "[]"] 1 Cons Nil show ?thesis
        by (intro exI [of _ "[item_data x]"] exI [of _ s1] exI [of _ lh1] exI [of _ m1]) simp
    next
      case (Cons y rest')
      have len: "length suf1 = length rest" using arg_cong [OF 1(4), of length] by simp
      have "first_item rest = first_item (suf1 @ post1)"
        using 1(4) Cons by (cases suf1) (auto simp: first_item_def label_def)
      note e = e [unfolded this]
      have l1: "lh_inv lh1" "addrs_ok lh1" "0 < callback_depth lh1" "i < num_buckets lh1" "buckets lh1 ! i = pre1 @ (suf1 @ post1)"
        using 1(2,3) less.prems by (auto simp: walk_kept_def)
      have "length (suf1 @ post1) + room s1 < length suf + room s" using 1(5) len \<open>suf = x # rest\<close> by simp
      from less.hyps [OF this l1, of m1] obtain xs s' lh' m' where 2:
        "doall_chain func (first_item (suf1 @ post1)) s1 lh1 m1 = Some (s', lh', m')"
        "visits func xs s1 lh1 m1 = Some (s', lh', m')" "walk_kept i lh1 lh'"
        "subseq (map (key \<circ> item_data) (suf1 @ post1)) (map key xs)"
        "length xs + room s' + to_come i lh' \<le> length (suf1 @ post1) + room s1 + to_come i lh1" by blast
      have "subseq (map (key \<circ> item_data) rest) (map (key \<circ> item_data) (suf1 @ post1))"
        by (simp add: label_subseq [OF 1(4)] list_emb_prefix)
      then have "subseq (map (key \<circ> item_data) rest) (map key xs)" using 2(4) subseq_order.order_trans by blast
      then have "subseq (map (key \<circ> item_data) suf) (map key (item_data x # xs))" using \<open>suf = x # rest\<close> by simp
      moreover have "length (item_data x # xs) + room s' + to_come i lh' \<le> length suf + room s + to_come i lh"
        using 2(5) 1(6) len \<open>suf = x # rest\<close> by simp
      ultimately show ?thesis using e v [of xs] 2(1,2) walk_kept_trans [OF 1(2) 2(3)] by metis
    qed
  qed
qed

lemma sum_length_drop: "(\<Sum>b \<in> {k..<length xs}. length (xs ! b)) = length (concat (drop k xs))"
proof (induction "length xs - k" arbitrary: k)
  case (Suc n)
  then have k: "k < length xs" by simp
  have "n = length xs - Suc k" using Suc.hyps(2) by simp
  from Suc.hyps(1) [OF this] show ?case
    by (simp add: sum.atLeast_Suc_lessThan [OF k] Cons_nth_drop_Suc [OF k, symmetric])
qed simp

lemma to_come_concat: "to_come i lh = length (concat (drop (Suc i) (buckets lh)))"
  unfolding to_come_def by (rule sum_length_drop)

lemma later_keys:
  assumes "walk_kept i lh lh1"
  shows "subseq (map (key \<circ> item_data) (concat (drop (Suc i) (buckets lh)))) (map (key \<circ> item_data) (concat (drop (Suc i) (buckets lh1))))"
proof -
  have "list_all2 (\<lambda>c c'. subseq (map (key \<circ> item_data) c) (map (key \<circ> item_data) c')) (drop (Suc i) (buckets lh)) (drop (Suc i) (buckets lh1))"
    using assms by (auto simp: walk_kept_def list_all2_conv_all_nth)
  then show ?thesis by (induction rule: list_all2_induct) (auto simp: comp_def intro: list_emb_append_mono)
qed

lemma visits_append:
  "visits func (xs @ ys) s lh m = Option.bind (visits func xs s lh m) (\<lambda>(s1, lh1, m1). visits func ys s1 lh1 m1)"
  by (induction xs arbitrary: s lh m) (auto split: Option.bind_split)

lemma doall_buckets_walk:
  assumes f: "callback_within dom_of (\<lambda>d a. comp d a = 0) room func"
    and "lh_inv lh" "addrs_ok lh" "0 < callback_depth lh"
  shows "\<exists>xs s' lh' m'. doall_buckets func i s lh m = Some (s', lh', m') \<and>
    visits func xs s lh m = Some (s', lh', m') \<and> lh_inv lh' \<and> addrs_ok lh' \<and> num_buckets lh' = num_buckets lh \<and>
    callback_depth lh' = callback_depth lh \<and>
    subseq (map (key \<circ> item_data) (concat (drop i (buckets lh)))) (map key xs) \<and>
    length xs + room s' \<le> length (concat (drop i (buckets lh))) + room s"
  using assms(2-)
proof (induction "num_buckets lh - i" arbitrary: i s lh m)
  case 0
  then show ?case
    by (intro exI [of _ "[]"] exI [of _ s] exI [of _ lh] exI [of _ m]) (simp add: doall_buckets.simps [of func i])
next
  case (Suc n)
  then have i: "i < num_buckets lh" by simp
  from doall_chain_walk [OF f Suc.prems i, of "[]" "buckets lh ! i" s m] obtain xs s1 lh1 m1 where
    1: "doall_chain func (first_item (buckets lh ! i)) s lh m = Some (s1, lh1, m1)"
    "visits func xs s lh m = Some (s1, lh1, m1)" "walk_kept i lh lh1"
    "subseq (map (key \<circ> item_data) (buckets lh ! i)) (map key xs)"
    "length xs + room s1 + to_come i lh1 \<le> length (buckets lh ! i) + room s + to_come i lh" by auto
  have k: "lh_inv lh1" "addrs_ok lh1" "0 < callback_depth lh1" "num_buckets lh1 = num_buckets lh" "callback_depth lh1 = callback_depth lh"
    using 1(3) Suc.prems by (auto simp: walk_kept_def)
  then have "n = num_buckets lh1 - (i + 1)" using Suc.hyps(2) by simp
  from Suc.hyps(1) [OF this k(1-3), of s1 m1] obtain ys s' lh' m' where
    2: "doall_buckets func (i + 1) s1 lh1 m1 = Some (s', lh', m')" "visits func ys s1 lh1 m1 = Some (s', lh', m')"
    "lh_inv lh'" "addrs_ok lh'" "num_buckets lh' = num_buckets lh1" "callback_depth lh' = callback_depth lh1"
    "subseq (map (key \<circ> item_data) (concat (drop (i + 1) (buckets lh1)))) (map key ys)"
    "length ys + room s' \<le> length (concat (drop (i + 1) (buckets lh1))) + room s1" by blast
  have d: "concat (drop i (buckets lh)) = buckets lh ! i @ concat (drop (Suc i) (buckets lh))"
    by (simp add: Cons_nth_drop_Suc [OF i, symmetric])
  have "subseq (map (key \<circ> item_data) (concat (drop (Suc i) (buckets lh)))) (map key ys)"
    using later_keys [OF 1(3)] 2(7) subseq_order.order_trans by simp
  then have "subseq (map (key \<circ> item_data) (concat (drop i (buckets lh)))) (map key (xs @ ys))"
    unfolding d map_append by (intro list_emb_append_mono 1(4))
  moreover have "length (xs @ ys) + room s' \<le> length (concat (drop i (buckets lh))) + room s"
    using 1(5) 2(8) unfolding d by (simp add: to_come_concat del: length_concat)
  moreover have "doall_buckets func i s lh m = Some (s', lh', m')"
    using i 1(1) 2(1) by (simp add: doall_buckets.simps [of func i])
  moreover have "visits func (xs @ ys) s lh m = Some (s', lh', m')" using 1(2) 2(2) by (simp add: visits_append)
  ultimately show ?case using 2(3-6) k(4,5) by metis
qed

lemma resize_addrs:
  assumes "lh_inv lh" and "addrs_ok lh" and "lh_maybe_resize lh m = (lh', m')"
  shows "addrs_ok lh'"
proof -
  have n: "kMinNumBuckets \<le> num_buckets lh" using assms(1) by (simp add: lh_inv_def)
  have "addrs_ok lh1" if "kMinNumBuckets \<le> k" "lh_rebucket k lh m = (lh1, m1)" for k lh1 m1
  proof -
    have "0 < k" using that(1) by (simp add: kMinNumBuckets_def)
    then have "mset (concat (rebucket_all k (buckets lh))) = mset (concat (buckets lh))" using rebucket_all_placed by blast
    then have "addrs_ok (lh\<lparr>buckets := rebucket_all k (buckets lh)\<rparr>)"
      by (intro addrs_okD [OF assms(2)]) simp_all
    with that(2) assms(2) show ?thesis by (auto simp: lh_rebucket_def Let_def split: if_splits prod.splits option.splits)
  qed
  note rebucketed = this
  consider "lh_maybe_resize lh m = (lh, m)" | k where "kMinNumBuckets \<le> k" "lh_rebucket k lh m = (lh', m')"
    using lh_maybe_resize_cases [OF n, of m] assms(3) by auto
  then show ?thesis by cases (use assms(2,3) rebucketed in auto)
qed

lemma depth_irrelevant:
  "lh_inv (lh\<lparr>callback_depth := d\<rparr>) = lh_inv lh" "addrs_ok (lh\<lparr>callback_depth := d\<rparr>) = addrs_ok lh"
  "data_of (lh\<lparr>callback_depth := d\<rparr>) = data_of lh"
  by (simp_all add: lh_inv_def data_of_def addrs_ok_def)

lemma lh_doall_walk:
  assumes f: "callback_within dom_of (\<lambda>d a. comp d a = 0) room func"
    and inv: "lh_inv lh" "addrs_ok lh" and d: "callback_depth lh + 1 < UINT_MAX"
  shows "\<exists>xs s' lh1 m1 lh' m'. lh_doall func (Some lh) s m = Some (Some lh', s', m') \<and>
    visits func xs s (lh\<lparr>callback_depth := callback_depth lh + 1\<rparr>) m = Some (s', lh1, m1) \<and>
    subseq (map (key \<circ> item_data) (concat (buckets lh))) (map key xs) \<and> length xs + room s' \<le> lh_items lh + room s \<and>
    num_buckets lh1 = num_buckets lh \<and> lh_maybe_resize (lh1\<lparr>callback_depth := callback_depth lh\<rparr>) m1 = (lh', m') \<and>
    lh_inv lh' \<and> addrs_ok lh' \<and> callback_depth lh' = callback_depth lh \<and>
    (\<forall>k. dom_of k \<longrightarrow> lh_retrieve lh' k = lh_retrieve lh1 k)"
proof -
  let ?lh0 = "lh\<lparr>callback_depth := callback_depth lh + 1\<rparr>"
  have "lh_inv ?lh0" "addrs_ok ?lh0" "0 < callback_depth ?lh0" using inv by (simp_all add: depth_irrelevant)
  from doall_buckets_walk [OF f this, of 0 s m] obtain xs s' lh1 m1 where
    w: "doall_buckets func 0 s ?lh0 m = Some (s', lh1, m1)" "visits func xs s ?lh0 m = Some (s', lh1, m1)"
    "lh_inv lh1" "addrs_ok lh1" "num_buckets lh1 = num_buckets lh" "callback_depth lh1 = callback_depth lh + 1"
    "subseq (map (key \<circ> item_data) (concat (buckets lh))) (map key xs)"
    "length xs + room s' \<le> length (concat (buckets lh)) + room s" by auto
  let ?lh2 = "lh1\<lparr>callback_depth := callback_depth lh\<rparr>"
  obtain lh' m' where r: "lh_maybe_resize ?lh2 m1 = (lh', m')" by fastforce
  have i2: "lh_inv ?lh2" "addrs_ok ?lh2" using w(3,4) by (simp_all add: depth_irrelevant)
  note i3 = lh_maybe_resize_inv [OF i2(1) r]
  have "lh_doall func (Some lh) s m = Some (Some lh', s', m')"
    using d w(1,6) r by (simp add: lh_doall_def lh_doall_internal_def)
  moreover have "lh_retrieve lh' k = lh_retrieve lh1 k" if "dom_of k" for k
    using retrieve_data [OF w(3) i3(1) that] i3(2) by (simp add: depth_irrelevant)
  moreover have "length xs + room s' \<le> lh_items lh + room s" using w(8) inv(1) by (simp add: lh_inv_def)
  ultimately show ?thesis using w(2,5,7) r i3(1,3) resize_addrs [OF i2 r] by fastforce
qed

end

section \<open>Walks over tables of strings\<close>

interpretation walk: lhash_walk "\<lambda>s. lh_strhash (Some s)" strcmp c_string c_key
  by unfold_locales (simp add: strcmp_eq_0 c_key_def)

text \<open>C32: a walk meets every entry, whatever its callback inserts and deletes.  Let the callback of
  \<^verbatim>\<open>lh_doall\<close> on a table of strings make any calls of \<^verbatim>\<open>lh_insert\<close>, and of \<^verbatim>\<open>lh_delete\<close> on the entry it is
  called with, adding no more entries than a bound kept in its state.  Then the walk ends without
  following a pointer to a freed item; the callback ran on a list of entries in which those of the
  start occur in the order of the table, and which is no longer than the entries of the start and those
  added (so each runs once when none is added); no rebucketing took place meanwhile; in the end
  \<^verbatim>\<open>callback_depth\<close> is what it was and the resizing that was held up is done, by \<^verbatim>\<open>lh_maybe_resize\<close> on the table
  that the callbacks left; the invariant holds and lookups answer as in that table.\<close>

theorem lh_doall_visits_all:
  assumes "callback_within c_string (\<lambda>d a. strcmp d a = 0) room func"
    and "strings.lh_inv lh" and "addrs_ok lh" and "callback_depth lh + 1 < UINT_MAX"
  shows "\<exists>xs s' lh1 m1 lh' m'. lh_doall func (Some lh) s m = Some (Some lh', s', m') \<and>
    visits func xs s (lh\<lparr>callback_depth := callback_depth lh + 1\<rparr>) m = Some (s', lh1, m1) \<and>
    subseq (map (c_key \<circ> item_data) (concat (buckets lh))) (map c_key xs) \<and> length xs + room s' \<le> lh_items lh + room s \<and>
    num_buckets lh1 = num_buckets lh \<and> lh_maybe_resize (lh1\<lparr>callback_depth := callback_depth lh\<rparr>) m1 = (lh', m') \<and>
    strings.lh_inv lh' \<and> addrs_ok lh' \<and> callback_depth lh' = callback_depth lh \<and>
    (\<forall>k. c_string k \<longrightarrow> lh_retrieve lh' k = lh_retrieve lh1 k)"
  using assms by (rule walk.lh_doall_walk)

text \<open>A callback that deletes what it is called on and, once, puts in a new string; a table of two.\<close>

definition replace_all :: "(u8 list, nat) callback" where
  "replace_all d s lh m =
     (case lh_delete d lh m of
        (_, lh1, m1) \<Rightarrow>
          if s = 0 then Some (0, lh1, m1)
          else case lh_insert [120, 0] lh1 m1 of (_, _, lh2, m2) \<Rightarrow> Some (s - 1, lh2, m2))"

lemma replace_all_within: "callback_within c_string (\<lambda>d a. strcmp d a = 0) (\<lambda>s. s) replace_all"
  unfolding callback_within_def
proof (intro allI impI)
  fix d s and lh :: "u8 list LHASH" and m assume d: "c_string d"
  obtain r lh1 m1 where 1: "lh_delete d lh m = (r, lh1, m1)" by (metis prod_cases3)
  obtain ok old lh2 m2 where 2: "lh_insert [120, 0] lh1 m1 = (ok, old, lh2, m2)" by (metis prod_cases4)
  have t0: "table_calls c_string (\<lambda>a. strcmp d a = 0) 0 lh m lh m" by (rule calls_done)
  have t1: "table_calls c_string (\<lambda>a. strcmp d a = 0) 0 lh m lh1 m1"
    by (rule calls_delete [OF t0 d _ 1]) (simp add: strcmp_eq_0)
  have c: "c_string [120, 0]" by (simp add: c_string_def)
  have t2: "table_calls c_string (\<lambda>a. strcmp d a = 0) (if old = None then 1 else 0) lh m lh2 m2"
    by (rule calls_insert [OF t1 c 2]) simp
  show "\<exists>s' lh' m' n. replace_all d s lh m = Some (s', lh', m') \<and>
      table_calls c_string (\<lambda>a. strcmp d a = 0) n lh m lh' m' \<and> n + s' \<le> s"
  proof (cases s)
    case 0
    with 1 t1 show ?thesis by (simp add: replace_all_def)
  next
    case (Suc k)
    with 1 2 have "replace_all d s lh m = Some (k, lh2, m2)" by (simp add: replace_all_def)
    moreover have "(if old = None then 1 else 0) + k \<le> s" using Suc by simp
    ultimately show ?thesis using t2 by blast
  qed
qed

definition two_table :: "u8 list LHASH" where
  "two_table =
     (case lh_insert [97, 0] tiny_table tiny_mem of
        (_, _, lh, m) \<Rightarrow> (case lh_insert [98, 0] lh m of (_, _, lh', m') \<Rightarrow> lh'))"

lemma two_table_inv: "strings.lh_inv two_table"
proof -
  obtain ok old lh m where 1: "lh_insert [97, 0] tiny_table tiny_mem = (ok, old, lh, m)" by (metis prod_cases4)
  obtain ok' old' lh' m' where 2: "lh_insert [98, 0] lh m = (ok', old', lh', m')" by (metis prod_cases4)
  have "strings.lh_inv lh" using strings.lh_insert_map [OF tiny_table_inv _ 1] by (simp add: c_string_def)
  then have "strings.lh_inv lh'" using strings.lh_insert_map [OF _ _ 2] by (simp add: c_string_def)
  with 1 2 show ?thesis by (simp add: two_table_def)
qed

lemma two_table_eval:
  "map item_addr (concat (buckets two_table)) = [1, 0] \<and> map item_data (concat (buckets two_table)) = [[98, 0], [97, 0]] \<and>
   fresh_addr two_table = 2 \<and> callback_depth two_table = 0 \<and> lh_items two_table = 2"
  by code_simp

lemma two_table_addrs: "addrs_ok two_table"
proof -
  have "set (map item_addr (concat (buckets two_table))) = {1, 0}" using two_table_eval by (simp del: set_map)
  then show ?thesis using two_table_eval by (auto simp: addrs_ok_def simp del: set_concat)
qed

theorem lh_doall_visits_all_witness:
  "\<exists>xs s' lh' m'. lh_doall replace_all (Some two_table) 1 tiny_mem = Some (Some lh', s', m') \<and>
     subseq [[98], [97]] (map c_key xs) \<and> length xs + s' \<le> 3 \<and> callback_depth lh' = 0 \<and> strings.lh_inv lh'"
proof -
  have d: "callback_depth two_table + 1 < UINT_MAX" using two_table_eval by (simp add: UINT_MAX_def)
  have k: "map (c_key \<circ> item_data) (concat (buckets two_table)) = [[98], [97]]"
  proof -
    have "map c_key (map item_data (concat (buckets two_table))) = [[98], [97]]" using two_table_eval by (simp add: c_key_def)
    then show ?thesis by simp
  qed
  from lh_doall_visits_all [OF replace_all_within two_table_inv two_table_addrs d, of 1 tiny_mem] show ?thesis
    unfolding k using two_table_eval by force
qed

end
