(* ===== verification/Stack.thy ===== *)
theory Stack
  imports Lhash
begin

text \<open>
  The pointer array of \<^verbatim>\<open>crypto/stack/stack.c\<close>.  A pointer is an option, \<open>None\<close> for \<^verbatim>\<open>NULL\<close>; the list
  holds the \<^verbatim>\<open>num\<close> slots in use, and the slots from there to \<^verbatim>\<open>num_alloc\<close>, which no operation reads,
  only count.  A stack argument may itself be \<^verbatim>\<open>NULL\<close>.
\<close>

section \<open>Model\<close>

definition kMinSize :: nat where "kMinSize = 4"

record 'a STACK =
  sk_data :: "'a option list"
  sk_sorted :: bool
  num_alloc :: nat
  sk_comp :: "('a option \<Rightarrow> 'a option \<Rightarrow> int) option"

text \<open>\<^verbatim>\<open>_STACK\<close> takes 40 bytes.\<close>

definition sk_new :: "('a option \<Rightarrow> 'a option \<Rightarrow> int) option \<Rightarrow> ('a STACK, mem) step" where
  "sk_new c m =
     (case OPENSSL_malloc 40 m of
        (None, m1) \<Rightarrow> (None, OPENSSL_free None m1)
      | (Some r, m1) \<Rightarrow>
          (case OPENSSL_malloc (8 * kMinSize) m1 of
             (None, m2) \<Rightarrow> (None, OPENSSL_free (Some r) m2)
           | (Some _, m2) \<Rightarrow>
               (Some \<lparr>sk_data = [], sk_sorted = False, num_alloc = kMinSize, sk_comp = c\<rparr>, m2)))"

definition sk_new_null :: "('a STACK, mem) step" where
  "sk_new_null = sk_new None"

definition sk_num :: "'a STACK option \<Rightarrow> nat" where
  "sk_num sk = (case sk of None \<Rightarrow> 0 | Some s \<Rightarrow> length (sk_data s))"

definition sk_zero :: "'a STACK option \<Rightarrow> 'a STACK option" where
  "sk_zero sk = (case sk of None \<Rightarrow> None
     | Some s \<Rightarrow> if sk_data s = [] then Some s else Some (s\<lparr>sk_data := [], sk_sorted := False\<rparr>))"

definition sk_value :: "'a STACK option \<Rightarrow> nat \<Rightarrow> 'a option" where
  "sk_value sk i = (case sk of None \<Rightarrow> None
     | Some s \<Rightarrow> if i \<ge> length (sk_data s) then None else sk_data s ! i)"

definition sk_set :: "'a STACK option \<Rightarrow> nat \<Rightarrow> 'a option \<Rightarrow> 'a option \<times> 'a STACK option" where
  "sk_set sk i val = (case sk of None \<Rightarrow> (None, None)
     | Some s \<Rightarrow> if i \<ge> length (sk_data s) then (None, Some s)
                 else (val, Some (s\<lparr>sk_data := (sk_data s)[i := val]\<rparr>)))"

definition sk_free :: "'a STACK option \<Rightarrow> mem \<Rightarrow> mem" where
  "sk_free sk m = (case sk of None \<Rightarrow> m
     | Some s \<Rightarrow> OPENSSL_free (Some (replicate 40 0)) (OPENSSL_free (Some (replicate (8 * num_alloc s) 0)) m))"

text \<open>The callbacks \<^verbatim>\<open>func\<close> and \<^verbatim>\<open>free_func\<close> act on a state of the caller.\<close>

definition call_nonnull :: "('a \<Rightarrow> 's \<Rightarrow> 's) \<Rightarrow> 'a option list \<Rightarrow> 's \<Rightarrow> 's" where
  "call_nonnull func ps st = foldl (\<lambda>st p. case p of None \<Rightarrow> st | Some x \<Rightarrow> func x st) st ps"

definition sk_pop_free :: "('a \<Rightarrow> 's \<Rightarrow> 's) \<Rightarrow> 'a STACK option \<Rightarrow> 's \<times> mem \<Rightarrow> 's \<times> mem" where
  "sk_pop_free func sk sm = (case sk of None \<Rightarrow> sm
     | Some s \<Rightarrow> (call_nonnull func (sk_data s) (fst sm), sk_free sk (snd sm)))"

text \<open>The new size: doubled, or one more where doubling overflows, or \<open>None\<close> where that does too.\<close>

definition grown :: "nat \<Rightarrow> nat option" where
  "grown n =
     (let new_alloc = size_mul n 2
      in if \<not> (new_alloc < n \<or> size_mul new_alloc 8 div 8 \<noteq> new_alloc) then Some new_alloc
         else let new_alloc = size_add n 1
              in if new_alloc < n \<or> size_mul new_alloc 8 div 8 \<noteq> new_alloc then None else Some new_alloc)"

definition sk_insert :: "'a STACK option \<Rightarrow> 'a option \<Rightarrow> nat \<Rightarrow> mem \<Rightarrow> nat \<times> 'a STACK option \<times> mem" where
  "sk_insert sk p at m =
     (case sk of
        None \<Rightarrow> (0, None, m)
      | Some s \<Rightarrow>
          let put = (\<lambda>s :: 'a STACK.
                let data = (if at \<ge> length (sk_data s) then sk_data s @ [p]
                            else take at (sk_data s) @ p # drop at (sk_data s))
                in s\<lparr>sk_data := data, sk_sorted := False\<rparr>)
          in if num_alloc s \<le> length (sk_data s) + 1 then
               (case grown (num_alloc s) of
                  None \<Rightarrow> (0, Some s, m)
                | Some new_alloc \<Rightarrow>
                    (case OPENSSL_realloc (Some (replicate (8 * num_alloc s) 0)) (size_mul new_alloc 8) m of
                       (None, m1) \<Rightarrow> (0, Some s, m1)
                     | (Some _, m1) \<Rightarrow>
                         (length (sk_data s) + 1, Some (put (s\<lparr>num_alloc := new_alloc\<rparr>)), m1)))
             else (length (sk_data s) + 1, Some (put s), m))"

definition sk_delete :: "'a STACK option \<Rightarrow> nat \<Rightarrow> 'a option \<times> 'a STACK option" where
  "sk_delete sk at =
     (case sk of
        None \<Rightarrow> (None, None)
      | Some s \<Rightarrow>
          if at \<ge> length (sk_data s) then (None, Some s)
          else (sk_data s ! at, Some (s\<lparr>sk_data := take at (sk_data s) @ drop (Suc at) (sk_data s)\<rparr>)))"

text \<open>The index of the first slot that holds the pointer itself, or \<open>None\<close>.\<close>

fun index_of :: "'a option list \<Rightarrow> 'a option \<Rightarrow> nat option" where
  "index_of [] p = None"
| "index_of (x # xs) p = (if x = p then Some 0 else map_option Suc (index_of xs p))"

definition sk_delete_ptr :: "'a STACK option \<Rightarrow> 'a option \<Rightarrow> 'a option \<times> 'a STACK option" where
  "sk_delete_ptr sk p =
     (case sk of
        None \<Rightarrow> (None, None)
      | Some s \<Rightarrow> (case index_of (sk_data s) p of None \<Rightarrow> (None, Some s) | Some i \<Rightarrow> sk_delete sk i))"

definition sk_sort :: "'a STACK option \<Rightarrow> 'a STACK option" where
  "sk_sort sk =
     (case sk of
        None \<Rightarrow> None
      | Some s \<Rightarrow>
          (case sk_comp s of
             None \<Rightarrow> Some s
           | Some c \<Rightarrow> if sk_sorted s then Some s
                       else Some (s\<lparr>sk_data := qsort c (sk_data s), sk_sorted := True\<rparr>)))"

fun first_equal :: "('b \<Rightarrow> int) \<Rightarrow> 'b list \<Rightarrow> nat \<Rightarrow> nat" where
  "first_equal c xs 0 = 0"
| "first_equal c xs (Suc i) = (if c (xs ! i) = 0 then first_equal c xs i else Suc i)"

text \<open>The results are \<^verbatim>\<open>*out_index\<close>, if found, and the stack, which a search may have sorted.\<close>

definition sk_find :: "'a STACK option \<Rightarrow> 'a option \<Rightarrow> nat option \<times> 'a STACK option" where
  "sk_find sk p =
     (case sk of
        None \<Rightarrow> (None, None)
      | Some s \<Rightarrow>
          (case sk_comp s of
             None \<Rightarrow> (index_of (sk_data s) p, Some s)
           | Some c \<Rightarrow>
               if p = None then (None, Some s)
               else
                 let sk1 = sk_sort (Some s); xs = sk_data (the sk1)
                 in (map_option (first_equal (c p) xs) (bsearch (c p) xs), sk1)))"

definition sk_shift :: "'a STACK option \<Rightarrow> 'a option \<times> 'a STACK option" where
  "sk_shift sk = (if sk = None then (None, None) else if sk_num sk = 0 then (None, sk) else sk_delete sk 0)"

definition sk_push :: "'a STACK option \<Rightarrow> 'a option \<Rightarrow> mem \<Rightarrow> nat \<times> 'a STACK option \<times> mem" where
  "sk_push sk p = sk_insert sk p (sk_num sk)"

definition sk_pop :: "'a STACK option \<Rightarrow> 'a option \<times> 'a STACK option" where
  "sk_pop sk = (if sk = None then (None, None) else if sk_num sk = 0 then (None, sk) else sk_delete sk (sk_num sk - 1))"

definition sk_dup :: "'a STACK option \<Rightarrow> ('a STACK, mem) step" where
  "sk_dup sk m =
     (case sk of
        None \<Rightarrow> (None, m)
      | Some s \<Rightarrow>
          (case sk_new (sk_comp s) m of
             (None, m1) \<Rightarrow> (None, sk_free (None :: 'a STACK option) m1)
           | (Some r, m1) \<Rightarrow>
               (case OPENSSL_realloc (Some (replicate (8 * num_alloc r) 0)) (size_mul 8 (num_alloc s)) m1 of
                  (None, m2) \<Rightarrow> (None, sk_free (Some r) m2)
                | (Some _, m2) \<Rightarrow>
                    (Some (r\<lparr>sk_data := sk_data s, sk_sorted := sk_sorted s, num_alloc := num_alloc s,
                             sk_comp := sk_comp s\<rparr>), m2))))"

definition sk_is_sorted :: "'a STACK option \<Rightarrow> bool" where
  "sk_is_sorted sk = (case sk of None \<Rightarrow> True | Some s \<Rightarrow> sk_sorted s)"

text \<open>Comparison functions are compared by address; \<open>same\<close> is the outcome of \<^verbatim>\<open>sk->comp != comp\<close>.\<close>

definition sk_set_cmp_func :: "bool \<Rightarrow> 'a STACK \<Rightarrow> ('a option \<Rightarrow> 'a option \<Rightarrow> int) option \<Rightarrow>
    ('a option \<Rightarrow> 'a option \<Rightarrow> int) option \<times> 'a STACK" where
  "sk_set_cmp_func same sk c =
     (sk_comp sk, sk\<lparr>sk_sorted := (if same then sk_sorted sk else False), sk_comp := c\<rparr>)"

text \<open>The loop of \<^verbatim>\<open>sk_deep_copy\<close>: the copies made so far are in \<open>done\<close>; a copy that fails frees them.\<close>

fun deep_copy_loop :: "('a \<Rightarrow> 's \<Rightarrow> 'a option \<times> 's) \<Rightarrow> ('a \<Rightarrow> 's \<Rightarrow> 's) \<Rightarrow> 'a option list \<Rightarrow> 'a option list \<Rightarrow> 's \<Rightarrow>
    'a option list option \<times> 's" where
  "deep_copy_loop copy_func free_func copied [] st = (Some copied, st)"
| "deep_copy_loop copy_func free_func copied (None # ps) st =
     deep_copy_loop copy_func free_func (copied @ [None]) ps st"
| "deep_copy_loop copy_func free_func copied (Some x # ps) st =
     (case copy_func x st of
        (None, st1) \<Rightarrow> (None, call_nonnull free_func copied st1)
      | (Some y, st1) \<Rightarrow> deep_copy_loop copy_func free_func (copied @ [Some y]) ps st1)"

definition sk_deep_copy :: "('a \<Rightarrow> 's \<Rightarrow> 'a option \<times> 's) \<Rightarrow> ('a \<Rightarrow> 's \<Rightarrow> 's) \<Rightarrow> 'a STACK option \<Rightarrow> 's \<times> mem \<Rightarrow>
    'a STACK option \<times> 's \<times> mem" where
  "sk_deep_copy copy_func free_func sk sm =
     (case sk_dup sk (snd sm) of
        (None, m1) \<Rightarrow> (None, fst sm, m1)
      | (Some r, m1) \<Rightarrow>
          (case deep_copy_loop copy_func free_func [] (sk_data r) (fst sm) of
             (None, st) \<Rightarrow> (None, st, sk_free (Some r) m1)
           | (Some data, st) \<Rightarrow> (Some (r\<lparr>sk_data := data\<rparr>), st, m1)))"

section \<open>Searching a sorted stack\<close>

text \<open>What a comparison function promises: a total preorder on the pointers it is used on, with the sign
  turned round when the arguments are.\<close>

locale sk_order =
  fixes c :: "'a option \<Rightarrow> 'a option \<Rightarrow> int" and A :: "'a option set"
  assumes c_sign: "x \<in> A \<Longrightarrow> y \<in> A \<Longrightarrow> sgn (c y x) = - sgn (c x y)"
    and c_trans: "x \<in> A \<Longrightarrow> y \<in> A \<Longrightarrow> z \<in> A \<Longrightarrow> c x y \<le> 0 \<Longrightarrow> c y z \<le> 0 \<Longrightarrow> c x z \<le> 0"
begin

lemma c_flip: "x \<in> A \<Longrightarrow> y \<in> A \<Longrightarrow> (c y x < 0 \<longleftrightarrow> 0 < c x y) \<and> (c y x = 0 \<longleftrightarrow> c x y = 0)"
  using c_sign [of x y] by (auto simp: sgn_if split: if_splits)

lemma c_consistent: "consistent_cmp c A"
  unfolding consistent_cmp_def using c_flip c_trans by (meson linorder_not_less not_less_iff_gr_or_eq)

lemma c_consistent_on: "B \<subseteq> A \<Longrightarrow> consistent_cmp c B"
  using c_consistent unfolding consistent_cmp_def by blast

lemma c_less_trans: "x \<in> A \<Longrightarrow> y \<in> A \<Longrightarrow> z \<in> A \<Longrightarrow> c x y < 0 \<Longrightarrow> c y z \<le> 0 \<Longrightarrow> c x z < 0"
  using c_trans [of x y z] c_trans [of y z x] c_flip [of x z] c_flip [of x y] by fastforce

lemma c_equal_trans: "x \<in> A \<Longrightarrow> y \<in> A \<Longrightarrow> z \<in> A \<Longrightarrow> c x y = 0 \<Longrightarrow> c x z = 0 \<Longrightarrow> c y z = 0"
  using c_trans [of y x z] c_trans [of z x y] c_flip [of x y] c_flip [of x z] c_flip [of y z] by fastforce

text \<open>In a sorted array the elements below the middle compare no greater, those above no less.\<close>

lemma bsearch_in_complete:
  assumes "sorted_wrt (\<lambda>a b. c a b \<le> 0) xs" and "set xs \<subseteq> A" and "p \<in> A" and "hi \<le> length xs"
    and "bsearch_in (c p) xs lo hi = None" and "lo \<le> k" and "k < hi"
  shows "c p (xs ! k) \<noteq> 0"
  using assms(4-)
proof (induction "hi - lo" arbitrary: lo hi rule: less_induct)
  case less
  let ?mid = "(lo + hi) div 2"
  have l: "\<not> lo \<ge> hi" using less.prems by linarith
  have m: "lo \<le> ?mid" "?mid < hi" using l by auto
  have inA: "xs ! j \<in> A" if "j < hi" for j using assms(2) that less.prems(1) by auto
  have ne: "c p (xs ! ?mid) \<noteq> 0"
    using less.prems(2) l by (auto simp: bsearch_in.simps [of _ xs lo hi] Let_def)
  consider "k = ?mid" | "k < ?mid" "c p (xs ! ?mid) < 0" | "k < ?mid" "c p (xs ! ?mid) > 0"
    | "?mid < k" "c p (xs ! ?mid) < 0" | "?mid < k" "c p (xs ! ?mid) > 0" using ne by linarith
  then show ?case
  proof cases
    case 2
    with less.prems(2) l have "bsearch_in (c p) xs lo ?mid = None"
      by (simp add: bsearch_in.simps [of _ xs lo hi] Let_def)
    then show ?thesis using less.hyps [of ?mid lo] 2(1) less.prems(1,3) m by simp
  next
    case 3
    have "?mid < length xs" using m less.prems(1) by linarith
    then have "c (xs ! k) (xs ! ?mid) \<le> 0" using sorted_wrt_nth_less [OF assms(1) 3(1)] by blast
    show ?thesis
    proof
      assume "c p (xs ! k) = 0"
      then have "c p (xs ! ?mid) \<le> 0"
        using c_trans [OF assms(3) inA inA, of k ?mid] \<open>c (xs ! k) (xs ! ?mid) \<le> 0\<close> less.prems(4) m by simp
      with 3(2) show False by simp
    qed
  next
    case 4
    have "k < length xs" using less.prems(1,4) by linarith
    then have "c (xs ! ?mid) (xs ! k) \<le> 0" using sorted_wrt_nth_less [OF assms(1) 4(1)] by blast
    then have "c p (xs ! k) < 0"
      using c_less_trans [OF assms(3) inA inA, of ?mid k] 4(2) m less.prems(4) by simp
    then show ?thesis by simp
  next
    case 5
    with less.prems(2) l have "bsearch_in (c p) xs (?mid + 1) hi = None"
      by (simp add: bsearch_in.simps [of _ xs lo hi] Let_def)
    then show ?thesis using less.hyps [of hi "?mid + 1"] 5(1) less.prems(1,4) m by simp
  qed (use ne in simp)
qed

lemma first_equal_least:
  assumes "sorted_wrt (\<lambda>a b. c a b \<le> 0) xs" and "set xs \<subseteq> A" and "p \<in> A" and "i < length xs" and "c p (xs ! i) = 0"
  shows "first_equal (c p) xs i \<le> i \<and> c p (xs ! first_equal (c p) xs i) = 0 \<and>
    (\<forall>k < first_equal (c p) xs i. c p (xs ! k) \<noteq> 0)"
  using assms(4,5)
proof (induction i)
  case (Suc i)
  have inA: "xs ! j \<in> A" if "j < length xs" for j using assms(2) that by auto
  show ?case
  proof (cases "c p (xs ! i) = 0")
    case True
    with Suc show ?thesis by auto
  next
    case False
    have "c p (xs ! k) \<noteq> 0" if "k < Suc i" for k
    proof (cases "k = i")
      case k: False
      then have "k < i" using that by simp
      then have "c (xs ! k) (xs ! i) \<le> 0" "c (xs ! i) (xs ! Suc i) \<le> 0"
        using assms(1) Suc.prems(1) sorted_wrt_nth_less [of _ xs k i] sorted_wrt_nth_less [of _ xs i "Suc i"] by simp_all
      moreover have "c (xs ! Suc i) p = 0" using Suc.prems c_flip [OF assms(3) inA] by simp
      ultimately show ?thesis
        using False c_trans [of p "xs ! k" "xs ! i"] c_trans [of "xs ! i" "xs ! Suc i" p] c_flip [of p "xs ! i"]
          inA assms(3) that Suc.prems(1) by fastforce
    qed (use False in simp)
    with False Suc.prems show ?thesis by simp
  qed
qed simp

lemma sk_find_sorted:
  assumes "sorted_wrt (\<lambda>a b. c a b \<le> 0) xs" and "set xs \<subseteq> A" and "p \<in> A"
    and "r = map_option (first_equal (c p) xs) (bsearch (c p) xs)"
  shows "case r of None \<Rightarrow> \<forall>x \<in> set xs. c p x \<noteq> 0
    | Some i \<Rightarrow> i < length xs \<and> c p (xs ! i) = 0 \<and> (\<forall>k < i. c p (xs ! k) \<noteq> 0)"
proof (cases "bsearch (c p) xs")
  case None
  then have "bsearch_in (c p) xs 0 (length xs) = None" by (simp add: bsearch_def)
  from bsearch_in_complete [OF assms(1-3) le_refl this] None assms(4) show ?thesis
    by (auto simp: in_set_conv_nth)
next
  case (Some i)
  then have "i < length xs" "c p (xs ! i) = 0" using bsearch_in_sound [of "c p" xs 0 "length xs" i] by (simp_all add: bsearch_def)
  from first_equal_least [OF assms(1-3) this] this Some assms(4) show ?thesis by auto
qed

end

section \<open>Stacks of strings\<close>

lemma strcmp_sgn: "sgn (strcmp b a) = - sgn (strcmp a b)"
  by (induction a b rule: strcmp.induct) auto

lemma u8_pos: "x \<noteq> 0 \<Longrightarrow> 0 < (x :: u8)"
  by (simp add: word_less_nat_alt unat_gt_0)

lemma strcmp_trans: "strcmp a b \<le> 0 \<Longrightarrow> strcmp b c \<le> 0 \<Longrightarrow> strcmp a c \<le> 0"
proof (induction a c arbitrary: b rule: strcmp.induct)
  case (1 x xs z zs)
  then show ?case by (cases b) (auto intro: u8_pos split: if_splits)
next
  case (2 x xs)
  then show ?case by (cases b) (auto split: if_splits)
next
  case (3 z zs)
  then show ?case by (cases b) (auto intro: u8_pos split: if_splits)
qed auto

definition string_cmp :: "u8 list option \<Rightarrow> u8 list option \<Rightarrow> int" where
  "string_cmp x y = strcmp (the x) (the y)"

interpretation string_sk: sk_order string_cmp "UNIV - {None}"
proof
  show "sgn (string_cmp y x) = - sgn (string_cmp x y)" for x y
    unfolding string_cmp_def by (rule strcmp_sgn)
  show "string_cmp x y \<le> 0 \<Longrightarrow> string_cmp y z \<le> 0 \<Longrightarrow> string_cmp x z \<le> 0" for x y z
    unfolding string_cmp_def by (rule strcmp_trans)
qed

section \<open>Properties\<close>

text \<open>A stack is well-formed when an append has room: the capacity exceeds the number of slots in use,
  and both stay far from the limits of \<^verbatim>\<open>size_t\<close>.\<close>

definition sk_ok :: "'a STACK \<Rightarrow> bool" where
  "sk_ok s \<longleftrightarrow> length (sk_data s) < num_alloc s \<and> num_alloc s * 8 \<le> SIZE_MAX"

lemma grown_ok: "n * 8 \<le> SIZE_MAX \<Longrightarrow> 0 < n \<Longrightarrow> grown n = Some n' \<Longrightarrow> n < n' \<and> n' * 8 \<le> SIZE_MAX"
proof -
  assume n: "n * 8 \<le> SIZE_MAX" "0 < n" and g: "grown n = Some n'"
  have no_wrap: "x * 8 \<le> SIZE_MAX" if "size_mul x 8 div 8 = x" for x
  proof -
    have "size_mul x 8 \<le> SIZE_MAX" by (simp add: size_mul_def SIZE_MAX_def less_Suc_eq_le [symmetric])
    moreover have "size_mul x 8 div 8 * 8 \<le> size_mul x 8" by (rule div_times_less_eq_dividend)
    ultimately show ?thesis using that by simp
  qed
  have "size_mul n 2 = n * 2" "size_add n 1 = n + 1" using n by (simp_all add: size_mul_def SIZE_MAX_def)
  with g n show ?thesis by (auto simp: grown_def Let_def no_wrap split: if_splits)
qed

lemma sk_find_match:
  assumes "sk_comp s = Some string_cmp" and "None \<notin> set (sk_data s)"
    and "sk_sorted s \<Longrightarrow> sorted_wrt (\<lambda>a b. string_cmp a b \<le> 0) (sk_data s)"
    and "sk_find (Some s) (Some p) = (r, sk')"
  shows "\<exists>s'. sk' = Some s' \<and> mset (sk_data s') = mset (sk_data s) \<and> sk_sorted s' \<and>
    sorted_wrt (\<lambda>a b. string_cmp a b \<le> 0) (sk_data s') \<and>
    (case r of
       None \<Rightarrow> \<forall>x \<in> set (sk_data s). string_cmp (Some p) x \<noteq> 0
     | Some i \<Rightarrow> i < length (sk_data s') \<and> string_cmp (Some p) (sk_data s' ! i) = 0 \<and>
         (\<forall>k < i. string_cmp (Some p) (sk_data s' ! k) \<noteq> 0))"
proof -
  let ?xs = "sk_data (the (sk_sort (Some s)))"
  have n: "set (sk_data s) \<subseteq> UNIV - {None}" using assms(2) by auto
  have m: "mset ?xs = mset (sk_data s)" using assms(1) by (simp add: sk_sort_def)
  have srt: "sorted_wrt (\<lambda>a b. string_cmp a b \<le> 0) ?xs"
    using assms(1,3) sorted_qsort [OF string_sk.c_consistent_on [OF n]] by (simp add: sk_sort_def)
  have set: "set ?xs = set (sk_data s)" using m mset_eq_setD by blast
  then have "set ?xs \<subseteq> UNIV - {None}" using n by simp
  moreover have "r = map_option (first_equal (string_cmp (Some p)) ?xs) (bsearch (string_cmp (Some p)) ?xs)"
    and sk': "sk' = sk_sort (Some s)"
    using assms(1,4) by (auto simp: sk_find_def Let_def)
  ultimately have "case r of None \<Rightarrow> \<forall>x \<in> set ?xs. string_cmp (Some p) x \<noteq> 0
    | Some i \<Rightarrow> i < length ?xs \<and> string_cmp (Some p) (?xs ! i) = 0 \<and> (\<forall>k < i. string_cmp (Some p) (?xs ! k) \<noteq> 0)"
    using string_sk.sk_find_sorted [OF srt] by blast
  moreover obtain s' where s': "sk_sort (Some s) = Some s'" "sk_sorted s'" using assms(1) by (cases "sk_sorted s") (auto simp: sk_sort_def)
  ultimately show ?thesis using m srt set sk' unfolding s'(1) option.sel
    by (intro exI [of _ s']) (simp add: s'(2) split: option.splits)
qed

text \<open>C18: \<^verbatim>\<open>sk_find\<close> on a stack of strings finds the first match.  Whether or not the stack was sorted
  before, the search leaves it a sorted permutation of what it was, and returns the least index of a
  string equal to the one sought, or nothing when there is none.\<close>

theorem sk_find_first:
  assumes "sk_comp s = Some string_cmp" and "None \<notin> set (sk_data s)"
    and "sk_sorted s \<Longrightarrow> sorted_wrt (\<lambda>a b. string_cmp a b \<le> 0) (sk_data s)"
    and "sk_find (Some s) (Some p) = (r, sk')"
  shows "\<exists>s'. sk' = Some s' \<and> mset (sk_data s') = mset (sk_data s) \<and> sk_sorted s' \<and>
    sorted_wrt (\<lambda>a b. string_cmp a b \<le> 0) (sk_data s') \<and>
    (case r of
       None \<Rightarrow> \<forall>x \<in> set (sk_data s). string_cmp (Some p) x \<noteq> 0
     | Some i \<Rightarrow> i < length (sk_data s') \<and> string_cmp (Some p) (sk_data s' ! i) = 0 \<and>
         (\<forall>k < i. string_cmp (Some p) (sk_data s' ! k) \<noteq> 0))"
  using assms by (rule sk_find_match)

definition two_strings :: "u8 list STACK" where
  "two_strings = \<lparr>sk_data = [Some [98, 0], Some [97, 0]], sk_sorted = False, num_alloc = 4, sk_comp = Some string_cmp\<rparr>"

theorem sk_find_first_witness:
  "\<exists>i s'. sk_find (Some two_strings) (Some [98, 0]) = (Some i, Some s') \<and> string_cmp (Some [98, 0]) (sk_data s' ! i) = 0"
proof -
  have f: "fst (sk_find (Some two_strings) (Some [98, 0])) = Some 1" by code_simp
  obtain r sk' where e: "sk_find (Some two_strings) (Some [98, 0]) = (r, sk')" by fastforce
  with f have "r = Some 1" by simp
  with e sk_find_first [of two_strings "[98, 0]" r sk'] show ?thesis by (auto simp: two_strings_def)
qed

text \<open>C33: \<^verbatim>\<open>sk_insert\<close> inserts, and never past the array.  On a well-formed stack a successful call puts
  the pointer at the index given (or at the end, if that is past it), keeps the rest in order, leaves
  the stack well-formed and unsorted and returns the new number; a failing call changes nothing.\<close>

theorem sk_insert_inserts:
  assumes "sk_ok s" and "sk_insert (Some s) p at m = (n, sk', m')"
  shows "(n = 0 \<and> sk' = Some s) \<or>
    (\<exists>s'. sk' = Some s' \<and> sk_ok s' \<and> n = length (sk_data s') \<and> \<not> sk_sorted s' \<and> sk_comp s' = sk_comp s \<and>
       sk_data s' = take at (sk_data s) @ p # drop at (sk_data s))"
  using assms grown_ok [of "num_alloc s"]
  by (auto simp: sk_insert_def sk_ok_def Let_def split: if_splits option.splits prod.splits)

theorem sk_insert_inserts_witness:
  "sk_data (the (fst (snd (sk_insert (Some two_strings) None 1 tiny_mem)))) = [Some [98, 0], None, Some [97, 0]]"
proof -
  obtain n sk' m' where e: "sk_insert (Some two_strings) None 1 tiny_mem = (n, sk', m')" by (metis prod_cases3)
  have "sk_ok two_strings" by (simp add: sk_ok_def two_strings_def SIZE_MAX_def)
  moreover have "n \<noteq> 0" using e by (auto simp: sk_insert_def two_strings_def Let_def)
  ultimately obtain s' where "sk' = Some s'" "sk_data s' = take 1 (sk_data two_strings) @ None # drop 1 (sk_data two_strings)"
    using sk_insert_inserts [OF _ e] by blast
  then show ?thesis unfolding e by (simp add: two_strings_def)
qed

text \<open>Replacing one element of a sorted list.\<close>

lemma string_cmp_trans: "string_cmp x y \<le> 0 \<Longrightarrow> string_cmp y z \<le> 0 \<Longrightarrow> string_cmp x z \<le> 0"
  unfolding string_cmp_def by (rule strcmp_trans)

lemma sorted_replace:
  assumes srt: "sorted_wrt (\<lambda>a b. string_cmp a b \<le> 0) xs" and i: "i < length xs"
  shows "sorted_wrt (\<lambda>a b. string_cmp a b \<le> 0) (xs[i := v]) \<longleftrightarrow>
    (0 < i \<longrightarrow> string_cmp (xs ! (i - 1)) v \<le> 0) \<and> (i + 1 < length xs \<longrightarrow> string_cmp v (xs ! (i + 1)) \<le> 0)"
    (is "?s \<longleftrightarrow> ?fits")
proof
  assume ?s
  then have r: "string_cmp (xs[i := v] ! a) (xs[i := v] ! b) \<le> 0" if "a < b" "b < length xs" for a b
    using that by (simp add: sorted_wrt_iff_nth_less)
  from r [of "i - 1" i] r [of i "i + 1"] i show ?fits by auto
next
  assume f: ?fits
  have le: "string_cmp (xs ! a) (xs ! b) \<le> 0" if "a < b" "b < length xs" for a b
    using srt that by (simp add: sorted_wrt_iff_nth_less)
  have before: "string_cmp (xs ! a) v \<le> 0" if "a < i" for a
    using f le [of a "i - 1"] string_cmp_trans [of "xs ! a" "xs ! (i - 1)" v] that i by (cases "a = i - 1") auto
  have after: "string_cmp v (xs ! b) \<le> 0" if "i < b" "b < length xs" for b
    using f le [of "i + 1" b] string_cmp_trans [of v "xs ! (i + 1)" "xs ! b"] that by (cases "b = i + 1") auto
  have "string_cmp (xs[i := v] ! a) (xs[i := v] ! b) \<le> 0" if "a < b" "b < length xs" for a b
    using that le [OF that] before [of a] after [of b] i by (auto simp: nth_list_update)
  then show ?s by (simp add: sorted_wrt_iff_nth_less)
qed

text \<open>C34: \<^verbatim>\<open>sk_set\<close> keeps the mark of a sorted stack, and with it the search only where the new string fits.
  On a stack of strings that is marked and sorted, \<^verbatim>\<open>sk_set\<close> within range returns the pointer and replaces
  just that slot; \<^verbatim>\<open>sk_is_sorted\<close> answers yes and \<^verbatim>\<open>sk_sort\<close> leaves the stack alone, whatever string was
  put in.  The stack is in order, as \<^verbatim>\<open>bsearch\<close> requires, exactly when the string is not below its left
  and not above its right neighbour; then \<^verbatim>\<open>sk_find\<close> finds it.\<close>

theorem sk_set_keeps_sorted:
  assumes "sk_comp s = Some string_cmp" and "None \<notin> set (sk_data s)" and "sk_sorted s"
    and "sorted_wrt (\<lambda>a b. string_cmp a b \<le> 0) (sk_data s)" and "i < length (sk_data s)"
    and "sk_set (Some s) i (Some p) = (r, sk')"
  shows "r = Some p \<and> sk_is_sorted sk' \<and> sk_sort sk' = sk' \<and>
    (\<exists>s'. sk' = Some s' \<and> sk_data s' = (sk_data s)[i := Some p] \<and>
       (sorted_wrt (\<lambda>a b. string_cmp a b \<le> 0) (sk_data s') \<longleftrightarrow>
          (0 < i \<longrightarrow> string_cmp (sk_data s ! (i - 1)) (Some p) \<le> 0) \<and>
          (i + 1 < length (sk_data s) \<longrightarrow> string_cmp (Some p) (sk_data s ! (i + 1)) \<le> 0)) \<and>
       (sorted_wrt (\<lambda>a b. string_cmp a b \<le> 0) (sk_data s') \<longrightarrow>
          (\<exists>j. fst (sk_find sk' (Some p)) = Some j \<and> string_cmp (Some p) (sk_data s' ! j) = 0)))"
proof -
  let ?s = "s\<lparr>sk_data := (sk_data s)[i := Some p]\<rparr>"
  have e: "r = Some p" "sk' = Some ?s" using assms(5,6) by (auto simp: sk_set_def)
  have none: "None \<notin> set (sk_data ?s)" using assms(2) set_update_subset_insert [of "sk_data s" i "Some p"] by auto
  have found: "\<exists>j. fst (sk_find (Some ?s) (Some p)) = Some j \<and> string_cmp (Some p) (sk_data ?s ! j) = 0"
    if srt: "sorted_wrt (\<lambda>a b. string_cmp a b \<le> 0) (sk_data ?s)"
  proof -
    obtain q sk'' where f: "sk_find (Some ?s) (Some p) = (q, sk'')" by fastforce
    have same: "sk'' = Some ?s" using f assms(1,3) by (simp add: sk_find_def sk_sort_def Let_def)
    have "Some p \<in> set (sk_data ?s)" using assms(5) by (simp add: set_update_memI)
    moreover have "string_cmp (Some p) (Some p) = 0" by (simp add: string_cmp_def strcmp_eq_0)
    ultimately have "q \<noteq> None"
      using sk_find_match [OF _ none srt f] assms(1) by (auto split: option.splits)
    then obtain j where "q = Some j" by blast
    then show ?thesis using sk_find_match [OF _ none srt f] assms(1) f same by auto
  qed
  have "sk_is_sorted (Some ?s)" "sk_sort (Some ?s) = Some ?s" using assms(1,3) by (simp_all add: sk_is_sorted_def sk_sort_def)
  with e found sorted_replace [OF assms(4,5), of "Some p"] show ?thesis by auto
qed

text \<open>A sorted stack of three, in which two replacements of the first string are tried.\<close>

definition three_strings :: "u8 list STACK" where
  "three_strings = \<lparr>sk_data = [Some [97, 0], Some [98, 0], Some [99, 0]], sk_sorted = True, num_alloc = 4,
     sk_comp = Some string_cmp\<rparr>"

theorem sk_set_keeps_sorted_witness:
  "(let s = snd (sk_set (Some three_strings) 0 (Some [100, 0]))
    in sk_is_sorted s \<and> \<not> sorted_wrt (\<lambda>a b. string_cmp a b \<le> 0) (sk_data (the s))) \<and>
   fst (sk_find (snd (sk_set (Some three_strings) 0 (Some [96, 0]))) (Some [96, 0])) \<noteq> None"
proof -
  have h: "sk_comp three_strings = Some string_cmp" "None \<notin> set (sk_data three_strings)" "sk_sorted three_strings"
    "sorted_wrt (\<lambda>a b. string_cmp a b \<le> 0) (sk_data three_strings)" "0 < length (sk_data three_strings)"
    by (simp_all add: three_strings_def string_cmp_def)
  have "string_cmp (Some [100, 0]) (Some [98, 0]) = 1" "string_cmp (Some [96, 0]) (Some [98, 0]) = -1"
    by (simp_all add: string_cmp_def)
  moreover have "sk_data three_strings ! Suc 0 = Some [98, 0]" "length (sk_data three_strings) = 3"
    by (simp_all add: three_strings_def)
  ultimately show ?thesis
    using sk_set_keeps_sorted [OF h, of "[100, 0]" _ _] sk_set_keeps_sorted [OF h, of "[96, 0]" _ _]
    by (fastforce simp: Let_def prod_eq_iff)
qed

end
