(* ===== verification/Bio.thy ===== *)
theory Bio
  imports Mem
begin

unbundle bit_operations_syntax

text \<open>
  The I/O objects of \<^verbatim>\<open>crypto/bio\<close>: the generic layer of \<^verbatim>\<open>bio.c\<close>, the memory BIO of \<^verbatim>\<open>bio_mem.c\<close> and
  the BIO pair of \<^verbatim>\<open>pair.c\<close>.  A \<^verbatim>\<open>BIO *\<close> is an index into a store of objects, \<open>None\<close> where one has been
  freed; the two ends of a pair reach each other through the store, as they do in the code.  An
  operation is a \<open>step\<close> on the store whose result \<open>None\<close> means that the C program has no behaviour left:
  an assertion of the source fails, a pointer that is null or dangling is used, or a copy leaves its
  buffer.  Error codes are a list, the latest first; a returned buffer is the list of the bytes stored
  in it.  The methods of the other files of the directory (files, descriptors, sockets) are system
  calls and are left out.
\<close>

section \<open>Objects and the store\<close>

datatype bio_error = BIO_R_BROKEN_PIPE | BIO_R_IN_USE | ERR_R_MALLOC_FAILURE | BIO_R_NULL_PARAMETER
  | BIO_R_UNSUPPORTED_METHOD | BIO_R_UNINITIALIZED | BIO_R_WRITE_TO_READ_ONLY_BIO

datatype BIO_METHOD = methods_biop | mem_method

text \<open>One end of a pair: the ring buffer of what this end writes.\<close>

record bio_bio_st =
  bb_peer :: "nat option"
  bb_closed :: bool
  bb_len :: nat
  bb_offset :: nat
  bb_size :: nat
  bb_buf :: "u8 list option"
  bb_request :: nat

text \<open>
  What \<^verbatim>\<open>bio->ptr\<close> points to.  A read-only memory BIO moves \<^verbatim>\<open>b->data\<close> through the caller's buffer: the
  number says by how much.
\<close>

datatype bio_data = Ptr_null | Ptr_pair bio_bio_st | Ptr_mem BUF_MEM nat

record bio_st =
  bio_method :: BIO_METHOD
  bio_init :: bool
  bio_shutdown :: int
  bio_flags :: u32
  bio_retry_reason :: int
  bio_num :: int
  bio_references :: nat
  bio_ptr :: bio_data
  next_bio :: "nat option"
  num_read :: nat
  num_write :: nat

record bio_world =
  bios :: "bio_st option list"
  w_mem :: mem
  w_errs :: "bio_error list"

type_synonym 'a io = "('a, bio_world) step"

definition put_error :: "bio_error \<Rightarrow> unit io" where
  "put_error e w = (Some (), w\<lparr>w_errs := e # w_errs w\<rparr>)"

definition with_mem :: "('a, mem) step \<Rightarrow> 'a option io" where
  "with_mem p w = (case p (w_mem w) of (r, m) \<Rightarrow> (Some r, w\<lparr>w_mem := m\<rparr>))"

definition free_block :: "u8 list option \<Rightarrow> unit io" where
  "free_block p w = (Some (), w\<lparr>w_mem := OPENSSL_free p (w_mem w)\<rparr>)"

definition deref :: "nat \<Rightarrow> bio_st io" where
  "deref i w = (if i < length (bios w) then bios w ! i else None, w)"

definition store :: "nat \<Rightarrow> bio_st option \<Rightarrow> unit io" where
  "store i b w = (Some (), w\<lparr>bios := (bios w)[i := b]\<rparr>)"

definition update :: "nat \<Rightarrow> (bio_st \<Rightarrow> bio_st) \<Rightarrow> unit io" where
  "update i f = and_then (deref i) (\<lambda>b. store i (Some (f b)))"

definition deref_pair :: "nat \<Rightarrow> bio_bio_st io" where
  "deref_pair i = and_then (deref i) (\<lambda>b. case bio_ptr b of Ptr_pair p \<Rightarrow> ret p | _ \<Rightarrow> fail)"

definition set_pair :: "nat \<Rightarrow> bio_bio_st \<Rightarrow> unit io" where
  "set_pair i p = update i (\<lambda>b. b\<lparr>bio_ptr := Ptr_pair p\<rparr>)"

definition deref_mem :: "nat \<Rightarrow> (BUF_MEM \<times> nat) io" where
  "deref_mem i = and_then (deref i) (\<lambda>b. case bio_ptr b of Ptr_mem p off \<Rightarrow> ret (p, off) | _ \<Rightarrow> fail)"

definition set_mem :: "nat \<Rightarrow> BUF_MEM \<Rightarrow> nat \<Rightarrow> unit io" where
  "set_mem i p off = update i (\<lambda>b. b\<lparr>bio_ptr := Ptr_mem p off\<rparr>)"

text \<open>Conversions of C: \<^verbatim>\<open>size_t\<close> to \<^verbatim>\<open>int\<close> and to \<^verbatim>\<open>long\<close>, and \<^verbatim>\<open>int\<close> to \<^verbatim>\<open>size_t\<close>.\<close>

definition int_of_size :: "nat \<Rightarrow> int" where
  "int_of_size n = sint (word_of_nat n :: 32 word)"

definition long_of_size :: "nat \<Rightarrow> int" where
  "long_of_size n = sint (word_of_nat n :: 64 word)"

definition int_of_long :: "int \<Rightarrow> int" where
  "int_of_long i = sint (word_of_int i :: 32 word)"

definition size_of_int :: "int \<Rightarrow> nat" where
  "size_of_int i = nat (i mod 2 ^ 64)"

section \<open>Flags\<close>

definition BIO_FLAGS_READ :: u32 where "BIO_FLAGS_READ = 0x01"
definition BIO_FLAGS_WRITE :: u32 where "BIO_FLAGS_WRITE = 0x02"
definition BIO_FLAGS_IO_SPECIAL :: u32 where "BIO_FLAGS_IO_SPECIAL = 0x04"
definition BIO_FLAGS_RWS :: u32 where
  "BIO_FLAGS_RWS = BIO_FLAGS_READ OR BIO_FLAGS_WRITE OR BIO_FLAGS_IO_SPECIAL"
definition BIO_FLAGS_SHOULD_RETRY :: u32 where "BIO_FLAGS_SHOULD_RETRY = 0x08"
definition BIO_FLAGS_MEM_RDONLY :: u32 where "BIO_FLAGS_MEM_RDONLY = 0x200"

definition kRetryFlags :: u32 where
  "kRetryFlags = BIO_FLAGS_RWS OR BIO_FLAGS_SHOULD_RETRY"

definition BIO_set_flags :: "u32 \<Rightarrow> bio_st \<Rightarrow> bio_st" where
  "BIO_set_flags flags bio = bio\<lparr>bio_flags := bio_flags bio OR flags\<rparr>"

definition BIO_test_flags :: "bio_st \<Rightarrow> u32 \<Rightarrow> u32" where
  "BIO_test_flags bio flags = bio_flags bio AND flags"

definition BIO_should_read :: "bio_st \<Rightarrow> u32" where
  "BIO_should_read bio = BIO_test_flags bio BIO_FLAGS_READ"

definition BIO_should_write :: "bio_st \<Rightarrow> u32" where
  "BIO_should_write bio = BIO_test_flags bio BIO_FLAGS_WRITE"

definition BIO_should_retry :: "bio_st \<Rightarrow> u32" where
  "BIO_should_retry bio = BIO_test_flags bio BIO_FLAGS_SHOULD_RETRY"

definition BIO_should_io_special :: "bio_st \<Rightarrow> u32" where
  "BIO_should_io_special bio = BIO_test_flags bio BIO_FLAGS_IO_SPECIAL"

definition BIO_clear_flags :: "u32 \<Rightarrow> bio_st \<Rightarrow> bio_st" where
  "BIO_clear_flags flags bio = bio\<lparr>bio_flags := bio_flags bio AND NOT flags\<rparr>"

definition BIO_set_retry_read :: "bio_st \<Rightarrow> bio_st" where
  "BIO_set_retry_read bio = bio\<lparr>bio_flags := bio_flags bio OR (BIO_FLAGS_READ OR BIO_FLAGS_SHOULD_RETRY)\<rparr>"

definition BIO_set_retry_write :: "bio_st \<Rightarrow> bio_st" where
  "BIO_set_retry_write bio = bio\<lparr>bio_flags := bio_flags bio OR (BIO_FLAGS_WRITE OR BIO_FLAGS_SHOULD_RETRY)\<rparr>"

definition BIO_set_retry_special :: "bio_st \<Rightarrow> bio_st" where
  "BIO_set_retry_special bio = bio\<lparr>bio_flags := bio_flags bio OR (BIO_FLAGS_READ OR BIO_FLAGS_IO_SPECIAL)\<rparr>"

definition BIO_get_retry_flags :: "bio_st \<Rightarrow> u32" where
  "BIO_get_retry_flags bio = bio_flags bio AND kRetryFlags"

definition BIO_clear_retry_flags :: "bio_st \<Rightarrow> bio_st" where
  "BIO_clear_retry_flags bio =
     bio\<lparr>bio_flags := bio_flags bio AND NOT kRetryFlags, bio_retry_reason := 0\<rparr>"

definition BIO_copy_next_retry :: "nat \<Rightarrow> unit io" where
  "BIO_copy_next_retry i =
     and_then (update i BIO_clear_retry_flags) (\<lambda>_.
     and_then (deref i) (\<lambda>bio.
       case next_bio bio of
         None \<Rightarrow> fail
       | Some n \<Rightarrow>
           and_then (deref n) (\<lambda>nb.
             update i (\<lambda>b. (BIO_set_flags (BIO_get_retry_flags nb) b)\<lparr>bio_retry_reason := bio_retry_reason nb\<rparr>))))"

section \<open>The BIO pair\<close>

definition bio_new :: "nat \<Rightarrow> int io" where
  "bio_new i =
     and_then (with_mem (OPENSSL_malloc 56)) (\<lambda>r.
       case r of
         None \<Rightarrow> ret 0
       | Some _ \<Rightarrow>
           and_then (set_pair i \<lparr>bb_peer = None, bb_closed = False, bb_len = 0, bb_offset = 0,
                                bb_size = 17 * 1024, bb_buf = None, bb_request = 0\<rparr>) (\<lambda>_. ret 1))"

definition bio_destroy_pair :: "nat \<Rightarrow> unit io" where
  "bio_destroy_pair i =
     and_then (deref i) (\<lambda>bio.
       case bio_ptr bio of
         Ptr_null \<Rightarrow> ret ()
       | Ptr_mem _ _ \<Rightarrow> fail
       | Ptr_pair b \<Rightarrow>
           (case bb_peer b of
              None \<Rightarrow> ret ()
            | Some j \<Rightarrow>
                and_then (deref_pair j) (\<lambda>peer_b.
                and_then (require (bb_peer peer_b = Some i)) (\<lambda>_.
                and_then (update j (\<lambda>q. q\<lparr>bio_init := False\<rparr>)) (\<lambda>_.
                and_then (require (bb_buf peer_b \<noteq> None)) (\<lambda>_.
                and_then (set_pair j (peer_b\<lparr>bb_peer := None, bb_len := 0, bb_offset := 0\<rparr>)) (\<lambda>_.
                and_then (update i (\<lambda>q. q\<lparr>bio_init := False\<rparr>)) (\<lambda>_.
                and_then (require (bb_buf b \<noteq> None)) (\<lambda>_.
                  set_pair i (b\<lparr>bb_peer := None, bb_len := 0, bb_offset := 0\<rparr>))))))))))"

text \<open>After \<^verbatim>\<open>OPENSSL_free(b)\<close> the pointer in the BIO dangles; any use of it has no meaning.\<close>

definition bio_free :: "nat \<Rightarrow> int io" where
  "bio_free i =
     and_then (deref_pair i) (\<lambda>b.
     and_then (if bb_peer b \<noteq> None then bio_destroy_pair i else ret ()) (\<lambda>_.
     and_then (deref_pair i) (\<lambda>b.
     and_then (free_block (bb_buf b)) (\<lambda>_.
     and_then (free_block (Some (replicate 56 0))) (\<lambda>_.
     and_then (update i (\<lambda>q. q\<lparr>bio_ptr := Ptr_null\<rparr>)) (\<lambda>_. ret 1))))))"

text \<open>
  The copying loop of \<^verbatim>\<open>bio_read\<close>: \<open>None\<close> if one of its assertions fails, if a copy would leave the
  buffer, or if it runs forever.
\<close>

partial_function (option) read_loop :: "nat \<Rightarrow> bio_bio_st \<Rightarrow> (u8 list \<times> bio_bio_st) option" where
  "read_loop rest b =
     (let chunk = (if size_add (bb_offset b) rest \<le> bb_size b then rest else bb_size b - bb_offset b);
          data = take chunk (drop (bb_offset b) (the (bb_buf b)));
          b1 = b\<lparr>bb_len := bb_len b - chunk\<rparr>;
          offset = bb_offset b + chunk;
          b2 = (if bb_len b1 \<noteq> 0 then b1\<lparr>bb_offset := (if offset = bb_size b then 0 else offset)\<rparr>
                else b1\<lparr>bb_offset := 0\<rparr>)
      in if \<not> rest \<le> bb_len b \<or> \<not> size_add (bb_offset b) chunk \<le> bb_size b \<or>
            \<not> size_add (bb_offset b) chunk \<le> length (the (bb_buf b)) \<or>
            (bb_len b1 \<noteq> 0 \<and> \<not> offset \<le> bb_size b) \<or> (bb_len b1 = 0 \<and> chunk \<noteq> rest)
         then None
         else if rest - chunk = 0 then Some (data, b2)
         else Option.bind (read_loop (rest - chunk) b2) (\<lambda>r. Some (data @ fst r, snd r)))"

declare read_loop.simps [code]

definition bio_read :: "nat \<Rightarrow> bool \<Rightarrow> int \<Rightarrow> (int \<times> u8 list) io" where
  "bio_read i has_buf outl =
     and_then (update i BIO_clear_retry_flags) (\<lambda>_.
     and_then (deref i) (\<lambda>bio.
       if \<not> bio_init bio then ret (0, [])
       else
         and_then (deref_pair i) (\<lambda>b.
         case bb_peer b of
           None \<Rightarrow> fail
         | Some j \<Rightarrow>
             and_then (deref_pair j) (\<lambda>q.
             and_then (require (bb_buf q \<noteq> None)) (\<lambda>_.
             let size = size_of_int outl;
                 peer_b = q\<lparr>bb_request := 0\<rparr>
             in and_then (set_pair j peer_b) (\<lambda>_.
                if \<not> has_buf \<or> size = 0 then ret (0, [])
                else if bb_len peer_b = 0 then
                  if bb_closed peer_b then ret (0, [])
                  else
                    and_then (update i BIO_set_retry_read) (\<lambda>_.
                    and_then (set_pair j (peer_b\<lparr>bb_request :=
                        (if size \<le> bb_size peer_b then size else bb_size peer_b)\<rparr>)) (\<lambda>_.
                      ret (-1, [])))
                else
                  let size = (if bb_len peer_b < size then bb_len peer_b else size)
                  in case read_loop size peer_b of
                       None \<Rightarrow> fail
                     | Some (data, peer_b) \<Rightarrow>
                         and_then (set_pair j peer_b) (\<lambda>_. ret (int_of_size size, data))))))))"

text \<open>The copying loop of \<^verbatim>\<open>bio_write\<close>.\<close>

partial_function (option) write_loop :: "nat \<Rightarrow> u8 list \<Rightarrow> bio_bio_st \<Rightarrow> bio_bio_st option" where
  "write_loop rest inp b =
     (let write_offset = size_add (bb_offset b) (bb_len b);
          write_offset = (if write_offset \<ge> bb_size b then write_offset - bb_size b else write_offset);
          chunk = (if size_add write_offset rest \<le> bb_size b then rest else bb_size b - write_offset);
          b1 = b\<lparr>bb_buf := map_option (\<lambda>d. put_bytes d write_offset (take chunk inp)) (bb_buf b),
                 bb_len := bb_len b + chunk\<rparr>
      in if \<not> size_add (bb_len b) rest \<le> bb_size b \<or>
            \<not> size_add write_offset chunk \<le> length (the (bb_buf b)) \<or> \<not> chunk \<le> length inp \<or>
            \<not> bb_len b1 \<le> bb_size b
         then None
         else if rest - chunk = 0 then Some b1
         else write_loop (rest - chunk) (drop chunk inp) b1)"

declare write_loop.simps [code]

definition bio_write :: "nat \<Rightarrow> u8 list option \<Rightarrow> int \<Rightarrow> int io" where
  "bio_write i buf inl =
     and_then (update i BIO_clear_retry_flags) (\<lambda>_.
     and_then (deref i) (\<lambda>bio.
       let num = size_of_int inl
       in if \<not> bio_init bio \<or> buf = None \<or> num = 0 then ret 0
       else
         and_then (deref_pair i) (\<lambda>q.
         and_then (require (bb_peer q \<noteq> None \<and> bb_buf q \<noteq> None)) (\<lambda>_.
         let b = q\<lparr>bb_request := 0\<rparr>
         in and_then (set_pair i b) (\<lambda>_.
            if bb_closed b then and_then (put_error BIO_R_BROKEN_PIPE) (\<lambda>_. ret (-1))
            else
              and_then (require (bb_len b \<le> bb_size b)) (\<lambda>_.
              if bb_len b = bb_size b then and_then (update i BIO_set_retry_write) (\<lambda>_. ret (-1))
              else
                let num = (if num > bb_size b - bb_len b then bb_size b - bb_len b else num)
                in case write_loop num (the buf) b of
                     None \<Rightarrow> fail
                   | Some b \<Rightarrow> and_then (set_pair i b) (\<lambda>_. ret (int_of_size num))))))))"

text \<open>The buffer of one end, allocated by \<^verbatim>\<open>bio_make_pair\<close> unless there is one.\<close>

definition pair_buffer :: "nat \<Rightarrow> nat \<Rightarrow> bool io" where
  "pair_buffer i writebuf_len =
     and_then (deref_pair i) (\<lambda>b.
       if bb_buf b \<noteq> None then ret True
       else
         let b = (if writebuf_len \<noteq> 0 then b\<lparr>bb_size := writebuf_len\<rparr> else b)
         in and_then (set_pair i b) (\<lambda>_.
            and_then (with_mem (OPENSSL_malloc (bb_size b))) (\<lambda>r.
              case r of
                None \<Rightarrow> and_then (put_error ERR_R_MALLOC_FAILURE) (\<lambda>_. ret False)
              | Some block \<Rightarrow>
                  and_then (set_pair i (b\<lparr>bb_buf := Some block, bb_len := 0, bb_offset := 0\<rparr>))
                    (\<lambda>_. ret True))))"

definition bio_make_pair :: "nat \<Rightarrow> nat \<Rightarrow> nat \<Rightarrow> nat \<Rightarrow> int io" where
  "bio_make_pair bio1 bio2 writebuf1_len writebuf2_len =
     and_then (deref_pair bio1) (\<lambda>b1.
     and_then (deref_pair bio2) (\<lambda>b2.
       if bb_peer b1 \<noteq> None \<or> bb_peer b2 \<noteq> None
       then and_then (put_error BIO_R_IN_USE) (\<lambda>_. ret 0)
       else
         and_then (pair_buffer bio1 writebuf1_len) (\<lambda>ok. if \<not> ok then ret 0 else
         and_then (pair_buffer bio2 writebuf2_len) (\<lambda>ok. if \<not> ok then ret 0 else
         and_then (deref_pair bio1) (\<lambda>b1.
         and_then (set_pair bio1 (b1\<lparr>bb_peer := Some bio2, bb_closed := False, bb_request := 0\<rparr>)) (\<lambda>_.
         and_then (deref_pair bio2) (\<lambda>b2.
         and_then (set_pair bio2 (b2\<lparr>bb_peer := Some bio1, bb_closed := False, bb_request := 0\<rparr>)) (\<lambda>_.
         and_then (update bio1 (\<lambda>b. b\<lparr>bio_init := True\<rparr>)) (\<lambda>_.
         and_then (update bio2 (\<lambda>b. b\<lparr>bio_init := True\<rparr>)) (\<lambda>_. ret 1))))))))))"

text \<open>The commands of \<^verbatim>\<open>BIO_ctrl\<close> that the two methods handle, and any other number.
  \<^verbatim>\<open>BIO_C_SET_BUF_MEM\<close> comes with the buffer that its pointer argument points to.\<close>

datatype bio_cmd = BIO_CTRL_RESET | BIO_CTRL_EOF | BIO_CTRL_INFO | BIO_CTRL_GET_CLOSE | BIO_CTRL_SET_CLOSE
  | BIO_CTRL_PENDING | BIO_CTRL_FLUSH | BIO_CTRL_WPENDING | BIO_C_SET_BUF_MEM_EOF_RETURN
  | BIO_C_GET_WRITE_BUF_SIZE | BIO_C_GET_WRITE_GUARANTEE | BIO_C_GET_READ_REQUEST
  | BIO_C_SHUTDOWN_WR | BIO_C_RESET_READ_REQUEST
  | BIO_C_SET_BUF_MEM "BUF_MEM option" | BIO_C_GET_BUF_MEM_PTR | Other_cmd int

definition size_sub :: "nat \<Rightarrow> nat \<Rightarrow> nat" where
  "size_sub a b = nat ((int a - int b) mod 2 ^ 64)"

lemma size_sub_le [simp]: "b \<le> a \<Longrightarrow> a \<le> SIZE_MAX \<Longrightarrow> size_sub a b = a - b"
  by (simp add: size_sub_def SIZE_MAX_def nat_mod_distrib nat_diff_distrib flip: of_nat_diff)

definition bio_ctrl :: "nat \<Rightarrow> bio_cmd \<Rightarrow> int \<Rightarrow> nat option \<Rightarrow> int io" where
  "bio_ctrl i cmd larg parg =
     and_then (deref i) (\<lambda>bio.
     and_then (deref_pair i) (\<lambda>b.
       case cmd of
         BIO_C_GET_WRITE_BUF_SIZE \<Rightarrow> ret (long_of_size (bb_size b))
       | BIO_C_GET_WRITE_GUARANTEE \<Rightarrow>
           ret (if bb_peer b = None \<or> bb_closed b then 0 else long_of_size (size_sub (bb_size b) (bb_len b)))
       | BIO_C_GET_READ_REQUEST \<Rightarrow> ret (long_of_size (bb_request b))
       | BIO_C_RESET_READ_REQUEST \<Rightarrow> and_then (set_pair i (b\<lparr>bb_request := 0\<rparr>)) (\<lambda>_. ret 1)
       | BIO_C_SHUTDOWN_WR \<Rightarrow> and_then (set_pair i (b\<lparr>bb_closed := True\<rparr>)) (\<lambda>_. ret 1)
       | BIO_CTRL_GET_CLOSE \<Rightarrow> ret (bio_shutdown bio)
       | BIO_CTRL_SET_CLOSE \<Rightarrow> and_then (update i (\<lambda>b. b\<lparr>bio_shutdown := int_of_long larg\<rparr>)) (\<lambda>_. ret 1)
       | BIO_CTRL_PENDING \<Rightarrow>
           (case bb_peer b of
              None \<Rightarrow> ret 0
            | Some j \<Rightarrow> and_then (deref_pair j) (\<lambda>peer_b. ret (long_of_size (bb_len peer_b))))
       | BIO_CTRL_WPENDING \<Rightarrow> ret (if bb_buf b = None then 0 else long_of_size (bb_len b))
       | BIO_CTRL_FLUSH \<Rightarrow> ret 1
       | BIO_CTRL_EOF \<Rightarrow>
           (case parg of
              None \<Rightarrow> ret 1
            | Some j \<Rightarrow>
                and_then (deref_pair j) (\<lambda>other_b. ret (if bb_len other_b = 0 \<and> bb_closed other_b then 1 else 0)))
       | _ \<Rightarrow> ret 0))"

end
