(* ===== verification/Bio_Layer.thy ===== *)
theory Bio_Layer
  imports Bio
begin

unbundle bit_operations_syntax

text \<open>
  The memory BIO of \<^verbatim>\<open>crypto/bio/bio_mem.c\<close> and the generic layer of \<^verbatim>\<open>crypto/bio/bio.c\<close> on top of it and
  of the BIO pair: creation, reference counts and chains, the dispatch of reads, writes and controls,
  and the readers of whole structures.  A \<^verbatim>\<open>BIO *\<close> that may be \<^verbatim>\<open>NULL\<close> is an option.
\<close>

section \<open>The memory BIO\<close>

text \<open>Runs a \<^verbatim>\<open>BUF_MEM\<close> operation on the buffer of a memory BIO.\<close>

definition with_buf :: "nat \<Rightarrow> ('a, BUF_MEM \<times> mem) step \<Rightarrow> 'a option io" where
  "with_buf i p =
     and_then (deref_mem i) (\<lambda>(b, off) w.
       case p (b, w_mem w) of (r, b', m) \<Rightarrow>
         and_then (set_mem i b' off) (\<lambda>_. ret r) (w\<lparr>w_mem := m\<rparr>))"

definition mem_new :: "nat \<Rightarrow> int io" where
  "mem_new i =
     and_then (with_mem BUF_MEM_new) (\<lambda>r.
       case r of
         None \<Rightarrow> ret 0
       | Some b \<Rightarrow>
           and_then (update i (\<lambda>bio. bio\<lparr>bio_shutdown := 1, bio_init := True, bio_num := -1,
                                       bio_ptr := Ptr_mem b 0\<rparr>)) (\<lambda>_. ret 1))"

definition mem_free :: "nat \<Rightarrow> int io" where
  "mem_free i =
     and_then (deref i) (\<lambda>bio.
       if bio_shutdown bio = 0 \<or> \<not> bio_init bio \<or> bio_ptr bio = Ptr_null then ret 1
       else
         and_then (deref_mem i) (\<lambda>(b, off).
         let b = (if bio_flags bio AND BIO_FLAGS_MEM_RDONLY \<noteq> 0 then b\<lparr>bm_data := None\<rparr> else b)
         in and_then (free_block (bm_data b)) (\<lambda>_.
            and_then (free_block (Some (replicate 24 0))) (\<lambda>_.
            and_then (update i (\<lambda>bio. bio\<lparr>bio_ptr := Ptr_null\<rparr>)) (\<lambda>_. ret 1)))))"

definition mem_read :: "nat \<Rightarrow> int \<Rightarrow> (int \<times> u8 list) io" where
  "mem_read i outl =
     and_then (deref_mem i) (\<lambda>(b, off).
     and_then (update i BIO_clear_retry_flags) (\<lambda>_.
     and_then (deref i) (\<lambda>bio.
       let r = (if bm_length b < INT_MAX \<and> outl > int_of_size (bm_length b)
                then int_of_size (bm_length b) else outl)
       in if r > 0 then
            case bm_data b of
              None \<Rightarrow> fail
            | Some d \<Rightarrow>
                and_then (require (off + nat r \<le> length d \<and> nat r \<le> bm_length b)) (\<lambda>_.
                let out = take (nat r) (drop off d);
                    left = bm_length b - nat r
                in if bio_flags bio AND BIO_FLAGS_MEM_RDONLY \<noteq> 0
                   then and_then (set_mem i (b\<lparr>bm_length := left\<rparr>) (off + nat r)) (\<lambda>_. ret (r, out))
                   else and_then (set_mem i (b\<lparr>bm_length := left,
                                               bm_data := Some (put_bytes d 0 (take left (drop (nat r) d)))\<rparr>) off)
                          (\<lambda>_. ret (r, out)))
          else if bm_length b = 0 then
            and_then (if bio_num bio \<noteq> 0 then update i BIO_set_retry_read else ret ()) (\<lambda>_.
              ret (bio_num bio, []))
          else ret (r, []))))"

definition mem_write :: "nat \<Rightarrow> u8 list \<Rightarrow> int \<Rightarrow> int io" where
  "mem_write i inp inl =
     and_then (deref i) (\<lambda>bio.
     and_then (deref_mem i) (\<lambda>(b, off).
       if bio_flags bio AND BIO_FLAGS_MEM_RDONLY \<noteq> 0
       then and_then (put_error BIO_R_WRITE_TO_READ_ONLY_BIO) (\<lambda>_. ret (-1))
       else
         and_then (update i BIO_clear_retry_flags) (\<lambda>_.
         let blen = int_of_size (bm_length b)
         in and_then (require (blen \<ge> 0)) (\<lambda>_.
            if int INT_MAX - blen < inl then ret (-1)
            else
              and_then (with_buf i (BUF_MEM_grow_clean (size_of_int (blen + inl)))) (\<lambda>r.
              if (case r of None \<Rightarrow> 0 | Some n \<Rightarrow> n) \<noteq> size_add (size_of_int blen) (size_of_int inl)
              then ret (-1)
              else
                and_then (deref_mem i) (\<lambda>(b, off).
                case bm_data b of
                  None \<Rightarrow> fail
                | Some d \<Rightarrow>
                    and_then (require (nat blen + nat inl \<le> length d \<and> nat inl \<le> length inp)) (\<lambda>_.
                    and_then (set_mem i (b\<lparr>bm_data := Some (put_bytes d (nat blen) (take (nat inl) inp))\<rparr>) off)
                      (\<lambda>_. ret inl))))))))"

text \<open>The bytes up to and including the first newline.\<close>

fun line_length :: "u8 list \<Rightarrow> nat" where
  "line_length [] = 0"
| "line_length (c # cs) = (if c = 10 then 1 else Suc (line_length cs))"

definition mem_gets :: "nat \<Rightarrow> int \<Rightarrow> (int \<times> u8 list) io" where
  "mem_gets i outl =
     and_then (deref_mem i) (\<lambda>(b, off).
     and_then (update i BIO_clear_retry_flags) (\<lambda>_.
       let j = int_of_size (bm_length b);
           j = (if outl - 1 < j then outl - 1 else j)
       in if j \<le> 0 then ret (0, if outl > 0 then [0] else [])
          else
            case bm_data b of
              None \<Rightarrow> fail
            | Some d \<Rightarrow>
                and_then (require (off + nat j \<le> length d)) (\<lambda>_.
                and_then (mem_read i (int (line_length (take (nat j) (drop off d))))) (\<lambda>(r, out).
                  ret (r, if r > 0 then out @ [0] else out)))))"

text \<open>Only the commands that look into the \<^verbatim>\<open>BUF_MEM\<close> need one.  The pointers that \<^verbatim>\<open>BIO_CTRL_INFO\<close> and
  \<^verbatim>\<open>BIO_C_GET_BUF_MEM_PTR\<close> store for the caller are those to the buffer in the store of objects.\<close>

definition mem_ctrl :: "nat \<Rightarrow> bio_cmd \<Rightarrow> int \<Rightarrow> int io" where
  "mem_ctrl i cmd larg =
     and_then (deref i) (\<lambda>bio.
       case cmd of
         BIO_CTRL_RESET \<Rightarrow>
           and_then (deref_mem i) (\<lambda>(b, off).
             case bm_data b of
               None \<Rightarrow> ret 1
             | Some d \<Rightarrow>
                 if bio_flags bio AND BIO_FLAGS_MEM_RDONLY \<noteq> 0 then
                   and_then (require (bm_length b \<le> bm_max b \<and> bm_max b - bm_length b \<le> off)) (\<lambda>_.
                   and_then (set_mem i (b\<lparr>bm_length := bm_max b\<rparr>) (off - (bm_max b - bm_length b))) (\<lambda>_. ret 1))
                 else
                   and_then (set_mem i (b\<lparr>bm_data := Some (put_bytes d 0 (replicate (bm_max b) 0)),
                                          bm_length := 0\<rparr>) off) (\<lambda>_. ret 1))
       | BIO_CTRL_EOF \<Rightarrow> and_then (deref_mem i) (\<lambda>(b, off). ret (if bm_length b = 0 then 1 else 0))
       | BIO_C_SET_BUF_MEM_EOF_RETURN \<Rightarrow>
           and_then (update i (\<lambda>bio. bio\<lparr>bio_num := int_of_long larg\<rparr>)) (\<lambda>_. ret 1)
       | BIO_CTRL_INFO \<Rightarrow> and_then (deref_mem i) (\<lambda>(b, off). ret (long_of_size (bm_length b)))
       | BIO_C_SET_BUF_MEM p \<Rightarrow>
           and_then (mem_free i) (\<lambda>_.
           and_then (update i (\<lambda>bio. bio\<lparr>bio_shutdown := int_of_long larg,
               bio_ptr := (case p of None \<Rightarrow> Ptr_null | Some b \<Rightarrow> Ptr_mem b 0)\<rparr>)) (\<lambda>_. ret 1))
       | BIO_C_GET_BUF_MEM_PTR \<Rightarrow> ret 1
       | BIO_CTRL_GET_CLOSE \<Rightarrow> ret (bio_shutdown bio)
       | BIO_CTRL_SET_CLOSE \<Rightarrow>
           and_then (update i (\<lambda>bio. bio\<lparr>bio_shutdown := int_of_long larg\<rparr>)) (\<lambda>_. ret 1)
       | BIO_CTRL_WPENDING \<Rightarrow> ret 0
       | BIO_CTRL_PENDING \<Rightarrow> and_then (deref_mem i) (\<lambda>(b, off). ret (long_of_size (bm_length b)))
       | BIO_CTRL_FLUSH \<Rightarrow> ret 1
       | _ \<Rightarrow> ret 0)"

definition BIO_mem_contents :: "nat \<Rightarrow> u8 list option io" where
  "BIO_mem_contents i =
     and_then (deref i) (\<lambda>bio.
       if bio_method bio \<noteq> mem_method then ret None
       else
         and_then (deref_mem i) (\<lambda>(b, off).
           ret (Some (case bm_data b of None \<Rightarrow> [] | Some d \<Rightarrow> take (bm_length b) (drop off d)))))"

section \<open>Creation, reference counts and chains\<close>

definition CRYPTO_REFCOUNT_MAX :: nat where
  "CRYPTO_REFCOUNT_MAX = 0xffffffff"

definition CRYPTO_refcount_inc :: "nat \<Rightarrow> nat" where
  "CRYPTO_refcount_inc n = (if n < CRYPTO_REFCOUNT_MAX then n + 1 else n)"

text \<open>\<open>None\<close> stands for \<^verbatim>\<open>abort()\<close>.\<close>

definition CRYPTO_refcount_dec_and_test_zero :: "nat \<Rightarrow> (bool \<times> nat) option" where
  "CRYPTO_refcount_dec_and_test_zero n =
     (if n = 0 then None
      else let n' = (if n < CRYPTO_REFCOUNT_MAX then n - 1 else n) in Some (n' = 0, n'))"

definition method_create :: "BIO_METHOD \<Rightarrow> nat \<Rightarrow> int io" where
  "method_create m = (case m of methods_biop \<Rightarrow> bio_new | mem_method \<Rightarrow> mem_new)"

definition method_destroy :: "BIO_METHOD \<Rightarrow> nat \<Rightarrow> int io" where
  "method_destroy m = (case m of methods_biop \<Rightarrow> bio_free | mem_method \<Rightarrow> mem_free)"

definition BIO_new :: "BIO_METHOD \<Rightarrow> nat option io" where
  "BIO_new m =
     and_then (with_mem (OPENSSL_malloc 64)) (\<lambda>r.
       case r of
         None \<Rightarrow> and_then (put_error ERR_R_MALLOC_FAILURE) (\<lambda>_. ret None)
       | Some _ \<Rightarrow> (\<lambda>w.
           let i = length (bios w);
               bio = \<lparr>bio_method = m, bio_init = False, bio_shutdown = 1, bio_flags = 0,
                      bio_retry_reason = 0, bio_num = 0, bio_references = 1, bio_ptr = Ptr_null,
                      next_bio = None, num_read = 0, num_write = 0\<rparr>
           in and_then (method_create m i) (\<lambda>ok.
              if ok = 0 then
                and_then (free_block (Some (replicate 64 0))) (\<lambda>_. and_then (store i None) (\<lambda>_. ret None))
              else ret (Some i)) (w\<lparr>bios := bios w @ [Some bio]\<rparr>)))"

definition BIO_up_ref :: "nat \<Rightarrow> int io" where
  "BIO_up_ref i =
     and_then (update i (\<lambda>b. b\<lparr>bio_references := CRYPTO_refcount_inc (bio_references b)\<rparr>)) (\<lambda>_. ret 1)"

definition BIO_pop :: "nat option \<Rightarrow> nat option io" where
  "BIO_pop bio =
     (case bio of
        None \<Rightarrow> ret None
      | Some i \<Rightarrow>
          and_then (deref i) (\<lambda>b.
          and_then (update i (\<lambda>b. b\<lparr>next_bio := None\<rparr>)) (\<lambda>_. ret (next_bio b))))"

definition BIO_next :: "nat option \<Rightarrow> nat option io" where
  "BIO_next bio =
     (case bio of None \<Rightarrow> ret None | Some i \<Rightarrow> and_then (deref i) (\<lambda>b. ret (next_bio b)))"

text \<open>The walk to the end of a chain; \<open>None\<close> on a chain that has none.\<close>

partial_function (option) last_bio :: "bio_st option list \<Rightarrow> nat \<Rightarrow> nat option" where
  "last_bio heap i =
     (if \<not> i < length heap \<or> heap ! i = None then None
      else case next_bio (the (heap ! i)) of None \<Rightarrow> Some i | Some j \<Rightarrow> last_bio heap j)"

declare last_bio.simps [code]

definition BIO_push :: "nat option \<Rightarrow> nat option \<Rightarrow> nat option io" where
  "BIO_push bio appended_bio =
     (case bio of
        None \<Rightarrow> ret None
      | Some i \<Rightarrow> (\<lambda>w.
          case last_bio (bios w) i of
            None \<Rightarrow> (None, w)
          | Some l \<Rightarrow> and_then (update l (\<lambda>b. b\<lparr>next_bio := appended_bio\<rparr>)) (\<lambda>_. ret (Some i)) w))"

text \<open>One turn of the loop of \<^verbatim>\<open>BIO_free\<close>: \<open>Inl\<close> the next object, \<open>Inr\<close> the result.\<close>

definition free_one :: "nat \<Rightarrow> (nat option + int) io" where
  "free_one i =
     and_then (deref i) (\<lambda>bio.
       case CRYPTO_refcount_dec_and_test_zero (bio_references bio) of
         None \<Rightarrow> fail
       | Some (zero, n) \<Rightarrow>
           and_then (update i (\<lambda>b. b\<lparr>bio_references := n\<rparr>)) (\<lambda>_.
           if \<not> zero then ret (Inr 0)
           else
             and_then (BIO_pop (Some i)) (\<lambda>nb.
             and_then (method_destroy (bio_method bio) i) (\<lambda>_.
             and_then (free_block (Some (replicate 64 0))) (\<lambda>_.
             and_then (store i None) (\<lambda>_. ret (Inl nb)))))))"

text \<open>
  No operation of a method brings an object into being or frees one: which indices are live changes
  only in \<^verbatim>\<open>BIO_new\<close> and \<^verbatim>\<open>BIO_free\<close>.  Each turn of the loop of \<^verbatim>\<open>BIO_free\<close> frees one object, so the loop
  ends, whatever the chain looks like.
\<close>

definition live :: "bio_world \<Rightarrow> bool list" where
  "live w = map (\<lambda>b. b \<noteq> None) (bios w)"

definition keeps_live :: "'a io \<Rightarrow> bool" where
  "keeps_live p \<longleftrightarrow> (\<forall>w. live (snd (p w)) = live w)"

named_theorems live_intros

lemma keeps_liveD: "keeps_live p \<Longrightarrow> p w = (r, w') \<Longrightarrow> live w' = live w"
  unfolding keeps_live_def by (metis snd_conv)

lemma live_ret [live_intros]: "keeps_live (ret x)"
  by (simp add: keeps_live_def)

lemma live_fail [live_intros]: "keeps_live fail"
  by (simp add: keeps_live_def fail_def)

lemma live_require [live_intros]: "keeps_live (require c)"
  by (simp add: keeps_live_def require_def fail_def)

lemma live_and_then [live_intros]: "keeps_live p \<Longrightarrow> (\<And>x. keeps_live (f x)) \<Longrightarrow> keeps_live (and_then p f)"
  by (auto simp: keeps_live_def and_then_def split: prod.splits option.splits) (metis snd_conv)+

lemma live_deref [live_intros]: "keeps_live (deref i)"
  by (simp add: keeps_live_def deref_def)

lemma live_free_block [live_intros]: "keeps_live (free_block p)"
  by (simp add: keeps_live_def free_block_def live_def)

lemma live_put_error [live_intros]: "keeps_live (put_error e)"
  by (simp add: keeps_live_def put_error_def live_def)

lemma live_update [live_intros]: "keeps_live (update i f)"
  by (auto simp: keeps_live_def update_def and_then_def deref_def store_def live_def map_update
      list_update_same_conv split: option.splits)

lemma live_deref_pair [live_intros]: "keeps_live (deref_pair i)"
  unfolding deref_pair_def by (auto intro!: live_intros split: bio_data.split)

lemma live_deref_mem [live_intros]: "keeps_live (deref_mem i)"
  unfolding deref_mem_def by (auto intro!: live_intros split: bio_data.split)

lemma live_set_pair [live_intros]: "keeps_live (set_pair i p)"
  unfolding set_pair_def by (rule live_update)

lemma live_BIO_pop [live_intros]: "keeps_live (BIO_pop b)"
  unfolding BIO_pop_def by (auto intro!: live_intros split: option.split)

lemma live_bio_destroy_pair [live_intros]: "keeps_live (bio_destroy_pair i)"
  unfolding bio_destroy_pair_def
  by (rule live_and_then, rule live_deref, split bio_data.split)
    (auto intro!: live_intros split: option.split)

lemma live_bio_free [live_intros]: "keeps_live (bio_free i)"
  unfolding bio_free_def by (auto intro!: live_intros)

lemma live_mem_free [live_intros]: "keeps_live (mem_free i)"
  unfolding mem_free_def Let_def by (auto intro!: live_intros)

lemma live_method_destroy [live_intros]: "keeps_live (method_destroy m i)"
  unfolding method_destroy_def by (cases m) (simp_all add: live_intros)

definition n_live :: "bio_world \<Rightarrow> nat" where
  "n_live w = length (filter id (live w))"

lemma n_live_free:
  "i < length xs \<Longrightarrow> xs ! i \<Longrightarrow> length (filter id (xs[i := False])) < length (filter id xs)"
  by (induction xs arbitrary: i) (auto simp: nth_Cons split: nat.splits)

lemma free_one_next:
  assumes "free_one i w = (Some (Inl nb), w')"
  shows "n_live w' < n_live w"
proof -
  obtain bio n w1 w2 w3 where d: "deref i w = (Some bio, w)"
    and 1: "update i (\<lambda>b. b\<lparr>bio_references := n\<rparr>) w = (Some (), w1)"
    and 2: "BIO_pop (Some i) w1 = (Some nb, w2)"
    and 3: "\<exists>x. method_destroy (bio_method bio) i w2 = (Some x, w3)"
    and 4: "w' = snd (store i None (snd (free_block (Some (replicate 64 0)) w3)))"
    using assms by (auto simp: free_one_def deref_def free_block_def store_def
        split: option.splits if_splits prod.splits)
  have "live w3 = live w"
    using 1 2 3 live_update live_BIO_pop live_method_destroy by (metis keeps_liveD)
  then have "live w' = (live w)[i := False]"
    by (simp add: 4 live_def store_def free_block_def map_update)
  moreover have "i < length (live w)" "live w ! i" using d by (auto simp: deref_def live_def split: if_splits)
  ultimately show ?thesis by (simp add: n_live_def n_live_free)
qed

function BIO_free :: "nat option \<Rightarrow> int io" where
  "BIO_free None w = (Some 1, w)"
| "BIO_free (Some i) w =
     (case free_one i w of
        (None, w1) \<Rightarrow> (None, w1)
      | (Some (Inr r), w1) \<Rightarrow> (Some r, w1)
      | (Some (Inl nb), w1) \<Rightarrow> BIO_free nb w1)"
  by pat_completeness auto
termination
  by (relation "measure (\<lambda>(b, w). n_live w)") (auto dest!: free_one_next [OF sym])

declare BIO_free.simps(2) [simp del]

definition BIO_free_all :: "nat option \<Rightarrow> unit io" where
  "BIO_free_all bio = and_then (BIO_free bio) (\<lambda>_. ret ())"

definition BIO_vfree :: "nat option \<Rightarrow> unit io" where
  "BIO_vfree bio = and_then (BIO_free bio) (\<lambda>_. ret ())"

section \<open>Reading, writing and controls\<close>

definition method_read :: "BIO_METHOD \<Rightarrow> nat \<Rightarrow> bool \<Rightarrow> int \<Rightarrow> (int \<times> u8 list) io" where
  "method_read m i has_buf len =
     (case m of methods_biop \<Rightarrow> bio_read i has_buf len
      | mem_method \<Rightarrow> and_then (require has_buf) (\<lambda>_. mem_read i len))"

definition method_write :: "BIO_METHOD \<Rightarrow> nat \<Rightarrow> u8 list option \<Rightarrow> int \<Rightarrow> int io" where
  "method_write m i inp len =
     (case m of methods_biop \<Rightarrow> bio_write i inp len
      | mem_method \<Rightarrow> (case inp of None \<Rightarrow> fail | Some bs \<Rightarrow> mem_write i bs len))"

definition method_ctrl :: "BIO_METHOD \<Rightarrow> nat \<Rightarrow> bio_cmd \<Rightarrow> int \<Rightarrow> nat option \<Rightarrow> int io" where
  "method_ctrl m i cmd larg parg =
     (case m of methods_biop \<Rightarrow> bio_ctrl i cmd larg parg | mem_method \<Rightarrow> mem_ctrl i cmd larg)"

definition BIO_read :: "nat option \<Rightarrow> bool \<Rightarrow> int \<Rightarrow> (int \<times> u8 list) io" where
  "BIO_read bio has_buf len =
     (case bio of
        None \<Rightarrow> and_then (put_error BIO_R_UNSUPPORTED_METHOD) (\<lambda>_. ret (-2, []))
      | Some i \<Rightarrow>
          and_then (deref i) (\<lambda>b.
          if \<not> bio_init b then and_then (put_error BIO_R_UNINITIALIZED) (\<lambda>_. ret (-2, []))
          else if len \<le> 0 then ret (0, [])
          else
            and_then (method_read (bio_method b) i has_buf len) (\<lambda>(r, out).
            and_then (if r > 0 then update i (\<lambda>b. b\<lparr>num_read := size_add (num_read b) (nat r)\<rparr>) else ret ())
              (\<lambda>_. ret (r, out)))))"

text \<open>A BIO pair has no \<^verbatim>\<open>bgets\<close>.\<close>

definition BIO_gets :: "nat option \<Rightarrow> int \<Rightarrow> (int \<times> u8 list) io" where
  "BIO_gets bio len =
     (case bio of
        None \<Rightarrow> and_then (put_error BIO_R_UNSUPPORTED_METHOD) (\<lambda>_. ret (-2, []))
      | Some i \<Rightarrow>
          and_then (deref i) (\<lambda>b.
          if bio_method b = methods_biop
          then and_then (put_error BIO_R_UNSUPPORTED_METHOD) (\<lambda>_. ret (-2, []))
          else if \<not> bio_init b then and_then (put_error BIO_R_UNINITIALIZED) (\<lambda>_. ret (-2, []))
          else if len \<le> 0 then ret (0, [])
          else
            and_then (mem_gets i len) (\<lambda>(r, out).
            and_then (if r > 0 then update i (\<lambda>b. b\<lparr>num_read := size_add (num_read b) (nat r)\<rparr>) else ret ())
              (\<lambda>_. ret (r, out)))))"

definition BIO_write :: "nat option \<Rightarrow> u8 list option \<Rightarrow> int \<Rightarrow> int io" where
  "BIO_write bio inp inl =
     (case bio of
        None \<Rightarrow> and_then (put_error BIO_R_UNSUPPORTED_METHOD) (\<lambda>_. ret (-2))
      | Some i \<Rightarrow>
          and_then (deref i) (\<lambda>b.
          if \<not> bio_init b then and_then (put_error BIO_R_UNINITIALIZED) (\<lambda>_. ret (-2))
          else if inl \<le> 0 then ret 0
          else
            and_then (method_write (bio_method b) i inp inl) (\<lambda>r.
            and_then (if r > 0 then update i (\<lambda>b. b\<lparr>num_write := size_add (num_write b) (nat r)\<rparr>) else ret ())
              (\<lambda>_. ret r))))"

definition BIO_puts :: "nat option \<Rightarrow> u8 list \<Rightarrow> int io" where
  "BIO_puts bio inp = BIO_write bio (Some inp) (int_of_size (strlen inp))"

definition BIO_ctrl :: "nat option \<Rightarrow> bio_cmd \<Rightarrow> int \<Rightarrow> nat option \<Rightarrow> int io" where
  "BIO_ctrl bio cmd larg parg =
     (case bio of
        None \<Rightarrow> ret 0
      | Some i \<Rightarrow> and_then (deref i) (\<lambda>b. method_ctrl (bio_method b) i cmd larg parg))"

definition BIO_flush :: "nat option \<Rightarrow> int io" where
  "BIO_flush bio = BIO_ctrl bio BIO_CTRL_FLUSH 0 None"

definition BIO_reset :: "nat option \<Rightarrow> int io" where
  "BIO_reset bio = BIO_ctrl bio BIO_CTRL_RESET 0 None"

definition BIO_eof :: "nat option \<Rightarrow> int io" where
  "BIO_eof bio = BIO_ctrl bio BIO_CTRL_EOF 0 None"

definition BIO_pending :: "nat option \<Rightarrow> nat io" where
  "BIO_pending bio =
     and_then (BIO_ctrl bio BIO_CTRL_PENDING 0 None) (\<lambda>r.
     and_then (require (r \<ge> 0)) (\<lambda>_. ret (if r < 0 then 0 else nat r)))"

definition BIO_ctrl_pending :: "nat option \<Rightarrow> nat io" where
  "BIO_ctrl_pending bio = BIO_pending bio"

definition BIO_wpending :: "nat option \<Rightarrow> nat io" where
  "BIO_wpending bio =
     and_then (BIO_ctrl bio BIO_CTRL_WPENDING 0 None) (\<lambda>r.
     and_then (require (r \<ge> 0)) (\<lambda>_. ret (if r < 0 then 0 else nat r)))"

definition BIO_set_close :: "nat option \<Rightarrow> int \<Rightarrow> int io" where
  "BIO_set_close bio close_flag = BIO_ctrl bio BIO_CTRL_SET_CLOSE close_flag None"

definition BIO_number_read :: "nat \<Rightarrow> nat io" where
  "BIO_number_read i = and_then (deref i) (\<lambda>b. ret (num_read b))"

definition BIO_number_written :: "nat \<Rightarrow> nat io" where
  "BIO_number_written i = and_then (deref i) (\<lambda>b. ret (num_write b))"

text \<open>\<^verbatim>\<open>take_ownership\<close> is stored as the close flag; what was in the BIO is freed if it owned it.\<close>

definition BIO_set_mem_buf :: "nat option \<Rightarrow> BUF_MEM option \<Rightarrow> int \<Rightarrow> int io" where
  "BIO_set_mem_buf bio b take_ownership = BIO_ctrl bio (BIO_C_SET_BUF_MEM b) take_ownership None"

definition BIO_set_mem_eof_return :: "nat option \<Rightarrow> int \<Rightarrow> int io" where
  "BIO_set_mem_eof_return bio eof_value = BIO_ctrl bio BIO_C_SET_BUF_MEM_EOF_RETURN eof_value None"

definition BIO_ctrl_get_read_request :: "nat option \<Rightarrow> nat io" where
  "BIO_ctrl_get_read_request bio =
     and_then (BIO_ctrl bio BIO_C_GET_READ_REQUEST 0 None) (\<lambda>r. ret (size_of_int r))"

definition BIO_ctrl_get_write_guarantee :: "nat option \<Rightarrow> nat io" where
  "BIO_ctrl_get_write_guarantee bio =
     and_then (BIO_ctrl bio BIO_C_GET_WRITE_GUARANTEE 0 None) (\<lambda>r. ret (size_of_int r))"

definition BIO_shutdown_wr :: "nat option \<Rightarrow> int io" where
  "BIO_shutdown_wr bio = BIO_ctrl bio BIO_C_SHUTDOWN_WR 0 None"

definition BIO_new_mem_buf :: "u8 list option \<Rightarrow> int \<Rightarrow> nat option io" where
  "BIO_new_mem_buf buf len =
     and_then (require (len < 0 \<longrightarrow> buf \<noteq> None \<and> c_string (the buf))) (\<lambda>_.
     let sz = (if len < 0 then strlen (the buf) else size_of_int len)
     in if buf = None \<and> len \<noteq> 0 then and_then (put_error BIO_R_NULL_PARAMETER) (\<lambda>_. ret None)
        else
          and_then (BIO_new mem_method) (\<lambda>r.
            case r of
              None \<Rightarrow> ret None
            | Some i \<Rightarrow>
                and_then (deref_mem i) (\<lambda>(b, off).
                and_then (set_mem i (b\<lparr>bm_data := buf, bm_length := sz, bm_max := sz\<rparr>) off) (\<lambda>_.
                and_then (update i (\<lambda>bio. bio\<lparr>bio_flags := bio_flags bio OR BIO_FLAGS_MEM_RDONLY, bio_num := 0\<rparr>))
                  (\<lambda>_. ret (Some i))))))"

definition BIO_new_bio_pair :: "nat \<Rightarrow> nat \<Rightarrow> (int \<times> nat option \<times> nat option) io" where
  "BIO_new_bio_pair writebuf1_len writebuf2_len =
     and_then (BIO_new methods_biop) (\<lambda>bio1.
     and_then (BIO_new methods_biop) (\<lambda>bio2.
     and_then (if bio1 = None \<or> bio2 = None then ret 0
               else bio_make_pair (the bio1) (the bio2) writebuf1_len writebuf2_len) (\<lambda>ok.
       if ok = 0 then and_then (BIO_free bio1) (\<lambda>_. and_then (BIO_free bio2) (\<lambda>_. ret (0, None, None)))
       else ret (1, bio1, bio2))))"

definition BIO_TYPE_START :: int where
  "BIO_TYPE_START = 128"

text \<open>The counter and what \<^verbatim>\<open>BIO_get_new_index\<close> returns.\<close>

definition BIO_get_new_index :: "int \<Rightarrow> int \<times> int" where
  "BIO_get_new_index g_index = (if g_index > 255 then (-1, g_index) else (g_index, g_index + 1))"

definition method_type :: "BIO_METHOD \<Rightarrow> u32" where
  "method_type m = (case m of methods_biop \<Rightarrow> 19 OR 0x0400 | mem_method \<Rightarrow> 1 OR 0x0400)"

partial_function (option) find_type :: "bio_st option list \<Rightarrow> u32 \<Rightarrow> nat \<Rightarrow> nat option option" where
  "find_type heap t i =
     (if \<not> i < length heap \<or> heap ! i = None then None
      else if (if t AND 0xff = 0 then method_type (bio_method (the (heap ! i))) AND t \<noteq> 0
               else method_type (bio_method (the (heap ! i))) = t) then Some (Some i)
      else case next_bio (the (heap ! i)) of None \<Rightarrow> Some None | Some j \<Rightarrow> find_type heap t j)"

declare find_type.simps [code]

definition BIO_find_type :: "nat option \<Rightarrow> u32 \<Rightarrow> nat option io" where
  "BIO_find_type bio t w =
     (case bio of None \<Rightarrow> (Some None, w) | Some i \<Rightarrow> (find_type (bios w) t i, w))"

fun indent_loop :: "nat option \<Rightarrow> nat \<Rightarrow> int io" where
  "indent_loop bio 0 = ret 1"
| "indent_loop bio (Suc n) = and_then (BIO_puts bio [32, 0]) (\<lambda>r. if r \<noteq> 1 then ret 0 else indent_loop bio n)"

definition BIO_indent :: "nat option \<Rightarrow> nat \<Rightarrow> nat \<Rightarrow> int io" where
  "BIO_indent bio indent max_indent = indent_loop bio (if indent > max_indent then max_indent else indent)"

section \<open>Reading whole structures\<close>

definition kChunkSize :: nat where
  "kChunkSize = 4096"

text \<open>
  The loop of \<^verbatim>\<open>bio_read_all\<close>, at a buffer of \<open>len\<close> bytes of which \<open>done\<close> are in use.  \<open>None\<close> if it
  runs forever, if the assertion fails or if the pointer handed to \<^verbatim>\<open>BIO_read\<close> is outside the buffer;
  \<open>Some None\<close> when the function returns 0.
\<close>

partial_function (option) read_all_loop ::
  "nat option \<Rightarrow> nat \<Rightarrow> u8 list \<Rightarrow> nat \<Rightarrow> nat \<Rightarrow> bio_world \<Rightarrow> (u8 list option \<times> bio_world) option" where
  "read_all_loop bio max_len out len used w =
     (if used = len then Some (None, snd (free_block (Some out) w))
      else if \<not> size_sub len used < INT_MAX \<or> \<not> used \<le> length out then None
      else case BIO_read bio True (int (size_sub len used)) w of
             (None, w1) \<Rightarrow> None
           | (Some (n, bs), w1) \<Rightarrow>
               if n = 0 then Some (Some (take used out), w1)
               else if n = -1 then Some (None, snd (free_block (Some out) w1))
               else
                 let out = put_bytes out used bs;
                     used = size_add used (size_of_int n)
                 in if len < max_len \<and> size_sub len used < kChunkSize div 2 then
                      let len' = size_add len kChunkSize;
                          len' = (if len' < kChunkSize \<or> len' > max_len then max_len else len')
                      in case OPENSSL_realloc (Some out) len' (w_mem w1) of
                           (None, m) \<Rightarrow> Some (None, snd (free_block (Some out) (w1\<lparr>w_mem := m\<rparr>)))
                         | (Some out', m) \<Rightarrow> read_all_loop bio max_len out' len' used (w1\<lparr>w_mem := m\<rparr>)
                    else read_all_loop bio max_len out len used w1)"

declare read_all_loop.simps [code]

definition bio_read_all :: "nat option \<Rightarrow> u8 list \<Rightarrow> nat \<Rightarrow> u8 list option io" where
  "bio_read_all bio prefix max_len =
     (let len = size_add (length prefix) kChunkSize;
          len = (if len > max_len then max_len else len)
      in if len < length prefix then ret None
         else
           and_then (with_mem (OPENSSL_malloc len)) (\<lambda>r.
             case r of
               None \<Rightarrow> ret None
             | Some out \<Rightarrow> (\<lambda>w.
                 case read_all_loop bio max_len (put_bytes out 0 prefix) len (length prefix) w of
                   None \<Rightarrow> (None, w)
                 | Some (r, w') \<Rightarrow> (Some r, w'))))"

definition BIO_read_asn1 :: "nat option \<Rightarrow> nat \<Rightarrow> u8 list option io" where
  "BIO_read_asn1 bio max_len =
     and_then (BIO_read bio True 2) (\<lambda>(n, header).
     if n \<noteq> 2 then ret None
     else
       let tag = header ! 0; length_byte = header ! 1
       in if tag AND 0x1f = 0x1f then ret None
       else
         let num_bytes = unat (length_byte AND 0x7f);
             finish = (\<lambda>header len. let header_len = length header in
               if size_add len header_len < len \<or> size_add len header_len > max_len \<or> len > INT_MAX then ret None
               else
                 let len = size_add len header_len
                 in and_then (with_mem (OPENSSL_malloc len)) (\<lambda>r.
                      case r of
                        None \<Rightarrow> ret None
                      | Some out \<Rightarrow>
                          and_then (BIO_read bio True (int_of_size (size_sub len header_len))) (\<lambda>(n, body).
                          let out = put_bytes (put_bytes out 0 header) header_len body
                          in if n \<noteq> int_of_size (size_sub len header_len)
                             then and_then (free_block (Some out)) (\<lambda>_. ret None)
                             else ret (Some out))))
         in if length_byte AND 0x80 = 0 then finish header (unat length_byte)
            else if tag AND 0x20 \<noteq> 0 \<and> num_bytes = 0 then bio_read_all bio header max_len
            else if num_bytes = 0 \<or> num_bytes > 4 then ret None
            else
              and_then (BIO_read bio True (int num_bytes)) (\<lambda>(n, more_bytes).
              if n \<noteq> int num_bytes then ret None
              else
                let len32 = be_word more_bytes :: u32
                in if len32 < 128 then ret None
                   else if drop_bit ((num_bytes - 1) * 8) len32 = 0 then ret None
                   else finish (header @ more_bytes) (unat len32)))"

end
