(* ===== verification/Bio_Pair.thy ===== *)
theory Bio_Pair
  imports Bio_Layer
begin

unbundle bit_operations_syntax

text \<open>
  What the BIO pair promises.  First the ring buffer of one end refines a queue of bytes: \<open>ring\<close> is its
  contents in order, and the two copying loops take from its front and append to its end.
\<close>

section \<open>The ring buffer\<close>

definition ring_ok :: "bio_bio_st \<Rightarrow> bool" where
  "ring_ok b \<longleftrightarrow>
     (case bb_buf b of None \<Rightarrow> False | Some d \<Rightarrow> length d = bb_size b) \<and> 0 < bb_size b \<and>
     bb_size b \<le> SIZE_MAX div 2 \<and> bb_len b \<le> bb_size b \<and> bb_offset b < bb_size b"

definition ring :: "bio_bio_st \<Rightarrow> u8 list" where
  "ring b = map (\<lambda>k. the (bb_buf b) ! ((bb_offset b + k) mod bb_size b)) [0..<bb_len b]"

text \<open>The fields that the copying loops leave alone.\<close>

definition same_end :: "bio_bio_st \<Rightarrow> bio_bio_st \<Rightarrow> bool" where
  "same_end b b' \<longleftrightarrow> bb_peer b' = bb_peer b \<and> bb_closed b' = bb_closed b \<and> bb_size b' = bb_size b \<and>
     bb_request b' = bb_request b"

lemma same_end_refl [simp]: "same_end b b"
  by (simp add: same_end_def)

lemma same_end_trans: "same_end a b \<Longrightarrow> same_end b c \<Longrightarrow> same_end a c"
  by (simp add: same_end_def)

lemma length_ring [simp]: "length (ring b) = bb_len b"
  by (simp add: ring_def)

lemma ring_nth: "k < bb_len b \<Longrightarrow> ring b ! k = the (bb_buf b) ! ((bb_offset b + k) mod bb_size b)"
  by (simp add: ring_def)

lemma ring_okD:
  assumes "ring_ok b"
  shows "length (the (bb_buf b)) = bb_size b" "0 < bb_size b" "bb_size b \<le> SIZE_MAX div 2"
    "bb_len b \<le> bb_size b" "bb_offset b < bb_size b" "bb_buf b \<noteq> None"
  using assms by (auto simp: ring_ok_def split: option.splits)

lemma mod_add_inj:
  assumes "a < s" and "b < s" and "off < s" and "(off + a) mod s = (off + b) mod s"
  shows "a = (b :: nat)"
proof -
  have "(off + c) mod s = (if off + c < s then off + c else off + c - s)" if "c < s" for c
    using that assms(3) by (simp add: le_mod_geq)
  from this [OF assms(1)] this [OF assms(2)] assms show ?thesis by (auto split: if_splits)
qed

lemma nth_put_bytes:
  "off + length bs \<le> length d \<Longrightarrow> i < length d \<Longrightarrow>
     put_bytes d off bs ! i = (if off \<le> i \<and> i < off + length bs then bs ! (i - off) else d ! i)"
  by (auto simp: put_bytes_def nth_append min_def)

lemma length_put_bytes: "off + length bs \<le> length d \<Longrightarrow> length (put_bytes d off bs) = length d"
  by (simp add: put_bytes_def)

text \<open>One turn of either loop.\<close>

lemma ring_get:
  assumes "ring_ok b" and "n \<le> bb_len b" and "bb_offset b + n \<le> bb_size b"
    and "off' = (bb_offset b + n) mod bb_size b \<or> n = bb_len b \<and> off' = 0"
  shows "take n (drop (bb_offset b) (the (bb_buf b))) = take n (ring b)"
    and "ring (b\<lparr>bb_len := bb_len b - n, bb_offset := off'\<rparr>) = drop n (ring b)"
    and "ring_ok (b\<lparr>bb_len := bb_len b - n, bb_offset := off'\<rparr>)"
proof -
  note ok = ring_okD [OF assms(1)]
  show "take n (drop (bb_offset b) (the (bb_buf b))) = take n (ring b)"
    using assms(2,3) ok by (intro nth_equalityI) (auto simp: ring_nth)
  show "ring (b\<lparr>bb_len := bb_len b - n, bb_offset := off'\<rparr>) = drop n (ring b)"
  proof (rule nth_equalityI)
    fix k
    assume "k < length (ring (b\<lparr>bb_len := bb_len b - n, bb_offset := off'\<rparr>))"
    then have k: "k < bb_len b - n" by simp
    then have "(off' + k) mod bb_size b = (bb_offset b + (n + k)) mod bb_size b"
      using assms(4) by (auto simp: mod_simps ac_simps)
    then show "ring (b\<lparr>bb_len := bb_len b - n, bb_offset := off'\<rparr>) ! k = drop n (ring b) ! k"
      using k by (simp add: ring_nth)
  qed simp
  show "ring_ok (b\<lparr>bb_len := bb_len b - n, bb_offset := off'\<rparr>)"
    using assms ok by (auto simp: ring_ok_def split: option.splits)
qed

lemma ring_put:
  assumes "ring_ok b" and "bb_len b + n \<le> bb_size b" and "n \<le> length inp"
    and "wo = (bb_offset b + bb_len b) mod bb_size b" and "wo + n \<le> bb_size b"
    and "b' = b\<lparr>bb_buf := map_option (\<lambda>d. put_bytes d wo (take n inp)) (bb_buf b), bb_len := bb_len b + n\<rparr>"
  shows "ring b' = ring b @ take n inp" and "ring_ok b'"
proof -
  note ok = ring_okD [OF assms(1)]
  obtain d where d: "bb_buf b = Some d" using ok by auto
  have len: "length d = bb_size b" using ok d by simp
  show "ring_ok b'" using assms ok d by (auto simp: ring_ok_def length_put_bytes)
  show "ring b' = ring b @ take n inp"
  proof (rule nth_equalityI)
    fix k
    assume "k < length (ring b')"
    then have k: "k < bb_len b + n" by (simp add: assms(6))
    let ?i = "(bb_offset b + k) mod bb_size b"
    have i: "?i < length d" using ok len by simp
    have n: "length (take n inp) = n" using assms(3) by simp
    have "ring b' ! k = put_bytes d wo (take n inp) ! ?i"
      using k by (simp add: ring_nth assms(6) d)
    also have "\<dots> = (if wo \<le> ?i \<and> ?i < wo + n then take n inp ! (?i - wo) else d ! ?i)"
      using nth_put_bytes [of wo "take n inp" d ?i] i assms(5) len unfolding n by simp
    finally have b': "ring b' ! k = (if wo \<le> ?i \<and> ?i < wo + n then take n inp ! (?i - wo) else d ! ?i)" .
    have at: "(bb_offset b + (bb_len b + j)) mod bb_size b = wo + j" if "j < n" for j
      using that assms(4,5) by (metis add.assoc mod_add_left_eq mod_less nat_add_left_cancel_less order.strict_trans2)
    show "ring b' ! k = (ring b @ take n inp) ! k"
    proof (cases "k < bb_len b")
      case True
      have "\<not> (wo \<le> ?i \<and> ?i < wo + n)"
      proof
        assume "wo \<le> ?i \<and> ?i < wo + n"
        then obtain j where j: "?i = wo + j" "j < n" by (metis le_Suc_ex nat_add_left_cancel_less)
        then have "?i = (bb_offset b + (bb_len b + j)) mod bb_size b" using at [of j] by simp
        with mod_add_inj [of k "bb_size b" "bb_len b + j" "bb_offset b"] ok assms(2) True j(2)
        show False by linarith
      qed
      then have "ring b' ! k = d ! ?i" using b' by presburger
      then show ?thesis using True d by (simp add: nth_append ring_nth)
    next
      case False
      then obtain j where j: "k = bb_len b + j" by (metis le_Suc_ex not_less)
      then have "?i = wo + j" using at [of j] k by simp
      then have "ring b' ! k = take n inp ! j" using b' j k by simp
      then show ?thesis using j by (simp add: nth_append)
    qed
  qed (use assms(3) in \<open>simp add: assms(6)\<close>)
qed

text \<open>The two loops, which run at most twice.\<close>

lemma read_loop_ok:
  assumes "ring_ok b" and "0 < rest" and "rest \<le> bb_len b"
  shows "\<exists>b'. read_loop rest b = Some (take rest (ring b), b') \<and> ring b' = drop rest (ring b) \<and> ring_ok b' \<and>
    same_end b b' \<and> bb_len b' = bb_len b - rest"
  using assms
proof (induction rest arbitrary: b rule: less_induct)
  case (less rest)
  note ok = ring_okD [OF less.prems(1)]
  define chunk where "chunk = (if bb_offset b + rest \<le> bb_size b then rest else bb_size b - bb_offset b)"
  define off' where "off' = (if bb_len b - chunk = 0 then 0
    else if bb_offset b + chunk = bb_size b then 0 else bb_offset b + chunk)"
  define b2 where "b2 = b\<lparr>bb_len := bb_len b - chunk, bb_offset := off'\<rparr>"
  have sum: "size_add (bb_offset b) n = bb_offset b + n" if "n \<le> bb_size b" for n
    using that ok by (intro size_add_small) (simp add: SIZE_MAX_def)
  have c: "0 < chunk" "chunk \<le> rest" "bb_offset b + chunk \<le> bb_size b"
    using less.prems ok by (auto simp: chunk_def)
  have empty: "chunk = rest" if "bb_len b - chunk = 0" using that c less.prems by simp
  have "off' = (bb_offset b + chunk) mod bb_size b \<or> chunk = bb_len b \<and> off' = 0"
    using c empty less.prems by (auto simp: off'_def)
  note get = ring_get [OF less.prems(1) _ c(3) this, folded b2_def]
  have step: "read_loop rest b = (if rest - chunk = 0 then Some (take chunk (ring b), b2)
      else Option.bind (read_loop (rest - chunk) b2) (\<lambda>r. Some (take chunk (ring b) @ fst r, snd r)))"
    using less.prems ok c empty get(1) sum
    by (subst read_loop.simps) (auto simp: Let_def chunk_def [symmetric] b2_def off'_def)
  have b2: "ring_ok b2" "ring b2 = drop chunk (ring b)" "same_end b b2" "bb_len b2 = bb_len b - chunk"
    using get c less.prems by (auto simp: b2_def same_end_def)
  show ?case
  proof (cases "rest - chunk = 0")
    case True
    then show ?thesis using step b2 c by simp
  next
    case False
    then have "rest - chunk < rest" "0 < rest - chunk" "rest - chunk \<le> bb_len b2"
      using c less.prems b2(4) by linarith+
    then obtain b' where b': "read_loop (rest - chunk) b2 = Some (take (rest - chunk) (ring b2), b')"
      "ring b' = drop (rest - chunk) (ring b2)" "ring_ok b'" "same_end b2 b'" "bb_len b' = bb_len b2 - (rest - chunk)"
      using less.IH [OF _ b2(1)] by blast
    have "take chunk (ring b) @ take (rest - chunk) (drop chunk (ring b)) = take rest (ring b)"
      using c by (metis le_add_diff_inverse take_add)
    then show ?thesis using step False b' b2 c by (auto intro: same_end_trans)
  qed
qed

lemma write_loop_ok:
  assumes "ring_ok b" and "0 < rest" and "bb_len b + rest \<le> bb_size b" and "rest \<le> length inp"
  shows "\<exists>b'. write_loop rest inp b = Some b' \<and> ring b' = ring b @ take rest inp \<and> ring_ok b' \<and> same_end b b' \<and>
    bb_len b' = bb_len b + rest"
  using assms
proof (induction rest arbitrary: b inp rule: less_induct)
  case (less rest)
  note ok = ring_okD [OF less.prems(1)]
  define wo where "wo = (bb_offset b + bb_len b) mod bb_size b"
  define chunk where "chunk = (if wo + rest \<le> bb_size b then rest else bb_size b - wo)"
  define b1 where "b1 = b\<lparr>bb_buf := map_option (\<lambda>d. put_bytes d wo (take chunk inp)) (bb_buf b),
    bb_len := bb_len b + chunk\<rparr>"
  have wo: "wo < bb_size b" using ok by (simp add: wo_def)
  have sum: "size_add m n = m + n" if "m \<le> bb_size b" "n \<le> bb_size b" for m n
    using that ok by (intro size_add_small) (simp add: SIZE_MAX_def)
  have wo_eq: "(if bb_offset b + bb_len b \<ge> bb_size b then bb_offset b + bb_len b - bb_size b
      else bb_offset b + bb_len b) = wo"
    using ok by (auto simp: wo_def le_mod_geq)
  have c: "0 < chunk" "chunk \<le> rest" "wo + chunk \<le> bb_size b"
    using less.prems wo by (auto simp: chunk_def)
  note put = ring_put [OF less.prems(1) _ _ wo_def c(3) b1_def]
  have b1: "ring b1 = ring b @ take chunk inp" "ring_ok b1" "same_end b b1" "bb_len b1 = bb_len b + chunk"
    using put c less.prems by (auto simp: b1_def same_end_def)
  have step: "write_loop rest inp b = (if rest - chunk = 0 then Some b1 else write_loop (rest - chunk) (drop chunk inp) b1)"
  proof -
    have e: "size_add (bb_offset b) (bb_len b) = bb_offset b + bb_len b" "size_add wo rest = wo + rest"
      "size_add wo chunk = wo + chunk" "size_add (bb_len b) rest = bb_len b + rest"
      using less.prems ok c wo by (simp_all add: sum)
    have "chunk \<le> length inp" "bb_len b + chunk \<le> bb_size b" using c less.prems by simp_all
    then show ?thesis using less.prems(3) c ok(1)
      by (subst write_loop.simps) (simp only: Let_def e wo_eq chunk_def [symmetric] b1_def [symmetric],
        simp add: b1_def)
  qed
  show ?case
  proof (cases "rest - chunk = 0")
    case True
    then show ?thesis using step b1 c by simp
  next
    case False
    then have r: "rest - chunk < rest" "0 < rest - chunk" "bb_len b1 + (rest - chunk) \<le> bb_size b1"
      "rest - chunk \<le> length (drop chunk inp)"
      using c less.prems b1(3,4) by (simp_all add: same_end_def)
    then obtain b' where b': "write_loop (rest - chunk) (drop chunk inp) b1 = Some b'"
      "ring b' = ring b1 @ take (rest - chunk) (drop chunk inp)" "ring_ok b'" "same_end b1 b'"
      "bb_len b' = bb_len b1 + (rest - chunk)"
      using less.IH [OF r(1) b1(2) r(2-4)] by blast
    have "take chunk inp @ take (rest - chunk) (drop chunk inp) = take rest inp"
      using c by (metis le_add_diff_inverse take_add)
    then show ?thesis using step False b' b1 c by (auto intro: same_end_trans)
  qed
qed

section \<open>A connected pair\<close>

text \<open>
  \<open>pair_at i j w p q\<close>: the objects \<open>i\<close> and \<open>j\<close> are the two ends of a pair, \<open>p\<close> buffers what \<open>i\<close> writes
  and \<open>q\<close> what \<open>j\<close> writes.  A pending request is for an empty buffer only, and never more than it holds.
\<close>

definition end_ok :: "bio_bio_st \<Rightarrow> nat \<Rightarrow> bool" where
  "end_ok p other \<longleftrightarrow> ring_ok p \<and> bb_peer p = Some other \<and> bb_request p \<le> bb_size p \<and>
     (bb_len p \<noteq> 0 \<longrightarrow> bb_request p = 0)"

definition holds :: "nat \<Rightarrow> bio_world \<Rightarrow> bio_bio_st \<Rightarrow> bool" where
  "holds i w p \<longleftrightarrow> i < length (bios w) \<and>
     (case bios w ! i of None \<Rightarrow> False
      | Some a \<Rightarrow> bio_method a = methods_biop \<and> bio_init a \<and> bio_ptr a = Ptr_pair p)"

definition pair_at :: "nat \<Rightarrow> nat \<Rightarrow> bio_world \<Rightarrow> bio_bio_st \<Rightarrow> bio_bio_st \<Rightarrow> bool" where
  "pair_at i j w p q \<longleftrightarrow> i \<noteq> j \<and> holds i w p \<and> holds j w q \<and> end_ok p j \<and> end_ok q i"

lemma pair_at_sym: "pair_at i j w p q \<longleftrightarrow> pair_at j i w q p"
  by (auto simp: pair_at_def)

lemma int_of_size_id [simp]: "n \<le> INT_MAX \<Longrightarrow> int_of_size n = int n"
  by (simp add: int_of_size_def INT_MAX_def sint_uint unsigned_of_nat take_bit_nat_eq_self
      signed_take_bit_int_eq_self)

lemma size_of_int_id [simp]: "0 \<le> r \<Longrightarrow> r \<le> int SIZE_MAX \<Longrightarrow> size_of_int r = nat r"
  by (simp add: size_of_int_def SIZE_MAX_def)

lemma long_of_size_id [simp]: "n \<le> SIZE_MAX div 2 \<Longrightarrow> long_of_size n = int n"
  by (simp add: long_of_size_def SIZE_MAX_def sint_uint unsigned_of_nat take_bit_nat_eq_self
      signed_take_bit_int_eq_self)

text \<open>How the primitive accesses evaluate where the object is known.\<close>

lemma deref_eval: "i < length (bios w) \<Longrightarrow> bios w ! i = Some a \<Longrightarrow> deref i w = (Some a, w)"
  by (simp add: deref_def)

lemma update_eval: "i < length (bios w) \<Longrightarrow> bios w ! i = Some a \<Longrightarrow>
   update i f w = (Some (), w\<lparr>bios := (bios w)[i := Some (f a)]\<rparr>)"
  by (simp add: update_def deref_def and_then_def store_def)

lemma deref_pair_eval: "i < length (bios w) \<Longrightarrow> bios w ! i = Some a \<Longrightarrow> bio_ptr a = Ptr_pair p \<Longrightarrow>
   deref_pair i w = (Some p, w)"
  by (simp add: deref_pair_def deref_def and_then_def)

lemma set_pair_eval: "i < length (bios w) \<Longrightarrow> bios w ! i = Some a \<Longrightarrow>
   set_pair i p w = (Some (), w\<lparr>bios := (bios w)[i := Some (a\<lparr>bio_ptr := Ptr_pair p\<rparr>)]\<rparr>)"
  by (simp add: set_pair_def update_eval)

lemma put_error_eval: "put_error e w = (Some (), w\<lparr>w_errs := e # w_errs w\<rparr>)"
  by (simp add: put_error_def)

lemmas access_evals = deref_eval update_eval deref_pair_eval set_pair_eval put_error_eval

lemma flags_keep [simp]:
  "bio_method (BIO_clear_retry_flags a) = bio_method a" "bio_init (BIO_clear_retry_flags a) = bio_init a"
  "bio_ptr (BIO_clear_retry_flags a) = bio_ptr a" "bio_method (BIO_set_retry_read a) = bio_method a"
  "bio_init (BIO_set_retry_read a) = bio_init a" "bio_ptr (BIO_set_retry_read a) = bio_ptr a"
  "bio_method (BIO_set_retry_write a) = bio_method a" "bio_init (BIO_set_retry_write a) = bio_init a"
  "bio_ptr (BIO_set_retry_write a) = bio_ptr a"
  by (simp_all add: BIO_clear_retry_flags_def BIO_set_retry_read_def BIO_set_retry_write_def)

lemma ring_request [simp]: "ring (p\<lparr>bb_request := n\<rparr>) = ring p" "ring_ok (p\<lparr>bb_request := n\<rparr>) = ring_ok p"
  by (simp_all add: ring_def ring_ok_def split: option.split)

text \<open>What a write on one end does, in terms of the two buffers.\<close>

definition write_result :: "bio_bio_st \<Rightarrow> nat \<Rightarrow> int" where
  "write_result p n = (if bb_closed p \<or> bb_len p = bb_size p then -1 else int (min n (bb_size p - bb_len p)))"

lemma bio_write_pair:
  assumes "pair_at i j w p q" and "0 < n" and "n \<le> INT_MAX" and "n \<le> length bs"
  shows "\<exists>p' w'. bio_write i (Some bs) (int n) w = (Some (write_result p n), w') \<and> pair_at i j w' p' q \<and>
    ring p' = ring p @ take (nat (write_result p n)) bs \<and> same_end (p\<lparr>bb_request := 0\<rparr>) p'"
proof -
  from assms(1) obtain a b where a: "i < length (bios w)" "bios w ! i = Some a" "bio_method a = methods_biop"
    "bio_init a" "bio_ptr a = Ptr_pair p" and b: "j < length (bios w)" "bios w ! j = Some b"
    "bio_method b = methods_biop" "bio_init b" "bio_ptr b = Ptr_pair q" and ij: "i \<noteq> j"
    by (auto simp: pair_at_def holds_def split: option.splits)
  have p: "end_ok p j" "end_ok q i" using assms(1) by (auto simp: pair_at_def)
  then have ok: "ring_ok p" "bb_peer p = Some j" by (auto simp: end_ok_def)
  note r = ring_okD [OF ok(1)]
  have sz: "size_of_int (int n) = n" using assms(3) by (simp add: INT_MAX_def SIZE_MAX_def)
  let ?p = "p\<lparr>bb_request := 0\<rparr>"
  obtain d where d: "bb_buf p = Some d" using r(6) by auto
  note ev = bio_write_def and_then_def access_evals nth_list_update a sz Let_def d ok(2)
  consider "bb_closed p" | "\<not> bb_closed p" "bb_len p = bb_size p" | "\<not> bb_closed p" "bb_len p < bb_size p"
    using r(4) by fastforce
  then show ?thesis
  proof cases
    case 1
    then show ?thesis using a b ij p assms(2)
      by (intro exI [of _ ?p])
        (auto simp: ev write_result_def pair_at_def holds_def end_ok_def)
  next
    case 2
    then show ?thesis using a b ij p assms(2)
      by (intro exI [of _ ?p])
        (auto simp: ev write_result_def pair_at_def holds_def end_ok_def)
  next
    case 3
    define m where "m = min n (bb_size p - bb_len p)"
    have m: "0 < m" "bb_len p + m \<le> bb_size p" "m \<le> length bs" "m \<le> INT_MAX" "write_result p n = int m"
      "(if n > bb_size p - bb_len p then bb_size p - bb_len p else n) = m"
      using assms 3 by (auto simp: m_def write_result_def)
    have "bb_len ?p + m \<le> bb_size ?p" "ring_ok ?p" using m(2) ok by simp_all
    from write_loop_ok [OF this(2) m(1) this(1) m(3)]
    obtain p' where w: "write_loop m bs ?p = Some p'" "ring p' = ring p @ take m bs" "ring_ok p'"
      "same_end ?p p'" "bb_len p' = bb_len p + m" by auto
    show ?thesis using a b ij p assms(2) 3 w r(4) m
      by (intro exI [of _ p'])
        (auto simp: ev pair_at_def holds_def end_ok_def same_end_def)
  qed
qed

text \<open>What a read on the other end does.\<close>

lemma retry_flag [simp]:
  "bio_flags (BIO_set_retry_read f) AND BIO_FLAGS_SHOULD_RETRY \<noteq> 0"
  "bio_flags (BIO_clear_retry_flags f) AND BIO_FLAGS_SHOULD_RETRY = 0"
proof -
  have "bit (bio_flags (BIO_set_retry_read f) AND BIO_FLAGS_SHOULD_RETRY) 3"
    by (simp add: BIO_set_retry_read_def BIO_FLAGS_SHOULD_RETRY_def BIO_FLAGS_READ_def bit_and_iff bit_or_iff)
  then show "bio_flags (BIO_set_retry_read f) AND BIO_FLAGS_SHOULD_RETRY \<noteq> 0" by auto
  have "NOT kRetryFlags AND BIO_FLAGS_SHOULD_RETRY = 0"
    by (simp add: kRetryFlags_def BIO_FLAGS_RWS_def BIO_FLAGS_READ_def BIO_FLAGS_WRITE_def
        BIO_FLAGS_IO_SPECIAL_def BIO_FLAGS_SHOULD_RETRY_def)
  then show "bio_flags (BIO_clear_retry_flags f) AND BIO_FLAGS_SHOULD_RETRY = 0"
    by (simp add: BIO_clear_retry_flags_def and.assoc)
qed

definition read_result :: "bio_bio_st \<Rightarrow> nat \<Rightarrow> int" where
  "read_result p n = (if bb_len p = 0 then (if bb_closed p then 0 else -1) else int (min n (bb_len p)))"

definition read_end :: "bio_bio_st \<Rightarrow> nat \<Rightarrow> bio_bio_st" where
  "read_end p n =
     p\<lparr>bb_request := (if bb_len p = 0 \<and> \<not> bb_closed p then min n (bb_size p) else 0)\<rparr>"

lemma bio_read_pair:
  assumes "pair_at i j w p q" and "0 < n" and "n \<le> INT_MAX"
  shows "\<exists>p' w'. bio_read j True (int n) w = (Some (read_result p n, take n (ring p)), w') \<and>
    pair_at i j w' p' q \<and> ring p' = drop n (ring p) \<and> same_end (read_end p n) p' \<and>
    (\<exists>b'. bios w' ! j = Some b' \<and>
      (bio_flags b' AND BIO_FLAGS_SHOULD_RETRY \<noteq> 0 \<longleftrightarrow> bb_len p = 0 \<and> \<not> bb_closed p))"
proof -
  from assms(1) obtain a b where a: "i < length (bios w)" "bios w ! i = Some a" "bio_method a = methods_biop"
    "bio_init a" "bio_ptr a = Ptr_pair p" and b: "j < length (bios w)" "bios w ! j = Some b"
    "bio_method b = methods_biop" "bio_init b" "bio_ptr b = Ptr_pair q" and ij: "i \<noteq> j" "j \<noteq> i"
    by (auto simp: pair_at_def holds_def split: option.splits)
  have p: "end_ok p j" "end_ok q i" using assms(1) by (auto simp: pair_at_def)
  then have ok: "ring_ok p" "bb_peer q = Some i" by (auto simp: end_ok_def)
  note r = ring_okD [OF ok(1)]
  obtain d where d: "bb_buf p = Some d" using r(6) by auto
  have sz: "size_of_int (int n) = n" using assms(3) by (simp add: INT_MAX_def SIZE_MAX_def)
  let ?p = "p\<lparr>bb_request := 0\<rparr>"
  note ev = bio_read_def and_then_def access_evals nth_list_update a b ij sz Let_def d ok(2)
  consider "bb_len p = 0" "bb_closed p" | "bb_len p = 0" "\<not> bb_closed p" | "0 < bb_len p" by blast
  then show ?thesis
  proof cases
    case 1
    then show ?thesis using p assms(2)
      by (intro exI [of _ ?p])
        (auto simp: ev read_result_def read_end_def pair_at_def holds_def end_ok_def ring_def)
  next
    case 2
    then show ?thesis using p assms(2)
      by (intro exI [of _ "read_end p n"])
        (auto simp: ev read_result_def read_end_def pair_at_def holds_def end_ok_def ring_def min_def)
  next
    case 3
    define m where "m = min n (bb_len p)"
    have m: "0 < m" "m \<le> bb_len p" "m \<le> INT_MAX" "read_result p n = int m" "read_end p n = ?p"
      "(if bb_len p < n then bb_len p else n) = m" "take m (ring p) = take n (ring p)" "drop m (ring p) = drop n (ring p)"
      using assms 3 by (auto simp: m_def read_result_def read_end_def min_def)
    have "m \<le> bb_len ?p" "ring_ok ?p" using m(2) ok by simp_all
    from read_loop_ok [OF this(2) m(1) this(1)]
    obtain p' where w: "read_loop m ?p = Some (take m (ring p), p')" "ring p' = drop m (ring p)" "ring_ok p'"
      "same_end ?p p'" "bb_len p' = bb_len p - m" by auto
    show ?thesis using p assms(2) 3 w r(4) m
      by (intro exI [of _ p'])
        (auto simp: ev pair_at_def holds_def end_ok_def same_end_def)
  qed
qed

lemma pair_at_counters:
  assumes "pair_at i j w p q" and "bios w ! k = Some a" and "k < length (bios w)"
    and "bio_method a' = bio_method a" and "bio_init a' = bio_init a" and "bio_ptr a' = bio_ptr a"
  shows "pair_at i j (w\<lparr>bios := (bios w)[k := Some a']\<rparr>) p q"
  using assms by (auto simp: pair_at_def holds_def nth_list_update split: option.splits)

lemma pair_atD:
  assumes "pair_at i j w p q"
  obtains a b where "i < length (bios w)" "bios w ! i = Some a" "bio_method a = methods_biop" "bio_init a"
    "bio_ptr a = Ptr_pair p" "j < length (bios w)" "bios w ! j = Some b" "bio_method b = methods_biop" "bio_init b"
    "bio_ptr b = Ptr_pair q" "i \<noteq> j" "end_ok p j" "end_ok q i"
  using assms that by (auto simp: pair_at_def holds_def split: option.splits)

lemma BIO_write_pair:
  assumes "pair_at i j w p q" and "n \<le> INT_MAX" and "n \<le> length bs"
  shows "\<exists>r p' w'. BIO_write (Some i) (Some bs) (int n) w = (Some r, w') \<and>
    r = (if n = 0 then 0 else write_result p n) \<and> pair_at i j w' p' q \<and>
    ring p' = ring p @ take (nat r) bs \<and> (p' = p \<or> same_end (p\<lparr>bb_request := 0\<rparr>) p')"
proof (cases "n = 0")
  case True
  with assms(1) show ?thesis
    by (elim pair_atD) (auto simp: BIO_write_def and_then_def access_evals assms(1) intro!: exI [of _ p])
next
  case False
  then have n: "0 < n" by simp
  obtain p' w1 where w: "bio_write i (Some bs) (int n) w = (Some (write_result p n), w1)" "pair_at i j w1 p' q"
    "ring p' = ring p @ take (nat (write_result p n)) bs" "same_end (p\<lparr>bb_request := 0\<rparr>) p'"
    using bio_write_pair [OF assms(1) n assms(2,3)] by blast
  obtain a where a: "i < length (bios w)" "bios w ! i = Some a" "bio_method a = methods_biop" "bio_init a"
    using assms(1) by (elim pair_atD)
  obtain a1 where a1: "i < length (bios w1)" "bios w1 ! i = Some a1" using w(2) by (elim pair_atD)
  show ?thesis using w a a1 n pair_at_counters [OF w(2) a1(2,1)]
    by (intro exI [of _ "write_result p n"] exI [of _ p'])
      (auto simp: BIO_write_def method_write_def and_then_def access_evals)
qed

lemma BIO_read_pair:
  assumes "pair_at i j w p q" and "n \<le> INT_MAX"
  shows "\<exists>r p' w'. BIO_read (Some j) True (int n) w = (Some (r, take n (ring p)), w') \<and>
    r = (if n = 0 then 0 else read_result p n) \<and> pair_at i j w' p' q \<and>
    ring p' = drop n (ring p) \<and> (p' = p \<or> same_end (read_end p n) p')"
proof (cases "n = 0")
  case True
  with assms(1) show ?thesis
    by (elim pair_atD) (auto simp: BIO_read_def and_then_def access_evals assms(1) intro!: exI [of _ p])
next
  case False
  then have n: "0 < n" by simp
  obtain p' w1 where w: "bio_read j True (int n) w = (Some (read_result p n, take n (ring p)), w1)"
    "pair_at i j w1 p' q" "ring p' = drop n (ring p)" "same_end (read_end p n) p'"
    using bio_read_pair [OF assms(1) n assms(2)] by blast
  obtain a where a: "j < length (bios w)" "bios w ! j = Some a" "bio_method a = methods_biop" "bio_init a"
    using assms(1) by (elim pair_atD)
  obtain a1 where a1: "j < length (bios w1)" "bios w1 ! j = Some a1" using w(2) by (elim pair_atD)
  show ?thesis using w a a1 n pair_at_counters [OF w(2) a1(2,1)]
    by (intro exI [of _ "read_result p n"] exI [of _ p'])
      (auto simp: BIO_read_def method_read_def and_then_def access_evals)
qed

section \<open>Channels\<close>

text \<open>
  What a program that sends bytes at one place and receives them at another needs of an I/O object: an
  operation always returns, a receiver gets the oldest bytes that were accepted, in order, and neither
  side waits without a reason.  \<open>room\<close> is how much an empty channel takes.
\<close>

type_synonym ('s) sender = "u8 list \<Rightarrow> 's \<Rightarrow> int option \<times> 's"
type_synonym ('s) receiver = "nat \<Rightarrow> 's \<Rightarrow> (int \<times> u8 list) option \<times> 's"

datatype channel_call = Send "u8 list" | Recv nat

text \<open>Runs a list of calls: the bytes accepted, the bytes received, and the state.\<close>

fun run_channel :: "'s sender \<Rightarrow> 's receiver \<Rightarrow> channel_call list \<Rightarrow> 's \<Rightarrow> (u8 list \<times> u8 list \<times> 's) option" where
  "run_channel snd' rcv [] s = Some ([], [], s)"
| "run_channel snd' rcv (Send bs # cs) s =
     (case snd' bs s of
        (None, _) \<Rightarrow> None
      | (Some r, s1) \<Rightarrow>
          map_option (\<lambda>(sent, got, s2). (take (nat r) bs @ sent, got, s2)) (run_channel snd' rcv cs s1))"
| "run_channel snd' rcv (Recv n # cs) s =
     (case rcv n s of
        (None, _) \<Rightarrow> None
      | (Some (r, bs), s1) \<Rightarrow>
          map_option (\<lambda>(sent, got, s2). (sent, bs @ got, s2)) (run_channel snd' rcv cs s1))"

fun call_small :: "channel_call \<Rightarrow> bool" where
  "call_small (Send bs) \<longleftrightarrow> length bs \<le> INT_MAX"
| "call_small (Recv n) \<longleftrightarrow> n \<le> INT_MAX"

text \<open>
  A transfer: the sender offers what is left of the message, the receiver then reads up to \<open>n\<close> bytes,
  again and again.
\<close>

fun transfer :: "'s sender \<Rightarrow> 's receiver \<Rightarrow> nat \<Rightarrow> nat \<Rightarrow> u8 list \<Rightarrow> 's \<Rightarrow> (u8 list \<times> u8 list \<times> 's) option" where
  "transfer snd' rcv 0 n msg s = Some (msg, [], s)"
| "transfer snd' rcv (Suc rounds) n msg s =
     (case snd' msg s of
        (None, _) \<Rightarrow> None
      | (Some r, s1) \<Rightarrow>
          (case rcv n s1 of
             (None, _) \<Rightarrow> None
           | (Some (r', bs), s2) \<Rightarrow>
               map_option (\<lambda>(left, got, s3). (left, bs @ got, s3))
                 (transfer snd' rcv rounds n (drop (nat r) msg) s2)))"

locale byte_channel =
  fixes chan_ok :: "'s \<Rightarrow> bool" and pending :: "'s \<Rightarrow> u8 list"
    and send :: "'s sender" and recv :: "'s receiver"
  assumes send_law: "chan_ok s \<Longrightarrow> length bs \<le> INT_MAX \<Longrightarrow>
      \<exists>r s'. send bs s = (Some r, s') \<and> chan_ok s' \<and> r \<le> int (length bs) \<and>
        pending s' = pending s @ take (nat r) bs"
    and recv_law: "chan_ok s \<Longrightarrow> n \<le> INT_MAX \<Longrightarrow>
      \<exists>r s'. recv n s = (Some (r, take n (pending s)), s') \<and> chan_ok s' \<and> pending s' = drop n (pending s)"
begin

lemma fifo:
  assumes "chan_ok s" and "list_all call_small cs"
  shows "\<exists>sent got s'. run_channel send recv cs s = Some (sent, got, s') \<and> chan_ok s' \<and>
    pending s @ sent = got @ pending s'"
  using assms
proof (induction cs arbitrary: s)
  case (Cons c cs)
  show ?case
  proof (cases c)
    case (Send bs)
    then obtain r s1 where s1: "send bs s = (Some r, s1)" "chan_ok s1" "pending s1 = pending s @ take (nat r) bs"
      using send_law [OF Cons.prems(1), of bs] Cons.prems(2) by auto
    then obtain sent got s' where r: "run_channel send recv cs s1 = Some (sent, got, s')" "chan_ok s'"
      "pending s1 @ sent = got @ pending s'"
      using Cons.IH [of s1] Cons.prems(2) by auto
    then show ?thesis using s1 Send by simp
  next
    case (Recv n)
    then obtain r s1 where s1: "recv n s = (Some (r, take n (pending s)), s1)" "chan_ok s1"
      "pending s1 = drop n (pending s)"
      using recv_law [OF Cons.prems(1), of n] Cons.prems(2) by auto
    then obtain sent got s' where r: "run_channel send recv cs s1 = Some (sent, got, s')" "chan_ok s'"
      "pending s1 @ sent = got @ pending s'"
      using Cons.IH [of s1] Cons.prems(2) by auto
    then have "pending s @ sent = take n (pending s) @ got @ pending s'"
      using s1(3) by (metis append.assoc append_take_drop_id)
    then show ?thesis using s1 Recv r by simp
  qed
qed simp

end

text \<open>A channel on which a write is refused only while \<open>room\<close> bytes are on the way.\<close>

locale flowing_channel = byte_channel +
  fixes room :: "'a \<Rightarrow> nat"
  assumes progress: "chan_ok s \<Longrightarrow> length bs \<le> INT_MAX \<Longrightarrow> bs \<noteq> [] \<Longrightarrow> length (pending s) < room s \<Longrightarrow>
      \<exists>r s'. send bs s = (Some r, s') \<and> 0 < r"
    and room_pos: "chan_ok s \<Longrightarrow> 0 < room s"
begin

text \<open>A round with a positive count moves the message on, so enough rounds deliver all of it.\<close>

lemma transfer_ends:
  assumes "chan_ok s" and "length msg \<le> INT_MAX" and "0 < n" and "n \<le> INT_MAX"
    and "length (pending s) + length msg \<le> rounds"
  shows "\<exists>s'. transfer send recv rounds n msg s = Some ([], pending s @ msg, s') \<and> chan_ok s' \<and> pending s' = []"
  using assms
proof (induction rounds arbitrary: s msg)
  case 0
  then show ?case by simp
next
  case (Suc rounds)
  obtain r s1 where s1: "send msg s = (Some r, s1)" "chan_ok s1" "r \<le> int (length msg)"
    "pending s1 = pending s @ take (nat r) msg"
    using send_law [OF Suc.prems(1,2)] by auto
  obtain r' s2 where s2: "recv n s1 = (Some (r', take n (pending s1)), s2)" "chan_ok s2"
    "pending s2 = drop n (pending s1)"
    using recv_law [OF s1(2) Suc.prems(4)] by auto
  have moved: "pending s1 @ drop (nat r) msg = pending s @ msg" by (simp add: s1(4))
  have "pending s1 \<noteq> [] \<or> pending s = [] \<and> msg = []"
  proof (cases "msg = [] \<or> pending s \<noteq> []")
    case False
    then have "length (pending s) < room s" using room_pos [OF Suc.prems(1)] by simp
    with progress [OF Suc.prems(1,2)] False s1(1) have "0 < r" by auto
    then show ?thesis using False s1(4) by auto
  qed (use s1(4) in auto)
  then have "0 < length (pending s1) \<or> length (pending s) + length msg = 0" by auto
  moreover have "length (pending s1) + length (drop (nat r) msg) = length (pending s) + length msg"
    using arg_cong [OF moved, of length] by simp
  moreover have "length (pending s2) = length (pending s1) - n" by (simp add: s2(3))
  ultimately have "length (pending s2) + length (drop (nat r) msg) \<le> rounds"
    using Suc.prems(3,5) by linarith
  then obtain s' where s': "transfer send recv rounds n (drop (nat r) msg) s2 =
      Some ([], pending s2 @ drop (nat r) msg, s')" "chan_ok s'" "pending s' = []"
    using Suc.IH [OF s2(2) le_trans [OF _ Suc.prems(2)] Suc.prems(3,4), of "drop (nat r) msg"] by auto
  have "take n (pending s1) @ pending s2 @ drop (nat r) msg = pending s @ msg"
    using moved s2(3) by (metis append.assoc append_take_drop_id)
  then show ?case using s1(1) s2(1) s' by simp
qed

end

section \<open>The pair and the memory BIO are channels\<close>

text \<open>The buffer of what the object \<open>i\<close> writes.\<close>

definition out_buffer :: "nat \<Rightarrow> bio_world \<Rightarrow> bio_bio_st" where
  "out_buffer i w = (case bio_ptr (the (bios w ! i)) of Ptr_pair p \<Rightarrow> p)"

definition paired :: "nat \<Rightarrow> nat \<Rightarrow> bio_world \<Rightarrow> bool" where
  "paired i j w \<longleftrightarrow> pair_at i j w (out_buffer i w) (out_buffer j w)"

definition pair_open :: "nat \<Rightarrow> nat \<Rightarrow> bio_world \<Rightarrow> bool" where
  "pair_open i j w \<longleftrightarrow> paired i j w \<and> \<not> bb_closed (out_buffer i w)"

definition pair_pending :: "nat \<Rightarrow> bio_world \<Rightarrow> u8 list" where
  "pair_pending i w = ring (out_buffer i w)"

definition pair_send :: "nat \<Rightarrow> bio_world sender" where
  "pair_send i bs = BIO_write (Some i) (Some bs) (int (length bs))"

definition pair_recv :: "nat \<Rightarrow> bio_world receiver" where
  "pair_recv j n = BIO_read (Some j) True (int n)"

lemma pair_at_buffers: "pair_at i j w p q \<Longrightarrow> out_buffer i w = p \<and> out_buffer j w = q"
  by (elim pair_atD) (simp add: out_buffer_def)

lemma paired_at: "pair_at i j w p q \<Longrightarrow> paired i j w"
  using pair_at_buffers [of i j w p q] by (simp add: paired_def)

lemma pair_send_ok:
  assumes "pair_open i j w" and "length bs \<le> INT_MAX"
  shows "\<exists>r w'. pair_send i bs w = (Some r, w') \<and> pair_open i j w' \<and> r \<le> int (length bs) \<and>
    pair_pending i w' = pair_pending i w @ take (nat r) bs \<and>
    (bs \<noteq> [] \<longrightarrow> length (pair_pending i w) < bb_size (out_buffer i w) \<longrightarrow> 0 < r)"
proof -
  let ?p = "out_buffer i w"
  have p: "pair_at i j w ?p (out_buffer j w)" "\<not> bb_closed ?p"
    using assms(1) by (auto simp: pair_open_def paired_def)
  from BIO_write_pair [OF p(1) assms(2) order.refl]
  obtain r p' w' where w: "pair_send i bs w = (Some r, w')" "r = (if length bs = 0 then 0 else write_result ?p (length bs))"
    "pair_at i j w' p' (out_buffer j w)" "ring p' = ring ?p @ take (nat r) bs"
    "p' = ?p \<or> same_end (?p\<lparr>bb_request := 0\<rparr>) p'"
    unfolding pair_send_def by blast
  have "out_buffer i w' = p'" using pair_at_buffers [OF w(3)] by simp
  moreover have "paired i j w'" by (rule paired_at [OF w(3)])
  ultimately show ?thesis using w p(2)
    by (auto simp: pair_open_def pair_pending_def same_end_def write_result_def min_def)
qed

lemma pair_recv_ok:
  assumes "pair_open i j w" and "n \<le> INT_MAX"
  shows "\<exists>r w'. pair_recv j n w = (Some (r, take n (pair_pending i w)), w') \<and> pair_open i j w' \<and>
    pair_pending i w' = drop n (pair_pending i w)"
proof -
  let ?p = "out_buffer i w"
  have p: "pair_at i j w ?p (out_buffer j w)" "\<not> bb_closed ?p"
    using assms(1) by (auto simp: pair_open_def paired_def)
  from BIO_read_pair [OF p(1) assms(2)]
  obtain r p' w' where w: "pair_recv j n w = (Some (r, take n (ring ?p)), w')"
    "pair_at i j w' p' (out_buffer j w)" "ring p' = drop n (ring ?p)"
    "p' = ?p \<or> same_end (read_end ?p n) p'"
    unfolding pair_recv_def by blast
  have "out_buffer i w' = p'" using pair_at_buffers [OF w(2)] by simp
  moreover have "paired i j w'" by (rule paired_at [OF w(2)])
  ultimately show ?thesis using w p(2)
    by (auto simp: pair_open_def pair_pending_def same_end_def read_end_def)
qed

interpretation pair: flowing_channel "pair_open i j" "pair_pending i" "pair_send i" "pair_recv j"
  "\<lambda>w. bb_size (out_buffer i w)" for i j
proof unfold_locales
  fix w bs
  assume w: "pair_open i j w"
  then have "ring_ok (out_buffer i w)" by (auto simp: pair_open_def paired_def pair_at_def end_ok_def)
  then show "0 < bb_size (out_buffer i w)" by (rule ring_okD)
qed (use pair_send_ok pair_recv_ok in blast)+

text \<open>
  A writable memory BIO: its buffer is well-formed, read from its start, and no longer than an \<^verbatim>\<open>int\<close>.
\<close>

definition mem_bio :: "nat \<Rightarrow> bio_world \<Rightarrow> BUF_MEM \<Rightarrow> bool" where
  "mem_bio i w b \<longleftrightarrow> i < length (bios w) \<and> bm_ok b \<and> bm_length b \<le> INT_MAX \<and>
     (case bios w ! i of None \<Rightarrow> False
      | Some a \<Rightarrow> bio_method a = mem_method \<and> bio_init a \<and> bio_ptr a = Ptr_mem b 0 \<and>
          bio_flags a AND BIO_FLAGS_MEM_RDONLY = 0 \<and> bio_num a < 0)"

definition mem_buffer :: "nat \<Rightarrow> bio_world \<Rightarrow> BUF_MEM" where
  "mem_buffer i w = (case bio_ptr (the (bios w ! i)) of Ptr_mem b off \<Rightarrow> b)"

definition mem_open :: "nat \<Rightarrow> bio_world \<Rightarrow> bool" where
  "mem_open i w \<longleftrightarrow> mem_bio i w (mem_buffer i w)"

definition mem_pending :: "nat \<Rightarrow> bio_world \<Rightarrow> u8 list" where
  "mem_pending i w = bm_bytes (mem_buffer i w)"

lemma mem_bioD:
  assumes "mem_bio i w b"
  obtains a where "i < length (bios w)" "bios w ! i = Some a" "bio_method a = mem_method" "bio_init a"
    "bio_ptr a = Ptr_mem b 0" "bio_flags a AND BIO_FLAGS_MEM_RDONLY = 0" "bio_num a < 0"
    "bm_ok b" "bm_length b \<le> INT_MAX"
  using assms that by (auto simp: mem_bio_def split: option.splits)

lemma mem_bio_buffer: "mem_bio i w b \<Longrightarrow> mem_buffer i w = b"
  by (elim mem_bioD) (simp add: mem_buffer_def)

lemma deref_mem_eval: "i < length (bios w) \<Longrightarrow> bios w ! i = Some a \<Longrightarrow> bio_ptr a = Ptr_mem b off \<Longrightarrow>
   deref_mem i w = (Some (b, off), w)"
  by (simp add: deref_mem_def deref_def and_then_def)

lemma set_mem_eval: "i < length (bios w) \<Longrightarrow> bios w ! i = Some a \<Longrightarrow>
   set_mem i b off w = (Some (), w\<lparr>bios := (bios w)[i := Some (a\<lparr>bio_ptr := Ptr_mem b off\<rparr>)]\<rparr>)"
  by (simp add: set_mem_def update_eval)

lemmas mem_evals = access_evals deref_mem_eval set_mem_eval

lemma rdonly_keep [simp]:
  "bio_flags (BIO_clear_retry_flags a) AND BIO_FLAGS_MEM_RDONLY = bio_flags a AND BIO_FLAGS_MEM_RDONLY"
  "bio_flags (BIO_set_retry_read a) AND BIO_FLAGS_MEM_RDONLY = bio_flags a AND BIO_FLAGS_MEM_RDONLY"
proof -
  have "NOT kRetryFlags AND BIO_FLAGS_MEM_RDONLY = BIO_FLAGS_MEM_RDONLY"
    "(BIO_FLAGS_READ OR BIO_FLAGS_SHOULD_RETRY) AND BIO_FLAGS_MEM_RDONLY = 0"
    by (simp_all add: kRetryFlags_def BIO_FLAGS_RWS_def BIO_FLAGS_READ_def BIO_FLAGS_WRITE_def
        BIO_FLAGS_IO_SPECIAL_def BIO_FLAGS_SHOULD_RETRY_def BIO_FLAGS_MEM_RDONLY_def)
  then show "bio_flags (BIO_clear_retry_flags a) AND BIO_FLAGS_MEM_RDONLY = bio_flags a AND BIO_FLAGS_MEM_RDONLY"
    "bio_flags (BIO_set_retry_read a) AND BIO_FLAGS_MEM_RDONLY = bio_flags a AND BIO_FLAGS_MEM_RDONLY"
    by (simp_all add: BIO_clear_retry_flags_def BIO_set_retry_read_def and.assoc bit.conj_disj_distrib2)
qed

lemma bio_num_keep [simp]: "bio_num (BIO_clear_retry_flags a) = bio_num a" "bio_num (BIO_set_retry_read a) = bio_num a"
  by (simp_all add: BIO_clear_retry_flags_def BIO_set_retry_read_def)

lemma mem_read_ok:
  assumes "mem_bio i w b" and "0 < n" and "n \<le> INT_MAX"
  shows "\<exists>r b' w'. mem_read i (int n) w = (Some (r, take n (bm_bytes b)), w') \<and> mem_bio i w' b' \<and>
    bm_bytes b' = drop n (bm_bytes b)"
proof -
  obtain a where a: "i < length (bios w)" "bios w ! i = Some a" "bio_method a = mem_method" "bio_init a"
    "bio_ptr a = Ptr_mem b 0" "bio_flags a AND BIO_FLAGS_MEM_RDONLY = 0" "bio_num a < 0"
    "bm_ok b" "bm_length b \<le> INT_MAX" using assms(1) by (elim mem_bioD)
  define m where "m = min n (bm_length b)"
  note ev = mem_read_def and_then_def mem_evals nth_list_update a Let_def mem_bio_def
  show ?thesis
  proof (cases "bm_length b = 0")
    case True
    then have "bm_bytes b = []" by (simp add: bm_bytes_def split: option.split)
    moreover have "bio_num a \<noteq> 0" "0 < INT_MAX" using a(7) by (simp_all add: INT_MAX_def)
    ultimately show ?thesis using True assms(2) a
      by (intro exI [of _ "bio_num a"] exI [of _ b])
        (simp add: mem_read_def and_then_def mem_evals nth_list_update Let_def mem_bio_def)
  next
    case False
    then obtain d where d: "bm_data b = Some d" "length d = bm_max b" "bm_length b \<le> length d"
      using a(8) by (auto simp: bm_ok_def split: option.splits)
    let ?b = "b\<lparr>bm_length := bm_length b - m, bm_data := Some (put_bytes d 0 (take (bm_length b - m) (drop m d)))\<rparr>"
    have pos: "0 < m" "m \<le> bm_length b" using assms(2) False by (auto simp: m_def)
    have "bm_bytes ?b = drop m (bm_bytes b)" "bm_ok ?b"
      using d pos by (auto simp: bm_bytes_def bm_ok_def put_bytes_def drop_take)
    moreover have "take m d = take n (bm_bytes b)" "drop m (bm_bytes b) = drop n (bm_bytes b)"
      using d by (auto simp: m_def bm_bytes_def min_def)
    moreover have "m = bm_length b \<and> bm_length b < INT_MAX \<and> bm_length b < n \<or> m = n \<and> \<not> bm_length b < n"
      using assms(3) by (auto simp: m_def)
    moreover have "bm_length b - m \<le> INT_MAX" using a(9) by linarith
    ultimately show ?thesis using pos d
      by (intro exI [of _ "int m"] exI [of _ ?b]) (elim disjE conjE; simp add: ev)
  qed
qed

lemma mem_write_ok:
  assumes "mem_bio i w b" and "bs \<noteq> []" and "length bs \<le> INT_MAX"
  shows "\<exists>r b' w'. mem_write i bs (int (length bs)) w = (Some r, w') \<and> mem_bio i w' b' \<and>
    (r = -1 \<and> bm_bytes b' = bm_bytes b \<or> r = int (length bs) \<and> bm_bytes b' = bm_bytes b @ bs)"
proof -
  obtain a where a: "i < length (bios w)" "bios w ! i = Some a" "bio_method a = mem_method" "bio_init a"
    "bio_ptr a = Ptr_mem b 0" "bio_flags a AND BIO_FLAGS_MEM_RDONLY = 0" "bio_num a < 0"
    "bm_ok b" "bm_length b \<le> INT_MAX" using assms(1) by (elim mem_bioD)
  let ?n = "bm_length b + length bs"
  note ev = mem_write_def and_then_def mem_evals nth_list_update a Let_def mem_bio_def with_buf_def
  show ?thesis
  proof (cases "INT_MAX < ?n")
    case True
    then show ?thesis by (intro exI [of _ "-1"] exI [of _ b]) (simp add: ev)
  next
    case False
    then have sz: "size_of_int (int (bm_length b) + int (length bs)) = ?n"
      "size_add (size_of_int (int (bm_length b))) (size_of_int (int (length bs))) = ?n"
      by (simp_all add: INT_MAX_def SIZE_MAX_def nat_add_distrib)
    have nle: "\<not> int INT_MAX - int (bm_length b) < int (length bs)" using False by simp
    obtain r b1 m where g: "BUF_MEM_grow_clean ?n (b, w_mem w) = (r, (b1, m))" by (metis prod_cases3)
    show ?thesis
    proof (cases r)
      case None
      then have b1: "b1 = b" using g
        by (auto simp: BUF_MEM_grow_clean_def BUF_MEM_grow_def BUF_MEM_reserve_def and_then_def Let_def
            split: prod.splits option.splits if_splits)
      show ?thesis using g None b1 sz nle assms(2) by (intro exI [of _ "-1"] exI [of _ b]) (simp add: ev)
    next
      case (Some k)
      have "?n < 2 ^ 63" using False by (simp add: INT_MAX_def)
      from BUF_MEM_grow_ok [OF a(8) this] g Some
      have b1: "k = ?n" "bm_ok b1" "bm_bytes b1 = take ?n (bm_bytes b) @ replicate (length bs) 0"
        by (auto simp: BUF_MEM_grow_clean_def)
      have len: "bm_length b1 = ?n" using g Some
        by (auto simp: BUF_MEM_grow_clean_def BUF_MEM_grow_def and_then_def Let_def split: prod.splits option.splits)
      then obtain d where d: "bm_data b1 = Some d" "length d = bm_max b1" "?n \<le> length d"
        using b1(2) assms(2) by (auto simp: bm_ok_def split: option.splits)
      let ?b = "b1\<lparr>bm_data := Some (put_bytes d (bm_length b) bs)\<rparr>"
      note l = length_bm_bytes [OF a(8)]
      have "take ?n d = bm_bytes b @ replicate (length bs) 0"
        using b1(3) d len l by (simp add: bm_bytes_def [of b1])
      then have "take (bm_length b) (take ?n d) = bm_bytes b" using l by simp
      then have "put_bytes d (bm_length b) bs = bm_bytes b @ bs @ drop ?n d" by (simp add: put_bytes_def)
      moreover have "bm_bytes ?b = take ?n (put_bytes d (bm_length b) bs)"
        using len by (simp add: bm_bytes_def)
      ultimately have "bm_bytes ?b = bm_bytes b @ bs" "bm_ok ?b"
        using d len b1(2) l by (simp_all add: bm_ok_def)
      then show ?thesis using g Some b1(1) sz nle d len assms(2) False
        by (intro exI [of _ "int (length bs)"] exI [of _ ?b]) (simp add: ev)
    qed
  qed
qed

definition mem_send :: "nat \<Rightarrow> bio_world sender" where
  "mem_send i bs = BIO_write (Some i) (Some bs) (int (length bs))"

definition mem_recv :: "nat \<Rightarrow> bio_world receiver" where
  "mem_recv i n = BIO_read (Some i) True (int n)"

lemma mem_bio_counters:
  assumes "mem_bio i w b" and "bios w ! i = Some a" and "bio_method a' = bio_method a"
    and "bio_init a' = bio_init a" and "bio_ptr a' = bio_ptr a" and "bio_flags a' = bio_flags a"
    and "bio_num a' = bio_num a"
  shows "mem_bio i (w\<lparr>bios := (bios w)[i := Some a']\<rparr>) b"
  using assms by (auto simp: mem_bio_def split: option.splits)

lemma mem_open_at: "mem_bio i w b \<Longrightarrow> mem_open i w \<and> mem_pending i w = bm_bytes b"
  by (simp add: mem_open_def mem_pending_def mem_bio_buffer)

lemma mem_send_ok:
  assumes "mem_open i w" and "length bs \<le> INT_MAX"
  shows "\<exists>r w'. mem_send i bs w = (Some r, w') \<and> mem_open i w' \<and> r \<le> int (length bs) \<and>
    mem_pending i w' = mem_pending i w @ take (nat r) bs"
proof (cases "bs = []")
  case True
  with assms(1) show ?thesis unfolding mem_open_def
    by (elim mem_bioD)
      (auto simp: mem_send_def BIO_write_def and_then_def access_evals mem_open_def mem_bio_def)
next
  case False
  have w: "mem_bio i w (mem_buffer i w)" using assms(1) by (simp add: mem_open_def)
  obtain r b' w1 where m: "mem_write i bs (int (length bs)) w = (Some r, w1)" "mem_bio i w1 b'"
    "r = -1 \<and> bm_bytes b' = bm_bytes (mem_buffer i w) \<or>
     r = int (length bs) \<and> bm_bytes b' = bm_bytes (mem_buffer i w) @ bs"
    using mem_write_ok [OF w False assms(2)] by blast
  obtain a where a: "i < length (bios w)" "bios w ! i = Some a" "bio_method a = mem_method" "bio_init a"
    using w by (elim mem_bioD)
  obtain a1 where a1: "i < length (bios w1)" "bios w1 ! i = Some a1" using m(2) by (elim mem_bioD)
  have n: "0 < length bs" using False by simp
  show ?thesis
  proof (cases "r = -1")
    case True
    then show ?thesis using m a n mem_open_at [OF m(2)] mem_open_at [OF w]
      by (auto simp: mem_send_def BIO_write_def method_write_def and_then_def access_evals)
  next
    case False
    define w2 where "w2 = w1\<lparr>bios := (bios w1)[i := Some (a1\<lparr>num_write := size_add (num_write a1) (nat r)\<rparr>)]\<rparr>"
    have "mem_bio i w2 b'" unfolding w2_def using m(2) a1 by (intro mem_bio_counters) simp_all
    moreover have "mem_send i bs w = (Some r, w2)" using m False a a1 n
      by (auto simp: mem_send_def BIO_write_def method_write_def and_then_def access_evals w2_def)
    ultimately show ?thesis using m(3) False mem_open_at [OF w] mem_open_at [of i w2 b'] by auto
  qed
qed

lemma mem_recv_ok:
  assumes "mem_open i w" and "n \<le> INT_MAX"
  shows "\<exists>r w'. mem_recv i n w = (Some (r, take n (mem_pending i w)), w') \<and> mem_open i w' \<and>
    mem_pending i w' = drop n (mem_pending i w)"
proof (cases "n = 0")
  case True
  with assms(1) show ?thesis unfolding mem_open_def
    by (elim mem_bioD) (auto simp: mem_recv_def BIO_read_def and_then_def access_evals mem_open_def mem_bio_def)
next
  case False
  then have n: "0 < n" by simp
  have w: "mem_bio i w (mem_buffer i w)" using assms(1) by (simp add: mem_open_def)
  obtain r b' w1 where m: "mem_read i (int n) w = (Some (r, take n (mem_pending i w)), w1)" "mem_bio i w1 b'"
    "bm_bytes b' = drop n (mem_pending i w)"
    using mem_read_ok [OF w n assms(2)] unfolding mem_pending_def by blast
  obtain a where a: "i < length (bios w)" "bios w ! i = Some a" "bio_method a = mem_method" "bio_init a"
    using w by (elim mem_bioD)
  obtain a1 where a1: "i < length (bios w1)" "bios w1 ! i = Some a1" using m(2) by (elim mem_bioD)
  define w2 where "w2 = (if r > 0
    then w1\<lparr>bios := (bios w1)[i := Some (a1\<lparr>num_read := size_add (num_read a1) (nat r)\<rparr>)]\<rparr> else w1)"
  have "mem_bio i w2 b'"
    using mem_bio_counters [OF m(2) a1(2), of "a1\<lparr>num_read := size_add (num_read a1) (nat r)\<rparr>"] m(2)
    by (auto simp: w2_def)
  moreover have "mem_recv i n w = (Some (r, take n (mem_pending i w)), w2)" using m a a1 n
    by (auto simp: mem_recv_def BIO_read_def method_read_def and_then_def access_evals w2_def)
  ultimately show ?thesis using m(3) mem_open_at [of i w2 b'] by auto
qed

interpretation membio: byte_channel "mem_open i" "mem_pending i" "mem_send i" "mem_recv i" for i
  by unfold_locales (use mem_send_ok mem_recv_ok in blast)+

section \<open>Calls on a pair\<close>

text \<open>What a program can do with the two ends it got, other than freeing them.\<close>

datatype pair_call = Pair_write nat "u8 list" | Pair_read nat nat | Pair_ctrl nat bio_cmd int "nat option"

definition pair_exec :: "pair_call \<Rightarrow> int io" where
  "pair_exec c =
     (case c of
        Pair_write k bs \<Rightarrow> BIO_write (Some k) (Some bs) (int (length bs))
      | Pair_read k n \<Rightarrow> and_then (BIO_read (Some k) True (int n)) (\<lambda>(r, bs). ret r)
      | Pair_ctrl k cmd larg parg \<Rightarrow> BIO_ctrl (Some k) cmd larg parg)"

definition is_pair_call :: "nat \<Rightarrow> nat \<Rightarrow> pair_call \<Rightarrow> bool" where
  "is_pair_call i j c =
     (case c of
        Pair_write k bs \<Rightarrow> k \<in> {i, j} \<and> length bs \<le> INT_MAX
      | Pair_read k n \<Rightarrow> k \<in> {i, j} \<and> n \<le> INT_MAX
      | Pair_ctrl k cmd larg parg \<Rightarrow> k \<in> {i, j} \<and> parg \<in> {None, Some i, Some j})"

inductive pair_step :: "nat \<Rightarrow> nat \<Rightarrow> bio_world \<Rightarrow> bio_world \<Rightarrow> bool" for i j where
  call: "is_pair_call i j c \<Longrightarrow> pair_exec c w = (r, w') \<Longrightarrow> pair_step i j w w'"

inductive_cases pair_stepE: "pair_step i j w w'"

lemma bio_ctrl_pair:
  assumes "pair_at i j w p q" and "parg \<in> {None, Some i, Some j}"
  shows "\<exists>r p' w'. BIO_ctrl (Some i) cmd larg parg w = (Some r, w') \<and> pair_at i j w' p' q \<and>
    ring p' = ring p \<and> bb_size p' = bb_size p"
proof -
  obtain a b where ab: "i < length (bios w)" "bios w ! i = Some a" "bio_method a = methods_biop" "bio_init a"
    "bio_ptr a = Ptr_pair p" "j < length (bios w)" "bios w ! j = Some b" "bio_method b = methods_biop" "bio_init b"
    "bio_ptr b = Ptr_pair q" "i \<noteq> j" "end_ok p j" "end_ok q i" using assms(1) by (elim pair_atD)
  then have peer: "bb_peer p = Some j" by (simp add: end_ok_def)
  note ev = BIO_ctrl_def method_ctrl_def bio_ctrl_def and_then_def access_evals nth_list_update peer
  show ?thesis
  proof (cases "cmd = BIO_C_RESET_READ_REQUEST \<or> cmd = BIO_C_SHUTDOWN_WR")
    case True
    then show ?thesis using ab
      by (elim disjE; intro exI [of _ 1] exI [of _ "if cmd = BIO_C_SHUTDOWN_WR then p\<lparr>bb_closed := True\<rparr>
          else p\<lparr>bb_request := 0\<rparr>"]) (auto simp: ev pair_at_def holds_def end_ok_def ring_def ring_ok_def split: option.splits)
  next
    case False
    have "\<exists>r w'. BIO_ctrl (Some i) cmd larg parg w = (Some r, w') \<and> pair_at i j w' p q"
    proof (cases "cmd = BIO_CTRL_SET_CLOSE")
      case True
      then show ?thesis using ab by (auto simp: ev pair_at_def holds_def)
    next
      case f: False
      have "\<exists>r. BIO_ctrl (Some i) cmd larg parg w = (Some r, w)"
        using ab assms(2) False f by (cases cmd; cases parg) (auto simp: ev)
      with assms(1) show ?thesis by blast
    qed
    then show ?thesis by blast
  qed
qed

lemma pair_exec_ok:
  assumes "paired i j w" and "is_pair_call i j c"
  shows "\<exists>r w'. pair_exec c w = (Some r, w') \<and> paired i j w'"
proof -
  let ?p = "out_buffer i w" and ?q = "out_buffer j w"
  have p: "pair_at i j w ?p ?q" using assms(1) by (simp add: paired_def)
  then have q: "pair_at j i w ?q ?p" by (simp add: pair_at_sym)
  have sym: "pair_at j i w' a b \<Longrightarrow> paired i j w'" for w' a b
    by (rule paired_at) (simp add: pair_at_sym)
  show ?thesis
  proof (cases c)
    case (Pair_write k bs)
    with assms(2) have "k = i \<or> k = j" and n: "length bs \<le> INT_MAX" by (auto simp: is_pair_call_def)
    then show ?thesis
    proof (elim disjE)
      assume "k = i"
      then show ?thesis using BIO_write_pair [OF p n order.refl] paired_at Pair_write
        by (auto simp: pair_exec_def)
    next
      assume "k = j"
      then show ?thesis using BIO_write_pair [OF q n order.refl] sym Pair_write by (auto simp: pair_exec_def)
    qed
  next
    case (Pair_read k n)
    with assms(2) have "k = i \<or> k = j" and n: "n \<le> INT_MAX" by (auto simp: is_pair_call_def)
    then show ?thesis
    proof (elim disjE)
      assume k: "k = j"
      then obtain r bs p' w' where "BIO_read (Some k) True (int n) w = (Some (r, bs), w')" "pair_at i j w' p' ?q"
        using BIO_read_pair [OF p n] by blast
      then show ?thesis using paired_at Pair_read by (auto simp: pair_exec_def and_then_def)
    next
      assume k: "k = i"
      then obtain r bs p' w' where "BIO_read (Some k) True (int n) w = (Some (r, bs), w')" "pair_at j i w' p' ?p"
        using BIO_read_pair [OF q n] by blast
      then show ?thesis using sym Pair_read by (auto simp: pair_exec_def and_then_def)
    qed
  next
    case (Pair_ctrl k cmd larg parg)
    with assms(2) have "k = i \<or> k = j" and n: "parg \<in> {None, Some i, Some j}" "parg \<in> {None, Some j, Some i}"
      by (auto simp: is_pair_call_def)
    then show ?thesis
    proof (elim disjE)
      assume "k = i"
      then show ?thesis using bio_ctrl_pair [OF p n(1)] paired_at Pair_ctrl by (fastforce simp: pair_exec_def)
    next
      assume "k = j"
      then show ?thesis using bio_ctrl_pair [OF q n(2)] sym Pair_ctrl by (fastforce simp: pair_exec_def)
    qed
  qed
qed

section \<open>Making and freeing a pair\<close>

definition fresh_end :: "bio_bio_st" where
  "fresh_end = \<lparr>bb_peer = None, bb_closed = False, bb_len = 0, bb_offset = 0, bb_size = 17 * 1024,
     bb_buf = None, bb_request = 0\<rparr>"

text \<open>An end that is not connected, with the only reference to it and nothing behind it in a chain.\<close>

definition single :: "nat \<Rightarrow> bio_world \<Rightarrow> bio_bio_st \<Rightarrow> bool" where
  "single i w p \<longleftrightarrow> i < length (bios w) \<and> bb_peer p = None \<and>
     (case bios w ! i of None \<Rightarrow> False
      | Some a \<Rightarrow> bio_method a = methods_biop \<and> bio_ptr a = Ptr_pair p \<and> bio_references a = 1 \<and> next_bio a = None)"

lemma singleD:
  assumes "single i w p"
  obtains a where "i < length (bios w)" "bios w ! i = Some a" "bio_method a = methods_biop"
    "bio_ptr a = Ptr_pair p" "bio_references a = 1" "next_bio a = None" "bb_peer p = None"
  using assms that by (auto simp: single_def split: option.splits)

text \<open>What a part of a program does with the allocator: \<open>c\<close> requests, and \<open>b\<close> more live blocks.\<close>

definition spent :: "mem \<Rightarrow> mem \<Rightarrow> nat \<Rightarrow> int \<Rightarrow> bool" where
  "spent m m' c b \<longleftrightarrow> mem_ok m' = mem_ok m \<and> mem_calls m' = mem_calls m + c \<and> blocks m' = blocks m + b"

text \<open>The next requests are for blocks of these sizes, and all are granted.\<close>

fun all_granted :: "(nat \<Rightarrow> nat \<Rightarrow> bool) \<Rightarrow> nat \<Rightarrow> nat list \<Rightarrow> bool" where
  "all_granted ok k [] = True"
| "all_granted ok k (n # ns) = (ok k (size_add n OPENSSL_MALLOC_PREFIX) \<and> all_granted ok (Suc k) ns)"

lemma spent_refl: "spent m m 0 0"
  by (simp add: spent_def)

lemma spent_trans: "spent m m1 c b \<Longrightarrow> spent m1 m2 c' b' \<Longrightarrow> spent m m2 (c + c') (b + b')"
  by (simp add: spent_def)

lemma spent_malloc:
  assumes "OPENSSL_malloc n m = (r, m')"
  shows "spent m m' 1 (if r = None then 0 else 1)"
    and "r \<noteq> None \<longleftrightarrow> mem_ok m (mem_calls m) (size_add n OPENSSL_MALLOC_PREFIX)"
  using assms by (auto simp: spent_def blocks_def OPENSSL_malloc_def libc_malloc_def and_then_def split: if_splits)

lemma spent_free: "spent m (OPENSSL_free p m) 0 (if p = None then 0 else -1)"
  by (cases p) (simp_all add: spent_def blocks_def OPENSSL_free_def libc_free_def Let_def)

lemma spentD: "spent m m' c b \<Longrightarrow> mem_ok m' = mem_ok m" "spent m m' c b \<Longrightarrow> mem_calls m' = mem_calls m + c"
  by (simp_all add: spent_def)

lemma free_single:
  assumes "single i w p"
  shows "\<exists>m. BIO_free (Some i) w = (Some 1, w\<lparr>w_mem := m, bios := (bios w)[i := None]\<rparr>) \<and>
    spent (w_mem w) m 0 (if bb_buf p = None then -2 else -3)"
proof -
  let ?m1 = "OPENSSL_free (bb_buf p) (w_mem w)"
  let ?m2 = "OPENSSL_free (Some (replicate 56 0)) ?m1"
  let ?m3 = "OPENSSL_free (Some (replicate 64 0)) ?m2"
  have "BIO_free (Some i) w = (Some 1, w\<lparr>w_mem := ?m3, bios := (bios w)[i := None]\<rparr>)"
    using assms
    by (elim singleD)
      (simp add: BIO_free.simps(2) free_one_def and_then_def access_evals CRYPTO_refcount_dec_and_test_zero_def CRYPTO_REFCOUNT_MAX_def
        BIO_pop_def method_destroy_def bio_free_def free_block_def store_def nth_list_update)
  moreover have "spent (w_mem w) ?m3 0 (if bb_buf p = None then -2 else -3)"
    using spent_trans [OF spent_trans [OF spent_free [of "w_mem w" "bb_buf p"] spent_free [of _ "Some (replicate 56 0)"]]
        spent_free [of _ "Some (replicate 64 0)"]]
    by (cases "bb_buf p") simp_all
  ultimately show ?thesis by blast
qed

lemma BIO_new_biop:
  obtains (full) m e xs where "BIO_new methods_biop w = (Some None, w\<lparr>w_mem := m, w_errs := e, bios := bios w @ xs\<rparr>)"
      "xs = [] \<or> xs = [None]" "\<exists>c. spent (w_mem w) m c 0" "\<not> all_granted (mem_ok (w_mem w)) (mem_calls (w_mem w)) [64, 56]"
  | (made) m a where "BIO_new methods_biop w = (Some (Some (length (bios w))), w\<lparr>w_mem := m, bios := bios w @ [Some a]\<rparr>)"
      "single (length (bios w)) (w\<lparr>w_mem := m, bios := bios w @ [Some a]\<rparr>) fresh_end" "spent (w_mem w) m 2 2"
      "all_granted (mem_ok (w_mem w)) (mem_calls (w_mem w)) [64, 56]"
proof -
  obtain r m where 1: "OPENSSL_malloc 64 (w_mem w) = (r, m)" by fastforce
  obtain r' m' where 2: "OPENSSL_malloc 56 m = (r', m')" by fastforce
  note s1 = spent_malloc [OF 1] and s2 = spent_malloc [OF 2]
  show ?thesis
  proof (cases r)
    case None
    have "BIO_new methods_biop w = (Some None, w\<lparr>w_mem := m, w_errs := ERR_R_MALLOC_FAILURE # w_errs w, bios := bios w @ []\<rparr>)"
      using 1 None by (simp add: BIO_new_def and_then_def with_mem_def put_error_def)
    then show ?thesis by (rule full) (use s1 None in auto)
  next
    case (Some x)
    note s12 = spent_trans [OF s1(1) s2(1)]
    have ok: "mem_ok m = mem_ok (w_mem w)" "mem_calls m = Suc (mem_calls (w_mem w))" using spentD [OF s1(1)] by simp_all
    show ?thesis
    proof (cases r')
      case None
      let ?m = "OPENSSL_free (Some (replicate 64 0)) m'"
      have b: "BIO_new methods_biop w = (Some None, w\<lparr>w_mem := ?m, w_errs := w_errs w, bios := bios w @ [None]\<rparr>)"
        using 1 2 Some None by (simp add: BIO_new_def and_then_def with_mem_def Let_def method_create_def bio_new_def
            store_def free_block_def)
      have sp: "\<exists>c. spent (w_mem w) ?m c 0"
        using spent_trans [OF s12 spent_free [of _ "Some (replicate 64 0)"]] Some None by auto
      show ?thesis by (rule full [OF b _ sp]) (use s2(2) None ok in auto)
    next
      case s: (Some y)
      let ?a = "\<lparr>bio_method = methods_biop, bio_init = False, bio_shutdown = 1, bio_flags = 0,
              bio_retry_reason = 0, bio_num = 0, bio_references = 1, bio_ptr = Ptr_pair fresh_end,
              next_bio = None, num_read = 0, num_write = 0\<rparr>"
      have "BIO_new methods_biop w = (Some (Some (length (bios w))), w\<lparr>w_mem := m', bios := bios w @ [Some ?a]\<rparr>)"
        "single (length (bios w)) (w\<lparr>w_mem := m', bios := bios w @ [Some ?a]\<rparr>) fresh_end"
        using 1 2 Some s
        by (simp_all add: BIO_new_def and_then_def with_mem_def Let_def method_create_def bio_new_def
            set_pair_def update_def deref_def store_def single_def fresh_end_def)
      then show ?thesis by (rule made) (use s12 s1(2) s2(2) Some s ok in \<open>auto simp: numeral_2_eq_2\<close>)
    qed
  qed
qed

lemma single_other:
  assumes "single i w p"
  shows "single i (w\<lparr>w_mem := m, w_errs := e, bios := bios w @ xs\<rparr>) p"
    and "single i (w\<lparr>w_mem := m, bios := bios w @ xs\<rparr>) p"
    and "single i (w\<lparr>w_mem := m, w_errs := e\<rparr>) p"
    and "i \<noteq> k \<Longrightarrow> single i (w\<lparr>w_mem := m, bios := (bios w)[k := b]\<rparr>) p"
  using assms by (auto simp: single_def nth_append split: option.splits)

text \<open>The buffer of an end that has none yet.\<close>

definition buffer_size :: "nat \<Rightarrow> nat" where
  "buffer_size n = (if n \<noteq> 0 then n else 17 * 1024)"

definition live_buffer :: "bio_bio_st \<Rightarrow> int" where
  "live_buffer p = (if bb_buf p = None then 0 else 1)"

lemma pair_buffer_fresh:
  assumes "single i w fresh_end" and "n \<le> SIZE_MAX div 2"
  shows "\<exists>ok w' p b. pair_buffer i n w = (Some ok, w') \<and> single i w' p \<and>
    bios w' = (bios w)[i := b] \<and> spent (w_mem w) (w_mem w') 1 (live_buffer p) \<and> live_buffer p = (if ok then 1 else 0) \<and>
    (ok \<longleftrightarrow> mem_ok (w_mem w) (mem_calls (w_mem w)) (size_add (buffer_size n) OPENSSL_MALLOC_PREFIX)) \<and>
    (ok \<longrightarrow> ring_ok p \<and> bb_len p = 0 \<and> bb_size p = buffer_size n \<and> \<not> bb_closed p)"
proof -
  let ?p = "fresh_end\<lparr>bb_size := buffer_size n\<rparr>"
  obtain a where a: "i < length (bios w)" "bios w ! i = Some a" "bio_method a = methods_biop"
    "bio_ptr a = Ptr_pair fresh_end" "bio_references a = 1" "next_bio a = None" using assms(1) by (elim singleD)
  obtain r m where r: "OPENSSL_malloc (buffer_size n) (w_mem w) = (r, m)" by fastforce
  have p: "(if 0 < n then fresh_end\<lparr>bb_size := n\<rparr> else fresh_end) = ?p"
    by (simp add: buffer_size_def fresh_end_def)
  have sz: "buffer_size n \<le> SIZE_MAX div 2" "0 < buffer_size n"
    using assms(2) by (auto simp: buffer_size_def SIZE_MAX_def)
  note ev = pair_buffer_def and_then_def access_evals with_mem_def nth_list_update a Let_def single_def
  show ?thesis
  proof (cases r)
    case None
    show ?thesis using r None spent_malloc [OF r]
      by (intro exI [of _ False] exI [of _ "w\<lparr>w_mem := m, w_errs := ERR_R_MALLOC_FAILURE # w_errs w,
            bios := (bios w)[i := Some (a\<lparr>bio_ptr := Ptr_pair ?p\<rparr>)]\<rparr>"] exI [of _ ?p] exI [of _ "Some (a\<lparr>bio_ptr := Ptr_pair ?p\<rparr>)"])
        (simp add: ev p, simp add: fresh_end_def live_buffer_def)
  next
    case (Some d)
    then have "length d = buffer_size n" using r sz OPENSSL_malloc_length [of "buffer_size n" "w_mem w" d m]
      by (simp add: SIZE_MAX_def)
    then have "ring_ok (?p\<lparr>bb_buf := Some d\<rparr>)" using sz by (simp add: ring_ok_def fresh_end_def)
    with r Some spent_malloc [OF r] show ?thesis
      by (intro exI [of _ True] exI [of _ "w\<lparr>w_mem := m,
            bios := (bios w)[i := Some (a\<lparr>bio_ptr := Ptr_pair (?p\<lparr>bb_buf := Some d\<rparr>)\<rparr>)]\<rparr>"]
          exI [of _ "?p\<lparr>bb_buf := Some d\<rparr>"] exI [of _ "Some (a\<lparr>bio_ptr := Ptr_pair (?p\<lparr>bb_buf := Some d\<rparr>)\<rparr>)"])
        (simp add: ev p, simp add: fresh_end_def live_buffer_def)
  qed
qed

lemma updates_twice: "i \<noteq> j \<Longrightarrow> xs[i := p, j := q, i := r, j := s] = xs[i := r, j := s]"
  using list_update_swap [of j i "xs[i := p]" q r] by simp

lemma single_frame:
  assumes "single i w p" and "length (bios w') = length (bios w)" and "bios w' ! i = bios w ! i"
  shows "single i w' p"
  using assms by (simp add: single_def)

lemma bio_make_pair_fresh:
  assumes "single i w fresh_end" and "single j w fresh_end" and "i \<noteq> j"
    and "n1 \<le> SIZE_MAX div 2" and "n2 \<le> SIZE_MAX div 2"
  shows "\<exists>ok w' p q a b. bio_make_pair i j n1 n2 w = (Some ok, w') \<and> bios w' = (bios w)[i := a, j := b] \<and>
    (\<exists>c. spent (w_mem w) (w_mem w') c (live_buffer p + live_buffer q)) \<and>
    (ok = 0 \<longleftrightarrow> \<not> all_granted (mem_ok (w_mem w)) (mem_calls (w_mem w)) [buffer_size n1, buffer_size n2]) \<and>
    (if ok = 0 then single i w' p \<and> single j w' q
     else ok = 1 \<and> live_buffer p = 1 \<and> live_buffer q = 1 \<and> pair_at i j w' p q \<and> bb_size p = buffer_size n1 \<and> bb_size q = buffer_size n2 \<and>
       ring p = [] \<and> ring q = [] \<and> \<not> bb_closed p \<and> \<not> bb_closed q)"
proof -
  obtain ok1 w1 p x where 1: "pair_buffer i n1 w = (Some ok1, w1)" "single i w1 p" "bios w1 = (bios w)[i := x]"
    "spent (w_mem w) (w_mem w1) 1 (live_buffer p)" "live_buffer p = (if ok1 then 1 else 0)"
    "ok1 \<longleftrightarrow> mem_ok (w_mem w) (mem_calls (w_mem w)) (size_add (buffer_size n1) OPENSSL_MALLOC_PREFIX)"
    "ok1 \<longrightarrow> ring_ok p \<and> bb_len p = 0 \<and> bb_size p = buffer_size n1 \<and> \<not> bb_closed p"
    using pair_buffer_fresh [OF assms(1,4)] by blast
  have j1: "single j w1 fresh_end" 
    by (rule single_frame [OF assms(2)]) (use 1(3) assms(3) in simp_all)
  have start: "bio_make_pair i j n1 n2 w = and_then (pair_buffer i n1) (\<lambda>ok. if \<not> ok then ret 0 else
     and_then (pair_buffer j n2) (\<lambda>ok. if \<not> ok then ret 0 else
         and_then (deref_pair i) (\<lambda>b1.
         and_then (set_pair i (b1\<lparr>bb_peer := Some j, bb_closed := False, bb_request := 0\<rparr>)) (\<lambda>_.
         and_then (deref_pair j) (\<lambda>b2.
         and_then (set_pair j (b2\<lparr>bb_peer := Some i, bb_closed := False, bb_request := 0\<rparr>)) (\<lambda>_.
         and_then (update i (\<lambda>b. b\<lparr>bio_init := True\<rparr>)) (\<lambda>_.
         and_then (update j (\<lambda>b. b\<lparr>bio_init := True\<rparr>)) (\<lambda>_. ret 1)))))))) w"
  proof -
    have d: "deref_pair i w = (Some fresh_end, w)" "deref_pair j w = (Some fresh_end, w)"
      using assms(1,2) by (auto elim!: singleD simp: deref_pair_eval)
    have "bb_peer fresh_end = None" by (simp add: fresh_end_def)
    then show ?thesis
      by (simp only: bio_make_pair_def and_then_eval [of "deref_pair i" w, OF d(1)]
        and_then_eval [of "deref_pair j" w, OF d(2)] simp_thms if_False)
  qed
  have wj: "bios w1 = (bios w)[i := x, j := bios w ! j]" using 1(3) assms(3) by (metis list_update_id list_update_swap)
  show ?thesis
  proof (cases ok1)
    case False
    have "live_buffer fresh_end = 0" by (simp add: live_buffer_def fresh_end_def)
    with False show ?thesis using 1(1,2,4,6) j1 wj start
      by (intro exI [of _ 0] exI [of _ w1] exI [of _ p] exI [of _ fresh_end] exI [of _ x] exI [of _ "bios w ! j"])
        (auto simp: and_then_def)
  next
    case ok1: True
    obtain ok2 w2 q y where 2: "pair_buffer j n2 w1 = (Some ok2, w2)" "single j w2 q" "bios w2 = (bios w1)[j := y]"
      "spent (w_mem w1) (w_mem w2) 1 (live_buffer q)" "live_buffer q = (if ok2 then 1 else 0)"
      "ok2 \<longleftrightarrow> mem_ok (w_mem w1) (mem_calls (w_mem w1)) (size_add (buffer_size n2) OPENSSL_MALLOC_PREFIX)"
      "ok2 \<longrightarrow> ring_ok q \<and> bb_len q = 0 \<and> bb_size q = buffer_size n2 \<and> \<not> bb_closed q"
      using pair_buffer_fresh [OF j1 assms(5)] by blast
    have i2: "single i w2 p" 
      by (rule single_frame [OF 1(2)]) (use 2(3) assms(3) in simp_all)
    have w2: "bios w2 = (bios w)[i := x, j := y]" using 1(3) 2(3) by simp
    have sp: "spent (w_mem w) (w_mem w2) 2 (live_buffer p + live_buffer q)" using spent_trans [OF 1(4) 2(4)] by (simp add: numeral_2_eq_2)
    have g: "all_granted (mem_ok (w_mem w)) (mem_calls (w_mem w)) [buffer_size n1, buffer_size n2] = ok2"
      using ok1 1(6) 2(6) spentD [OF 1(4)] by simp
    show ?thesis
    proof (cases ok2)
      case False
      then show ?thesis using 1(1) 2(1,2) i2 ok1 w2 sp g start
        by (intro exI [of _ 0] exI [of _ w2] exI [of _ p] exI [of _ q] exI [of _ x] exI [of _ y]) (auto simp: and_then_def)
    next
      case True
      let ?p = "p\<lparr>bb_peer := Some j, bb_closed := False, bb_request := 0\<rparr>"
      let ?q = "q\<lparr>bb_peer := Some i, bb_closed := False, bb_request := 0\<rparr>"
      have ok: "ring_ok ?p" "ring_ok ?q" "ring ?p = []" "ring ?q = []"
        using 1(7) 2(7) ok1 True by (auto simp: ring_ok_def ring_def split: option.splits)
      obtain a b where ab: "i < length (bios w2)" "bios w2 ! i = Some a" "bio_method a = methods_biop"
        "bio_ptr a = Ptr_pair p" "j < length (bios w2)" "bios w2 ! j = Some b" "bio_method b = methods_biop"
        "bio_ptr b = Ptr_pair q" using 2(2) i2 by (auto elim!: singleD)
      have "\<exists>w'. bio_make_pair i j n1 n2 w = (Some 1, w') \<and> pair_at i j w' ?p ?q \<and> w_mem w' = w_mem w2 \<and>
          (\<exists>a b. bios w' = (bios w2)[i := a, j := b])"
        using ab 1(1) 2(1) ok1 True assms(3) ok 1(7) 2(7) unfolding start
        by (simp add: and_then_def access_evals nth_list_update pair_at_def holds_def end_ok_def updates_twice) blast
      then obtain w' a b where w': "bio_make_pair i j n1 n2 w = (Some 1, w')" "pair_at i j w' ?p ?q" "w_mem w' = w_mem w2"
        "bios w' = (bios w2)[i := a, j := b]" by blast
      from w'(4) have w'4: "bios w' = (bios w)[i := a, j := b]" unfolding w2 by (rule trans) (rule updates_twice [OF assms(3)])
      have "live_buffer ?p = 1" "live_buffer ?q = 1" using 1(5) 2(5) ok1 True by (simp_all add: live_buffer_def)
      then show ?thesis using ok 1(5,7) 2(5,7) ok1 True w'(1-3) w'4 sp g
        by (intro exI [of _ 1] exI [of _ w'] exI [of _ ?p] exI [of _ ?q] exI [of _ a] exI [of _ b]) auto
    qed
  qed
qed

text \<open>
  \<^verbatim>\<open>BIO_new_bio_pair\<close> never runs into an assertion.  Its six allocations are two objects with the state of
  an end each, and the two buffers; if all are granted it delivers two connected ends with empty buffers,
  otherwise it has freed all it made.
\<close>

definition pair_requests :: "nat \<Rightarrow> nat \<Rightarrow> nat list" where
  "pair_requests n1 n2 = [64, 56, 64, 56, buffer_size n1, buffer_size n2]"

lemma pair_requests_granted:
  "all_granted ok k (pair_requests n1 n2) \<longleftrightarrow>
     all_granted ok k [64, 56] \<and> all_granted ok (k + 2) [64, 56] \<and> all_granted ok (k + 4) [buffer_size n1, buffer_size n2]"
  by (simp add: pair_requests_def eval_nat_numeral)

text \<open>The two calls of \<^verbatim>\<open>BIO_free\<close> on the way out.\<close>

definition free_both :: "nat option \<Rightarrow> nat option \<Rightarrow> (int \<times> nat option \<times> nat option) io" where
  "free_both bio1 bio2 = and_then (BIO_free bio1) (\<lambda>_. and_then (BIO_free bio2) (\<lambda>_. ret (0, None, None)))"

lemma free_both_none: "free_both None None w = (Some (0, None, None), w)"
  by (simp add: free_both_def and_then_def)

lemma free_both_one:
  assumes "single i w p" and "b = (Some i, None) \<or> b = (None, Some i)"
  shows "\<exists>m. free_both (fst b) (snd b) w = (Some (0, None, None), w\<lparr>w_mem := m, bios := (bios w)[i := None]\<rparr>) \<and>
    spent (w_mem w) m 0 (-2 - live_buffer p)"
proof -
  obtain m where "BIO_free (Some i) w = (Some 1, w\<lparr>w_mem := m, bios := (bios w)[i := None]\<rparr>)"
    "spent (w_mem w) m 0 (if bb_buf p = None then -2 else -3)" using free_single [OF assms(1)] by blast
  with assms(2) show ?thesis by (auto simp: free_both_def and_then_def live_buffer_def split: if_splits)
qed

lemma free_both_two:
  assumes "single i w p" and "single j w q" and "i \<noteq> j"
  shows "\<exists>m. free_both (Some i) (Some j) w = (Some (0, None, None), w\<lparr>w_mem := m, bios := (bios w)[i := None, j := None]\<rparr>) \<and>
    spent (w_mem w) m 0 (-4 - live_buffer p - live_buffer q)"
proof -
  obtain m where 1: "BIO_free (Some i) w = (Some 1, w\<lparr>w_mem := m, bios := (bios w)[i := None]\<rparr>)"
    "spent (w_mem w) m 0 (if bb_buf p = None then -2 else -3)" using free_single [OF assms(1)] by blast
  let ?w1 = "w\<lparr>w_mem := m, bios := (bios w)[i := None]\<rparr>"
  have "single j ?w1 q" using single_other(4) [OF assms(2)] assms(3) by simp
  from free_single [OF this] obtain m' where 2: "BIO_free (Some j) ?w1 = (Some 1, ?w1\<lparr>w_mem := m', bios := (bios ?w1)[j := None]\<rparr>)"
    "spent (w_mem ?w1) m' 0 (if bb_buf q = None then -2 else -3)" by blast
  have "spent m m' 0 (if bb_buf q = None then -2 else -3)" using 2(2) by simp
  from spent_trans [OF 1(2) this] have "spent (w_mem w) m' 0 (-4 - live_buffer p - live_buffer q)"
    by (cases "bb_buf p"; cases "bb_buf q") (simp_all add: live_buffer_def)
  moreover have "free_both (Some i) (Some j) w = (Some (0, None, None), w\<lparr>w_mem := m', bios := (bios w)[i := None, j := None]\<rparr>)"
    using 1(1) 2(1) by (simp add: free_both_def and_then_def)
  ultimately show ?thesis by blast
qed

lemma BIO_new_bio_pair_unfold:
  "BIO_new_bio_pair n1 n2 w =
     (case BIO_new methods_biop w of (None, s) \<Rightarrow> (None, s) | (Some bio1, s) \<Rightarrow>
        (case BIO_new methods_biop s of (None, s) \<Rightarrow> (None, s) | (Some bio2, s) \<Rightarrow>
          and_then (if bio1 = None \<or> bio2 = None then ret 0 else bio_make_pair (the bio1) (the bio2) n1 n2) (\<lambda>ok.
            if ok = 0 then free_both bio1 bio2 else ret (1, bio1, bio2)) s))"
  by (simp only: BIO_new_bio_pair_def free_both_def and_then_def [of "BIO_new methods_biop"])

definition pair_refused :: "bio_world \<Rightarrow> int \<times> nat option \<times> nat option \<Rightarrow> bio_world \<Rightarrow> bool" where
  "pair_refused w r w' \<longleftrightarrow> r = (0, None, None) \<and> (\<exists>k. bios w' = bios w @ replicate k None) \<and>
     blocks (w_mem w') = blocks (w_mem w)"

definition pair_made :: "nat \<Rightarrow> nat \<Rightarrow> bio_world \<Rightarrow> int \<times> nat option \<times> nat option \<Rightarrow> bio_world \<Rightarrow> bool" where
  "pair_made n1 n2 w r w' \<longleftrightarrow> (\<exists>p q a b. r = (1, Some (length (bios w)), Some (Suc (length (bios w)))) \<and>
     bios w' = bios w @ [a, b] \<and> blocks (w_mem w') = blocks (w_mem w) + 6 \<and>
     pair_at (length (bios w)) (Suc (length (bios w))) w' p q \<and> bb_size p = buffer_size n1 \<and> bb_size q = buffer_size n2 \<and>
     ring p = [] \<and> ring q = [] \<and> \<not> bb_closed p \<and> \<not> bb_closed q)"

lemma no_first_end:
  assumes "BIO_new methods_biop w = (Some None, w1)" and "w1 = w\<lparr>w_mem := m, w_errs := e, bios := bios w @ xs\<rparr>"
    and "xs = [] \<or> xs = [None]" and "spent (w_mem w) m c 0"
  shows "\<exists>r w'. BIO_new_bio_pair n1 n2 w = (Some r, w') \<and> pair_refused w r w'"
proof -
  have xs: "\<exists>k. xs = replicate k None" using assms(3) by (metis replicate_0 replicate_Suc)
  show ?thesis
  proof (cases rule: BIO_new_biop [of w1])
    case (full m' e' xs')
    have "\<exists>k. xs @ xs' = replicate k None" using xs full(2) by (metis append_Nil2 replicate_0 replicate_append_same replicate_Suc)
    then show ?thesis using assms full
      by (auto simp: BIO_new_bio_pair_unfold and_then_def free_both_none pair_refused_def spent_def)
  next
    case (made m' a)
    let ?j = "length (bios w1)"
    let ?w2 = "w1\<lparr>w_mem := m', bios := bios w1 @ [Some a]\<rparr>"
    obtain m2 where f: "free_both None (Some ?j) ?w2 = (Some (0, None, None), ?w2\<lparr>w_mem := m2, bios := (bios ?w2)[?j := None]\<rparr>)"
      "spent (w_mem ?w2) m2 0 (-2 - live_buffer fresh_end)"
      using free_both_one [OF made(2), of "(None, Some ?j)"] by auto
    have "blocks m2 = blocks (w_mem w)"
      using f(2) made(3) assms(2,4) by (simp add: spent_def live_buffer_def fresh_end_def)
    moreover have "\<exists>k. (bios ?w2)[?j := None] = bios w @ replicate k None"
    proof -
      have "(bios ?w2)[?j := None] = bios w1 @ [None]" by simp
      also have "\<dots> = bios w @ (xs @ [None])" using assms(2) by simp
      finally show ?thesis using xs by (metis replicate_Suc replicate_append_same)
    qed
    ultimately show ?thesis using assms(1) made(1) f(1)
      by (simp add: BIO_new_bio_pair_unfold and_then_def pair_refused_def)
  qed
qed

lemma no_second_end:
  assumes "BIO_new methods_biop w = (Some (Some (length (bios w))), w1)" and "w1 = w\<lparr>w_mem := m, bios := bios w @ [Some a]\<rparr>"
    and "single (length (bios w)) w1 fresh_end" and "spent (w_mem w) m 2 2"
    and "BIO_new methods_biop w1 = (Some None, w2)" and "w2 = w1\<lparr>w_mem := m', w_errs := e, bios := bios w1 @ xs\<rparr>"
    and "xs = [] \<or> xs = [None]" and "spent (w_mem w1) m' c 0"
  shows "\<exists>r w'. BIO_new_bio_pair n1 n2 w = (Some r, w') \<and> pair_refused w r w'"
proof -
  let ?i = "length (bios w)"
  have "single ?i w2 fresh_end" unfolding assms(6) by (rule single_other(1) [OF assms(3)])
  then obtain m2 where f: "free_both (Some ?i) None w2 = (Some (0, None, None), w2\<lparr>w_mem := m2, bios := (bios w2)[?i := None]\<rparr>)"
    "spent (w_mem w2) m2 0 (-2 - live_buffer fresh_end)"
    using free_both_one [of ?i w2 fresh_end "(Some ?i, None)"] by auto
  have "blocks m2 = blocks (w_mem w)"
    using f(2) assms(2,4,6,8) by (simp add: spent_def live_buffer_def fresh_end_def)
  moreover have "\<exists>k. (bios w2)[?i := None] = bios w @ replicate k None"
    using assms(2,6,7) by (auto intro: exI [of _ 1] exI [of _ 2] simp: numeral_2_eq_2)
  ultimately show ?thesis using assms(1,5) f(1)
    by (simp add: BIO_new_bio_pair_unfold and_then_def pair_refused_def)
qed

lemma BIO_new_bio_pair_exact:
  assumes "n1 \<le> SIZE_MAX div 2" and "n2 \<le> SIZE_MAX div 2"
  shows "\<exists>r w'. BIO_new_bio_pair n1 n2 w = (Some r, w') \<and>
    (if all_granted (mem_ok (w_mem w)) (mem_calls (w_mem w)) (pair_requests n1 n2) then pair_made n1 n2 w r w'
     else pair_refused w r w')"
proof (cases rule: BIO_new_biop [of w])
  case (full m e xs)
  then show ?thesis using no_first_end [OF full(1) refl full(2)] by (auto simp: pair_requests_granted)
next
  case 1: (made m a)
  let ?i = "length (bios w)" and ?w1 = "w\<lparr>w_mem := m, bios := bios w @ [Some a]\<rparr>"
  have ok1: "mem_ok m = mem_ok (w_mem w)" "mem_calls m = mem_calls (w_mem w) + 2" using spentD [OF 1(3)] by simp_all
  show ?thesis
  proof (cases rule: BIO_new_biop [of ?w1])
    case (full m' e xs)
    have "\<not> all_granted (mem_ok m) (mem_calls m) [64, 56]" using full(4) by simp
    then have "\<not> all_granted (mem_ok (w_mem w)) (mem_calls (w_mem w)) (pair_requests n1 n2)"
      unfolding ok1 pair_requests_granted by blast
    moreover obtain c where "spent (w_mem ?w1) m' c 0" using full(3) by blast
    ultimately show ?thesis using no_second_end [OF 1(1) refl 1(2,3) full(1) refl full(2)] by simp
  next
    case 2: (made m' b)
    let ?j = "length (bios ?w1)" and ?w2 = "?w1\<lparr>w_mem := m', bios := bios ?w1 @ [Some b]\<rparr>"
    have ij: "?i \<noteq> ?j" "?j = Suc ?i" by simp_all
    have i: "single ?i ?w2 fresh_end" by (rule single_other(2) [OF 1(2)])
    have ok2: "mem_ok m' = mem_ok (w_mem w)" "mem_calls m' = mem_calls (w_mem w) + 4" using ok1 spentD [OF 2(3)] by simp_all
    have "spent m m' 2 2" using 2(3) by simp
    from spent_trans [OF 1(3) this] have sp2: "spent (w_mem w) m' 4 4" by simp
    obtain ok w3 p q x y c where 3: "bio_make_pair ?i ?j n1 n2 ?w2 = (Some ok, w3)" "bios w3 = (bios ?w2)[?i := x, ?j := y]"
      "spent (w_mem ?w2) (w_mem w3) c (live_buffer p + live_buffer q)"
      "ok = 0 \<longleftrightarrow> \<not> all_granted (mem_ok (w_mem ?w2)) (mem_calls (w_mem ?w2)) [buffer_size n1, buffer_size n2]"
      "if ok = 0 then single ?i w3 p \<and> single ?j w3 q
       else ok = 1 \<and> live_buffer p = 1 \<and> live_buffer q = 1 \<and> pair_at ?i ?j w3 p q \<and> bb_size p = buffer_size n1 \<and>
         bb_size q = buffer_size n2 \<and> ring p = [] \<and> ring q = [] \<and> \<not> bb_closed p \<and> \<not> bb_closed q"
      using bio_make_pair_fresh [OF i 2(2) ij(1) assms] by blast
    have bios3: "bios w3 = bios w @ [x, y]" using 3(2) by (simp add: list_update_append)
    have bl: "blocks (w_mem w3) = blocks (w_mem w) + 4 + live_buffer p + live_buffer q"
      using 3(3) sp2 by (simp add: spent_def)
    have u: "BIO_new_bio_pair n1 n2 w = (if ok = 0 then free_both (Some ?i) (Some ?j) w3 else (Some (1, Some ?i, Some ?j), w3))"
      using 1(1) 2(1) 3(1) by (simp add: BIO_new_bio_pair_unfold and_then_def)
    have g: "all_granted (mem_ok (w_mem w)) (mem_calls (w_mem w)) (pair_requests n1 n2) \<longleftrightarrow> ok \<noteq> 0"
    proof -
      have "all_granted (mem_ok m) (mem_calls m) [64, 56]" using 2(4) by simp
      moreover have "ok = 0 \<longleftrightarrow> \<not> all_granted (mem_ok m') (mem_calls m') [buffer_size n1, buffer_size n2]" using 3(4) by simp
      ultimately show ?thesis using 1(4) unfolding ok1 ok2 pair_requests_granted by blast
    qed
    show ?thesis
    proof (cases "ok = 0")
      case True
      then obtain m3 where f: "free_both (Some ?i) (Some ?j) w3 = (Some (0, None, None), w3\<lparr>w_mem := m3, bios := (bios w3)[?i := None, ?j := None]\<rparr>)"
        "spent (w_mem w3) m3 0 (-4 - live_buffer p - live_buffer q)"
        using free_both_two [of ?i w3 p ?j q] 3(5) ij(1) by auto
      have "(bios w3)[?i := None, ?j := None] = bios w @ replicate 2 None"
        unfolding bios3 by (simp add: list_update_append numeral_2_eq_2)
      moreover have "blocks m3 = blocks (w_mem w)" using f(2) bl by (simp add: spent_def)
      ultimately show ?thesis using True f(1) u g by (auto simp: pair_refused_def)
    next
      case False
      then have "pair_made n1 n2 w (1, Some ?i, Some ?j) w3"
        unfolding pair_made_def using 3(5) bios3 bl by (intro exI conjI) auto
      then show ?thesis using False u g by simp
    qed
  qed
qed

lemma BIO_new_bio_pair_ok:
  assumes "n1 \<le> SIZE_MAX div 2" and "n2 \<le> SIZE_MAX div 2"
  shows "\<exists>r w'. BIO_new_bio_pair n1 n2 w = (Some r, w') \<and>
    (r = (0, None, None) \<or>
     (\<exists>i j p q. r = (1, Some i, Some j) \<and> pair_at i j w' p q \<and> bb_size p = buffer_size n1 \<and>
        bb_size q = buffer_size n2 \<and> ring p = [] \<and> ring q = [] \<and> \<not> bb_closed p \<and> \<not> bb_closed q))"
  using BIO_new_bio_pair_exact [OF assms, of w]
  by (elim exE conjE) (auto simp: pair_made_def pair_refused_def split: if_splits)

end
