(* ===== verification/Bio_Props.thy ===== *)
theory Bio_Props
  imports Bio_Pair
begin

unbundle bit_operations_syntax

text \<open>
  The properties of the I/O objects: what a program that uses a BIO pair or a memory BIO can rely on.
  The proofs apply the lemmas of theory \<open>Bio_Pair\<close>, mostly through its two interpretations of the
  channel interface.
\<close>

section \<open>Objects for examples\<close>

definition no_bios :: bio_world where
  "no_bios = \<lparr>bios = [], w_mem = tiny_mem, w_errs = []\<rparr>"

definition two_ends :: bio_world where
  "two_ends = snd (BIO_new_bio_pair 4 4 no_bios)"

definition one_mem :: bio_world where
  "one_mem = snd (BIO_new mem_method no_bios)"

lemma two_ends_made: "BIO_new_bio_pair 4 4 no_bios = (Some (1, Some 0, Some 1), two_ends)"
proof -
  have "fst (BIO_new_bio_pair 4 4 no_bios) = Some (1, Some 0, Some 1)" by code_simp
  then show ?thesis by (metis two_ends_def prod.collapse)
qed

lemma two_ends_open: "pair_open 0 1 two_ends \<and> pair_pending 0 two_ends = []"
  by code_simp

lemma one_mem_open: "mem_open 0 one_mem \<and> mem_pending 0 one_mem = []"
  by code_simp

section \<open>Properties\<close>

text \<open>C7: A BIO pair never gets stuck.  After \<^verbatim>\<open>BIO_new_bio_pair\<close> has succeeded, however the two ends are
  written, read and controlled, the two objects stay connected with well-formed ring buffers, and the
  next call returns: no assertion of \<^verbatim>\<open>pair.c\<close> fails, no pointer dangles and no copy leaves a buffer.\<close>

theorem pair_calls_safe:
  assumes "n1 \<le> SIZE_MAX div 2" and "n2 \<le> SIZE_MAX div 2"
    and "BIO_new_bio_pair n1 n2 w = (Some (1, Some i, Some j), w1)"
    and "(pair_step i j)\<^sup>*\<^sup>* w1 w2" and "is_pair_call i j c"
  shows "paired i j w2 \<and> (\<exists>r w3. pair_exec c w2 = (Some r, w3) \<and> paired i j w3)"
proof -
  have "paired i j w1" using BIO_new_bio_pair_ok [OF assms(1,2), of w] assms(3) paired_at by auto
  with assms(4) have "paired i j w2"
  proof (induction rule: rtranclp_induct)
    case (step w3 w4)
    then show ?case by (elim pair_stepE) (use pair_exec_ok in fastforce)
  qed
  then show ?thesis using pair_exec_ok assms(5) by blast
qed

theorem pair_calls_safe_witness:
  "\<exists>r w3. pair_exec (Pair_write 0 [1, 2, 3, 4, 5]) (snd (pair_exec (Pair_read 1 7) two_ends)) = (Some r, w3) \<and> paired 0 1 w3"
proof -
  have "pair_step 0 1 two_ends (snd (pair_exec (Pair_read 1 7) two_ends))"
    by (rule pair_step.call [of _ _ "Pair_read 1 7" _ "fst (pair_exec (Pair_read 1 7) two_ends)"])
      (simp_all add: is_pair_call_def INT_MAX_def)
  then have "(pair_step 0 1)\<^sup>*\<^sup>* two_ends (snd (pair_exec (Pair_read 1 7) two_ends))" by blast
  from pair_calls_safe [OF _ _ two_ends_made this, of "Pair_write 0 [1, 2, 3, 4, 5]"]
  show ?thesis by (simp add: is_pair_call_def INT_MAX_def SIZE_MAX_def)
qed

text \<open>C36: \<^verbatim>\<open>BIO_new_bio_pair\<close> succeeds exactly when memory suffices, and leaks nothing otherwise.  It
  always returns.  If its six allocations (two objects, the state of each end and the two buffers, 17 kB
  where 0 is asked for) are all granted, it delivers two connected ends, new and with empty buffers of
  those sizes, and six more blocks are live.  If any of them is refused, it returns 0 with two null
  pointers, every object it made is gone and as many blocks are live as before.\<close>

theorem new_bio_pair_returns:
  assumes "n1 \<le> SIZE_MAX div 2" and "n2 \<le> SIZE_MAX div 2"
  shows "\<exists>r w'. BIO_new_bio_pair n1 n2 w = (Some r, w') \<and>
    (if all_granted (mem_ok (w_mem w)) (mem_calls (w_mem w)) [64, 56, 64, 56, buffer_size n1, buffer_size n2]
     then \<exists>i j a b. i = length (bios w) \<and> j = i + 1 \<and> r = (1, Some i, Some j) \<and> bios w' = bios w @ [a, b] \<and>
        blocks (w_mem w') = blocks (w_mem w) + 6 \<and> pair_open i j w' \<and> pair_open j i w' \<and>
        pair_pending i w' = [] \<and> pair_pending j w' = [] \<and>
        bb_size (out_buffer i w') = buffer_size n1 \<and> bb_size (out_buffer j w') = buffer_size n2
     else r = (0, None, None) \<and> (\<exists>k. bios w' = bios w @ replicate k None) \<and>
        blocks (w_mem w') = blocks (w_mem w))"
proof -
  obtain r w' where r: "BIO_new_bio_pair n1 n2 w = (Some r, w')"
    "if all_granted (mem_ok (w_mem w)) (mem_calls (w_mem w)) (pair_requests n1 n2) then pair_made n1 n2 w r w'
     else pair_refused w r w'"
    using BIO_new_bio_pair_exact [OF assms] by blast
  let ?i = "length (bios w)" and ?j = "Suc (length (bios w))"
  have "pair_open ?i ?j w' \<and> pair_open ?j ?i w' \<and> pair_pending ?i w' = [] \<and> pair_pending ?j w' = [] \<and>
      bb_size (out_buffer ?i w') = buffer_size n1 \<and> bb_size (out_buffer ?j w') = buffer_size n2" if "pair_made n1 n2 w r w'"
  proof -
    from that obtain p q where *: "pair_at ?i ?j w' p q" "bb_size p = buffer_size n1" "bb_size q = buffer_size n2"
      "ring p = []" "ring q = []" "\<not> bb_closed p" "\<not> bb_closed q" unfolding pair_made_def by blast
    then have "paired ?i ?j w'" "paired ?j ?i w'" using paired_at pair_at_sym by blast+
    with * pair_at_buffers [OF *(1)] show ?thesis by (simp add: pair_open_def pair_pending_def)
  qed
  with r show ?thesis unfolding pair_requests_def pair_refused_def
    by (auto simp: pair_made_def simp del: all_granted.simps split: if_splits)
qed

text \<open>An allocator that refuses the last of the six.\<close>

definition short_of_memory :: bio_world where
  "short_of_memory = no_bios\<lparr>w_mem := tiny_mem\<lparr>mem_ok := \<lambda>i n. i < 5\<rparr>\<rparr>"

theorem new_bio_pair_returns_witness:
  "pair_open 1 0 two_ends \<and> blocks (w_mem two_ends) = 6 \<and>
   (\<exists>w'. BIO_new_bio_pair 4 4 short_of_memory = (Some (0, None, None), w') \<and> blocks (w_mem w') = 0)"
proof -
  have n: "(4::nat) \<le> SIZE_MAX div 2" by (simp add: SIZE_MAX_def)
  have "all_granted (mem_ok (w_mem no_bios)) (mem_calls (w_mem no_bios)) [64, 56, 64, 56, buffer_size 4, buffer_size 4]"
    "length (bios no_bios) = 0" "blocks (w_mem no_bios) = 0" by code_simp+
  then have "pair_open 1 0 two_ends \<and> blocks (w_mem two_ends) = 6"
    using new_bio_pair_returns [OF n n, of no_bios] two_ends_made by auto
  moreover have "\<not> all_granted (mem_ok (w_mem short_of_memory)) (mem_calls (w_mem short_of_memory)) [64, 56, 64, 56, buffer_size 4, buffer_size 4]"
    "blocks (w_mem short_of_memory) = 0" by code_simp+
  then have "\<exists>w'. BIO_new_bio_pair 4 4 short_of_memory = (Some (0, None, None), w') \<and> blocks (w_mem w') = 0"
    using new_bio_pair_returns [OF n n, of short_of_memory] by (auto simp del: all_granted.simps)
  ultimately show ?thesis by simp
qed

text \<open>C8: A BIO pair is a FIFO channel.  For any interleaving of writes at one end and reads at the other,
  every call returns, and what was pending followed by the bytes the writes accepted is what the reads
  returned followed by what is pending now.\<close>

theorem pair_is_fifo:
  assumes "pair_open i j w" and "list_all call_small cs"
  shows "\<exists>sent got w'. run_channel (pair_send i) (pair_recv j) cs w = Some (sent, got, w') \<and> pair_open i j w' \<and>
    pair_pending i w @ sent = got @ pair_pending i w'"
  by (rule pair.fifo [OF assms])

theorem pair_is_fifo_witness:
  "\<exists>sent got w'. run_channel (pair_send 0) (pair_recv 1) [Send [1, 2, 3], Recv 2, Send [4, 5, 6], Recv 9] two_ends =
     Some (sent, got, w') \<and> sent = got @ pair_pending 0 w'"
  using pair_is_fifo [of 0 1 two_ends "[Send [1, 2, 3], Recv 2, Send [4, 5, 6], Recv 9]"] two_ends_open
  by (auto simp: INT_MAX_def)

text \<open>C9: A message always gets through a BIO pair.  When the writer offers what is left of a message and
  the reader then reads at least a byte, again and again, then after as many rounds as there are bytes
  the whole message has arrived, in order, behind what was pending.\<close>

theorem pair_delivers:
  assumes "pair_open i j w" and "length msg \<le> INT_MAX" and "0 < n" and "n \<le> INT_MAX"
    and "length (pair_pending i w) + length msg \<le> rounds"
  shows "\<exists>w'. transfer (pair_send i) (pair_recv j) rounds n msg w = Some ([], pair_pending i w @ msg, w') \<and>
    pair_open i j w' \<and> pair_pending i w' = []"
  by (rule pair.transfer_ends [OF assms])

theorem pair_delivers_witness:
  "\<exists>w'. transfer (pair_send 0) (pair_recv 1) 6 1 [1, 2, 3, 4, 5, 6] two_ends = Some ([], [1, 2, 3, 4, 5, 6], w')"
  using pair_delivers [of 0 1 two_ends "[1, 2, 3, 4, 5, 6]" 1 6] two_ends_open by (auto simp: INT_MAX_def)

text \<open>C37: A writable memory BIO is a FIFO channel too, over a buffer that grows; a write that does not fit
  an \<^verbatim>\<open>int\<close> or finds no memory is refused as a whole and changes nothing.\<close>

theorem mem_is_fifo:
  assumes "mem_open i w" and "list_all call_small cs"
  shows "\<exists>sent got w'. run_channel (mem_send i) (mem_recv i) cs w = Some (sent, got, w') \<and> mem_open i w' \<and>
    mem_pending i w @ sent = got @ mem_pending i w'"
  by (rule membio.fifo [OF assms])

theorem mem_is_fifo_witness:
  "\<exists>sent got w'. run_channel (mem_send 0) (mem_recv 0) [Send [1, 2, 3], Recv 2, Send [4], Recv 9] one_mem =
     Some (sent, got, w') \<and> sent = got @ mem_pending 0 w'"
  using mem_is_fifo [of 0 one_mem "[Send [1, 2, 3], Recv 2, Send [4], Recv 9]"] one_mem_open
  by (auto simp: INT_MAX_def)

text \<open>The copying loops of \<^verbatim>\<open>bio_read\<close> and \<^verbatim>\<open>bio_write\<close> end.  On a well-formed ring buffer a read of at
  most the bytes present removes them from the front, a write of at most the room left appends, and
  the buffer stays well-formed.\<close>

theorem copy_loops_end:
  assumes "ring_ok b" and "0 < n"
  shows "(n \<le> bb_len b \<longrightarrow> (\<exists>b'. read_loop n b = Some (take n (ring b), b') \<and> ring b' = drop n (ring b) \<and> ring_ok b')) \<and>
    (bb_len b + n \<le> bb_size b \<and> n \<le> length bs \<longrightarrow>
       (\<exists>b'. write_loop n bs b = Some b' \<and> ring b' = ring b @ take n bs \<and> ring_ok b'))"
  using read_loop_ok [OF assms] write_loop_ok [OF assms] by blast

theorem copy_loops_end_witness:
  "\<exists>b'. write_loop 3 [7, 8, 9] (fresh_end\<lparr>bb_size := 4, bb_buf := Some [1, 2, 3, 4], bb_len := 1, bb_offset := 2\<rparr>) = Some b' \<and>
     ring b' = [3, 7, 8, 9]"
proof -
  let ?b = "fresh_end\<lparr>bb_size := 4, bb_buf := Some [1, 2, 3, 4], bb_len := 1, bb_offset := 2\<rparr>"
  have "ring_ok ?b" "ring ?b = [3]" by (simp_all add: ring_ok_def ring_def fresh_end_def SIZE_MAX_def)
  with copy_loops_end [of ?b 3 "[7, 8, 9]"] show ?thesis by (auto simp: fresh_end_def)
qed

text \<open>C38: \<^verbatim>\<open>BIO_ctrl_get_write_guarantee\<close> is exact, as its documentation says.  A write of \<open>n > 0\<close> bytes
  accepts the smaller of \<open>n\<close> and the guarantee, and is refused when the guarantee is 0.\<close>

theorem write_guarantee_exact:
  assumes "pair_open i j w" and "0 < length bs" and "length bs \<le> INT_MAX"
    and "BIO_ctrl_get_write_guarantee (Some i) w = (Some g, w0)"
  shows "w0 = w \<and> fst (BIO_write (Some i) (Some bs) (int (length bs)) w) =
    Some (if g = 0 then -1 else int (min (length bs) g))"
proof -
  let ?p = "out_buffer i w"
  have p: "pair_at i j w ?p (out_buffer j w)" "\<not> bb_closed ?p"
    using assms(1) by (auto simp: pair_open_def paired_def)
  then have ok: "ring_ok ?p" "bb_peer ?p = Some j" by (auto elim!: pair_atD simp: end_ok_def)
  have "g = bb_size ?p - bb_len ?p \<and> w0 = w"
    using assms(4) p(1) p(2) ok(2) ring_okD [OF ok(1)]
    by (elim pair_atD) (auto simp: BIO_ctrl_get_write_guarantee_def BIO_ctrl_def method_ctrl_def bio_ctrl_def
        and_then_def access_evals long_of_size_id size_of_int_id SIZE_MAX_def)
  moreover have "bb_len ?p \<le> bb_size ?p" using ring_okD [OF ok(1)] by simp
  ultimately show ?thesis
    using BIO_write_pair [OF p(1) assms(3) order.refl] assms(2) p(2) by (auto simp: write_result_def)
qed

theorem write_guarantee_exact_witness:
  "fst (BIO_write (Some 0) (Some [1, 2, 3, 4, 5, 6]) 6 two_ends) = Some 4"
proof -
  have "fst (BIO_ctrl_get_write_guarantee (Some 0) two_ends) = Some 4" by code_simp
  then obtain w0 where "BIO_ctrl_get_write_guarantee (Some 0) two_ends = (Some 4, w0)" by (metis prod.collapse)
  with write_guarantee_exact [of 0 1 two_ends "[1, 2, 3, 4, 5, 6]" 4 w0] two_ends_open
  show ?thesis by (simp add: INT_MAX_def)
qed

lemma shutdown_wr_pair:
  assumes "pair_at i j w p q"
  shows "\<exists>w'. BIO_shutdown_wr (Some i) w = (Some 1, w') \<and> pair_at i j w' (p\<lparr>bb_closed := True\<rparr>) q"
proof -
  obtain a b where ab: "i < length (bios w)" "bios w ! i = Some a" "bio_method a = methods_biop" "bio_init a"
    "bio_ptr a = Ptr_pair p" "j < length (bios w)" "bios w ! j = Some b" "bio_method b = methods_biop" "bio_init b"
    "bio_ptr b = Ptr_pair q" "i \<noteq> j" "end_ok p j" "end_ok q i" using assms by (elim pair_atD)
  then show ?thesis
    by (auto simp: BIO_shutdown_wr_def BIO_ctrl_def method_ctrl_def bio_ctrl_def and_then_def access_evals
        pair_at_def holds_def end_ok_def ring_ok_def nth_list_update split: option.splits)
qed

lemma read_closed:
  assumes "pair_at i j w p q" and "bb_closed p" and "n \<le> INT_MAX"
  shows "\<exists>w' p'. BIO_read (Some j) True (int n) w = (Some (int (min n (length (ring p))), take n (ring p)), w') \<and>
    pair_at i j w' p' q \<and> ring p' = drop n (ring p) \<and> bb_closed p'"
proof -
  have "bb_closed (read_end p n)" using assms(2) by (simp add: read_end_def)
  then have *: "bb_closed p'" if "p' = p \<or> same_end (read_end p n) p'" for p'
    using that assms(2) by (auto simp: same_end_def)
  have "(if n = 0 then 0 else read_result p n) = int (min n (length (ring p)))"
    using assms(2) by (simp add: read_result_def)
  with BIO_read_pair [OF assms(1,3)] * show ?thesis by auto
qed

text \<open>Half-close.  After \<^verbatim>\<open>BIO_shutdown_wr\<close> at one end further writes there fail, while the other end
  still reads all that was pending and then gets 0, the end of file, instead of the retry it would get
  from an open pair.\<close>

theorem half_close:
  assumes "pair_open i j w" and "n \<le> INT_MAX" and "m \<le> INT_MAX" and "length (pair_pending i w) \<le> n"
    and "bs \<noteq> []" and "length bs \<le> INT_MAX"
  shows "\<exists>w1 w2 w3. BIO_shutdown_wr (Some i) w = (Some 1, w1) \<and>
    fst (BIO_write (Some i) (Some bs) (int (length bs)) w1) = Some (-1) \<and>
    BIO_read (Some j) True (int n) w1 = (Some (int (length (pair_pending i w)), pair_pending i w), w2) \<and>
    BIO_read (Some j) True (int m) w2 = (Some (0, []), w3)"
proof -
  let ?p = "out_buffer i w" and ?q = "out_buffer j w"
  have "pair_at i j w ?p ?q" using assms(1) by (auto simp: pair_open_def paired_def)
  then obtain w1 where w1: "BIO_shutdown_wr (Some i) w = (Some 1, w1)" "pair_at i j w1 (?p\<lparr>bb_closed := True\<rparr>) ?q"
    using shutdown_wr_pair by blast
  have r: "ring (?p\<lparr>bb_closed := True\<rparr>) = pair_pending i w" by (simp add: ring_def pair_pending_def)
  from read_closed [OF w1(2) _ assms(2)] assms(4) r obtain w2 p' where w2: "BIO_read (Some j) True (int n) w1 =
      (Some (int (length (pair_pending i w)), pair_pending i w), w2)" "pair_at i j w2 p' ?q" "ring p' = []" "bb_closed p'"
    by (auto simp: min_def split: if_splits)
  from read_closed [OF w2(2,4) assms(3)] w2(3)
  obtain w3 where "BIO_read (Some j) True (int m) w2 = (Some (0, []), w3)" by auto
  moreover have "fst (BIO_write (Some i) (Some bs) (int (length bs)) w1) = Some (-1)"
    using BIO_write_pair [OF w1(2) assms(6) order.refl] assms(5) by (auto simp: write_result_def)
  ultimately show ?thesis using w1(1) w2(1) by blast
qed

theorem half_close_witness:
  "fst (BIO_read (Some 1) True 9 (snd (BIO_shutdown_wr (Some 0) two_ends))) = Some (0, [])"
  using half_close [of 0 1 two_ends 9 9 "[1]"] two_ends_open by (auto simp: INT_MAX_def)

lemma free_end:
  assumes "pair_at i j w p q" and "bios w ! i = Some a" and "bio_references a = 1" and "next_bio a = None"
    and "bios w ! j = Some b"
  shows "\<exists>m. BIO_free (Some i) w = (Some 1, w\<lparr>w_mem := m, bios := (bios w)[j := Some (b\<lparr>bio_init := False,
     bio_ptr := Ptr_pair (q\<lparr>bb_peer := None, bb_len := 0, bb_offset := 0\<rparr>)\<rparr>), i := None]\<rparr>)"
proof -
  obtain a' b' where ab: "i < length (bios w)" "bios w ! i = Some a'" "bio_method a' = methods_biop" "bio_init a'"
    "bio_ptr a' = Ptr_pair p" "j < length (bios w)" "bios w ! j = Some b'" "bio_method b' = methods_biop" "bio_init b'"
    "bio_ptr b' = Ptr_pair q" "i \<noteq> j" "end_ok p j" "end_ok q i" using assms(1) by (elim pair_atD)
  then have eq: "a' = a" "b' = b" using assms(2,5) by simp_all
  have peers: "bb_peer p = Some j" "bb_peer q = Some i" "bb_buf p \<noteq> None" "bb_buf q \<noteq> None" "j \<noteq> i"
    using ab ring_okD(6) by (auto simp: end_ok_def)
  then obtain d e where de: "bb_buf p = Some d" "bb_buf q = Some e" by auto
  note ab = ab [unfolded eq]
  have upd: "xs[i := x, j := y, i := z] = xs[j := y, i := z]" for xs :: "bio_st option list" and x y z
    using peers(5) by (metis list_update_overwrite list_update_swap)
  show ?thesis using ab(1-6,7-11) assms(3,4) peers de
    by (auto intro!: exI simp: BIO_free.simps(2) free_one_def and_then_def access_evals
        CRYPTO_refcount_dec_and_test_zero_def CRYPTO_REFCOUNT_MAX_def BIO_pop_def method_destroy_def bio_free_def
        bio_destroy_pair_def free_block_def store_def nth_list_update upd)
qed

text \<open>C39: Freeing one end disconnects the other.  When the only reference to an end goes, the end is freed,
  pending data are dropped in both directions, and the other end stays live: reading from it or writing
  to it returns -2 and reports that it is not initialised, and it can still be freed.\<close>

theorem free_one_end:
  assumes "paired i j w" and "bios w ! i = Some a" and "bio_references a = 1" and "next_bio a = None"
    and "bios w ! j = Some b"
  shows "\<exists>w'. BIO_free (Some i) w = (Some 1, w') \<and> bios w' ! i = None \<and>
    fst (BIO_read (Some j) True n w') = Some (-2, []) \<and> fst (BIO_write (Some j) (Some bs) n w') = Some (-2) \<and>
    (bio_references b = 1 \<and> next_bio b = None \<longrightarrow>
       (\<exists>w''. BIO_free (Some j) w' = (Some 1, w'') \<and> bios w'' ! j = None))"
proof -
  let ?p = "out_buffer i w" and ?q = "out_buffer j w"
  have p: "pair_at i j w ?p ?q" using assms(1) by (simp add: paired_def)
  then have ij: "i < length (bios w)" "j < length (bios w)" "i \<noteq> j" "bio_method b = methods_biop"
    using assms(5) by (auto elim!: pair_atD)
  let ?b = "b\<lparr>bio_init := False, bio_ptr := Ptr_pair (?q\<lparr>bb_peer := None, bb_len := 0, bb_offset := 0\<rparr>)\<rparr>"
  obtain w' where w': "BIO_free (Some i) w = (Some 1, w')" "bios w' = (bios w)[j := Some ?b, i := None]"
    using free_end [OF p assms(2-5)] by auto
  have d: "deref j w' = (Some ?b, w')" using w'(2) ij by (simp add: deref_def nth_list_update)
  have "\<exists>w''. BIO_free (Some j) w' = (Some 1, w'') \<and> bios w'' ! j = None"
    if "bio_references b = 1 \<and> next_bio b = None"
  proof -
    have "single j w' (?q\<lparr>bb_peer := None, bb_len := 0, bb_offset := 0\<rparr>)"
      using that ij w'(2) by (simp add: single_def nth_list_update)
    from free_single [OF this] show ?thesis using w'(2) ij by auto
  qed
  then show ?thesis using w' ij d
    by (auto simp: BIO_read_def BIO_write_def and_then_def put_error_def)
qed

theorem free_one_end_witness:
  "fst (BIO_write (Some 1) (Some [1]) 1 (snd (BIO_free (Some 0) two_ends))) = Some (-2)"
proof -
  have "bio_references (the (bios two_ends ! 0)) = 1 \<and> next_bio (the (bios two_ends ! 0)) = None \<and>
    bios two_ends ! 0 \<noteq> None \<and> bios two_ends ! 1 \<noteq> None" by code_simp
  then obtain a b where "bios two_ends ! 0 = Some a" "bio_references a = 1" "next_bio a = None" "bios two_ends ! 1 = Some b"
    by auto
  from free_one_end [OF _ this, of 1 "[1]"] two_ends_open show ?thesis by (auto simp: pair_open_def)
qed







end
