(* ===== verification/Err.thy ===== *)
theory Err
  imports Mem
begin

unbundle bit_operations_syntax

text \<open>
  The error queue of \<^verbatim>\<open>crypto/err/err.c\<close>.  The state of a thread is a ring of 16 slots.  A slot owns the
  string that its \<^verbatim>\<open>data\<close> points to: the strings live in a heap, from which each is freed exactly once.  An
  operation is a \<open>step\<close> on the world of the thread whose result \<open>None\<close> means that the C program has no
  behaviour left (a string freed twice or read after it was freed, an index outside an array, a failing
  assertion) or does not return.  The structs themselves are values; their allocation can fail like any
  other.  C strings are byte lists; file names and the tables of the source are static.
\<close>

section \<open>Strings of the C library\<close>

definition lit :: "string \<Rightarrow> u8 list" where
  "lit s = map of_char s"

text \<open>The characters up to the terminating NUL.\<close>

definition c_text :: "u8 list \<Rightarrow> u8 list" where
  "c_text s = takeWhile (\<lambda>c. c \<noteq> 0) s"

definition digit :: "nat \<Rightarrow> u8" where
  "digit d = (if d < 10 then word_of_nat (48 + d) else word_of_nat (87 + d))"

fun hex_text :: "nat \<Rightarrow> nat \<Rightarrow> u8 list" where
  "hex_text 0 v = []"
| "hex_text (Suc n) v = hex_text n (v div 16) @ [digit (v mod 16)]"

fun dec_text :: "nat \<Rightarrow> u8 list" where
  "dec_text v = (if v < 10 then [digit v] else dec_text (v div 10) @ [digit (v mod 10)])"

declare dec_text.simps [simp del]

text \<open>\<^verbatim>\<open>BIO_snprintf(buf, n, ...)\<close> where the formatted text is \<open>s\<close>; the result is the memory at \<^verbatim>\<open>buf\<close>.\<close>

definition BIO_snprintf :: "u8 list \<Rightarrow> nat \<Rightarrow> u8 list \<Rightarrow> u8 list" where
  "BIO_snprintf buf n s =
     (if n = 0 then buf else let t = take (n - 1) s in t @ [0] @ drop (length t + 1) buf)"

text \<open>The index of the first \<open>c\<close> in the C string at \<open>buf + s\<close>.\<close>

definition strchr_at :: "u8 list \<Rightarrow> nat \<Rightarrow> u8 \<Rightarrow> nat option" where
  "strchr_at buf s c =
     (let t = c_text (drop s buf); k = length (takeWhile (\<lambda>x. x \<noteq> c) t)
      in if k < length t then Some (s + k) else None)"

section \<open>The state of a thread\<close>

definition ERR_NUM_ERRORS :: nat where
  "ERR_NUM_ERRORS = 16"

definition ERR_FLAG_STRING :: int where
  "ERR_FLAG_STRING = 1"

definition ERR_LIB_SYS :: int where
  "ERR_LIB_SYS = 2"

definition ERR_NUM_LIBS :: nat where
  "ERR_NUM_LIBS = 33"

definition ERR_PACK :: "int \<Rightarrow> int \<Rightarrow> u32" where
  "ERR_PACK lib reason =
     push_bit 24 (word_of_int lib AND 0xff) OR (word_of_int reason AND 0xfff)"

definition ERR_GET_LIB :: "u32 \<Rightarrow> nat" where
  "ERR_GET_LIB p = unat (drop_bit 24 p AND 0xff)"

definition ERR_GET_REASON :: "u32 \<Rightarrow> nat" where
  "ERR_GET_REASON p = unat (p AND 0xfff)"

text \<open>The type of \<^verbatim>\<open>data\<close> is a parameter: in memory it is an address.\<close>

record 'd err_error_st =
  err_file :: "u8 list option"
  err_data :: "'d option"
  err_packed :: u32
  err_line :: u16
  err_mark :: bool

type_synonym err_slot = "nat err_error_st"

definition zero_error :: "'d err_error_st" where
  "zero_error = \<lparr>err_file = None, err_data = None, err_packed = 0, err_line = 0, err_mark = False\<rparr>"

record err_state_st =
  es_errors :: "err_slot list"
  es_top :: nat
  es_bottom :: nat
  es_to_free :: "nat option"

text \<open>\<^verbatim>\<open>num_errors\<close> is the length of the array.\<close>

record err_save_state_st =
  ss_errors :: "err_slot list"

text \<open>
  \<open>e_state\<close> is the thread-local pointer, \<open>e_tls_ok\<close> whether \<^verbatim>\<open>CRYPTO_set_thread_local\<close> succeeds.  Strings have
  addresses from \<open>e_fresh\<close> on.
\<close>

record err_world =
  e_mem :: mem
  e_heap :: "nat \<rightharpoonup> u8 list"
  e_fresh :: nat
  e_state :: "err_state_st option"
  e_tls_ok :: bool
  e_errno :: int
  global_next_library :: int

type_synonym 'a err = "('a, err_world) step"

definition free_string :: "nat option \<Rightarrow> unit err" where
  "free_string p w =
     (case p of
        None \<Rightarrow> (Some (), w)
      | Some a \<Rightarrow>
          (case e_heap w a of
             None \<Rightarrow> (None, w)
           | Some block \<Rightarrow>
               (Some (), w\<lparr>e_mem := OPENSSL_free (Some block) (e_mem w), e_heap := (e_heap w)(a := None)\<rparr>)))"

text \<open>A block that has been allocated gets an address when a slot takes it over.\<close>

definition own_string :: "u8 list \<Rightarrow> nat err" where
  "own_string block w =
     (Some (e_fresh w), w\<lparr>e_heap := (e_heap w)(e_fresh w \<mapsto> block), e_fresh := Suc (e_fresh w)\<rparr>)"

definition read_string :: "nat \<Rightarrow> u8 list err" where
  "read_string a w =
     (case e_heap w a of
        Some block \<Rightarrow> if c_string block then (Some block, w) else (None, w)
      | None \<Rightarrow> (None, w))"

text \<open>An allocator call that may return null.\<close>

definition on_mem :: "('a, mem) step \<Rightarrow> 'a option err" where
  "on_mem p w = (case p (e_mem w) of (r, m) \<Rightarrow> (Some r, w\<lparr>e_mem := m\<rparr>))"

definition free_buffer :: "u8 list \<Rightarrow> unit err" where
  "free_buffer block w = (Some (), w\<lparr>e_mem := OPENSSL_free (Some block) (e_mem w)\<rparr>)"

definition put_state :: "err_state_st \<Rightarrow> unit err" where
  "put_state st w = (Some (), w\<lparr>e_state := Some st\<rparr>)"

definition read_errno :: "int err" where
  "read_errno w = (Some (e_errno w), w)"

section \<open>Slots and the thread-local state\<close>

definition err_clear :: "err_slot \<Rightarrow> err_slot err" where
  "err_clear e = and_then (free_string (err_data e)) (\<lambda>_. ret zero_error)"

definition dup_string :: "nat \<Rightarrow> nat option err" where
  "dup_string a =
     and_then (read_string a) (\<lambda>s.
     and_then (on_mem (OPENSSL_strdup s)) (\<lambda>r.
       case r of None \<Rightarrow> ret None | Some block \<Rightarrow> and_then (own_string block) (\<lambda>b. ret (Some b))))"

definition err_copy :: "err_slot \<Rightarrow> err_slot \<Rightarrow> err_slot err" where
  "err_copy dst src =
     and_then (err_clear dst) (\<lambda>d.
     and_then (case err_data src of None \<Rightarrow> ret None | Some a \<Rightarrow> dup_string a)
       (\<lambda>p. ret (d\<lparr>err_file := err_file src, err_data := p, err_packed := err_packed src, err_line := err_line src\<rparr>)))"

fun clear_all :: "err_slot list \<Rightarrow> err_slot list err" where
  "clear_all [] = ret []"
| "clear_all (e # es) = and_then (err_clear e) (\<lambda>e'. and_then (clear_all es) (\<lambda>es'. ret (e' # es')))"

text \<open>The destructor of the thread-local state; it also runs when a thread ends.\<close>

definition err_state_free :: "err_state_st option \<Rightarrow> unit err" where
  "err_state_free statep =
     (case statep of
        None \<Rightarrow> ret ()
      | Some state \<Rightarrow> and_then (clear_all (es_errors state)) (\<lambda>_. free_string (es_to_free state)))"

definition zero_state :: err_state_st where
  "zero_state = \<lparr>es_errors = replicate ERR_NUM_ERRORS zero_error, es_top = 0, es_bottom = 0, es_to_free = None\<rparr>"

text \<open>\<^verbatim>\<open>sizeof(ERR_STATE)\<close>, \<^verbatim>\<open>sizeof(ERR_SAVE_STATE)\<close> and \<^verbatim>\<open>sizeof(struct err_error_st)\<close> on the targets.\<close>

definition sizeof_state :: nat where "sizeof_state = 400"
definition sizeof_save :: nat where "sizeof_save = 16"
definition sizeof_error :: nat where "sizeof_error = 24"

definition err_get_state :: "err_state_st option err" where
  "err_get_state w =
     (case e_state w of
        Some st \<Rightarrow> (Some (Some st), w)
      | None \<Rightarrow>
          and_then (on_mem (OPENSSL_malloc sizeof_state)) (\<lambda>r.
            case r of
              None \<Rightarrow> ret None
            | Some block \<Rightarrow>
                if e_tls_ok w then and_then (put_state zero_state) (\<lambda>_. ret (Some zero_state))
                else and_then (err_state_free (Some zero_state)) (\<lambda>_.
                     and_then (free_buffer block) (\<lambda>_. ret None))) w)"

section \<open>Reading the queue\<close>

text \<open>
  What the output parameters get: nothing for a null pointer; a null \<^verbatim>\<open>data\<close> reads as the empty string.
\<close>

record err_values =
  v_ret :: u32
  v_file :: "(u8 list \<times> int) option"
  v_data :: "(nat option \<times> int option) option"

definition no_values :: err_values where
  "no_values = \<lparr>v_ret = 0, v_file = None, v_data = None\<rparr>"

definition slot_values :: "bool \<Rightarrow> bool \<Rightarrow> bool \<Rightarrow> err_slot \<Rightarrow> err_values" where
  "slot_values want_file want_data want_flags e =
     \<lparr>v_ret = err_packed e,
      v_file = (if want_file
                then Some (case err_file e of None \<Rightarrow> (lit ''NA'', 0) | Some f \<Rightarrow> (f, uint (err_line e)))
                else None),
      v_data = (if want_data
                then Some (err_data e,
                           if want_flags then Some (if err_data e = None then 0 else ERR_FLAG_STRING) else None)
                else None)\<rparr>"

text \<open>With \<^verbatim>\<open>inc\<close> the slot at \<open>i\<close> is removed; the caller of the data may read it until \<open>es_to_free\<close> is freed.\<close>

definition remove_slot :: "err_state_st \<Rightarrow> nat \<Rightarrow> bool \<Rightarrow> unit err" where
  "remove_slot st i want_data =
     (let e = es_errors st ! i
      in and_then
           (if want_data \<and> err_data e \<noteq> None
            then and_then (free_string (es_to_free st)) (\<lambda>_.
                   ret (e\<lparr>err_data := None\<rparr>, st\<lparr>es_to_free := err_data e\<rparr>))
            else ret (e, st)) (\<lambda>(e1, st1).
         and_then (err_clear e1) (\<lambda>e2.
         put_state (st1\<lparr>es_errors := (es_errors st1)[i := e2], es_bottom := i\<rparr>))))"

definition get_error_values :: "bool \<Rightarrow> bool \<Rightarrow> bool \<Rightarrow> bool \<Rightarrow> bool \<Rightarrow> err_values err" where
  "get_error_values inc newest want_file want_data want_flags =
     and_then err_get_state (\<lambda>s.
       case s of
         None \<Rightarrow> ret no_values
       | Some st \<Rightarrow>
           if es_bottom st = es_top st then ret no_values
           else
             let i = (if newest then es_top st else (es_bottom st + 1) mod ERR_NUM_ERRORS)
             in and_then (require (\<not> (newest \<and> inc) \<and> i < length (es_errors st))) (\<lambda>_.
                  let vals = slot_values want_file want_data want_flags (es_errors st ! i)
                  in if inc then and_then (remove_slot st i want_data) (\<lambda>_. ret vals) else ret vals))"

definition ERR_get_error :: "err_values err" where
  "ERR_get_error = get_error_values True False False False False"

definition ERR_get_error_line :: "err_values err" where
  "ERR_get_error_line = get_error_values True False True False False"

definition ERR_get_error_line_data :: "bool \<Rightarrow> err_values err" where
  "ERR_get_error_line_data want_flags = get_error_values True False True True want_flags"

definition ERR_peek_error :: "err_values err" where
  "ERR_peek_error = get_error_values False False False False False"

definition ERR_peek_error_line :: "err_values err" where
  "ERR_peek_error_line = get_error_values False False True False False"

definition ERR_peek_error_line_data :: "bool \<Rightarrow> err_values err" where
  "ERR_peek_error_line_data want_flags = get_error_values False False True True want_flags"

definition ERR_peek_last_error :: "err_values err" where
  "ERR_peek_last_error = get_error_values False True False False False"

definition ERR_peek_last_error_line :: "err_values err" where
  "ERR_peek_last_error_line = get_error_values False True True False False"

definition ERR_peek_last_error_line_data :: "bool \<Rightarrow> err_values err" where
  "ERR_peek_last_error_line_data want_flags = get_error_values False True True True want_flags"

definition ERR_clear_error :: "unit err" where
  "ERR_clear_error =
     and_then err_get_state (\<lambda>s.
       case s of
         None \<Rightarrow> ret ()
       | Some st \<Rightarrow>
           and_then (clear_all (es_errors st)) (\<lambda>es.
           and_then (free_string (es_to_free st)) (\<lambda>_.
           put_state \<lparr>es_errors = es, es_top = 0, es_bottom = 0, es_to_free = None\<rparr>)))"

text \<open>The argument says whether \<^verbatim>\<open>tid\<close> is a null pointer; if not, an assertion fails.\<close>

definition ERR_remove_thread_state :: "bool \<Rightarrow> unit err" where
  "ERR_remove_thread_state tid_null = and_then (require tid_null) (\<lambda>_. ERR_clear_error)"

definition ERR_remove_state :: "nat \<Rightarrow> unit err" where
  "ERR_remove_state pid = ERR_clear_error"

text \<open>\<^verbatim>\<open>int\<close> overflow has no behaviour.\<close>

definition ERR_get_next_error_library :: "int err" where
  "ERR_get_next_error_library w =
     (if global_next_library w < int INT_MAX
      then (Some (global_next_library w), w\<lparr>global_next_library := global_next_library w + 1\<rparr>)
      else (None, w))"

definition ERR_clear_system_error :: "unit err" where
  "ERR_clear_system_error w = (Some (), w\<lparr>e_errno := 0\<rparr>)"

section \<open>Adding to the queue\<close>

text \<open>\<open>data\<close> is an allocated block; the slot takes it over, or it is freed.\<close>

definition err_set_error_data :: "u8 list \<Rightarrow> unit err" where
  "err_set_error_data data =
     and_then err_get_state (\<lambda>s.
       case s of
         None \<Rightarrow> free_buffer data
       | Some st \<Rightarrow>
           if es_top st = es_bottom st then free_buffer data
           else
             and_then (require (es_top st < length (es_errors st))) (\<lambda>_.
               let e = es_errors st ! es_top st
               in and_then (free_string (err_data e)) (\<lambda>_.
                  and_then (own_string data) (\<lambda>a.
                  put_state (st\<lparr>es_errors := (es_errors st)[es_top st := e\<lparr>err_data := Some a\<rparr>]\<rparr>)))))"

definition ERR_put_error :: "int \<Rightarrow> int \<Rightarrow> u8 list option \<Rightarrow> u32 \<Rightarrow> unit err" where
  "ERR_put_error library reason0 file line =
     and_then err_get_state (\<lambda>s.
       case s of
         None \<Rightarrow> ret ()
       | Some st \<Rightarrow> and_then read_errno (\<lambda>errno.
           let reason = (if library = ERR_LIB_SYS \<and> reason0 = 0 then errno else reason0);
               t = (es_top st + 1) mod ERR_NUM_ERRORS;
               b = (if t = es_bottom st then (es_bottom st + 1) mod ERR_NUM_ERRORS else es_bottom st)
           in and_then (require (t < length (es_errors st))) (\<lambda>_.
              and_then (err_clear (es_errors st ! t)) (\<lambda>e.
              put_state (st\<lparr>es_top := t, es_bottom := b,
                es_errors := (es_errors st)[t := e\<lparr>err_file := file, err_line := ucast line,
                                                    err_packed := ERR_PACK library reason\<rparr>]\<rparr>)))))"

text \<open>
  The loop of \<^verbatim>\<open>err_add_error_vdata\<close> over the remaining arguments: the buffer, \<^verbatim>\<open>alloced\<close> and \<^verbatim>\<open>len\<close>.  The result
  is \<open>None\<close> after an early return.
\<close>

fun add_strings :: "u8 list option list \<Rightarrow> u8 list \<Rightarrow> nat \<Rightarrow> nat \<Rightarrow> (u8 list \<times> nat) option err" where
  "add_strings [] buf alloced len = ret (Some (buf, len))"
| "add_strings (None # args) buf alloced len = add_strings args buf alloced len"
| "add_strings (Some substr # args) buf alloced len =
     (let substr_len = strlen substr; new_len = size_add len substr_len;
          copy = (\<lambda>buf alloced.
            and_then (require (c_string substr \<and> new_len \<le> length buf)) (\<lambda>_.
            add_strings args (take len buf @ take substr_len substr @ drop new_len buf) alloced new_len))
      in if new_len > alloced then
           if size_add (size_add alloced 20) 1 < alloced then and_then (free_buffer buf) (\<lambda>_. ret None)
           else
             let alloced1 = size_add new_len 20
             in and_then (on_mem (OPENSSL_realloc (Some buf) (size_add alloced1 1))) (\<lambda>r.
                  case r of
                    None \<Rightarrow> and_then (free_buffer buf) (\<lambda>_. ret None)
                  | Some new_buf \<Rightarrow> copy new_buf alloced1)
         else copy buf alloced)"

definition err_add_error_vdata :: "u8 list option list \<Rightarrow> unit err" where
  "err_add_error_vdata args =
     and_then (on_mem (OPENSSL_malloc (80 + 1))) (\<lambda>r.
       case r of
         None \<Rightarrow> ret ()
       | Some buf \<Rightarrow>
           and_then (add_strings args buf 80 0) (\<lambda>r1.
             case r1 of
               None \<Rightarrow> ret ()
             | Some (buf1, len) \<Rightarrow>
                 and_then (require (len < length buf1)) (\<lambda>_. err_set_error_data (buf1[len := 0]))))"

definition ERR_add_error_data :: "u8 list option list \<Rightarrow> unit err" where
  "ERR_add_error_data args = err_add_error_vdata args"

text \<open>The argument is the formatted text.\<close>

definition ERR_add_error_dataf :: "u8 list \<Rightarrow> unit err" where
  "ERR_add_error_dataf text =
     (let buf_len = 256
      in and_then (on_mem (OPENSSL_malloc (buf_len + 1))) (\<lambda>r.
           case r of
             None \<Rightarrow> ret ()
           | Some buf \<Rightarrow> err_set_error_data ((BIO_snprintf buf buf_len text)[buf_len := 0])))"

section \<open>Marks\<close>

definition ERR_set_mark :: "int err" where
  "ERR_set_mark =
     and_then err_get_state (\<lambda>s.
       case s of
         None \<Rightarrow> ret 0
       | Some st \<Rightarrow>
           if es_bottom st = es_top st then ret 0
           else
             and_then (require (es_top st < length (es_errors st))) (\<lambda>_.
             and_then (put_state (st\<lparr>es_errors := (es_errors st)[es_top st := (es_errors st ! es_top st)\<lparr>err_mark := True\<rparr>]\<rparr>))
               (\<lambda>_. ret 1)))"

text \<open>The loop of \<^verbatim>\<open>ERR_pop_to_mark\<close>; it ends when the ring is empty or a mark is found.\<close>

partial_function (option) pop_loop :: "err_state_st \<Rightarrow> err_world \<Rightarrow> (int \<times> err_state_st \<times> err_world) option" where
  "pop_loop st w =
     (if es_bottom st = es_top st then Some (0, st, w)
      else if es_top st \<ge> length (es_errors st) then None
      else
        let e = es_errors st ! es_top st
        in if err_mark e then
             Some (1, st\<lparr>es_errors := (es_errors st)[es_top st := e\<lparr>err_mark := False\<rparr>]\<rparr>, w)
           else
             (case err_clear e w of
                (None, _) \<Rightarrow> None
              | (Some e', w') \<Rightarrow>
                  pop_loop (st\<lparr>es_errors := (es_errors st)[es_top st := e'],
                               es_top := (if es_top st = 0 then ERR_NUM_ERRORS - 1 else es_top st - 1)\<rparr>) w'))"

definition ERR_pop_to_mark :: "int err" where
  "ERR_pop_to_mark =
     and_then err_get_state (\<lambda>s.
       case s of
         None \<Rightarrow> ret 0
       | Some st \<Rightarrow> (\<lambda>w.
           case pop_loop st w of
             None \<Rightarrow> (None, w)
           | Some (r, st', w') \<Rightarrow> and_then (put_state st') (\<lambda>_. ret r) w'))"

section \<open>Saving and restoring\<close>

definition ERR_SAVE_STATE_free :: "err_save_state_st option \<Rightarrow> unit err" where
  "ERR_SAVE_STATE_free state =
     (case state of None \<Rightarrow> ret () | Some s \<Rightarrow> and_then (clear_all (ss_errors s)) (\<lambda>_. ret ()))"

definition num_queued :: "err_state_st \<Rightarrow> nat" where
  "num_queued st =
     (if es_top st \<ge> es_bottom st then es_top st - es_bottom st
      else ERR_NUM_ERRORS + es_top st - es_bottom st)"

text \<open>The copies of the slots \<open>js\<close>, into slots that are zero.\<close>

fun copy_out :: "err_slot list \<Rightarrow> nat list \<Rightarrow> err_slot list err" where
  "copy_out errors [] = ret []"
| "copy_out errors (j # js) =
     and_then (require (j < length errors)) (\<lambda>_.
     and_then (err_copy zero_error (errors ! j)) (\<lambda>e.
     and_then (copy_out errors js) (\<lambda>es. ret (e # es))))"

definition ERR_save_state :: "err_save_state_st option err" where
  "ERR_save_state =
     and_then err_get_state (\<lambda>s.
       case s of
         None \<Rightarrow> ret None
       | Some st \<Rightarrow>
           if es_top st = es_bottom st then ret None
           else
             and_then (on_mem (OPENSSL_malloc sizeof_save)) (\<lambda>r.
               case r of
                 None \<Rightarrow> ret None
               | Some block \<Rightarrow>
                   let num_errors = num_queued st
                   in and_then (require (num_errors < ERR_NUM_ERRORS)) (\<lambda>_.
                      and_then (on_mem (OPENSSL_malloc (num_errors * sizeof_error))) (\<lambda>r1.
                      case r1 of
                        None \<Rightarrow> and_then (free_buffer block) (\<lambda>_. ret None)
                      | Some _ \<Rightarrow>
                          and_then (copy_out (es_errors st)
                              (map (\<lambda>i. (es_bottom st + i + 1) mod ERR_NUM_ERRORS) [0..<num_errors]))
                            (\<lambda>es. ret (Some \<lparr>ss_errors = es\<rparr>))))))"

text \<open>The slots from the front of the array on are overwritten by copies.\<close>

fun copy_in :: "err_slot list \<Rightarrow> err_slot list \<Rightarrow> err_slot list err" where
  "copy_in dst [] = ret dst"
| "copy_in [] (s # ss) = fail"
| "copy_in (d # ds) (s # ss) =
     and_then (err_copy d s) (\<lambda>e. and_then (copy_in ds ss) (\<lambda>es. ret (e # es)))"

definition ERR_restore_state :: "err_save_state_st option \<Rightarrow> unit err" where
  "ERR_restore_state state =
     (case state of
        None \<Rightarrow> ERR_clear_error
      | Some sv \<Rightarrow>
          if ss_errors sv = [] then ERR_clear_error
          else
            and_then err_get_state (\<lambda>s.
              case s of
                None \<Rightarrow> ret ()
              | Some dst \<Rightarrow>
                  and_then (copy_in (es_errors dst) (ss_errors sv)) (\<lambda>es.
                  put_state (dst\<lparr>es_errors := es, es_top := length (ss_errors sv) - 1,
                                 es_bottom := ERR_NUM_ERRORS - 1\<rparr>))))"

end
