(* ===== verification/Err_Text.thy ===== *)
theory Err_Text
  imports Err
begin

unbundle bit_operations_syntax

text \<open>
  The texts of errors in \<^verbatim>\<open>crypto/err/err.c\<close>: library and reason names, the message of a packed code, and
  printing the queue.  The table of reasons is generated (\<^verbatim>\<open>err_data.c\<close>); it and \<^verbatim>\<open>strerror\<close> are
  parameters.
\<close>

record err_tables =
  strerror :: "nat \<Rightarrow> u8 list"
  kOpenSSLReasonValues :: "u32 list"
  kOpenSSLReasonStringData :: "u8 list"

section \<open>Names\<close>

definition kLibraryNames :: "string list" where
  "kLibraryNames =
    [''invalid library (0)'', ''unknown library'', ''system library'', ''bignum routines'', ''RSA routines'',
     ''Diffie-Hellman routines'', ''public key routines'', ''memory buffer routines'',
     ''object identifier routines'', ''PEM routines'', ''DSA routines'', ''X.509 certificate routines'',
     ''ASN.1 encoding routines'', ''configuration file routines'', ''common libcrypto routines'',
     ''elliptic curve routines'', ''SSL routines'', ''BIO routines'', ''PKCS7 routines'', ''PKCS8 routines'',
     ''X509 V3 routines'', ''random number generator'', ''ENGINE routines'', ''OCSP routines'', ''UI routines'',
     ''COMP routines'', ''ECDSA routines'', ''ECDH routines'', ''HMAC routines'', ''Digest functions'',
     ''Cipher functions'', ''HKDF functions'', ''User defined functions'']"

definition ERR_lib_error_string :: "u32 \<Rightarrow> u8 list option" where
  "ERR_lib_error_string packed_error =
     (let lib = ERR_GET_LIB packed_error
      in if lib \<ge> ERR_NUM_LIBS then None else Some (lit (kLibraryNames ! lib)))"

definition ERR_func_error_string :: "u32 \<Rightarrow> u8 list" where
  "ERR_func_error_string packed_error = lit ''OPENSSL_internal''"

text \<open>The table is sorted by the upper 17 bits.\<close>

definition err_string_cmp :: "u32 \<Rightarrow> u32 \<Rightarrow> int" where
  "err_string_cmp a b =
     (let a_key = drop_bit 15 a; b_key = drop_bit 15 b
      in if a_key < b_key then -1 else if a_key > b_key then 1 else 0)"

text \<open>The result is where the string starts in the string data.\<close>

definition err_string_lookup :: "u32 \<Rightarrow> u32 \<Rightarrow> u32 list \<Rightarrow> nat option" where
  "err_string_lookup lib key values =
     (if lib \<ge> push_bit 6 1 \<or> key \<ge> push_bit 11 1 then None
      else
        let search_key = push_bit 26 lib OR push_bit 15 key
        in case bsearch (err_string_cmp search_key) values of
             None \<Rightarrow> None
           | Some result \<Rightarrow> Some (unat (values ! result AND 0x7fff)))"

definition ERR_reason_error_string :: "err_tables \<Rightarrow> u32 \<Rightarrow> u8 list option" where
  "ERR_reason_error_string tab packed_error =
     (let lib = ERR_GET_LIB packed_error; reason = ERR_GET_REASON packed_error
      in if int lib = ERR_LIB_SYS then (if reason < 127 then Some (strerror tab reason) else None)
         else if reason < ERR_NUM_LIBS then Some (lit (kLibraryNames ! reason))
         else if reason < 100 then
           (if reason = 65 then Some (lit ''malloc failure'')
            else if reason = 66 then Some (lit ''function should not have been called'')
            else if reason = 67 then Some (lit ''passed a null parameter'')
            else if reason = 68 then Some (lit ''internal error'')
            else if reason = 69 then Some (lit ''overflow'')
            else None)
         else
           (case err_string_lookup (word_of_nat lib) (word_of_nat reason) (kOpenSSLReasonValues tab) of
              None \<Rightarrow> None
            | Some offset \<Rightarrow> Some (c_text (drop offset (kOpenSSLReasonStringData tab)))))"

section \<open>Messages\<close>

definition lib_text :: "u32 \<Rightarrow> u8 list" where
  "lib_text packed_error =
     (case ERR_lib_error_string packed_error of
        None \<Rightarrow> lit ''lib('' @ dec_text (ERR_GET_LIB packed_error) @ lit '')''
      | Some s \<Rightarrow> s)"

definition reason_text :: "err_tables \<Rightarrow> u32 \<Rightarrow> u8 list" where
  "reason_text tab packed_error =
     (case ERR_reason_error_string tab packed_error of
        None \<Rightarrow> lit ''reason('' @ dec_text (ERR_GET_REASON packed_error) @ lit '')''
      | Some s \<Rightarrow> s)"

text \<open>\<^verbatim>\<open>"error:%08x:%s:OPENSSL_internal:%s"\<close>\<close>

definition error_text :: "err_tables \<Rightarrow> u32 \<Rightarrow> u8 list" where
  "error_text tab packed_error =
     lit ''error:'' @ hex_text 8 (unat packed_error) @ lit '':'' @ lib_text packed_error @
     lit '':OPENSSL_internal:'' @ reason_text tab packed_error"

definition colon :: u8 where
  "colon = 58"

text \<open>\<^verbatim>\<open>OPENSSL_memset(last_pos, ':', n)\<close>\<close>

definition fill_colons :: "nat \<Rightarrow> nat \<Rightarrow> u8 list \<Rightarrow> u8 list" where
  "fill_colons p n buf = take p buf @ replicate n colon @ drop (p + n) buf"

text \<open>
  The loop that spares four colons in a truncated message: the number is how many are still to be found,
  \<open>s\<close> where the search goes on.
\<close>

fun colon_loop :: "nat \<Rightarrow> nat \<Rightarrow> nat \<Rightarrow> u8 list \<Rightarrow> u8 list" where
  "colon_loop len 0 s buf = buf"
| "colon_loop len (Suc n) s buf =
     (let last_pos = len - 1 - Suc n
      in case strchr_at buf s colon of
           None \<Rightarrow> fill_colons last_pos (Suc n) buf
         | Some p \<Rightarrow> if p > last_pos then fill_colons last_pos (Suc n) buf
                     else colon_loop len n (p + 1) buf)"

text \<open>The result is the memory at \<^verbatim>\<open>buf\<close> afterwards.\<close>

definition ERR_error_string_n :: "err_tables \<Rightarrow> u32 \<Rightarrow> u8 list \<Rightarrow> nat \<Rightarrow> u8 list" where
  "ERR_error_string_n tab packed_error buf len =
     (if len = 0 then buf
      else
        let buf1 = BIO_snprintf buf len (error_text tab packed_error)
        in if strlen buf1 = len - 1 then (if len \<le> 4 then buf1 else colon_loop len 4 0 buf1) else buf1)"

definition ERR_ERROR_STRING_BUF_LEN :: nat where
  "ERR_ERROR_STRING_BUF_LEN = 120"

text \<open>The memory at \<^verbatim>\<open>ret\<close>, or the static buffer.\<close>

definition ERR_error_string :: "err_tables \<Rightarrow> u32 \<Rightarrow> u8 list \<Rightarrow> u8 list" where
  "ERR_error_string tab packed_error out =
     ERR_error_string_n tab packed_error
       (replicate ERR_ERROR_STRING_BUF_LEN 0 @ drop ERR_ERROR_STRING_BUF_LEN out) ERR_ERROR_STRING_BUF_LEN"

section \<open>Printing the queue\<close>

text \<open>\<^verbatim>\<open>"%lu:%s:%s:%d:%s\n"\<close>, cut to the buffer of 1024 bytes.\<close>

definition print_line :: "err_tables \<Rightarrow> nat \<Rightarrow> u32 \<Rightarrow> u8 list \<Rightarrow> int \<Rightarrow> u8 list \<Rightarrow> u8 list" where
  "print_line tab thread_hash packed_error file line data =
     c_text (BIO_snprintf (replicate 1024 0) 1024
       (dec_text thread_hash @ lit '':'' @
        c_text (ERR_error_string_n tab packed_error (replicate ERR_ERROR_STRING_BUF_LEN 0) ERR_ERROR_STRING_BUF_LEN) @
        lit '':'' @ c_text file @ lit '':'' @ dec_text (nat line) @ lit '':'' @ data @ [10]))"

text \<open>\<open>read_data\<close> reads the string that \<^verbatim>\<open>ERR_get_error_line_data\<close> has returned.\<close>

definition read_data :: "err_values \<Rightarrow> u8 list err" where
  "read_data v =
     (case v_data v of
        Some (Some a, Some flags) \<Rightarrow>
          if flags = ERR_FLAG_STRING then and_then (read_string a) (\<lambda>s. ret (c_text s)) else ret []
      | _ \<Rightarrow> ret [])"

text \<open>
  The callback is a function of the line and of its own state; it is not supposed to touch the queue.
\<close>

partial_function (option) print_loop ::
  "err_tables \<Rightarrow> (u8 list \<Rightarrow> 'c \<Rightarrow> int \<times> 'c) \<Rightarrow> nat \<Rightarrow> 'c \<Rightarrow> err_world \<Rightarrow> ('c \<times> err_world) option" where
  "print_loop tab callback thread_hash ctx w =
     (case ERR_get_error_line_data True w of
        (None, _) \<Rightarrow> None
      | (Some v, w1) \<Rightarrow>
          if v_ret v = 0 then Some (ctx, w1)
          else
            (case read_data v w1 of
               (None, _) \<Rightarrow> None
             | (Some data, w2) \<Rightarrow>
                 (case callback (print_line tab thread_hash (v_ret v) (fst (the (v_file v))) (snd (the (v_file v))) data) ctx of
                    (r, ctx1) \<Rightarrow>
                      if r \<le> 0 then Some (ctx1, w2) else print_loop tab callback thread_hash ctx1 w2)))"

definition ERR_print_errors_cb ::
  "err_tables \<Rightarrow> (u8 list \<Rightarrow> 'c \<Rightarrow> int \<times> 'c) \<Rightarrow> nat \<Rightarrow> 'c \<Rightarrow> 'c err" where
  "ERR_print_errors_cb tab callback thread_hash ctx =
     and_then err_get_state (\<lambda>_ w.
       case print_loop tab callback thread_hash ctx w of None \<Rightarrow> (None, w) | Some (ctx', w') \<Rightarrow> (Some ctx', w'))"

text \<open>\<^verbatim>\<open>fputs\<close> is a parameter.\<close>

definition print_errors_to_file :: "(u8 list \<Rightarrow> 'f \<Rightarrow> int \<times> 'f) \<Rightarrow> u8 list \<Rightarrow> 'f \<Rightarrow> int \<times> 'f" where
  "print_errors_to_file fputs msg fp = (case fputs msg fp of (res, fp') \<Rightarrow> (if res < 0 then 0 else 1, fp'))"

definition ERR_print_errors_fp ::
  "err_tables \<Rightarrow> (u8 list \<Rightarrow> 'f \<Rightarrow> int \<times> 'f) \<Rightarrow> nat \<Rightarrow> 'f \<Rightarrow> 'f err" where
  "ERR_print_errors_fp tab fputs thread_hash file =
     ERR_print_errors_cb tab (print_errors_to_file fputs) thread_hash file"

section \<open>Binary search\<close>

text \<open>What \<^verbatim>\<open>bsearch\<close> needs of a comparison function: it compares the keys \<open>g k\<close> and \<open>f x\<close>.\<close>

locale key_order =
  fixes cmp :: "'k \<Rightarrow> 'a \<Rightarrow> int" and g :: "'k \<Rightarrow> 'b::linorder" and f :: "'a \<Rightarrow> 'b"
  assumes cmp_less: "cmp k x < 0 \<longleftrightarrow> g k < f x"
    and cmp_greater: "cmp k x > 0 \<longleftrightarrow> f x < g k"
begin

lemma cmp_zero: "cmp k x = 0 \<Longrightarrow> f x = g k"
  using cmp_less [of k x] cmp_greater [of k x] by (cases "f x" "g k" rule: linorder_cases) auto

lemma bsearch_in_misses:
  assumes "sorted_wrt (<) (map f xs)" and "hi \<le> length xs"
  shows "bsearch_in (cmp k) xs lo hi = None \<Longrightarrow> lo \<le> i \<Longrightarrow> i < hi \<Longrightarrow> f (xs ! i) \<noteq> g k"
  using assms(2)
proof (induction "hi - lo" arbitrary: lo hi rule: less_induct)
  case less
  let ?mid = "(lo + hi) div 2"
  have mono: "f (xs ! p) < f (xs ! q)" if "p < q" "q < length xs" for p q
    using sorted_wrt_nth_less [OF assms(1) that(1)] that by simp
  have m: "lo < hi" "lo \<le> ?mid" "?mid < hi" using less.prems by auto
  have nz: "cmp k (xs ! ?mid) \<noteq> 0"
    using less.prems(1) m(1) by (auto simp: bsearch_in.simps [of _ xs lo hi] Let_def split: if_splits)
  consider "cmp k (xs ! ?mid) < 0" | "cmp k (xs ! ?mid) > 0" using nz by linarith
  then show ?case
  proof cases
    case 1
    then have "bsearch_in (cmp k) xs lo ?mid = None"
      using less.prems(1) m(1) by (simp add: bsearch_in.simps [of _ xs lo hi] Let_def)
    moreover have "?mid - lo < hi - lo" using m by linarith
    ultimately have "i < ?mid \<Longrightarrow> ?thesis" using less.hyps [of ?mid lo] less.prems m by simp
    moreover have "?mid \<le> i \<Longrightarrow> ?thesis"
      using mono [of ?mid i] 1 less.prems by (cases "i = ?mid") (auto simp: cmp_less)
    ultimately show ?thesis by linarith
  next
    case 2
    then have "bsearch_in (cmp k) xs (?mid + 1) hi = None"
      using less.prems(1) m(1) nz by (simp add: bsearch_in.simps [of _ xs lo hi] Let_def)
    moreover have "hi - (?mid + 1) < hi - lo" using m by linarith
    ultimately have "?mid < i \<Longrightarrow> ?thesis" using less.hyps [of hi "?mid + 1"] less.prems by simp
    moreover have "i \<le> ?mid \<Longrightarrow> ?thesis"
      using mono [of i ?mid] 2 less.prems m by (cases "i = ?mid") (auto simp: cmp_greater)
    ultimately show ?thesis by linarith
  qed
qed

lemma bsearch_finds:
  assumes "sorted_wrt (<) (map f xs)"
  shows "map_option ((!) xs) (bsearch (cmp k) xs) = Some x \<longleftrightarrow> x \<in> set xs \<and> f x = g k"
proof (cases "bsearch (cmp k) xs")
  case None
  then have "\<forall>x \<in> set xs. f x \<noteq> g k"
    using bsearch_in_misses [OF assms le_refl, of k 0] by (auto simp: bsearch_def in_set_conv_nth)
  with None show ?thesis by auto
next
  case (Some i)
  then have i: "i < length xs" "f (xs ! i) = g k"
    using bsearch_in_sound [of "cmp k" xs 0 "length xs" i] cmp_zero by (auto simp: bsearch_def)
  have "inj_on f (set xs)" using assms by (metis distinct_map strict_sorted_iff)
  then have "xs ! i = x \<longleftrightarrow> x \<in> set xs \<and> f x = g k" using i by (metis inj_onD nth_mem)
  with Some show ?thesis by simp
qed

end

interpretation err_table: key_order err_string_cmp "drop_bit 15" "drop_bit 15"
  by unfold_locales (auto simp: err_string_cmp_def Let_def)

lemma search_key_parts:
  fixes lib key v :: u32
  assumes "lib < 64" and "key < 2048"
  shows "drop_bit 15 v = drop_bit 15 (push_bit 26 lib OR push_bit 15 key) \<longleftrightarrow>
    drop_bit 26 v = lib \<and> drop_bit 15 v AND 0x7ff = key"
proof -
  have small: "unat lib < 64" "unat key < 2048" using assms by (simp_all add: word_less_nat_alt)
  have m: "(0x7ff :: u32) = mask 11" by (simp add: mask_eq_exp_minus_1)
  have l: "\<not> bit lib n" if "6 \<le> n" for n
    using small(1) bit_less [of "unat lib" 6 n] that by (auto simp: bit_unsigned_iff)
  have k: "\<not> bit key n" if "11 \<le> n" for n
    using small(2) bit_less [of "unat key" 11 n] that by (auto simp: bit_unsigned_iff)
  show ?thesis
  proof
    assume *: "drop_bit 15 v = drop_bit 15 (push_bit 26 lib OR push_bit 15 key)"
    have "bit v (n + 15) \<longleftrightarrow> (11 \<le> n \<and> bit lib (n - 11)) \<or> bit key n" if "n < 17" for n
      using arg_cong [OF *, of "\<lambda>w. bit w n"] that by (auto simp: bit_drop_bit_eq bit_or_iff bit_push_bit_iff add.commute)
    note b = this
    have "drop_bit 26 v = lib"
    proof (rule bit_word_eqI)
      fix n :: nat assume "n < LENGTH(32)"
      then show "bit (drop_bit 26 v) n = bit lib n"
        using b [of "n + 11"] k [of "n + 11"] l [of n]
        by (cases "n < 6") (auto simp: bit_drop_bit_eq ac_simps dest: bit_imp_le_length)
    qed
    moreover have "drop_bit 15 v AND 0x7ff = key"
    proof (rule bit_word_eqI)
      fix n :: nat assume "n < LENGTH(32)"
      then show "bit (drop_bit 15 v AND 0x7ff) n = bit key n"
        using b [of n] k [of n] by (cases "n < 11") (auto simp: m bit_and_iff bit_mask_iff bit_drop_bit_eq ac_simps)
    qed
    ultimately show "drop_bit 26 v = lib \<and> drop_bit 15 v AND 0x7ff = key" by simp
  next
    assume *: "drop_bit 26 v = lib \<and> drop_bit 15 v AND 0x7ff = key"
    then have b: "bit lib n \<longleftrightarrow> bit v (n + 26)" "bit key n \<longleftrightarrow> n < 11 \<and> bit v (n + 15)" for n
      by (auto simp: m bit_and_iff bit_mask_iff bit_drop_bit_eq ac_simps)
    show "drop_bit 15 v = drop_bit 15 (push_bit 26 lib OR push_bit 15 key)"
    proof (rule bit_word_eqI)
      fix n :: nat assume "n < LENGTH(32)"
      then show "bit (drop_bit 15 v) n = bit (drop_bit 15 (push_bit 26 lib OR push_bit 15 key)) n"
        using bit_imp_le_length [of v "n + 15"]
        by (auto simp: bit_drop_bit_eq bit_or_iff bit_push_bit_iff b ac_simps)
    qed
  qed
qed

lemma top_bits_less: "drop_bit 26 (v :: u32) < 64"
proof -
  have "unat v < 2 ^ LENGTH(32)" by (rule unsigned_less)
  then have "unat v < 64 * 2 ^ 26" by simp
  then have "unat (drop_bit 26 v) < 64"
    unfolding unsigned_drop_bit_eq by (simp add: drop_bit_eq_div take_bit_eq_mod less_mult_imp_div_less)
  then show ?thesis by (simp add: word_less_nat_alt)
qed

text \<open>C28: The reason lookup finds what the table holds: for a table sorted by its keys, as generated, the
  string of a library and a reason code is found exactly if the table has a value for the two.\<close>

theorem err_string_lookup_exact:
  assumes "sorted_wrt (<) (map (drop_bit 15) values)"
  shows "err_string_lookup lib key values = Some offset \<longleftrightarrow>
    (\<exists>v \<in> set values. drop_bit 26 v = lib \<and> drop_bit 15 v AND 0x7ff = key \<and> offset = unat (v AND 0x7fff))"
proof (cases "lib < 64 \<and> key < 2048")
  case True
  let ?k = "push_bit 26 lib OR push_bit 15 key"
  have "err_string_lookup lib key values =
      map_option (\<lambda>v. unat (v AND 0x7fff)) (map_option ((!) values) (bsearch (err_string_cmp ?k) values))"
    using True by (auto simp: err_string_lookup_def not_le [symmetric] push_bit_eq_mult split: option.splits)
  then show ?thesis
    using err_table.bsearch_finds [OF assms, of ?k] search_key_parts True
    by (auto simp del: option.map_comp map_option_eq_Some simp: map_option_eq_Some [of "\<lambda>v. unat (v AND 0x7fff)"])
next
  case False
  have "drop_bit 15 v AND 0x7ff < (2048 :: u32)" for v :: u32
    using unat_mask_less [of "drop_bit 15 v" 11] by (simp add: mask_eq_exp_minus_1 word_less_nat_alt)
  then have "\<not> (drop_bit 26 v = lib \<and> drop_bit 15 v AND 0x7ff = key)" for v
    using False top_bits_less by metis
  moreover have "err_string_lookup lib key values = None"
    using False by (auto simp: err_string_lookup_def push_bit_eq_mult not_less)
  ultimately show ?thesis by auto
qed

theorem err_string_lookup_exact_witness:
  "err_string_lookup 3 102 [0x0c328001, 0x0c330005, 0x10000009] = Some 5"
proof -
  have "sorted_wrt (<) (map (drop_bit 15) [0x0c328001, 0x0c330005, 0x10000009 :: u32])"
    "\<exists>v \<in> set [0x0c328001, 0x0c330005, 0x10000009 :: u32]. drop_bit 26 v = 3 \<and> drop_bit 15 v AND 0x7ff = 102 \<and> 5 = unat (v AND 0x7fff)"
    by code_simp+
  then show ?thesis using err_string_lookup_exact by blast
qed

section \<open>Truncated messages\<close>

lemma c_text_at: "m < length b \<Longrightarrow> \<forall>i < m. b ! i \<noteq> 0 \<Longrightarrow> b ! m = 0 \<Longrightarrow> c_text b = take m b"
  unfolding c_text_def by (rule takeWhile_eq_take_P_nth) (auto simp: min_def split: if_splits)

lemma strlen_text: "strlen b = length (c_text b)"
  by (simp add: strlen_def c_text_def)

text \<open>A buffer that holds a string of \<open>m\<close> characters.\<close>

definition holds_text :: "nat \<Rightarrow> u8 list \<Rightarrow> bool" where
  "holds_text m b \<longleftrightarrow> m < length b \<and> (\<forall>i < m. b ! i \<noteq> 0) \<and> b ! m = 0"

lemma holds_text_take: "holds_text m b \<Longrightarrow> c_text b = take m b"
  by (simp add: holds_text_def c_text_at)

lemma holds_text_strlen: "holds_text m b \<Longrightarrow> strlen b = m"
  by (simp add: strlen_text holds_text_take) (simp add: holds_text_def)

lemma holds_text_c_string: "holds_text m b \<Longrightarrow> c_string (take (Suc m) b)"
  by (auto simp: holds_text_def c_string_def in_set_conv_nth intro!: exI [of _ m])

lemma c_text_drop: "holds_text m b \<Longrightarrow> s \<le> m \<Longrightarrow> c_text (drop s b) = drop s (take m b)"
  by (subst c_text_at [of "m - s"]) (auto simp: holds_text_def drop_take)

lemma BIO_snprintf_holds:
  assumes "0 < len" and "len \<le> length buf" and "0 \<notin> set s"
  shows "holds_text (min (len - 1) (length s)) (BIO_snprintf buf len s)"
    and "take (min (len - 1) (length s)) (BIO_snprintf buf len s) = take (len - 1) s"
    and "length (BIO_snprintf buf len s) = length buf"
    and "drop len (BIO_snprintf buf len s) = drop len buf"
proof -
  let ?t = "take (len - 1) s"
  have eq: "BIO_snprintf buf len s = ?t @ [0] @ drop (length ?t + 1) buf"
    using assms(1) by (simp add: BIO_snprintf_def Let_def)
  have cut: "drop (len - length s) (0 # drop (Suc (length s)) buf) = drop len buf" if "length s \<le> len - Suc 0"
    using that assms(1) by (cases "len - length s") (auto intro!: arg_cong [of _ _ "\<lambda>n. drop n buf"])
  show "take (min (len - 1) (length s)) (BIO_snprintf buf len s) = take (len - 1) s"
    "length (BIO_snprintf buf len s) = length buf" "drop len (BIO_snprintf buf len s) = drop len buf"
    unfolding eq using assms(1,2) cut by (auto simp: min_def)
  have "s ! i \<noteq> 0" if "i < length s" for i using nth_mem [OF that] assms(3) by metis
  then show "holds_text (min (len - 1) (length s)) (BIO_snprintf buf len s)"
    unfolding eq holds_text_def using assms by (auto simp: nth_append min_def)
qed

lemma takeWhile_short: "length (takeWhile (\<lambda>x. x \<noteq> c) t) < length t \<longleftrightarrow> c \<in> set t"
  by (induction t) auto

lemma strchr_at_None:
  "holds_text m b \<Longrightarrow> s \<le> m \<Longrightarrow> strchr_at b s c = None \<longleftrightarrow> c \<notin> set (drop s (take m b))"
  unfolding strchr_at_def Let_def by (simp only: c_text_drop takeWhile_short) simp

lemma count_list_replicate: "count_list (replicate n x) x = n"
  by (induction n) auto

lemma count_list_split:
  assumes "s \<le> p" and "p < length b" and "b ! p = c" and "c \<notin> set (drop s (take p b))"
  shows "count_list (take (p + 1) b) c = Suc (count_list (take s b) c)"
proof -
  have "take (p + 1) b = take s b @ drop s (take p b) @ [c]"
    using assms(1-3) by (metis Suc_eq_plus1 append_assoc append_take_drop_id min.absorb1 take_Suc_conv_app_nth take_take)
  then show ?thesis using assms(4) by (simp add: count_notin)
qed

lemma strchr_at_Some:
  assumes "holds_text m b" and "s \<le> m" and "strchr_at b s c = Some p"
  shows "s \<le> p" and "p < m" and "count_list (take (p + 1) b) c = Suc (count_list (take s b) c)"
proof -
  let ?t = "drop s (take m b)"
  let ?k = "length (takeWhile (\<lambda>x. x \<noteq> c) ?t)"
  have p: "p = s + ?k" "?k < length ?t"
    using assms by (auto simp: strchr_at_def Let_def c_text_drop split: if_splits)
  have m: "m < length b" using assms(1) by (simp add: holds_text_def)
  show "s \<le> p" "p < m" using p m by auto
  have "?t ! ?k = c" using nth_length_takeWhile [OF p(2)] by simp
  then have "b ! p = c" using p m by simp
  moreover have "take ?k ?t = takeWhile (\<lambda>x. x \<noteq> c) ?t" by (rule takeWhile_eq_take [symmetric])
  then have "drop s (take p b) = takeWhile (\<lambda>x. x \<noteq> c) ?t"
    using p m by (simp add: take_drop min_def add.commute split: if_splits)
  then have "c \<notin> set (drop s (take p b))" using set_takeWhileD by metis
  ultimately show "count_list (take (p + 1) b) c = Suc (count_list (take s b) c)"
    using count_list_split [OF \<open>s \<le> p\<close>, of b c] \<open>p < m\<close> m by simp
qed

lemma fill_colons_holds:
  assumes "holds_text m b" and "p + n = m"
  shows "holds_text m (fill_colons p n b)" and "length (fill_colons p n b) = length b"
    and "drop m (fill_colons p n b) = drop m b"
    and "count_list (take m (fill_colons p n b)) colon = count_list (take p b) colon + n"
proof -
  have m: "p < length b" "m < length b" "p \<le> m" using assms by (auto simp: holds_text_def)
  show "length (fill_colons p n b) = length b" "drop m (fill_colons p n b) = drop m b"
    using assms(2) m by (auto simp: fill_colons_def min_def)
  have "take m (fill_colons p n b) = take p b @ replicate n colon"
    using assms(2) m by (auto simp: fill_colons_def min_def)
  then show "count_list (take m (fill_colons p n b)) colon = count_list (take p b) colon + n"
    by (simp add: count_list_replicate)
  show "holds_text m (fill_colons p n b)"
    using assms m by (auto simp: holds_text_def fill_colons_def nth_append colon_def min_def)
qed

lemma colon_loop_holds:
  assumes "holds_text m b" and "m = len - 1" and "s + n \<le> m" and "k \<le> count_list (take s b) colon"
  shows "holds_text m (colon_loop len n s b) \<and> length (colon_loop len n s b) = length b \<and>
    drop m (colon_loop len n s b) = drop m b \<and> n + k \<le> count_list (take m (colon_loop len n s b)) colon"
  using assms
proof (induction n arbitrary: s k)
  case 0
  then have "take m b = take s b @ drop s (take m b)" by (metis append_take_drop_id min.absorb1 take_take add_0_right)
  then have "count_list (take s b) colon \<le> count_list (take m b) colon"
    by (metis count_list_append le_add1)
  with 0 show ?case by simp
next
  case (Suc n)
  let ?p = "len - 1 - Suc n"
  have filled: ?case if "colon_loop len (Suc n) s b = fill_colons ?p (Suc n) b"
  proof -
    have "take ?p b = take s b @ drop s (take ?p b)"
      using Suc.prems(2,3) by (metis add_le_imp_le_diff append_take_drop_id min.absorb1 take_take)
    then have "count_list (take s b) colon \<le> count_list (take ?p b) colon"
      by (metis count_list_append le_add1)
    then show ?thesis
      using fill_colons_holds [OF Suc.prems(1), of ?p "Suc n"] Suc.prems that by simp
  qed
  show ?case
  proof (cases "strchr_at b s colon")
    case None
    then show ?thesis by (intro filled) (simp add: Let_def)
  next
    case (Some p)
    show ?thesis
    proof (cases "p > ?p")
      case True
      then show ?thesis using Some by (intro filled) (simp add: Let_def)
    next
      case False
      have "s \<le> m" using Suc.prems(3) by simp
      note found = strchr_at_Some [OF Suc.prems(1) this Some]
      have "colon_loop len (Suc n) s b = colon_loop len n (p + 1) b" using Some False by (simp add: Let_def)
      moreover have "p + 1 + n \<le> m" using False Suc.prems(2,3) by simp
      ultimately show ?thesis
        using Suc.IH [OF Suc.prems(1,2), of "p + 1" "Suc k"] found(3) Suc.prems(4) by simp
    qed
  qed
qed

text \<open>A message that has the colons already is left alone.\<close>

lemma count_le_length: "count_list xs x \<le> length xs"
  by (induction xs) auto

lemma colon_loop_keeps:
  assumes "holds_text m b" and "m = len - 1" and "s \<le> m" and "n \<le> count_list (drop s (take m b)) colon"
  shows "colon_loop len n s b = b"
  using assms
proof (induction n arbitrary: s)
  case (Suc n)
  then have "colon \<in> set (drop s (take m b))" by (metis count_notin not_less_eq_eq le0)
  then obtain p where p: "strchr_at b s colon = Some p"
    using strchr_at_None [OF Suc.prems(1,3)] by (cases "strchr_at b s colon") auto
  note found = strchr_at_Some [OF Suc.prems(1,3) p]
  have parts: "count_list (take m b) colon = count_list (take k b) colon + count_list (drop k (take m b)) colon"
    if "k \<le> m" for k
    using that by (metis append_take_drop_id count_list_append min.absorb1 take_take)
  have "n \<le> count_list (drop (p + 1) (take m b)) colon"
    using parts [of s] parts [of "p + 1"] found Suc.prems(3,4) by simp
  moreover have "\<not> p > len - 1 - Suc n"
    using le_trans [OF \<open>n \<le> _\<close> count_le_length] found(2) Suc.prems(1,2) by (simp add: holds_text_def)
  ultimately show ?case using p Suc.IH [OF Suc.prems(1,2), of "p + 1"] found(2) by (simp add: Let_def)
qed simp

lemma digit_no_zero: "d < 16 \<Longrightarrow> digit d \<noteq> 0"
proof -
  have "list_all (\<lambda>d. digit d \<noteq> 0) [0..<16]" by code_simp
  then show "d < 16 \<Longrightarrow> digit d \<noteq> 0" by (simp add: list_all_iff)
qed

lemma hex_text_no_zero: "0 \<notin> set (hex_text n v)"
  by (induction n v rule: hex_text.induct) (auto simp: digit_no_zero [THEN not_sym])

lemma dec_text_no_zero: "0 \<notin> set (dec_text v)"
proof (induction v rule: dec_text.induct)
  case (1 v)
  have "v mod 10 < 16" using mod_less_divisor [of 10 v] by linarith
  then show ?case using 1 digit_no_zero [of v] digit_no_zero [of "v mod 10"] by (subst dec_text.simps) auto
qed

lemma kLibraryNames_no_zero: "s \<in> set kLibraryNames \<Longrightarrow> 0 \<notin> set (lit s)"
proof -
  have "\<forall>s \<in> set kLibraryNames. 0 \<notin> set (lit s)" by code_simp
  then show "s \<in> set kLibraryNames \<Longrightarrow> 0 \<notin> set (lit s)" by blast
qed

lemma literals:
  "0 \<notin> set (lit ''lib('')" "0 \<notin> set (lit '')'')" "0 \<notin> set (lit ''reason('')" "0 \<notin> set (lit ''error:'')"
  "0 \<notin> set (lit '':'')" "0 \<notin> set (lit '':OPENSSL_internal:'')" "0 \<notin> set (lit ''malloc failure'')"
  "0 \<notin> set (lit ''function should not have been called'')" "0 \<notin> set (lit ''passed a null parameter'')"
  "0 \<notin> set (lit ''internal error'')" "0 \<notin> set (lit ''overflow'')"
  "count_list (lit ''error:'') colon = 1" "count_list (lit '':'') colon = 1"
  "count_list (lit '':OPENSSL_internal:'') colon = 2" "length kLibraryNames = ERR_NUM_LIBS"
  by code_simp+

lemma error_text_no_zero:
  assumes "\<And>n. 0 \<notin> set (strerror tab n)"
  shows "0 \<notin> set (error_text tab p)"
proof -
  have names: "0 \<notin> set (lit (kLibraryNames ! n))" if "n < ERR_NUM_LIBS" for n
    using that kLibraryNames_no_zero literals(15) by simp
  have ctext: "0 \<notin> set (c_text s)" for s unfolding c_text_def using set_takeWhileD by metis
  have "0 \<notin> set (lib_text p)"
    by (simp add: lib_text_def ERR_lib_error_string_def Let_def names dec_text_no_zero literals)
  moreover have "0 \<notin> set (reason_text tab p)"
    by (auto simp: reason_text_def ERR_reason_error_string_def Let_def names dec_text_no_zero literals assms ctext
        split: option.splits)
  ultimately show ?thesis by (simp add: error_text_def hex_text_no_zero literals)
qed

lemma error_text_colons: "4 \<le> count_list (error_text tab p) colon"
  by (simp add: error_text_def literals)

text \<open>C27: \<^verbatim>\<open>ERR_error_string_n\<close> writes a C string into its buffer and nothing behind it.  A message that fits is
  complete; one that does not fit still has its four colons, if the buffer has room for them.\<close>

theorem error_string_fits:
  fixes p :: u32
  assumes "0 < len" and "len \<le> length buf" and "\<And>n. 0 \<notin> set (strerror tab n)"
  defines "out \<equiv> ERR_error_string_n tab p buf len"
  shows "length out = length buf \<and> drop len out = drop len buf \<and> c_string (take len out) \<and>
    (length (error_text tab p) < len \<longrightarrow> c_text out = error_text tab p) \<and>
    (4 < len \<longrightarrow> 4 \<le> count_list (c_text out) colon)"
proof -
  let ?s = "error_text tab p" and ?b = "BIO_snprintf buf len (error_text tab p)"
  let ?m = "min (len - 1) (length ?s)"
  note printed = BIO_snprintf_holds [OF assms(1,2) error_text_no_zero [OF assms(3), of p]]
  have string: "c_string (take len b)" if "holds_text m b" "m < len" for m b
    using holds_text_c_string [OF that(1)] that(2) by (meson Suc_leI c_string_def set_take_subset_set_take subsetD)
  show ?thesis
  proof (cases "strlen ?b = len - 1 \<and> 4 < len")
    case False
    then have out: "out = ?b" using assms(1) by (auto simp: out_def ERR_error_string_n_def Let_def)
    have short: "length ?s < len - 1" if "4 < len"
      using False that printed(1) holds_text_strlen [OF printed(1)] by (auto simp: min_def split: if_splits)
    have "c_text ?b = take (len - 1) ?s" using holds_text_take [OF printed(1)] printed(2) by simp
    moreover have "c_string (take len ?b)" by (rule string [OF printed(1)]) (use assms(1) in simp)
    ultimately show ?thesis
      using out printed(3,4) assms(1) short error_text_colons [of tab p] by (auto simp: min_def)
  next
    case True
    then have m: "?m = len - 1" using holds_text_strlen [OF printed(1)] by simp
    have b: "holds_text (len - 1) ?b" using printed(1) m by simp
    have out: "out = colon_loop len 4 0 ?b" using True assms(1) by (simp add: out_def ERR_error_string_n_def Let_def)
    have room: "4 \<le> len - 1" using conjunct2 [OF True] by linarith
    have ok: "holds_text (len - 1) out" "length out = length ?b" "drop (len - 1) out = drop (len - 1) ?b"
      "4 \<le> count_list (take (len - 1) out) colon"
      using colon_loop_holds [OF b refl, of 0 4 0] room unfolding out by simp_all
    have "drop len out = drop len ?b" using arg_cong [OF ok(3), of "drop 1"] assms(1) by simp
    moreover have "c_text out = ?s" if "length ?s < len"
    proof -
      have "take (len - 1) ?b = ?s" using printed(2) m that by simp
      then have "out = ?b" unfolding out using colon_loop_keeps [OF b refl, of 0 4] error_text_colons [of tab p] by simp
      then show ?thesis using holds_text_take [OF b] \<open>take (len - 1) ?b = ?s\<close> by simp
    qed
    ultimately show ?thesis
      using ok holds_text_take [OF ok(1)] string [OF ok(1)] printed(3,4) assms(1) by simp
  qed
qed

definition no_tables :: err_tables where
  "no_tables = \<lparr>strerror = (\<lambda>n. []), kOpenSSLReasonValues = [], kOpenSSLReasonStringData = []\<rparr>"

theorem error_string_fits_witness:
  "4 \<le> count_list (c_text (ERR_error_string_n no_tables 0x0c000065 (replicate 10 0) 10)) colon"
  using error_string_fits [of 10 "replicate 10 0" no_tables "0x0c000065"] by (simp add: no_tables_def)

end
