(* ===== verification/Err_Queue.thy ===== *)
theory Err_Queue
  imports Err_Text
begin

unbundle bit_operations_syntax

text \<open>
  The properties of the error queue.  Ownership comes first: \<open>heap_is w A\<close> says that the strings in the heap are
  exactly those of the multiset \<open>A\<close>, so that an address in \<open>A\<close> has one owner, can be freed once, and a string
  that nobody owns is not there.  \<open>runs F p w Q\<close> is the rule format: the step \<open>p\<close> has a result that satisfies
  \<open>Q\<close> and leaves the strings of \<open>F\<close> alone.  On top of it the ring refines a list of errors.
\<close>

section \<open>Ownership\<close>

definition opt_mset :: "'a option \<Rightarrow> 'a multiset" where
  "opt_mset p = (case p of None \<Rightarrow> {#} | Some a \<Rightarrow> {#a#})"

lemma opt_mset_simps [simp]: "opt_mset None = {#}" "opt_mset (Some a) = {#a#}"
  by (simp_all add: opt_mset_def)

definition owned :: "err_slot list \<Rightarrow> nat multiset" where
  "owned es = sum_list (map (\<lambda>e. opt_mset (err_data e)) es)"

lemma owned_simps [simp]:
  "owned [] = {#}" "owned (e # es) = opt_mset (err_data e) + owned es" "owned (es @ fs) = owned es + owned fs"
  by (simp_all add: owned_def)

lemma zero_error_simps [simp]:
  "err_data zero_error = None" "err_file zero_error = None" "err_packed zero_error = 0"
  "err_line zero_error = 0" "\<not> err_mark zero_error"
  by (simp_all add: zero_error_def)

lemma owned_zeros [simp]: "owned (replicate n zero_error) = {#}"
  by (induction n) auto

lemma owned_update:
  "i < length es \<Longrightarrow> owned (es[i := e]) = opt_mset (err_data e) + owned (es[i := zero_error])"
proof (induction es arbitrary: i)
  case (Cons x es)
  then show ?case by (cases i) (auto simp: ac_simps)
qed simp

lemma owned_split:
  "i < length es \<Longrightarrow> owned es = opt_mset (err_data (es ! i)) + owned (es[i := zero_error])"
  using owned_update [of i es "es ! i"] by simp

lemma owned_nth: "i < length es \<Longrightarrow> opt_mset (err_data (es ! i)) \<subseteq># owned es"
  using owned_split [of i es] by simp

lemma owned_others:
  "j < length es \<Longrightarrow> j \<noteq> i \<Longrightarrow> opt_mset (err_data (es ! j)) \<subseteq># owned (es[i := zero_error])"
  using owned_nth [of j "es[i := zero_error]"] by simp

definition heap_is :: "err_world \<Rightarrow> nat multiset \<Rightarrow> bool" where
  "heap_is w A \<longleftrightarrow> finite (dom (e_heap w)) \<and> A = mset_set (dom (e_heap w)) \<and>
     (\<forall>a b. e_heap w a = Some b \<longrightarrow> a < e_fresh w \<and> c_string b)"

text \<open>What no operation changes: the strings of \<open>F\<close> and the environment.\<close>

definition spares :: "nat multiset \<Rightarrow> err_world \<Rightarrow> err_world \<Rightarrow> bool" where
  "spares F w w' \<longleftrightarrow> (\<forall>a. a \<in># F \<longrightarrow> e_heap w' a = e_heap w a) \<and> e_tls_ok w' = e_tls_ok w \<and>
     e_errno w' = e_errno w \<and> mem_ok (e_mem w') = mem_ok (e_mem w)"

definition plenty :: "err_world \<Rightarrow> bool" where
  "plenty w \<longleftrightarrow> (\<forall>k n. mem_ok (e_mem w) k n) \<and> e_tls_ok w"

definition runs :: "nat multiset \<Rightarrow> 'a err \<Rightarrow> err_world \<Rightarrow> ('a \<Rightarrow> err_world \<Rightarrow> bool) \<Rightarrow> bool" where
  "runs F p w Q \<longleftrightarrow> (\<exists>x w'. p w = (Some x, w') \<and> spares F w w' \<and> Q x w')"

lemma spares_refl [simp]: "spares F w w"
  by (simp add: spares_def)

lemma spares_trans: "spares F w w1 \<Longrightarrow> spares F w1 w2 \<Longrightarrow> spares F w w2"
  by (simp add: spares_def)

lemma spares_mono: "spares F w w' \<Longrightarrow> G \<subseteq># F \<Longrightarrow> spares G w w'"
  unfolding spares_def by (meson mset_subset_eqD)

lemma spares_plenty: "spares F w w' \<Longrightarrow> plenty w' = plenty w"
  by (simp add: spares_def plenty_def)

named_theorems run_rule

lemma runs_ret [run_rule]: "Q x w \<Longrightarrow> runs F (ret x) w Q"
  by (simp add: runs_def)

lemma runs_bind [run_rule]: "runs F p w (\<lambda>x w'. runs F (f x) w' Q) \<Longrightarrow> runs F (and_then p f) w Q"
  unfolding runs_def by (metis and_then_eval spares_trans)

lemma runs_require [run_rule]: "c \<Longrightarrow> Q () w \<Longrightarrow> runs F (require c) w Q"
  by (simp add: runs_def)

lemma runs_post: "runs F p w Q \<Longrightarrow> (\<And>x w'. spares F w w' \<Longrightarrow> Q x w' \<Longrightarrow> R x w') \<Longrightarrow> runs F p w R"
  unfolding runs_def by blast

lemma runs_mono: "runs F p w Q \<Longrightarrow> G \<subseteq># F \<Longrightarrow> runs G p w Q"
  unfolding runs_def using spares_mono by blast

lemma runs_chain:
  assumes "runs F p w Q" and "\<And>x w'. spares F w w' \<Longrightarrow> Q x w' \<Longrightarrow> runs F (f x) w' R"
  shows "runs F (and_then p f) w R"
  using assms by (intro runs_bind) (rule runs_post)

lemma heap_is_cong: "e_heap w' = e_heap w \<Longrightarrow> e_fresh w' = e_fresh w \<Longrightarrow> heap_is w' A = heap_is w A"
  by (simp add: heap_is_def)

lemma heap_is_in: "heap_is w A \<Longrightarrow> a \<in># A \<Longrightarrow> \<exists>b. e_heap w a = Some b \<and> c_string b"
  by (auto simp: heap_is_def)

lemma heap_is_once: "heap_is w (add_mset a A) \<Longrightarrow> a \<notin># A"
proof -
  assume "heap_is w (add_mset a A)"
  then have "count (add_mset a A) a = count (mset_set (dom (e_heap w))) a" by (simp add: heap_is_def)
  then show "a \<notin># A" by (simp add: count_mset_set' not_in_iff split: if_splits)
qed

section \<open>Strings\<close>

definition text_at :: "err_world \<Rightarrow> nat \<Rightarrow> u8 list" where
  "text_at w a = c_text (the (e_heap w a))"

lemma spares_text: "spares F w w' \<Longrightarrow> a \<in># F \<Longrightarrow> text_at w' a = text_at w a"
  by (simp add: spares_def text_at_def)

lemma free_string_runs:
  assumes "heap_is w (opt_mset p + F)"
  shows "runs F (free_string p) w (\<lambda>_ w'. heap_is w' F \<and> e_state w' = e_state w)"
proof (cases p)
  case None
  then show ?thesis using assms by (simp add: runs_def free_string_def)
next
  case (Some a)
  with assms have w: "heap_is w (add_mset a F)" by simp
  from heap_is_in [OF w, of a] obtain b where b: "e_heap w a = Some b" by auto
  have "a \<notin># F" by (rule heap_is_once [OF w])
  moreover have "F = mset_set (dom (e_heap w) - {a})"
    using w mset_set.remove [of "dom (e_heap w)" a] domI [where m = "e_heap w", OF b] by (simp add: heap_is_def)
  ultimately show ?thesis
    using w b Some by (auto simp: runs_def free_string_def spares_def heap_is_def OPENSSL_free_def libc_free_def Let_def)
qed

lemma own_string_runs:
  assumes "heap_is w F" and "c_string block"
  shows "runs F (own_string block) w
    (\<lambda>a w'. heap_is w' (add_mset a F) \<and> text_at w' a = c_text block \<and> e_state w' = e_state w)"
proof -
  have new: "e_fresh w \<notin> dom (e_heap w)" using assms(1) by (auto simp: heap_is_def)
  then have "e_fresh w \<notin># F" using assms(1) by (simp add: heap_is_def)
  then show ?thesis
    using assms new by (auto simp: runs_def own_string_def spares_def heap_is_def text_at_def less_Suc_eq
        mset_set.insert insert_absorb)
qed

lemma on_mem_runs:
  assumes "\<And>m r m'. p m = (r, m') \<Longrightarrow> mem_ok m' = mem_ok m \<and> ((\<forall>k n. mem_ok m k n) \<longrightarrow> r \<noteq> None)"
    and "heap_is w A"
  shows "runs F (on_mem p) w (\<lambda>r w'. heap_is w' A \<and> e_state w' = e_state w \<and> (plenty w \<longrightarrow> r \<noteq> None) \<and>
    (\<exists>m'. p (e_mem w) = (r, m')))"
  using assms(1) [of "e_mem w"] assms(2)
  by (cases "p (e_mem w)") (auto simp: runs_def on_mem_def spares_def heap_is_def plenty_def)

lemma libc_malloc_ok: "libc_malloc n m = (r, m') \<Longrightarrow> mem_ok m' = mem_ok m \<and> ((\<forall>k n. mem_ok m k n) \<longrightarrow> r \<noteq> None)"
  by (auto simp: libc_malloc_def split: if_splits)

lemma OPENSSL_malloc_plenty:
  "OPENSSL_malloc n m = (r, m') \<Longrightarrow> mem_ok m' = mem_ok m \<and> ((\<forall>k n. mem_ok m k n) \<longrightarrow> r \<noteq> None)"
  by (cases "libc_malloc (size_add n OPENSSL_MALLOC_PREFIX) m")
    (auto simp: OPENSSL_malloc_def and_then_def ret_def dest: libc_malloc_ok split: option.splits)

lemma OPENSSL_strdup_ok:
  "OPENSSL_strdup s m = (r, m') \<Longrightarrow> mem_ok m' = mem_ok m \<and> ((\<forall>k n. mem_ok m k n) \<longrightarrow> r \<noteq> None)"
  by (cases "OPENSSL_malloc (strlen s + 1) m")
    (auto simp: OPENSSL_strdup_def and_then_def ret_def Let_def dest: OPENSSL_malloc_plenty split: option.splits)

lemma OPENSSL_realloc_ok:
  "OPENSSL_realloc (Some b) n m = (r, m') \<Longrightarrow> mem_ok m' = mem_ok m \<and> ((\<forall>k n. mem_ok m k n) \<longrightarrow> r \<noteq> None)"
  by (cases "OPENSSL_malloc n m")
    (auto simp: OPENSSL_realloc_def and_then_def OPENSSL_free_def libc_free_def Let_def dest: OPENSSL_malloc_plenty
      split: option.splits)

lemma OPENSSL_strdup_text:
  assumes "OPENSSL_strdup s m = (Some b, m')" and "c_string s"
  shows "c_string b \<and> c_text b = c_text s"
proof -
  obtain p where b: "b = take (strlen s + 1) s @ drop (strlen s + 1) p"
    using assms(1) by (auto simp: OPENSSL_strdup_def and_then_def ret_def Let_def split: prod.splits option.splits)
  have "take (strlen s + 1) s = c_text s @ [0]"
    using strlen_eq [OF assms(2)] by (simp add: take_Suc_conv_app_nth c_text_def takeWhile_eq_take [symmetric] strlen_def)
  then have "b = c_text s @ 0 # drop (strlen s + 1) p" using b by simp
  moreover have "0 \<notin> set (c_text s)" unfolding c_text_def using set_takeWhileD by metis
  ultimately show ?thesis by (auto simp: c_string_def c_text_def takeWhile_append)
qed

lemma read_string_runs: "heap_is w A \<Longrightarrow> a \<in># A \<Longrightarrow>
    runs F (read_string a) w (\<lambda>s w'. w' = w \<and> e_heap w a = Some s \<and> c_string s)"
  by (auto simp: runs_def read_string_def dest: heap_is_in)

lemma free_buffer_runs:
  "heap_is w A \<Longrightarrow> runs F (free_buffer b) w (\<lambda>_ w'. heap_is w' A \<and> e_state w' = e_state w)"
  by (auto simp: runs_def free_buffer_def spares_def heap_is_def OPENSSL_free_def libc_free_def Let_def)

lemma put_state_runs:
  "heap_is w A \<Longrightarrow> runs F (put_state st) w (\<lambda>_ w'. w' = w\<lparr>e_state := Some st\<rparr> \<and> heap_is w' A)"
  by (auto simp: runs_def put_state_def spares_def heap_is_def)

section \<open>Slots\<close>

text \<open>What a slot says, with its string.\<close>

definition view :: "err_world \<Rightarrow> err_slot \<Rightarrow> u8 list err_error_st" where
  "view w e = \<lparr>err_file = err_file e, err_data = map_option (text_at w) (err_data e), err_packed = err_packed e,
     err_line = err_line e, err_mark = err_mark e\<rparr>"

lemma view_keeps: "spares F w w' \<Longrightarrow> opt_mset (err_data e) \<subseteq># F \<Longrightarrow> view w' e = view w e"
  by (cases "err_data e") (auto simp: view_def spares_text)

lemma view_sel [simp]:
  "err_file (view w e) = err_file e" "err_packed (view w e) = err_packed e" "err_line (view w e) = err_line e"
  "err_mark (view w e) = err_mark e" "err_data (view w e) = map_option (text_at w) (err_data e)"
  by (simp_all add: view_def)

lemma view_mark: "view w (e\<lparr>err_mark := b\<rparr>) = (view w e)\<lparr>err_mark := b\<rparr>"
  by (simp add: view_def)

lemma view_cong: "e_heap w' = e_heap w \<Longrightarrow> view w' e = view w e"
  by (cases "err_data e") (simp_all add: view_def text_at_def)

lemma map_view_keeps:
  assumes "spares F w w'" and "owned es \<subseteq># F"
  shows "map (view w') es = map (view w) es"
  using assms(2)
proof (induction es)
  case (Cons e es)
  then have "opt_mset (err_data e) \<subseteq># F" "owned es \<subseteq># F"
    by (auto intro: subset_mset.trans mset_subset_eq_add_left mset_subset_eq_add_right)
  then show ?case using Cons.IH view_keeps [OF assms(1)] by simp
qed simp

lemma err_clear_runs:
  assumes "heap_is w (opt_mset (err_data e) + F)"
  shows "runs F (err_clear e) w (\<lambda>e' w'. e' = zero_error \<and> heap_is w' F \<and> e_state w' = e_state w)"
  unfolding err_clear_def by (rule runs_chain [OF free_string_runs [OF assms]], rule runs_ret, simp)

text \<open>A copy has no mark, and no string if there was no memory for it.\<close>

definition copied :: "err_world \<Rightarrow> err_slot \<Rightarrow> err_world \<Rightarrow> err_slot \<Rightarrow> bool" where
  "copied w e w' e' \<longleftrightarrow> (err_data e' \<noteq> None \<or> plenty w \<longrightarrow> view w' e' = (view w e)\<lparr>err_mark := False\<rparr>) \<and>
     (view w' e')\<lparr>err_data := None\<rparr> = (view w e)\<lparr>err_mark := False, err_data := None\<rparr>"

lemma copied_keeps:
  assumes "spares F w w1" and "spares G w2 w3" and "opt_mset (err_data e) \<subseteq># F" and "opt_mset (err_data e') \<subseteq># G"
    and "copied w1 e w2 e'"
  shows "copied w e w3 e'"
  using assms(5) view_keeps [OF assms(1,3)] view_keeps [OF assms(2,4)] spares_plenty [OF assms(1)]
  by (simp add: copied_def)

lemma dup_string_runs:
  assumes "heap_is w F" and "a \<in># F"
  shows "runs F (dup_string a) w (\<lambda>p w'. e_state w' = e_state w \<and> heap_is w' (opt_mset p + F) \<and> (p = None \<longrightarrow> \<not> plenty w) \<and>
    (\<forall>b. p = Some b \<longrightarrow> text_at w' b = text_at w a))"
  unfolding dup_string_def
proof (rule runs_chain [OF read_string_runs [OF assms]], rule runs_chain [OF on_mem_runs [where A = F]])
  fix s w1 r w2
  assume "w1 = w \<and> e_heap w a = Some s \<and> c_string s"
    and "heap_is w2 F \<and> e_state w2 = e_state w1 \<and> (plenty w1 \<longrightarrow> r \<noteq> None) \<and> (\<exists>m'. OPENSSL_strdup s (e_mem w1) = (r, m'))"
  then obtain m' where s: "w1 = w" "text_at w a = c_text s" "c_string s" "heap_is w2 F" "plenty w \<longrightarrow> r \<noteq> None" "e_state w2 = e_state w"
    "OPENSSL_strdup s (e_mem w) = (r, m')"
    by (auto simp: text_at_def)
  show "runs F (case r of None \<Rightarrow> ret None | Some block \<Rightarrow> and_then (own_string block) (\<lambda>b. ret (Some b))) w2
    (\<lambda>p w'. e_state w' = e_state w \<and> heap_is w' (opt_mset p + F) \<and> (p = None \<longrightarrow> \<not> plenty w) \<and> (\<forall>b. p = Some b \<longrightarrow> text_at w' b = text_at w a))"
  proof (cases r)
    case (Some block)
    with OPENSSL_strdup_text s(3,7) have "c_string block" "c_text block = c_text s" by metis+
    then show ?thesis unfolding Some option.case
      by (intro runs_chain [OF own_string_runs [OF s(4)]] run_rule) (use s in auto)
  qed (use s in \<open>auto intro!: run_rule\<close>)
qed (use OPENSSL_strdup_ok assms(1) in auto)

lemma err_copy_runs:
  assumes "heap_is w (opt_mset (err_data dst) + F)" and "opt_mset (err_data src) \<subseteq># F"
  shows "runs F (err_copy dst src) w (\<lambda>e w'. e_state w' = e_state w \<and> heap_is w' (opt_mset (err_data e) + F) \<and> copied w src w' e)"
  unfolding err_copy_def
proof (rule runs_chain [OF err_clear_runs [OF assms(1)]])
  fix d :: err_slot and w1 assume w1: "spares F w w1" and "d = zero_error \<and> heap_is w1 F \<and> e_state w1 = e_state w"
  then have d: "d = zero_error" "heap_is w1 F" "e_state w1 = e_state w" by simp_all
  let ?e = "\<lambda>p. d\<lparr>err_file := err_file src, err_data := p, err_packed := err_packed src, err_line := err_line src\<rparr>"
  have "runs F (case err_data src of None \<Rightarrow> ret None | Some a \<Rightarrow> dup_string a) w1
    (\<lambda>p w'. e_state w' = e_state w \<and> heap_is w' (opt_mset (err_data (?e p)) + F) \<and> copied w src w' (?e p))"
  proof (cases "err_data src")
    case (Some a)
    then have a: "a \<in># F" using assms(2) by simp
    show ?thesis unfolding Some option.case
      by (rule runs_post [OF dup_string_runs [OF d(2) a]])
        (use Some d(1,3) spares_text [OF w1 a] spares_plenty [OF w1] in
          \<open>auto simp: copied_def view_def zero_error_def split: option.splits\<close>)
  qed (use d in \<open>auto intro!: run_rule simp: copied_def view_def zero_error_def\<close>)
  then show "runs F (and_then (case err_data src of None \<Rightarrow> ret None | Some a \<Rightarrow> dup_string a) (\<lambda>p. ret (?e p))) w1
    (\<lambda>e w'. e_state w' = e_state w \<and> heap_is w' (opt_mset (err_data e) + F) \<and> copied w src w' e)"
    by (rule runs_chain) (rule runs_ret)
qed

lemma clear_all_runs:
  "heap_is w (owned es + F) \<Longrightarrow>
   runs F (clear_all es) w (\<lambda>es' w'. es' = replicate (length es) zero_error \<and> heap_is w' F \<and> e_state w' = e_state w)"
proof (induction es arbitrary: w)
  case (Cons e es)
  then have "heap_is w (opt_mset (err_data e) + (owned es + F))" by (simp add: ac_simps)
  note cleared = runs_mono [OF err_clear_runs [OF this], of F]
  show ?case unfolding clear_all.simps
  proof (rule runs_chain [OF cleared])
    fix e' :: err_slot and w1 assume "e' = zero_error \<and> heap_is w1 (owned es + F) \<and> e_state w1 = e_state w"
    then show "runs F (and_then (clear_all es) (\<lambda>es'. ret (e' # es'))) w1
      (\<lambda>es' w'. es' = replicate (length (e # es)) zero_error \<and> heap_is w' F \<and> e_state w' = e_state w)"
      by (intro runs_chain [OF Cons.IH] run_rule) auto
  qed simp
qed (auto intro!: run_rule)

lemma subset_add_left: "A \<subseteq># F \<Longrightarrow> A \<subseteq># B + F" for A B F :: "'a multiset"
  by (metis mset_subset_eq_add_right subset_mset.trans)

lemma copied_from:
  "spares F w w1 \<Longrightarrow> opt_mset (err_data e) \<subseteq># F \<Longrightarrow> copied w1 e w2 e' = copied w e w2 e'"
  using view_keeps [of F w w1 e] spares_plenty [of F w w1] by (simp add: copied_def)

lemma copied_to:
  "spares F w1 w2 \<Longrightarrow> opt_mset (err_data e') \<subseteq># F \<Longrightarrow> copied w e w2 e' = copied w e w1 e'"
  using view_keeps [of F w1 w2 e'] by (simp add: copied_def)

lemma copy_out_runs:
  assumes "heap_is w F" and "\<And>j. j \<in> set js \<Longrightarrow> j < length errors" and "owned errors \<subseteq># F"
  shows "runs F (copy_out errors js) w
    (\<lambda>es w'. e_state w' = e_state w \<and> heap_is w' (owned es + F) \<and> list_all2 (\<lambda>j e. copied w (errors ! j) w' e) js es)"
  using assms
proof (induction js arbitrary: w F)
  case (Cons j js)
  have data: "opt_mset (err_data (errors ! k)) \<subseteq># F" if "k \<in> set (j # js)" for k
    using Cons.prems(2,3) owned_nth [of k errors] that by (meson subset_mset.trans)
  have "heap_is w (opt_mset (err_data zero_error) + F)" using Cons.prems(1) by simp
  note copy = err_copy_runs [OF this data, of j, simplified]
  show ?case unfolding copy_out.simps
  proof (intro runs_bind runs_require runs_post [OF copy])
    fix e w1 assume w1: "spares F w w1" "e_state w1 = e_state w \<and> heap_is w1 (opt_mset (err_data e) + F) \<and> copied w (errors ! j) w1 e"
    let ?G = "opt_mset (err_data e) + F"
    have "runs ?G (copy_out errors js) w1 (\<lambda>es w'. e_state w' = e_state w1 \<and> heap_is w' (owned es + ?G) \<and> list_all2 (\<lambda>j e. copied w1 (errors ! j) w' e) js es)"
      using Cons.prems(2,3) w1(2) by (intro Cons.IH) (auto intro: subset_add_left)
    then have "runs ?G (copy_out errors js) w1 (\<lambda>es w'. e_state w' = e_state w \<and> heap_is w' (owned (e # es) + F) \<and>
        list_all2 (\<lambda>j e. copied w (errors ! j) w' e) (j # js) (e # es))"
    proof (rule runs_post)
      fix es w2 assume w2: "spares ?G w1 w2" "e_state w2 = e_state w1 \<and> heap_is w2 (owned es + ?G) \<and> list_all2 (\<lambda>j e. copied w1 (errors ! j) w2 e) js es"
      then have "list_all2 (\<lambda>j e. copied w (errors ! j) w2 e) js es"
        using copied_from [OF w1(1) data] by (auto elim!: list.rel_mono_strong)
      then show "e_state w2 = e_state w \<and> heap_is w2 (owned (e # es) + F) \<and> list_all2 (\<lambda>j e. copied w (errors ! j) w2 e) (j # js) (e # es)"
        using w1(2) w2 copied_to [OF w2(1), of e] by (simp add: ac_simps)
    qed
    then show "runs F (copy_out errors js) w1 (\<lambda>es w'. runs F (ret (e # es)) w' (\<lambda>es w'. e_state w' = e_state w \<and> heap_is w' (owned es + F) \<and>
        list_all2 (\<lambda>j e. copied w (errors ! j) w' e) (j # js) es))"
      by (rule runs_mono [OF runs_post, where G = F]) (auto intro: runs_ret)
  qed (use Cons.prems(2) in auto)
qed (auto intro!: run_rule)

lemma copy_in_runs:
  assumes "heap_is w (owned ds + F)" and "owned ss \<subseteq># F" and "length ss \<le> length ds"
  shows "runs F (copy_in ds ss) w (\<lambda>es w'. heap_is w' (owned es + F) \<and> length es = length ds \<and>
    list_all2 (\<lambda>s e. copied w s w' e) ss (take (length ss) es))"
  using assms
proof (induction ds ss arbitrary: w F rule: copy_in.induct)
  case (3 d ds s ss)
  have data: "opt_mset (err_data s) \<subseteq># owned ds + F" "owned ss \<subseteq># F"
    using "3.prems"(2) by (auto intro: subset_add_left subset_mset.trans [OF mset_subset_eq_add_left]
        subset_mset.trans [OF mset_subset_eq_add_right])
  have "heap_is w (opt_mset (err_data d) + (owned ds + F))" using "3.prems"(1) by (simp add: ac_simps)
  note copy = err_copy_runs [OF this data(1)]
  show ?case unfolding copy_in.simps
  proof (intro runs_bind runs_post [OF runs_mono [OF copy, of F]])
    fix e w1 assume w1: "spares F w w1" "e_state w1 = e_state w \<and> heap_is w1 (opt_mset (err_data e) + (owned ds + F)) \<and> copied w s w1 e"
    let ?G = "opt_mset (err_data e) + F"
    have "runs ?G (copy_in ds ss) w1 (\<lambda>es w'. heap_is w' (owned es + ?G) \<and> length es = length ds \<and>
        list_all2 (\<lambda>s e. copied w1 s w' e) ss (take (length ss) es))"
      using "3.prems"(3) w1(2) subset_add_left [OF data(2), of "opt_mset (err_data e)"]
      by (intro "3.IH") (auto simp: ac_simps)
    then have "runs ?G (copy_in ds ss) w1 (\<lambda>es w'. heap_is w' (owned (e # es) + F) \<and> length (e # es) = length (d # ds) \<and>
        list_all2 (\<lambda>s e. copied w s w' e) (s # ss) (take (length (s # ss)) (e # es)))"
    proof (rule runs_post)
      fix es w2 assume w2: "spares ?G w1 w2" "heap_is w2 (owned es + ?G) \<and> length es = length ds \<and>
        list_all2 (\<lambda>s e. copied w1 s w2 e) ss (take (length ss) es)"
      have "opt_mset (err_data t) \<subseteq># F" if "t \<in> set ss" for t
        using data(2) that owned_nth by (metis in_set_conv_nth subset_mset.trans)
      then have "list_all2 (\<lambda>s e. copied w s w2 e) ss (take (length ss) es)"
        using w2(2) copied_from [OF w1(1)] by (auto elim!: list.rel_mono_strong)
      then show "heap_is w2 (owned (e # es) + F) \<and> length (e # es) = length (d # ds) \<and>
        list_all2 (\<lambda>s e. copied w s w2 e) (s # ss) (take (length (s # ss)) (e # es))"
        using w1(2) w2 copied_to [OF w2(1), of e] by (simp add: ac_simps)
    qed
    then show "runs F (copy_in ds ss) w1 (\<lambda>es w'. runs F (ret (e # es)) w' (\<lambda>es w'. heap_is w' (owned es + F) \<and>
        length es = length (d # ds) \<and> list_all2 (\<lambda>s e. copied w s w' e) (s # ss) (take (length (s # ss)) es)))"
      by (rule runs_mono [OF runs_post, where G = F]) (auto intro: runs_ret)
  qed simp
qed (auto intro!: run_rule)

section \<open>The ring\<close>

text \<open>The indices of the queued errors, from the least recent one on.\<close>

definition ring_slots :: "nat \<Rightarrow> nat \<Rightarrow> nat list" where
  "ring_slots b t = map (\<lambda>k. (b + k + 1) mod 16) [0..<(t + 16 - b) mod 16]"

text \<open>Facts about all positions of \<open>bottom\<close> and \<open>top\<close>.\<close>

definition ring_facts :: "nat \<Rightarrow> nat \<Rightarrow> bool" where
  "ring_facts b t \<longleftrightarrow>
     (let js = ring_slots b t; t' = (t + 1) mod 16
      in list_all (\<lambda>j. j < 16) js \<and> distinct js \<and> t' \<notin> set js \<and> b \<notin> set js \<and>
         (if t' = b then js \<noteq> [] \<and> length js = 15 \<and> ring_slots ((b + 1) mod 16) t' = tl js @ [t']
          else length js < 15 \<and> ring_slots b t' = js @ [t']) \<and>
         (if b = t then js = []
          else js \<noteq> [] \<and> last js = t \<and> hd js = (b + 1) mod 16 \<and>
               ring_slots ((b + 1) mod 16) t = tl js \<and>
               ring_slots b (if t = 0 then 15 else t - 1) = butlast js))"

lemma ring_slots_upto:
  "b < 16 \<Longrightarrow> n < 16 \<Longrightarrow> ring_slots b ((b + n) mod 16) = map (\<lambda>k. (b + k + 1) mod 16) [0..<n]"
proof -
  assume "b < 16" "n < 16"
  then have "((b + n) mod 16 + 16 - b) mod 16 = n" by (auto simp: mod_if)
  then show ?thesis by (simp add: ring_slots_def)
qed

lemma ring_slots_next:
  assumes "b < 16" and "n < 16"
  shows "ring_slots ((b + 1) mod 16) ((b + n + 1) mod 16) = tl (map (\<lambda>k. (b + k + 1) mod 16) [0..<Suc n])"
proof -
  have "((b + 1) mod 16 + n) mod 16 = (b + n + 1) mod 16" by (simp add: mod_add_left_eq)
  then have "ring_slots ((b + 1) mod 16) ((b + n + 1) mod 16) = map (\<lambda>k. ((b + 1) mod 16 + k + 1) mod 16) [0..<n]"
    using ring_slots_upto [of "(b + 1) mod 16" n] assms(2) by simp
  also have "\<dots> = map (\<lambda>k. (b + k + 1) mod 16) (map Suc [0..<n])"
    using mod_add_left_eq [of "b + 1" 16 "_ + 1"] by (simp add: add.assoc)
  also have "map Suc [0..<n] = tl [0..<Suc n]" by (simp add: map_Suc_upt upt_conv_Cons del: upt_Suc)
  finally show ?thesis by (simp only: map_tl)
qed

lemma ring_facts_all:
  assumes "b < 16" and "t < 16"
  shows "ring_facts b t"
proof -
  define n where "n = (t + 16 - b) mod 16"
  let ?f = "\<lambda>k. (b + k + 1) mod 16"
  have n: "n < 16" "t = (b + n) mod 16" using assms by (auto simp: n_def mod_if)
  have js: "ring_slots b t = map ?f [0..<n]" using ring_slots_upto [OF assms(1)] n by simp
  have next_t: "(t + 1) mod 16 = ?f n" using n(2) by (simp add: mod_Suc_eq)
  have inj: "k = l" if "?f k = ?f l" "k < 16" "l < 16" for k l
    using that assms(1) by (auto simp: mod_if split: if_splits)
  have b: "?f k = b \<longleftrightarrow> k = 15" if "k < 16" for k using that assms(1) by (auto simp: mod_if)
  have less: "k < 16" if "k < n" for k using that n(1) by simp
  have "inj_on ?f (set [0..<n])" 
  proof (rule inj_onI)
    fix x y assume "x \<in> set [0..<n]" "y \<in> set [0..<n]" "?f x = ?f y"
    then have "x < 16" "y < 16" "?f x = ?f y" using less by simp_all
    then show "x = y" by (metis inj)
  qed
  then have "distinct (map ?f [0..<n])" by (simp add: distinct_map)
  moreover have "?f n \<notin> set (map ?f [0..<n])"
  proof
    assume "?f n \<in> set (map ?f [0..<n])"
    then obtain k where "k < n" "?f n = ?f k" by auto
    with inj [OF this(2) n(1) less] show False by simp
  qed
  moreover have "b \<notin> set (map ?f [0..<n])"
  proof
    assume "b \<in> set (map ?f [0..<n])"
    then obtain k where "k < n" "?f k = b" by auto
    with b [OF less] n(1) show False by simp
  qed
  ultimately have out: "list_all (\<lambda>j. j < 16) (map ?f [0..<n])" "distinct (map ?f [0..<n])" "?f n \<notin> set (map ?f [0..<n])"
    "b \<notin> set (map ?f [0..<n])" by (simp_all add: list_all_iff)
  have put: "if ?f n = b then ring_slots ((b + 1) mod 16) (?f n) = tl (map ?f [0..<n]) @ [?f n] \<and> n = 15
      else ring_slots b (?f n) = map ?f [0..<n] @ [?f n] \<and> n < 15"
    using b [OF n(1)] n(1) ring_slots_next [OF assms(1) n(1)] ring_slots_upto [OF assms(1), of "Suc n"]
    by (auto simp: tl_append2)
  have got: "if b = t then n = 0
      else 0 < n \<and> ring_slots ((b + 1) mod 16) t = tl (map ?f [0..<n]) \<and> ring_slots b (if t = 0 then 15 else t - 1) = butlast (map ?f [0..<n])"
  proof (cases "b = t")
    case False
    then have "0 < n" using n(2) assms(1) by (cases n) auto
    moreover have "(if t = 0 then 15 else t - 1) = (b + (n - 1)) mod 16"
      using \<open>0 < n\<close> n assms by (auto simp: mod_if)
    ultimately show ?thesis
      using False n ring_slots_next [OF assms(1), of "n - 1"] ring_slots_upto [OF assms(1), of "n - 1"]
      by (cases n) auto
  qed (simp add: n_def)
  have ends: "last (map ?f [0..<n]) = t" "hd (map ?f [0..<n]) = (b + 1) mod 16" if pos: "0 < n"
  proof -
    obtain m where m: "n = Suc m" using pos by (cases n) auto
    show "last (map ?f [0..<n]) = t" using n(2) unfolding m by simp
    show "hd (map ?f [0..<n]) = (b + 1) mod 16" unfolding m by (simp add: hd_map del: upt_Suc)
  qed
  have full: "if ?f n = b then map ?f [0..<n] \<noteq> [] \<and> length (map ?f [0..<n]) = 15 \<and>
        ring_slots ((b + 1) mod 16) (?f n) = tl (map ?f [0..<n]) @ [?f n]
      else length (map ?f [0..<n]) < 15 \<and> ring_slots b (?f n) = map ?f [0..<n] @ [?f n]"
    using put by (cases "?f n = b") (simp_all only: if_True if_False length_map length_upt, auto)
  have rest: "if b = t then map ?f [0..<n] = []
      else map ?f [0..<n] \<noteq> [] \<and> last (map ?f [0..<n]) = t \<and> hd (map ?f [0..<n]) = (b + 1) mod 16 \<and>
        ring_slots ((b + 1) mod 16) t = tl (map ?f [0..<n]) \<and>
        ring_slots b (if t = 0 then 15 else t - 1) = butlast (map ?f [0..<n])"
    using got ends by (cases "b = t") (simp_all only: if_True if_False, auto)
  show ?thesis unfolding ring_facts_def Let_def js next_t by (intro conjI out full rest)
qed

definition state_ok :: "err_state_st \<Rightarrow> bool" where
  "state_ok st \<longleftrightarrow> length (es_errors st) = 16 \<and> es_top st < 16 \<and> es_bottom st < 16"

definition slots_of :: "err_state_st \<Rightarrow> nat list" where
  "slots_of st = ring_slots (es_bottom st) (es_top st)"

definition queue_of :: "err_world \<Rightarrow> err_state_st \<Rightarrow> u8 list err_error_st list" where
  "queue_of w st = map (\<lambda>j. view w (es_errors st ! j)) (slots_of st)"

text \<open>The errors in the queue of the thread, the least recent first.\<close>

definition queue :: "err_world \<Rightarrow> u8 list err_error_st list" where
  "queue w = (case e_state w of None \<Rightarrow> [] | Some st \<Rightarrow> queue_of w st)"

text \<open>The strings that the thread owns.\<close>

definition owned_state :: "err_state_st \<Rightarrow> nat multiset" where
  "owned_state st = owned (es_errors st) + opt_mset (es_to_free st)"

text \<open>\<open>S\<close> is what others own: the saved states.\<close>

definition thread_ok :: "err_world \<Rightarrow> nat multiset \<Rightarrow> bool" where
  "thread_ok w S \<longleftrightarrow>
     (case e_state w of
        None \<Rightarrow> heap_is w S
      | Some st \<Rightarrow> state_ok st \<and> heap_is w (owned_state st + S))"

lemma slots_in: "state_ok st \<Longrightarrow> j \<in> set (slots_of st) \<Longrightarrow> j < length (es_errors st)"
  using ring_facts_all [of "es_bottom st" "es_top st"]
  by (auto simp: state_ok_def slots_of_def ring_facts_def Let_def list_all_iff)

lemma slots_empty: "state_ok st \<Longrightarrow> slots_of st = [] \<longleftrightarrow> es_bottom st = es_top st"
  using ring_facts_all [of "es_bottom st" "es_top st"]
  by (auto simp: state_ok_def slots_of_def ring_facts_def Let_def split: if_splits)

lemma slots_ends:
  assumes "state_ok st" and "es_bottom st \<noteq> es_top st"
  shows "hd (slots_of st) = (es_bottom st + 1) mod 16" and "last (slots_of st) = es_top st"
    and "slots_of st \<noteq> []" and "distinct (slots_of st)"
  using assms ring_facts_all [of "es_bottom st" "es_top st"]
  by (auto simp: state_ok_def slots_of_def ring_facts_def Let_def)

text \<open>A queue is left alone by what spares its strings and its slots.\<close>

lemma queue_cong:
  assumes "spares F w w'" and "\<And>j. j \<in> set js \<Longrightarrow> es' ! j = es ! j \<and> opt_mset (err_data (es ! j)) \<subseteq># F"
  shows "map (\<lambda>j. view w' (es' ! j)) js = map (\<lambda>j. view w (es ! j)) js"
  using assms(2) view_keeps [OF assms(1)] by simp

lemma queue_keeps:
  assumes "state_ok st" and "spares F w w'" and "owned (es_errors st) \<subseteq># F"
  shows "queue_of w' st = queue_of w st"
  unfolding queue_of_def
  by (rule queue_cong [OF assms(2)]) (use owned_nth slots_in [OF assms(1)] assms(3) in \<open>meson subset_mset.trans\<close>)

lemma state_ok_zero: "state_ok zero_state" "owned_state zero_state = {#}" "queue_of w zero_state = []"
  by (auto simp: state_ok_def zero_state_def owned_state_def queue_of_def slots_of_def ring_slots_def
      ERR_NUM_ERRORS_def simp del: replicate.simps)

lemma err_state_free_runs:
  assumes "heap_is w (owned_state st + F)"
  shows "runs F (err_state_free (Some st)) w (\<lambda>_ w'. heap_is w' F \<and> e_state w' = e_state w)"
proof -
  have "heap_is w (owned (es_errors st) + (opt_mset (es_to_free st) + F))"
    using assms by (simp add: owned_state_def ac_simps)
  note cleared = runs_mono [OF clear_all_runs [OF this], of F]
  show ?thesis unfolding err_state_free_def option.case
    by (intro runs_chain [OF cleared] runs_post [OF free_string_runs]) auto
qed

text \<open>The state is there, or memory has run out and nothing is queued.\<close>

lemma err_get_state_runs:
  assumes "thread_ok w S"
  shows "runs (case e_state w of None \<Rightarrow> S | Some st \<Rightarrow> owned_state st + S) err_get_state w
    (\<lambda>s w'. e_state w' = s \<and> thread_ok w' S \<and> queue w' = queue w \<and> (s = None \<longrightarrow> \<not> plenty w))"
proof (cases "e_state w")
  case (Some st)
  then show ?thesis using assms by (simp add: runs_def err_get_state_def)
next
  case None
  let ?Q = "\<lambda>s w'. e_state w' = s \<and> thread_ok w' S \<and> queue w' = [] \<and> (s = None \<longrightarrow> \<not> plenty w)"
  have S: "heap_is w S" using None assms by (simp add: thread_ok_def)
  have "runs S (and_then (on_mem (OPENSSL_malloc sizeof_state)) (\<lambda>r. case r of None \<Rightarrow> ret None
      | Some block \<Rightarrow> if e_tls_ok w then and_then (put_state zero_state) (\<lambda>_. ret (Some zero_state))
          else and_then (err_state_free (Some zero_state)) (\<lambda>_. and_then (free_buffer block) (\<lambda>_. ret None)))) w ?Q"
  proof (rule runs_chain [OF on_mem_runs [where A = S]])
    fix r w1 assume r: "heap_is w1 S \<and> e_state w1 = e_state w \<and> (plenty w \<longrightarrow> r \<noteq> None) \<and>
      (\<exists>m'. OPENSSL_malloc sizeof_state (e_mem w) = (r, m'))"
    then have w1: "heap_is w1 S" "e_state w1 = None" "heap_is w1 (owned_state zero_state + S)"
      using None state_ok_zero(2) by simp_all
    consider "r = None" | b where "r = Some b" "e_tls_ok w" | b where "r = Some b" "\<not> e_tls_ok w" by (cases r) auto
    then show "runs S (case r of None \<Rightarrow> ret None
        | Some block \<Rightarrow> if e_tls_ok w then and_then (put_state zero_state) (\<lambda>_. ret (Some zero_state))
            else and_then (err_state_free (Some zero_state)) (\<lambda>_. and_then (free_buffer block) (\<lambda>_. ret None))) w1 ?Q"
    proof cases
      case 1
      then show ?thesis using r w1 by (auto intro!: run_rule simp: thread_ok_def queue_def)
    next
      case 2
      then show ?thesis
        by (simp, intro runs_chain [OF put_state_runs [OF w1(1)]] run_rule)
          (use state_ok_zero in \<open>auto simp: thread_ok_def queue_def\<close>)
    next
      case 3
      then show ?thesis
        by (simp, intro runs_chain [OF err_state_free_runs [OF w1(3)]] runs_chain [OF free_buffer_runs] run_rule)
          (use w1 in \<open>auto simp: thread_ok_def queue_def plenty_def\<close>)
    qed
  qed (use OPENSSL_malloc_plenty S in auto)
  then show ?thesis using None by (auto simp: runs_def err_get_state_def queue_def)
qed

lemma with_state:
  assumes "thread_ok w S"
    and none: "\<And>w1. spares S w w1 \<Longrightarrow> heap_is w1 S \<Longrightarrow> e_state w1 = None \<Longrightarrow> \<not> plenty w \<Longrightarrow> runs S f0 w1 Q"
    and some: "\<And>st w1. spares S w w1 \<Longrightarrow> e_state w1 = Some st \<Longrightarrow> state_ok st \<Longrightarrow>
      heap_is w1 (owned_state st + S) \<Longrightarrow> queue_of w1 st = queue w \<Longrightarrow> runs S (f st) w1 Q"
  shows "runs S (and_then err_get_state (\<lambda>s. case s of None \<Rightarrow> f0 | Some st \<Rightarrow> f st)) w Q"
proof -
  have "S \<subseteq># (case e_state w of None \<Rightarrow> S | Some st \<Rightarrow> owned_state st + S)" by (simp split: option.splits)
  note get = runs_mono [OF err_get_state_runs [OF assms(1)] this]
  show ?thesis
  proof (rule runs_chain [OF get])
    fix s w1 assume *: "spares S w w1"
      "e_state w1 = s \<and> thread_ok w1 S \<and> queue w1 = queue w \<and> (s = None \<longrightarrow> \<not> plenty w)"
    then show "runs S (case s of None \<Rightarrow> f0 | Some st \<Rightarrow> f st) w1 Q"
      by (cases s) (auto simp: thread_ok_def queue_def intro!: none some)
  qed
qed

lemma read_errno_runs: "runs F read_errno w (\<lambda>n w'. w' = w \<and> n = e_errno w)"
  by (simp add: runs_def read_errno_def)

section \<open>Adding and removing errors\<close>

text \<open>The effect of the operations on the queue as a list.\<close>

definition queue_put :: "'d err_error_st \<Rightarrow> 'd err_error_st list \<Rightarrow> 'd err_error_st list" where
  "queue_put e q = (if length q < 15 then q else tl q) @ [e]"

definition new_error :: "int \<Rightarrow> int \<Rightarrow> int \<Rightarrow> u8 list option \<Rightarrow> u32 \<Rightarrow> 'd err_error_st" where
  "new_error errno library reason file line =
     \<lparr>err_file = file, err_data = None,
      err_packed = ERR_PACK library (if library = ERR_LIB_SYS \<and> reason = 0 then errno else reason),
      err_line = ucast line, err_mark = False\<rparr>"

lemma length_slots: "length (queue_of w st) = length (slots_of st)"
  by (simp add: queue_of_def)

lemma state_with:
  assumes "state_ok st" and "i < 16" and "t < 16" and "b < 16"
  shows "state_ok (st\<lparr>es_errors := (es_errors st)[i := e], es_top := t, es_bottom := b\<rparr>)"
  using assms by (simp add: state_ok_def)

lemma owned_state_split:
  assumes "state_ok st" and "i < 16"
  shows "owned_state st = opt_mset (err_data (es_errors st ! i)) +
    (owned ((es_errors st)[i := zero_error]) + opt_mset (es_to_free st))"
  using owned_split [of i "es_errors st"] assms by (simp add: owned_state_def state_ok_def ac_simps)

text \<open>Putting a new error into the slot after \<^verbatim>\<open>top\<close>.\<close>

lemma queue_after_put:
  assumes st: "state_ok st" and i: "i = (es_top st + 1) mod 16"
    and k: "spares (owned ((es_errors st)[i := zero_error])) w w'"
    and st': "st' = st\<lparr>es_top := i, es_bottom := (if i = es_bottom st then (es_bottom st + 1) mod 16 else es_bottom st),
      es_errors := (es_errors st)[i := e]\<rparr>"
  shows "state_ok st' \<and> queue_of w' st' = queue_put (view w' e) (queue_of w st)"
proof -
  let ?js = "slots_of st"
  have r: "ring_facts (es_bottom st) (es_top st)" using st ring_facts_all by (simp add: state_ok_def)
  then have i': "i < length (es_errors st)" "i \<notin> set ?js" "\<And>j. j \<in> set ?js \<Longrightarrow> j < length (es_errors st)"
    using st i slots_in [OF st] by (auto simp: ring_facts_def Let_def slots_of_def state_ok_def)
  have js: "slots_of st' = (if length ?js < 15 then ?js else tl ?js) @ [i]"
    using r unfolding ring_facts_def Let_def i [symmetric] slots_of_def st' by (auto split: if_splits)
  have old: "map (\<lambda>j. view w' (es_errors st' ! j)) js = map (\<lambda>j. view w (es_errors st ! j)) js"
    if "set js \<subseteq> set ?js" for js
  proof (rule queue_cong [OF k])
    fix j assume "j \<in> set js"
    then have "j \<noteq> i" "j < length (es_errors st)" using i'(2,3) that by auto
    then show "es_errors st' ! j = es_errors st ! j \<and> opt_mset (err_data (es_errors st ! j)) \<subseteq># owned ((es_errors st)[i := zero_error])"
      using owned_others st' by simp
  qed
  have "set (tl ?js) \<subseteq> set ?js" by (cases ?js) auto
  then have "queue_of w' st' = (if length ?js < 15 then queue_of w st else tl (queue_of w st)) @ [view w' e]"
    using i'(1) old [of ?js] old [of "tl ?js"] by (simp add: queue_of_def js map_tl) (simp add: st')
  moreover have "state_ok st'" using st i by (simp add: state_ok_def st')
  ultimately show ?thesis by (simp add: queue_put_def length_slots)
qed

lemma thread_okI: "e_state w = Some st \<Longrightarrow> state_ok st \<Longrightarrow> heap_is w (owned_state st + S) \<Longrightarrow> thread_ok w S"
  by (simp add: thread_ok_def)

lemma queueI: "e_state w = Some st \<Longrightarrow> queue w = queue_of w st"
  by (simp add: queue_def)

lemma queue_of_put: "queue_of (w\<lparr>e_state := s\<rparr>) st = queue_of w st"
  by (simp add: queue_of_def view_cong [of "w\<lparr>e_state := s\<rparr>" w])

lemma ERR_put_error_runs:
  assumes "thread_ok w S"
  shows "runs S (ERR_put_error library reason file line) w (\<lambda>_ w'. thread_ok w' S \<and>
    (plenty w \<longrightarrow> queue w' = queue_put (new_error (e_errno w) library reason file line) (queue w)))"
  unfolding ERR_put_error_def
proof (rule with_state [OF assms])
  fix w1 assume "heap_is w1 S" "e_state w1 = None" "\<not> plenty w"
  then show "runs S (ret ()) w1 (\<lambda>_ w'. thread_ok w' S \<and>
    (plenty w \<longrightarrow> queue w' = queue_put (new_error (e_errno w) library reason file line) (queue w)))"
    by (auto intro!: run_rule simp: thread_ok_def)
next
  fix st w1
  assume w1: "spares S w w1" "e_state w1 = Some st" "state_ok st" "heap_is w1 (owned_state st + S)" "queue_of w1 st = queue w"
  let ?i = "(es_top st + 1) mod 16"
  let ?F = "owned ((es_errors st)[?i := zero_error]) + opt_mset (es_to_free st) + S"
  let ?e = "\<lambda>e :: err_slot. e\<lparr>err_file := file, err_line := ucast line,
      err_packed := ERR_PACK library (if library = ERR_LIB_SYS \<and> reason = 0 then e_errno w1 else reason)\<rparr>"
  let ?st = "\<lambda>e. st\<lparr>es_top := ?i, es_bottom := (if ?i = es_bottom st then (es_bottom st + 1) mod 16 else es_bottom st),
      es_errors := (es_errors st)[?i := ?e e]\<rparr>"
  have i: "?i < length (es_errors st)" using w1(3) by (simp add: state_ok_def)
  have "heap_is w1 (opt_mset (err_data (es_errors st ! ?i)) + ?F)"
    using w1(4) owned_state_split [OF w1(3), of ?i] by (simp add: ac_simps)
  note clear = err_clear_runs [OF this]
  have put: "runs ?F (and_then (require (?i < length (es_errors st))) (\<lambda>_. and_then (err_clear (es_errors st ! ?i)) (\<lambda>e. put_state (?st e)))) w1
    (\<lambda>_ w'. thread_ok w' S \<and> queue w' = queue_put (new_error (e_errno w) library reason file line) (queue w))"
  proof (intro runs_bind runs_require i runs_post [OF clear])
    fix e :: err_slot and w2 assume w2: "spares ?F w1 w2" "e = zero_error \<and> heap_is w2 ?F \<and> e_state w2 = e_state w1"
    have "spares (owned ((es_errors st)[?i := zero_error])) w1 w2"
      by (rule spares_mono [OF w2(1)]) (simp add: add.assoc)
    note after = queue_after_put [OF w1(3) refl this refl, of "?e e"]
    have "owned_state (?st e) + S = ?F"
      using w2(2) owned_update [OF i, of "?e e"] by (simp add: owned_state_def)
    moreover have "view w2 (?e e) = new_error (e_errno w) library reason file line"
      using w2(2) w1(1) by (simp add: view_def new_error_def zero_error_def spares_def)
    ultimately show "runs ?F (put_state (?st e)) w2 (\<lambda>_ w'. thread_ok w' S \<and>
        queue w' = queue_put (new_error (e_errno w) library reason file line) (queue w))"
      using after w2(2) w1(5)
      by (intro runs_post [OF put_state_runs [where A = ?F]]) (auto simp: queueI queue_of_put intro!: thread_okI)
  qed
  show "runs S (and_then read_errno (\<lambda>errno. let reason = (if library = ERR_LIB_SYS \<and> reason = 0 then errno else reason);
         t = (es_top st + 1) mod ERR_NUM_ERRORS;
         b = (if t = es_bottom st then (es_bottom st + 1) mod ERR_NUM_ERRORS else es_bottom st)
       in and_then (require (t < length (es_errors st))) (\<lambda>_. and_then (err_clear (es_errors st ! t)) (\<lambda>e.
          put_state (st\<lparr>es_top := t, es_bottom := b, es_errors := (es_errors st)[t := e\<lparr>err_file := file,
            err_line := ucast line, err_packed := ERR_PACK library reason\<rparr>]\<rparr>))))) w1
    (\<lambda>_ w'. thread_ok w' S \<and> (plenty w \<longrightarrow> queue w' = queue_put (new_error (e_errno w) library reason file line) (queue w)))"
    unfolding Let_def ERR_NUM_ERRORS_def
    by (rule runs_chain [OF read_errno_runs], elim conjE, hypsubst, rule runs_mono [OF runs_post [OF put]])
      (auto simp: subset_add_left)
qed

text \<open>Changing the newest slot; the strings \<open>d\<close> that the slot owned before are gone, those of \<open>e\<close> are there.\<close>

definition set_last :: "('a \<Rightarrow> 'a) \<Rightarrow> 'a list \<Rightarrow> 'a list" where
  "set_last f q = (if q = [] then [] else butlast q @ [f (last q)])"

lemma queue_after_set:
  assumes st: "state_ok st" "es_bottom st \<noteq> es_top st"
    and k: "spares (owned ((es_errors st)[es_top st := zero_error])) w w'"
    and v: "view w' e = f (view w (es_errors st ! es_top st))"
  shows "queue_of w' (st\<lparr>es_errors := (es_errors st)[es_top st := e]\<rparr>) = set_last f (queue_of w st)"
proof -
  let ?js = "slots_of st" and ?st = "st\<lparr>es_errors := (es_errors st)[es_top st := e]\<rparr>"
  note ends = slots_ends [OF st]
  have top: "es_top st < length (es_errors st)" using st(1) by (simp add: state_ok_def)
  have js: "?js = butlast ?js @ [es_top st]" using ends(2,3) by (metis append_butlast_last_id)
  then have out: "es_top st \<notin> set (butlast ?js)" using ends(4) by (metis distinct_append not_distinct_conv_prefix)
  have "map (\<lambda>j. view w' (es_errors ?st ! j)) (butlast ?js) = map (\<lambda>j. view w (es_errors st ! j)) (butlast ?js)"
  proof (rule queue_cong [OF k])
    fix j assume "j \<in> set (butlast ?js)"
    then have "j \<noteq> es_top st" "j < length (es_errors st)" using out slots_in [OF st(1) in_set_butlastD] by auto
    then show "es_errors ?st ! j = es_errors st ! j \<and>
        opt_mset (err_data (es_errors st ! j)) \<subseteq># owned ((es_errors st)[es_top st := zero_error])"
      using owned_others by simp
  qed
  moreover have "queue_of w' ?st = map (\<lambda>j. view w' (es_errors ?st ! j)) (butlast ?js @ [es_top st])"
    using js by (simp add: queue_of_def slots_of_def)
  moreover have "queue_of w st = map (\<lambda>j. view w (es_errors st ! j)) (butlast ?js @ [es_top st])"
    using js by (simp add: queue_of_def)
  ultimately show ?thesis using top v by (simp add: set_last_def)
qed

lemma queue_of_Nil: "state_ok st \<Longrightarrow> queue_of w st = [] \<longleftrightarrow> es_bottom st = es_top st"
  by (simp add: queue_of_def slots_empty)

lemma err_set_error_data_runs:
  assumes "thread_ok w S" and "c_string b"
  shows "runs S (err_set_error_data b) w (\<lambda>_ w'. thread_ok w' S \<and>
    (plenty w \<longrightarrow> queue w' = set_last (\<lambda>e. e\<lparr>err_data := Some (c_text b)\<rparr>) (queue w)))"
  unfolding err_set_error_data_def
proof (rule with_state [OF assms(1)])
  fix w1 assume w1: "heap_is w1 S" "e_state w1 = None" "\<not> plenty w"
  show "runs S (free_buffer b) w1 (\<lambda>_ w'. thread_ok w' S \<and>
    (plenty w \<longrightarrow> queue w' = set_last (\<lambda>e. e\<lparr>err_data := Some (c_text b)\<rparr>) (queue w)))"
    by (rule runs_post [OF free_buffer_runs [OF w1(1)]]) (use w1 in \<open>auto simp: thread_ok_def\<close>)
next
  fix st w1
  assume w1: "spares S w w1" "e_state w1 = Some st" "state_ok st" "heap_is w1 (owned_state st + S)" "queue_of w1 st = queue w"
  let ?i = "es_top st"
  let ?F = "owned ((es_errors st)[?i := zero_error]) + opt_mset (es_to_free st) + S"
  let ?Q = "\<lambda>w'. thread_ok w' S \<and> queue w' = set_last (\<lambda>e. e\<lparr>err_data := Some (c_text b)\<rparr>) (queue w)"
  let ?e = "\<lambda>a. (es_errors st ! ?i)\<lparr>err_data := Some a\<rparr>"
  have i: "?i < length (es_errors st)" "?i < 16" using w1(3) by (simp_all add: state_ok_def)
  have set: "runs ?F (and_then (require (?i < length (es_errors st))) (\<lambda>_. and_then (free_string (err_data (es_errors st ! ?i)))
      (\<lambda>_. and_then (own_string b) (\<lambda>a. put_state (st\<lparr>es_errors := (es_errors st)[?i := ?e a]\<rparr>))))) w1 (\<lambda>_. ?Q)"
    if "es_top st \<noteq> es_bottom st"
  proof (intro runs_bind runs_require i)
    have "heap_is w1 (opt_mset (err_data (es_errors st ! ?i)) + ?F)"
      using w1(4) owned_state_split [OF w1(3) i(2)] by (simp add: ac_simps)
    note free = free_string_runs [OF this]
    show "runs ?F (free_string (err_data (es_errors st ! ?i))) w1 (\<lambda>_ w2. runs ?F (and_then (own_string b)
        (\<lambda>a. put_state (st\<lparr>es_errors := (es_errors st)[?i := ?e a]\<rparr>))) w2 (\<lambda>_. ?Q))"
    proof (rule runs_post [OF free], rule runs_chain [OF own_string_runs [OF _ assms(2)]])
      fix w2 w3 a
      assume w2: "spares ?F w1 w2" and w3: "spares ?F w2 w3" "heap_is w3 (add_mset a ?F) \<and> text_at w3 a = c_text b \<and> e_state w3 = e_state w2"
      have kept: "spares (owned ((es_errors st)[?i := zero_error])) w1 w3"
        by (rule spares_mono [OF spares_trans [OF w2 w3(1)]]) (simp add: add.assoc)
      have "queue_of w3 (st\<lparr>es_errors := (es_errors st)[?i := ?e a]\<rparr>) =
          set_last (\<lambda>e. e\<lparr>err_data := Some (c_text b)\<rparr>) (queue w)"
        using queue_after_set [OF w1(3) _ kept, of "?e a" "\<lambda>e. e\<lparr>err_data := Some (c_text b)\<rparr>"] that w3(2) w1(5)
        by (simp add: view_def)
      moreover have "owned_state (st\<lparr>es_errors := (es_errors st)[?i := ?e a]\<rparr>) + S = add_mset a ?F"
        using owned_update [OF i(1), of "?e a"] by (simp add: owned_state_def)
      moreover have "state_ok (st\<lparr>es_errors := (es_errors st)[?i := ?e a]\<rparr>)" using w1(3) by (simp add: state_ok_def)
      ultimately show "runs ?F (put_state (st\<lparr>es_errors := (es_errors st)[?i := ?e a]\<rparr>)) w3 (\<lambda>_. ?Q)"
        using w3(2) by (intro runs_post [OF put_state_runs [where A = "add_mset a ?F"]])
          (auto simp: queueI queue_of_put intro!: thread_okI)
    qed auto
  qed
  show "runs S (if es_top st = es_bottom st then free_buffer b
      else and_then (require (?i < length (es_errors st))) (\<lambda>_. let e = es_errors st ! ?i
        in and_then (free_string (err_data e)) (\<lambda>_. and_then (own_string b)
          (\<lambda>a. put_state (st\<lparr>es_errors := (es_errors st)[?i := e\<lparr>err_data := Some a\<rparr>]\<rparr>))))) w1
    (\<lambda>_ w'. thread_ok w' S \<and> (plenty w \<longrightarrow> queue w' = set_last (\<lambda>e. e\<lparr>err_data := Some (c_text b)\<rparr>) (queue w)))"
  proof (cases "es_top st = es_bottom st")
    case True
    then have "queue w = []" using queue_of_Nil [OF w1(3), of w1] w1(5) by simp
    then show ?thesis using True w1 
      by (simp, intro runs_post [OF free_buffer_runs [OF w1(4)]])
        (auto simp: thread_ok_def queue_def set_last_def queue_of_Nil)
  next
    case False
    then show ?thesis unfolding Let_def
      by (simp only: if_False) (rule runs_mono [OF runs_post [OF set]], auto simp: subset_add_left)
  qed
qed

section \<open>Error data\<close>

lemma c_text_append: "0 \<notin> set xs \<Longrightarrow> c_text (xs @ ys) = xs @ c_text ys"
  by (induction xs) (auto simp: c_text_def)

lemma c_text_no_zero: "0 \<notin> set (c_text s)"
  unfolding c_text_def using set_takeWhileD by metis

lemma take_strlen: "take (strlen s) s = c_text s"
  by (simp add: strlen_def c_text_def takeWhile_eq_take [symmetric])

definition joined :: "u8 list option list \<Rightarrow> u8 list" where
  "joined args = concat (map (\<lambda>a. case a of None \<Rightarrow> [] | Some s \<Rightarrow> c_text s) args)"

lemma joined_no_zero: "0 \<notin> set (joined args)"
  by (auto simp: joined_def c_text_no_zero split: option.splits)

definition strings_ok :: "u8 list option list \<Rightarrow> bool" where
  "strings_ok args \<longleftrightarrow> (\<forall>s. Some s \<in> set args \<longrightarrow> c_string s) \<and> length (joined args) < 2 ^ 62"

text \<open>The loop has the text \<open>out\<close> in its buffer, or has given up for want of memory.\<close>

definition added :: "err_world \<Rightarrow> nat multiset \<Rightarrow> u8 list \<Rightarrow> (u8 list \<times> nat) option \<Rightarrow> err_world \<Rightarrow> bool" where
  "added w A out r w' \<longleftrightarrow> heap_is w' A \<and> e_state w' = e_state w \<and>
     (case r of None \<Rightarrow> \<not> plenty w | Some (b, n) \<Rightarrow> n < length b \<and> take n b = out)"

definition spliced :: "u8 list \<Rightarrow> nat \<Rightarrow> u8 list \<Rightarrow> u8 list" where
  "spliced buf len s = take len buf @ take (strlen s) s @ drop (len + strlen s) buf"

lemma added_cong: "e_state w1 = e_state w \<Longrightarrow> plenty w1 = plenty w \<Longrightarrow> added w1 A out = added w A out"
  by (intro ext) (auto simp: added_def split: option.splits)

lemma copy_step:
  assumes "\<And>w. heap_is w A \<Longrightarrow> runs F (add_strings args (spliced b len s) a (len + strlen s)) w
      (added w A (take (len + strlen s) (spliced b len s) @ joined args))"
    and "c_string s" and "len + strlen s < length b" and "take len b = take len buf"
    and "heap_is w1 A" and "e_state w1 = e_state w" and "plenty w1 = plenty w"
  shows "runs F (and_then (require (c_string s \<and> len + strlen s \<le> length b))
      (\<lambda>_. add_strings args (spliced b len s) a (len + strlen s))) w1 (added w A (take len buf @ joined (Some s # args)))"
proof (intro runs_bind runs_require)
  have "take (len + strlen s) (spliced b len s) = take len b @ c_text s"
    using assms(3) by (simp add: spliced_def take_strlen) (simp add: strlen_text)
  then have "take (len + strlen s) (spliced b len s) @ joined args = take len buf @ joined (Some s # args)"
    using assms(4) by (simp add: joined_def)
  then show "runs F (add_strings args (spliced b len s) a (len + strlen s)) w1 (added w A (take len buf @ joined (Some s # args)))"
    using assms(1) [OF assms(5)] added_cong [OF assms(6,7)] by simp
qed (use assms in auto)

lemma length_spliced: "c_string s \<Longrightarrow> len + strlen s \<le> length b \<Longrightarrow> length (spliced b len s) = length b"
  using strlen_eq [of s] by (simp add: spliced_def)

lemma add_strings_runs:
  assumes "heap_is w A" and "len \<le> alloced" and "alloced < length buf" and "alloced < 2 ^ 63"
    and "\<And>s. Some s \<in> set args \<Longrightarrow> c_string s" and "len + length (joined args) < 2 ^ 62"
  shows "runs F (add_strings args buf alloced len) w (added w A (take len buf @ joined args))"
  using assms
proof (induction args buf alloced len arbitrary: w rule: add_strings.induct)
  case (1 buf alloced len)
  then show ?case unfolding add_strings.simps by (intro runs_ret) (simp add: joined_def added_def)
next
  case (2 args buf alloced len)
  then show ?case by (simp add: joined_def)
next
  case (3 s args buf alloced len)
  let ?n = "len + strlen s"
  have c: "c_string s" using "3.prems"(5) by simp
  have len: "length (joined (Some s # args)) = strlen s + length (joined args)" by (simp add: joined_def strlen_text)
  then have n: "size_add len (strlen s) = ?n" "size_add (size_add alloced 20) 1 = alloced + 21"
    "size_add ?n 20 = ?n + 20" "size_add (?n + 20) 1 = ?n + 21" "?n + 20 < 2 ^ 63" "?n + 21 \<le> SIZE_MAX - 8"
    using "3.prems"(4,6) by (simp_all add: size_add_def SIZE_MAX_def)
  have ih: "runs F (add_strings args (spliced b len s) a ?n) w (added w A (take ?n (spliced b len s) @ joined args))"
    if "heap_is w A" "?n \<le> a" "a < length b" "a < 2 ^ 63" for w b a
    unfolding spliced_def using "3.prems"(5,6) len that length_spliced [OF c, of len b]
    by (intro "3.IH" [OF refl n(1) [symmetric]]) (auto simp: spliced_def)
  show ?case
  proof (cases "?n > alloced")
    case False
    have "runs F (and_then (require (c_string s \<and> ?n \<le> length buf)) (\<lambda>_. add_strings args (spliced buf len s) alloced ?n)) w
      (added w A (take len buf @ joined (Some s # args)))"
      using "3.prems"(1-4) False c by (intro copy_step ih) auto
    then show ?thesis using False n by (simp add: Let_def spliced_def)
  next
    case True
    have "runs F (and_then (on_mem (OPENSSL_realloc (Some buf) (?n + 21))) (\<lambda>r. case r of
        None \<Rightarrow> and_then (free_buffer buf) (\<lambda>_. ret None)
      | Some nb \<Rightarrow> and_then (require (c_string s \<and> ?n \<le> length nb)) (\<lambda>_. add_strings args (spliced nb len s) (?n + 20) ?n))) w
      (added w A (take len buf @ joined (Some s # args)))"
    proof (rule runs_chain [OF on_mem_runs [where A = A]])
      fix r w1 assume w1: "spares F w w1" "heap_is w1 A \<and> e_state w1 = e_state w \<and> (plenty w \<longrightarrow> r \<noteq> None) \<and>
        (\<exists>m'. OPENSSL_realloc (Some buf) (?n + 21) (e_mem w) = (r, m'))"
      show "runs F (case r of None \<Rightarrow> and_then (free_buffer buf) (\<lambda>_. ret None)
        | Some nb \<Rightarrow> and_then (require (c_string s \<and> ?n \<le> length nb)) (\<lambda>_. add_strings args (spliced nb len s) (?n + 20) ?n)) w1
        (added w A (take len buf @ joined (Some s # args)))"
      proof (cases r)
        case None
        then show ?thesis using w1
          by (simp, intro runs_chain [OF free_buffer_runs] run_rule) (auto simp: added_def)
      next
        case (Some nb)
        with w1(2) obtain m' where "OPENSSL_realloc (Some buf) (?n + 21) (e_mem w) = (Some nb, m')" by auto
        from OPENSSL_realloc_spec [OF this n(6)] have nb: "length nb = ?n + 21"
          "take (min (length buf) (?n + 21)) nb = take (min (length buf) (?n + 21)) buf" by simp_all
        have "len \<le> min (length buf) (?n + 21)" using "3.prems"(2,3) by simp
        then have "take len nb = take len buf" using take_eq_mono [OF nb(2)] by simp
        then show ?thesis unfolding Some option.case
          using n(5) w1 nb(1) spares_plenty [OF w1(1)] c by (intro copy_step ih) auto
      qed
    qed (use OPENSSL_realloc_ok "3.prems"(1) in auto)
    from this [unfolded spliced_def] show ?thesis using True n by (simp add: Let_def add.commute [of 21])
  qed
qed

lemma terminated_text:
  assumes "n < length b" and "take n b = out" and "0 \<notin> set out"
  shows "c_string (b[n := 0]) \<and> c_text (b[n := 0]) = out"
proof -
  have "b[n := 0] = out @ 0 # drop (Suc n) b" using assms(1,2) by (auto simp: upd_conv_take_nth_drop)
  then show ?thesis using c_text_append [OF assms(3)] by (auto simp: c_string_def) (simp add: c_text_def)
qed

definition no_change :: "nat multiset \<Rightarrow> err_world \<Rightarrow> err_world \<Rightarrow> bool" where
  "no_change S w w' \<longleftrightarrow> e_state w' = e_state w \<and> heap_is w' (case e_state w of None \<Rightarrow> S | Some st \<Rightarrow> owned_state st + S)"

text \<open>A failed allocation leaves the thread as it was.\<close>

lemma thread_heap: "thread_ok w S \<longleftrightarrow> heap_is w (case e_state w of None \<Rightarrow> S | Some st \<Rightarrow> owned_state st + S) \<and>
    (\<forall>st. e_state w = Some st \<longrightarrow> state_ok st)"
  by (auto simp: thread_ok_def split: option.splits)

lemma no_change_ok: "thread_ok w S \<Longrightarrow> no_change S w w' \<Longrightarrow> thread_ok w' S"
  by (simp add: thread_heap no_change_def)

lemma no_change_queue:
  assumes "thread_ok w S" and "no_change S w w'"
    and "spares (case e_state w of None \<Rightarrow> S | Some st \<Rightarrow> owned_state st + S) w w'"
  shows "queue w' = queue w"
proof (cases "e_state w")
  case (Some st)
  then have "queue_of w' st = queue_of w st"
    using assms by (intro queue_keeps [OF _ assms(3)]) (auto simp: thread_heap owned_state_def add.assoc)
  then show ?thesis using Some assms(2) by (simp add: queue_def no_change_def)
qed (use assms(2) in \<open>simp add: queue_def no_change_def\<close>)

text \<open>Two steps after which the thread is as before, but for the allocator.\<close>

definition all_owned :: "err_world \<Rightarrow> nat multiset \<Rightarrow> nat multiset" where
  "all_owned w S = (case e_state w of None \<Rightarrow> S | Some st \<Rightarrow> owned_state st + S)"

lemma all_owned_sub: "S \<subseteq># all_owned w S"
  by (simp add: all_owned_def split: option.splits)

lemma still_thread_ok:
  assumes "thread_ok w S" and "spares (all_owned w S) w w'" and "heap_is w' (all_owned w S)" and "e_state w' = e_state w"
  shows "thread_ok w' S" and "queue w' = queue w"
proof -
  have n: "no_change S w w'" using assms(3,4) by (simp add: no_change_def all_owned_def)
  show "thread_ok w' S" by (rule no_change_ok [OF assms(1) n])
  show "queue w' = queue w" using no_change_queue [OF assms(1) n] assms(2) by (simp add: all_owned_def)
qed

lemma heap_all: "thread_ok w S \<Longrightarrow> heap_is w (all_owned w S)"
  by (simp add: thread_heap all_owned_def)

lemma runs_first:
  assumes "runs G p w Q" and "S \<subseteq># G" and "\<And>x w1. spares G w w1 \<Longrightarrow> Q x w1 \<Longrightarrow> runs S (f x) w1 R"
  shows "runs S (and_then p f) w R"
  by (rule runs_bind [OF runs_mono [OF runs_post [OF assms(1)] assms(2)]]) (rule assms(3))

lemma malloc_first:
  assumes "thread_ok w S" and none: "\<And>w1. thread_ok w1 S \<Longrightarrow> \<not> plenty w \<Longrightarrow> runs S f0 w1 Q"
    and some: "\<And>b w1. spares (all_owned w S) w w1 \<Longrightarrow> heap_is w1 (all_owned w S) \<Longrightarrow> e_state w1 = e_state w \<Longrightarrow>
      (n \<le> SIZE_MAX - 8 \<longrightarrow> length b = n) \<Longrightarrow> runs S (f b) w1 Q"
  shows "runs S (and_then (on_mem (OPENSSL_malloc n)) (\<lambda>r. case r of None \<Rightarrow> f0 | Some b \<Rightarrow> f b)) w Q"
proof (rule runs_first [OF on_mem_runs [where A = "all_owned w S"] all_owned_sub [of S w]])
  fix r w1 assume k: "spares (all_owned w S) w w1" and *: "heap_is w1 (all_owned w S) \<and> e_state w1 = e_state w \<and>
    (plenty w \<longrightarrow> r \<noteq> None) \<and> (\<exists>m'. OPENSSL_malloc n (e_mem w) = (r, m'))"
  show "runs S (case r of None \<Rightarrow> f0 | Some b \<Rightarrow> f b) w1 Q"
  proof (cases r)
    case None
    then show ?thesis using * still_thread_ok(1) [OF assms(1) k] by (auto intro: none)
  next
    case (Some b)
    then show ?thesis using * k by (auto intro!: some dest: OPENSSL_malloc_length)
  qed
qed (use OPENSSL_malloc_plenty heap_all [OF assms(1)] in auto)

text \<open>The data of the most recent error.\<close>

definition with_data :: "u8 list \<Rightarrow> u8 list err_error_st list \<Rightarrow> u8 list err_error_st list" where
  "with_data s = set_last (\<lambda>e. e\<lparr>err_data := Some s\<rparr>)"

lemma set_data_later:
  assumes "thread_ok w S" and "spares (all_owned w S) w w1" and "heap_is w1 (all_owned w S)" and "e_state w1 = e_state w"
    and "c_string b"
  shows "runs S (err_set_error_data b) w1 (\<lambda>_ w'. thread_ok w' S \<and> (plenty w \<longrightarrow> queue w' = with_data (c_text b) (queue w)))"
  using err_set_error_data_runs [OF still_thread_ok(1) [OF assms(1-4)] assms(5)] still_thread_ok(2) [OF assms(1-4)]
    spares_plenty [OF assms(2)] by (simp add: with_data_def)

lemma ERR_add_error_data_runs:
  assumes "thread_ok w S" and "strings_ok args"
  shows "runs S (ERR_add_error_data args) w (\<lambda>_ w'. thread_ok w' S \<and>
    (plenty w \<longrightarrow> queue w' = with_data (joined args) (queue w)))"
  unfolding ERR_add_error_data_def err_add_error_vdata_def
proof (rule malloc_first [OF assms(1)])
  fix b :: "u8 list" and w1 assume w1: "spares (all_owned w S) w w1" "heap_is w1 (all_owned w S)" "e_state w1 = e_state w"
    "80 + 1 \<le> SIZE_MAX - 8 \<longrightarrow> length b = 80 + 1"
  then have "length b = 81" by (simp add: SIZE_MAX_def)
  then have "runs (all_owned w S) (add_strings args b 80 0) w1 (added w1 (all_owned w S) (joined args))"
    using add_strings_runs [of w1 "all_owned w S" 0 80 b args] assms(2) w1(2) by (simp add: strings_ok_def)
  then show "runs S (and_then (add_strings args b 80 0) (\<lambda>r1. case r1 of None \<Rightarrow> ret ()
      | Some (buf1, len) \<Rightarrow> and_then (require (len < length buf1)) (\<lambda>_. err_set_error_data (buf1[len := 0])))) w1
    (\<lambda>_ w'. thread_ok w' S \<and> (plenty w \<longrightarrow> queue w' = with_data (joined args) (queue w)))"
  proof (rule runs_first [OF _ all_owned_sub])
    fix r w2 assume "spares (all_owned w S) w1 w2" and r: "added w1 (all_owned w S) (joined args) r w2"
    then have k: "spares (all_owned w S) w w2" "heap_is w2 (all_owned w S)" "e_state w2 = e_state w"
      using w1 spares_trans by (auto simp: added_def)
    show "runs S (case r of None \<Rightarrow> ret ()
      | Some (buf1, len) \<Rightarrow> and_then (require (len < length buf1)) (\<lambda>_. err_set_error_data (buf1[len := 0]))) w2
      (\<lambda>_ w'. thread_ok w' S \<and> (plenty w \<longrightarrow> queue w' = with_data (joined args) (queue w)))"
    proof (cases r)
      case None
      then show ?thesis using r spares_plenty [OF w1(1)] still_thread_ok(1) [OF assms(1) k]
        by (auto intro!: run_rule simp: added_def)
    next
      case (Some p)
      obtain buf n where p: "p = (buf, n)" by (cases p)
      then have "n < length buf" "take n buf = joined args" using r Some by (simp_all add: added_def)
      with terminated_text joined_no_zero have "n < length buf" "c_string (buf[n := 0])" "c_text (buf[n := 0]) = joined args"
        by blast+
      then show ?thesis unfolding Some p option.case prod.case
        using set_data_later [OF assms(1) k, of "buf[n := 0]"] by (intro runs_bind runs_require) auto
    qed
  qed
qed (auto intro!: run_rule)

lemma text_then_zero: "c_string (xs @ 0 # ys)" "c_text (xs @ 0 # ys) = c_text xs"
  by (induction xs) (auto simp: c_text_def c_string_def)

lemma ERR_add_error_dataf_runs:
  assumes "thread_ok w S"
  shows "runs S (ERR_add_error_dataf s) w (\<lambda>_ w'. thread_ok w' S \<and>
    (plenty w \<longrightarrow> queue w' = with_data (c_text (take 255 s)) (queue w)))"
  unfolding ERR_add_error_dataf_def Let_def
proof (rule malloc_first [OF assms])
  fix b :: "u8 list" and w1 assume w1: "spares (all_owned w S) w w1" "heap_is w1 (all_owned w S)" "e_state w1 = e_state w"
    "256 + 1 \<le> SIZE_MAX - 8 \<longrightarrow> length b = 256 + 1"
  let ?b = "BIO_snprintf b 256 s"
  have "256 - k = Suc (255 - k)" if "k \<le> 255" for k :: nat using that by simp
  then have "?b[256 := 0] = take 255 s @ 0 # (drop (length (take 255 s) + 1) b)[255 - length (take 255 s) := 0]"
    by (simp add: BIO_snprintf_def list_update_append min_def)
  then have "c_string (?b[256 := 0])" "c_text (?b[256 := 0]) = c_text (take 255 s)"
    using text_then_zero by metis+
  then show "runs S (err_set_error_data (?b[256 := 0])) w1
    (\<lambda>_ w'. thread_ok w' S \<and> (plenty w \<longrightarrow> queue w' = with_data (c_text (take 255 s)) (queue w)))"
    using set_data_later [OF assms w1(1-3), of "?b[256 := 0]"] by simp
qed (auto intro!: run_rule)

section \<open>Marks, clearing and reading\<close>

lemma put_runs:
  assumes "heap_is w A" and "state_ok st" and "A = owned_state st + S" and "Q (queue_of w st)"
  shows "runs S (put_state st) w (\<lambda>_ w'. thread_ok w' S \<and> Q (queue w'))"
  by (rule runs_post [OF put_state_runs [OF assms(1)]])
    (use assms in \<open>auto simp: queueI queue_of_put intro!: thread_okI\<close>)

definition mark_set :: "bool \<Rightarrow> u8 list err_error_st list \<Rightarrow> u8 list err_error_st list" where
  "mark_set b = set_last (\<lambda>e. e\<lparr>err_mark := b\<rparr>)"

lemma marked_state:
  assumes "state_ok st" and "es_bottom st \<noteq> es_top st"
    and "st' = st\<lparr>es_errors := (es_errors st)[es_top st := (es_errors st ! es_top st)\<lparr>err_mark := b\<rparr>]\<rparr>"
  shows "state_ok st' \<and> owned_state st' = owned_state st \<and> queue_of w st' = mark_set b (queue_of w st)"
proof -
  let ?e = "(es_errors st ! es_top st)\<lparr>err_mark := b\<rparr>"
  have i: "es_top st < length (es_errors st)" using assms(1) by (simp add: state_ok_def)
  have "owned_state st' = owned_state st"
    using owned_update [OF i, of ?e] owned_split [OF i] assms(3) by (simp add: owned_state_def)
  moreover have "queue_of w st' = mark_set b (queue_of w st)"
    unfolding assms(3) mark_set_def
    by (rule queue_after_set [where e = ?e, OF assms(1,2) spares_refl]) (simp add: view_mark)
  ultimately show ?thesis using assms(1,3) by (simp add: state_ok_def)
qed

lemma ERR_set_mark_runs:
  assumes "thread_ok w S"
  shows "runs S ERR_set_mark w (\<lambda>r w'. thread_ok w' S \<and>
    (plenty w \<longrightarrow> r = (if queue w = [] then 0 else 1) \<and> queue w' = mark_set True (queue w)))"
  unfolding ERR_set_mark_def
proof (rule with_state [OF assms])
  fix st w1
  assume w1: "e_state w1 = Some st" "state_ok st" "heap_is w1 (owned_state st + S)" "queue_of w1 st = queue w"
  let ?st = "st\<lparr>es_errors := (es_errors st)[es_top st := (es_errors st ! es_top st)\<lparr>err_mark := True\<rparr>]\<rparr>"
  show "runs S (if es_bottom st = es_top st then ret (0 :: int)
      else and_then (require (es_top st < length (es_errors st))) (\<lambda>_. and_then (put_state ?st) (\<lambda>_. ret 1))) w1
    (\<lambda>r w'. thread_ok w' S \<and> (plenty w \<longrightarrow> r = (if queue w = [] then 0 else 1) \<and> queue w' = mark_set True (queue w)))"
  proof (cases "es_bottom st = es_top st")
    case True
    then have "queue w = []" using queue_of_Nil [OF w1(2), of w1] w1(4) by simp
    then show ?thesis using True w1
      by (auto intro!: run_rule thread_okI simp: queueI mark_set_def set_last_def)
  next
    case False
    then have q: "queue w \<noteq> []" using queue_of_Nil [OF w1(2), of w1] w1(4) by simp
    note m = marked_state [OF w1(2) False refl, of True]
    have "runs S (put_state ?st) w1 (\<lambda>_ w'. thread_ok w' S \<and> queue w' = mark_set True (queue w))"
      by (rule put_runs [OF w1(3)]) (use m w1(4) in auto)
    then have "runs S (and_then (put_state ?st) (\<lambda>_. ret (1 :: int))) w1
        (\<lambda>r w'. thread_ok w' S \<and> (plenty w \<longrightarrow> r = (if queue w = [] then 0 else 1) \<and> queue w' = mark_set True (queue w)))"
      by (rule runs_chain) (use q in \<open>auto intro!: run_rule\<close>)
    moreover have "es_top st < length (es_errors st)" using w1(2) by (simp add: state_ok_def)
    ultimately show ?thesis unfolding if_not_P [OF False] by (intro runs_bind [OF runs_require])
  qed
qed (auto intro!: run_rule simp: thread_ok_def)

text \<open>Errors go from the newest on until one is marked, whose mark then goes.\<close>

fun pop_newest :: "u8 list err_error_st list \<Rightarrow> int \<times> u8 list err_error_st list" where
  "pop_newest [] = (0, [])"
| "pop_newest (e # r) = (if err_mark e then (1, e\<lparr>err_mark := False\<rparr> # r) else pop_newest r)"

definition pop_marked :: "u8 list err_error_st list \<Rightarrow> int \<times> u8 list err_error_st list" where
  "pop_marked q = (case pop_newest (rev q) of (r, q') \<Rightarrow> (r, rev q'))"

lemma pop_marked_last:
  assumes "q \<noteq> []"
  shows "pop_marked q = (if err_mark (last q) then (1, mark_set False q) else pop_marked (butlast q))"
proof -
  obtain r e where "q = r @ [e]" using assms by (metis append_butlast_last_id)
  then show ?thesis by (simp add: pop_marked_def mark_set_def set_last_def)
qed

lemma pop_loop_ok:
  assumes "state_ok st" and "heap_is w (owned_state st + S)"
  shows "\<exists>r st' w'. pop_loop st w = Some (r, st', w') \<and> state_ok st' \<and> heap_is w' (owned_state st' + S) \<and>
    spares S w w' \<and> (r, queue_of w' st') = pop_marked (queue_of w st)"
  using assms
proof (induction "length (slots_of st)" arbitrary: st w rule: less_induct)
  case less
  note st = less.prems(1)
  show ?case
  proof (cases "es_bottom st = es_top st")
    case True
    then show ?thesis using less.prems queue_of_Nil [OF st, of w]
      by (subst pop_loop.simps) (auto simp: pop_marked_def)
  next
    case False
    let ?i = "es_top st" and ?e = "es_errors st ! es_top st"
    let ?F = "owned ((es_errors st)[?i := zero_error]) + opt_mset (es_to_free st) + S"
    have i: "?i < length (es_errors st)" "?i < 16" using st by (simp_all add: state_ok_def)
    have q: "queue_of w st \<noteq> []" using queue_of_Nil [OF st, of w] False by simp
    have "last (queue_of w st) = view w ?e"
      using slots_ends(2,3) [OF st False] by (simp add: queue_of_def last_map)
    note pop = pop_marked_last [OF q, unfolded this view_sel]
    show ?thesis
    proof (cases "err_mark ?e")
      case True
      then show ?thesis using False i less.prems pop marked_state [OF st False refl, of False w]
        by (subst pop_loop.simps) (auto simp: Let_def)
    next
      case unmarked: False
      have "heap_is w (opt_mset (err_data ?e) + ?F)"
        using less.prems(2) owned_state_split [OF st i(2)] by (simp add: ac_simps)
      from err_clear_runs [OF this] obtain w1 where w1: "err_clear ?e w = (Some zero_error, w1)" "spares ?F w w1" "heap_is w1 ?F"
        unfolding runs_def by blast
      let ?st = "st\<lparr>es_errors := (es_errors st)[?i := zero_error], es_top := (if ?i = 0 then 15 else ?i - 1)\<rparr>"
      have ok: "state_ok ?st" using st by (auto simp: state_ok_def)
      have own: "owned_state ?st + S = ?F" by (simp add: owned_state_def)
      have js: "slots_of ?st = butlast (slots_of st)" "slots_of st \<noteq> []"
        using ring_facts_all [of "es_bottom st" ?i] st False slots_ends(3) [OF st False]
        by (auto simp: ring_facts_def Let_def slots_of_def state_ok_def)
      then have out: "?i \<notin> set (butlast (slots_of st))"
        using slots_ends(2,4) [OF st False] by (metis append_butlast_last_id distinct_append not_distinct_conv_prefix)
      have "queue_of w1 ?st = map (\<lambda>j. view w (es_errors st ! j)) (butlast (slots_of st))"
        unfolding queue_of_def js
      proof (rule queue_cong [OF w1(2)])
        fix j assume "j \<in> set (butlast (slots_of st))"
        then have "j \<noteq> ?i" "j < length (es_errors st)" using out slots_in [OF st in_set_butlastD] by auto
        then show "es_errors ?st ! j = es_errors st ! j \<and> opt_mset (err_data (es_errors st ! j)) \<subseteq># ?F"
          using owned_others [of j "es_errors st" ?i] by (simp add: add.assoc subset_mset.add_increasing2)
      qed
      then have "queue_of w1 ?st = butlast (queue_of w st)" by (simp add: queue_of_def map_butlast)
      moreover have "length (slots_of ?st) < length (slots_of st)" using js by simp
      ultimately obtain r st' w' where rest: "pop_loop ?st w1 = Some (r, st', w')" "state_ok st'"
        "heap_is w' (owned_state st' + S)" "spares S w1 w'" "(r, queue_of w' st') = pop_marked (butlast (queue_of w st))"
        using less.hyps [OF _ ok, of w1] w1(3) own by metis
      have "spares S w w'" using spares_trans [OF spares_mono [OF w1(2)] rest(4)] by (simp add: subset_add_left)
      moreover have "pop_loop st w = pop_loop ?st w1"
        using False unmarked i w1(1) by (subst pop_loop.simps) (simp add: Let_def ERR_NUM_ERRORS_def)
      ultimately show ?thesis using rest pop unmarked by simp
    qed
  qed
qed

lemma ERR_pop_to_mark_runs:
  assumes "thread_ok w S"
  shows "runs S ERR_pop_to_mark w (\<lambda>r w'. thread_ok w' S \<and> (plenty w \<longrightarrow> (r, queue w') = pop_marked (queue w)))"
  unfolding ERR_pop_to_mark_def
proof (rule with_state [OF assms])
  fix st w1 assume w1: "state_ok st" "heap_is w1 (owned_state st + S)" "queue_of w1 st = queue w"
  obtain r st' w' where p: "pop_loop st w1 = Some (r, st', w')" "state_ok st'" "heap_is w' (owned_state st' + S)"
    "spares S w1 w'" "(r, queue_of w' st') = pop_marked (queue w)"
    using pop_loop_ok [OF w1(1,2)] w1(3) by metis
  have "runs S (put_state st') w' (\<lambda>_ w'. thread_ok w' S \<and> (r, queue w') = pop_marked (queue w))"
    by (rule put_runs [OF p(3,2) refl]) (rule p(5))
  then have "runs S (and_then (put_state st') (\<lambda>_. ret r)) w'
      (\<lambda>r w'. thread_ok w' S \<and> (plenty w \<longrightarrow> (r, queue w') = pop_marked (queue w)))"
    by (rule runs_chain) (auto intro!: run_rule)
  then show "runs S (\<lambda>w. case pop_loop st w of None \<Rightarrow> (None, w)
      | Some (r, st', w') \<Rightarrow> and_then (put_state st') (\<lambda>_. ret r) w') w1
    (\<lambda>r w'. thread_ok w' S \<and> (plenty w \<longrightarrow> (r, queue w') = pop_marked (queue w)))"
    using p(1,4) spares_trans by (auto simp: runs_def)
qed (auto intro!: run_rule simp: thread_ok_def)

lemma cleared_state:
  "state_ok \<lparr>es_errors = replicate 16 zero_error, es_top = 0, es_bottom = 0, es_to_free = None\<rparr>"
  "owned_state \<lparr>es_errors = replicate 16 zero_error, es_top = 0, es_bottom = 0, es_to_free = None\<rparr> = {#}"
  "queue_of w \<lparr>es_errors = es, es_top = 0, es_bottom = 0, es_to_free = p\<rparr> = []"
  by (simp_all add: state_ok_def owned_state_def queue_of_def slots_of_def ring_slots_def del: replicate.simps replicate_Suc)

lemma ERR_clear_error_runs:
  assumes "thread_ok w S"
  shows "runs S ERR_clear_error w (\<lambda>_ w'. thread_ok w' S \<and> (plenty w \<longrightarrow> queue w' = []))"
  unfolding ERR_clear_error_def
proof (rule with_state [OF assms])
  fix st w1 assume w1: "state_ok st" "heap_is w1 (owned_state st + S)"
  let ?st = "\<lambda>es. \<lparr>es_errors = es, es_top = 0, es_bottom = 0, es_to_free = None\<rparr>"
  have "heap_is w1 (owned (es_errors st) + (opt_mset (es_to_free st) + S))"
    using w1(2) by (simp add: owned_state_def ac_simps)
  note clear = clear_all_runs [OF this]
  show "runs S (and_then (clear_all (es_errors st)) (\<lambda>es. and_then (free_string (es_to_free st)) (\<lambda>_. put_state (?st es)))) w1
    (\<lambda>_ w'. thread_ok w' S \<and> (plenty w \<longrightarrow> queue w' = []))"
  proof (rule runs_first [OF clear])
    fix es :: "err_slot list" and w2 assume "es = replicate (length (es_errors st)) zero_error \<and> heap_is w2 (opt_mset (es_to_free st) + S) \<and> e_state w2 = e_state w1"
    then have es: "es = replicate 16 zero_error" "heap_is w2 (opt_mset (es_to_free st) + S)" using w1(1) by (auto simp: state_ok_def)
    have "runs S (put_state (?st es)) w3 (\<lambda>_ w'. thread_ok w' S \<and> queue w' = [])" if "heap_is w3 S" for w3
      by (rule put_runs [OF that]) (use cleared_state es(1) in auto)
    then show "runs S (and_then (free_string (es_to_free st)) (\<lambda>_. put_state (?st es))) w2
      (\<lambda>_ w'. thread_ok w' S \<and> (plenty w \<longrightarrow> queue w' = []))"
      by (intro runs_chain [OF free_string_runs [OF es(2)]]) (auto intro: runs_post)
  qed simp
qed (auto intro!: run_rule simp: thread_ok_def)

end
