(* ===== verification/Err_Props.thy ===== *)
theory Err_Props
  imports Err_Queue
begin

unbundle bit_operations_syntax

text \<open>
  What a program can rely on of the error queue: the calls on it, from any number of saved states too, never
  free a string twice, read one that is gone or lose one, and as long as memory lasts they act on a list of
  at most 15 errors.  \<open>err_exec\<close> is one call of the program, \<open>spec_exec\<close> the same call on lists.
\<close>

section \<open>Taking errors from the queue\<close>

type_synonym err_text_values = "u32 \<times> (u8 list \<times> int) option \<times> (u8 list option \<times> int option) option"

text \<open>The output parameters, with the string that \<^verbatim>\<open>*data\<close> points to at that moment.\<close>

definition read_values :: "err_world \<Rightarrow> err_values \<Rightarrow> err_text_values" where
  "read_values w v = (v_ret v, v_file v, map_option (\<lambda>(p, f). (map_option (text_at w) p, f)) (v_data v))"

definition entry_values :: "bool \<Rightarrow> bool \<Rightarrow> bool \<Rightarrow> u8 list err_error_st \<Rightarrow> err_text_values" where
  "entry_values want_file want_data want_flags e =
     (err_packed e,
      if want_file then Some (case err_file e of None \<Rightarrow> (lit ''NA'', 0) | Some f \<Rightarrow> (f, uint (err_line e))) else None,
      if want_data then Some (err_data e, if want_flags then Some (if err_data e = None then 0 else 1) else None) else None)"

definition nothing_read :: err_text_values where
  "nothing_read = (0, None, None)"

lemma read_slot_values: "read_values w (slot_values f d l e) = entry_values f d l (view w e)"
  by (simp add: read_values_def slot_values_def entry_values_def ERR_FLAG_STRING_def split: option.split)

lemma read_no_values: "read_values w no_values = nothing_read"
  by (simp add: read_values_def no_values_def nothing_read_def)

lemma queue_after_get:
  assumes st: "state_ok st" "es_bottom st \<noteq> es_top st" and i: "i = (es_bottom st + 1) mod 16"
    and k: "spares (owned ((es_errors st)[i := zero_error])) w w'"
  shows "queue_of w' (st\<lparr>es_to_free := p, es_errors := (es_errors st)[i := e], es_bottom := i\<rparr>) = tl (queue_of w st)"
proof -
  let ?js = "slots_of st" and ?st = "st\<lparr>es_to_free := p, es_errors := (es_errors st)[i := e], es_bottom := i\<rparr>"
  note ends = slots_ends [OF st]
  have js: "slots_of ?st = tl ?js"
    using ring_facts_all [of "es_bottom st" "es_top st"] st i
    by (auto simp: ring_facts_def Let_def slots_of_def state_ok_def)
  have out: "i \<notin> set (tl ?js)" using ends(1,3,4) i by (cases ?js) auto
  have "map (\<lambda>j. view w' (es_errors ?st ! j)) (tl ?js) = map (\<lambda>j. view w (es_errors st ! j)) (tl ?js)"
  proof (rule queue_cong [OF k])
    fix j assume j: "j \<in> set (tl ?js)"
    then have "j \<noteq> i" "j < length (es_errors st)" using out slots_in [OF st(1)] list.set_sel(2) [OF ends(3)] by auto
    then show "es_errors ?st ! j = es_errors st ! j \<and> opt_mset (err_data (es_errors st ! j)) \<subseteq># owned ((es_errors st)[i := zero_error])"
      using owned_others by simp
  qed
  then show ?thesis by (simp add: queue_of_def js map_tl)
qed

lemma free_none: "free_string None = ret ()"
  by (rule ext) (simp add: free_string_def)

lemma view_put: "view (w\<lparr>e_state := s\<rparr>) e = view w e"
  by (rule view_cong) simp

lemma remove_slot_runs:
  assumes st: "state_ok st" "es_bottom st \<noteq> es_top st" and i: "i = (es_bottom st + 1) mod 16"
    and h: "heap_is w (owned_state st + S)"
  shows "runs S (remove_slot st i want_data) w (\<lambda>_ w'. thread_ok w' S \<and> queue w' = tl (queue_of w st) \<and>
    (want_data \<longrightarrow> view w' (es_errors st ! i) = view w (es_errors st ! i) \<and>
      opt_mset (err_data (es_errors st ! i)) \<subseteq># all_owned w' S))"
proof -
  let ?e = "es_errors st ! i" and ?G = "owned ((es_errors st)[i := zero_error])"
  let ?Q = "\<lambda>w'. thread_ok w' S \<and> queue w' = tl (queue_of w st) \<and> (want_data \<longrightarrow>
      view w' ?e = view w ?e \<and> opt_mset (err_data ?e) \<subseteq># all_owned w' S)"
  have i16: "i < 16" "i < length (es_errors st)" using st(1) i by (simp_all add: state_ok_def)
  have ok: "state_ok (st\<lparr>es_to_free := p, es_errors := (es_errors st)[i := e], es_bottom := i\<rparr>)" for e p
    using st(1) i by (simp add: state_ok_def)
  have put: "runs S (put_state (st\<lparr>es_to_free := p, es_errors := (es_errors st)[i := zero_error], es_bottom := i\<rparr>)) w1 (\<lambda>_. ?Q)"
    if "spares (?G + opt_mset p + S) w w1" "heap_is w1 (?G + opt_mset p + S)"
      "want_data \<Longrightarrow> opt_mset (err_data ?e) \<subseteq># opt_mset p" for p w1
  proof -
    have "spares ?G w w1" by (rule spares_mono [OF that(1)]) (simp add: add.assoc)
    note q = queue_after_get [OF st i this, where e = zero_error and p = p]
    have "view w1 ?e = view w ?e" if want_data
      by (rule view_keeps [OF \<open>spares (?G + opt_mset p + S) w w1\<close>])
        (use \<open>want_data \<Longrightarrow> opt_mset (err_data ?e) \<subseteq># opt_mset p\<close> [OF that] in
          \<open>simp add: subset_mset.add_increasing2 subset_mset.add_increasing\<close>)
    moreover have "opt_mset (err_data ?e) \<subseteq># ?G + opt_mset p + S" if want_data
      using \<open>want_data \<Longrightarrow> opt_mset (err_data ?e) \<subseteq># opt_mset p\<close> [OF that]
      by (simp add: subset_mset.add_increasing2 subset_mset.add_increasing)
    ultimately show ?thesis
      using ok q by (intro runs_post [OF put_state_runs [OF that(2)]])
        (auto simp: queueI queue_of_put view_put owned_state_def all_owned_def intro!: thread_okI)
  qed
  show ?thesis
  proof (cases "want_data \<and> err_data ?e \<noteq> None")
    case True
    then obtain a where a: "err_data ?e = Some a" by auto
    let ?F = "?G + opt_mset (Some a) + S"
    have "heap_is w (opt_mset (es_to_free st) + ?F)"
      using h owned_state_split [OF st(1) i16(1)] a by (simp add: ac_simps)
    note free = free_string_runs [OF this]
    have "runs S (and_then (free_string (es_to_free st)) (\<lambda>_. put_state
        (st\<lparr>es_to_free := Some a, es_errors := (es_errors st)[i := zero_error], es_bottom := i\<rparr>))) w (\<lambda>_. ?Q)"
    proof (rule runs_first [OF free])
      fix u w1 assume "spares ?F w w1" "heap_is w1 ?F \<and> e_state w1 = e_state w"
      then show "runs S (put_state (st\<lparr>es_to_free := Some a, es_errors := (es_errors st)[i := zero_error], es_bottom := i\<rparr>)) w1 (\<lambda>_. ?Q)"
        using put [of "Some a" w1] a by simp
    qed (simp add: subset_add_left)
    then show ?thesis using True a
      by (simp add: remove_slot_def Let_def err_clear_def free_none and_then_assoc)
  next
    case False
    let ?F = "?G + opt_mset (es_to_free st) + S"
    have "heap_is w (opt_mset (err_data ?e) + ?F)"
      using h owned_state_split [OF st(1) i16(1)] by (simp add: ac_simps)
    note clear = err_clear_runs [OF this]
    have "runs S (and_then (err_clear ?e) (\<lambda>e2. put_state
        (st\<lparr>es_errors := (es_errors st)[i := e2], es_bottom := i\<rparr>))) w (\<lambda>_. ?Q)"
    proof (rule runs_first [OF clear])
      fix e2 :: err_slot and w1 assume "spares ?F w w1" "e2 = zero_error \<and> heap_is w1 ?F \<and> e_state w1 = e_state w"
      then show "runs S (put_state (st\<lparr>es_errors := (es_errors st)[i := e2], es_bottom := i\<rparr>)) w1 (\<lambda>_. ?Q)"
        using put [of "es_to_free st" w1] False by auto
    qed (simp add: subset_add_left)
    then show ?thesis unfolding remove_slot_def Let_def if_not_P [OF False] by simp
  qed
qed

text \<open>What a read call does to the queue.\<close>

definition queue_read :: "bool \<Rightarrow> bool \<Rightarrow> bool \<Rightarrow> bool \<Rightarrow> bool \<Rightarrow> u8 list err_error_st list \<Rightarrow>
    err_text_values \<times> u8 list err_error_st list" where
  "queue_read inc newest f d l q =
     (if q = [] then (nothing_read, [])
      else (entry_values f d l (if newest then last q else hd q), if inc then tl q else q))"

lemma get_error_values_runs:
  assumes "thread_ok w S" and "\<not> (inc \<and> newest)"
  shows "runs S (get_error_values inc newest f d l) w (\<lambda>v w'. thread_ok w' S \<and>
    (\<forall>a b. v_data v = Some (Some a, b) \<longrightarrow> a \<in># all_owned w' S) \<and>
    (plenty w \<longrightarrow> (read_values w' v, queue w') = queue_read inc newest f d l (queue w)))"
  unfolding get_error_values_def
proof (rule with_state [OF assms(1)])
  fix st w1 assume w1: "e_state w1 = Some st" "state_ok st" "heap_is w1 (owned_state st + S)" "queue_of w1 st = queue w"
  let ?i = "if newest then es_top st else (es_bottom st + 1) mod ERR_NUM_ERRORS"
  let ?v = "slot_values f d l (es_errors st ! ?i)"
  let ?Q = "\<lambda>v w'. thread_ok w' S \<and> (\<forall>a b. v_data v = Some (Some a, b) \<longrightarrow> a \<in># all_owned w' S) \<and>
    (plenty w \<longrightarrow> (read_values w' v, queue w') = queue_read inc newest f d l (queue w))"
  have same: "thread_ok w1 S" "queue w1 = queue w" using w1 by (auto simp: queueI intro: thread_okI)
  show "runs S (if es_bottom st = es_top st then ret no_values
      else let i = ?i in and_then (require (\<not> (newest \<and> inc) \<and> i < length (es_errors st))) (\<lambda>_.
        let vals = slot_values f d l (es_errors st ! i)
        in if inc then and_then (remove_slot st i d) (\<lambda>_. ret vals) else ret vals)) w1 ?Q"
  proof (cases "es_bottom st = es_top st")
    case True
    then have "queue w = []" using queue_of_Nil [OF w1(2), of w1] w1(4) by simp
    then show ?thesis using True same by (auto intro!: run_rule simp: queue_read_def read_no_values) (simp add: no_values_def)
  next
    case False
    note ends = slots_ends [OF w1(2) False]
    have q: "queue w \<noteq> []" using queue_of_Nil [OF w1(2), of w1] w1(4) False by simp
    have v: "view w1 (es_errors st ! ?i) = (if newest then last (queue w) else hd (queue w))"
      using ends w1(4) [symmetric] by (simp add: queue_of_def last_map hd_map ERR_NUM_ERRORS_def)
    have i: "?i < length (es_errors st)" using w1(2) by (simp add: state_ok_def ERR_NUM_ERRORS_def)
    have "runs S (if inc then and_then (remove_slot st ?i d) (\<lambda>_. ret ?v) else ret ?v) w1 ?Q"
    proof (cases inc)
      case True
      then have i': "?i = (es_bottom st + 1) mod 16" using assms(2) by (simp add: ERR_NUM_ERRORS_def)
      have "runs S (and_then (remove_slot st ?i d) (\<lambda>_. ret ?v)) w1 ?Q"
      proof (rule runs_chain [OF remove_slot_runs [OF w1(2) False i' w1(3)]], rule runs_ret)
        fix w2 assume w2: "thread_ok w2 S \<and> queue w2 = tl (queue_of w1 st) \<and>
          (d \<longrightarrow> view w2 (es_errors st ! ?i) = view w1 (es_errors st ! ?i) \<and>
            opt_mset (err_data (es_errors st ! ?i)) \<subseteq># all_owned w2 S)"
        have "entry_values f d l (view w2 (es_errors st ! ?i)) = entry_values f d l (view w1 (es_errors st ! ?i))"
          using w2 by (cases d) (auto simp: entry_values_def split: option.splits)
        moreover have "\<forall>a b. v_data ?v = Some (Some a, b) \<longrightarrow> a \<in># all_owned w2 S"
          using w2 by (auto simp: slot_values_def split: if_splits)
        ultimately show "?Q ?v w2" using w2 v q w1(4) True assms(2) by (simp add: queue_read_def read_slot_values)
      qed
      then show ?thesis using True by simp
    next
      case no: False
      have "opt_mset (err_data (es_errors st ! ?i)) \<subseteq># all_owned w1 S"
        using owned_nth [OF i] w1(1) by (simp add: all_owned_def owned_state_def add.assoc subset_mset.add_increasing2)
      then have "\<forall>a b. v_data ?v = Some (Some a, b) \<longrightarrow> a \<in># all_owned w1 S"
        by (auto simp: slot_values_def split: if_splits)
      then show ?thesis using no q v same by (auto intro!: run_rule simp: queue_read_def read_slot_values)
    qed
    then show ?thesis unfolding if_not_P [OF False] Let_def
      by (intro runs_bind runs_require) (use assms(2) i in auto)
  qed
qed (auto intro!: run_rule simp: thread_ok_def no_values_def)

section \<open>Saved states\<close>

text \<open>A saved state as a list of errors; its marks are gone.\<close>

definition saved :: "err_world \<Rightarrow> err_save_state_st \<Rightarrow> u8 list err_error_st list" where
  "saved w s = map (view w) (ss_errors s)"

definition unmarked :: "'d err_error_st \<Rightarrow> 'd err_error_st" where
  "unmarked e = e\<lparr>err_mark := False\<rparr>"

definition owned_save :: "err_save_state_st option \<Rightarrow> nat multiset" where
  "owned_save s = (case s of None \<Rightarrow> {#} | Some s \<Rightarrow> owned (ss_errors s))"

definition save_ok :: "err_save_state_st option \<Rightarrow> bool" where
  "save_ok s \<longleftrightarrow> (\<forall>x. s = Some x \<longrightarrow> 0 < length (ss_errors x) \<and> length (ss_errors x) < 16 \<and> (\<forall>e \<in> set (ss_errors x). \<not> err_mark e))"

lemma copied_mark: "copied w s w' e \<Longrightarrow> \<not> err_mark e"
  unfolding copied_def by (metis err_error_st.select_convs(5) err_error_st.surjective err_error_st.update_convs(2,5) view_sel(4))

lemma copied_view: "copied w s w' e \<Longrightarrow> plenty w \<Longrightarrow> view w' e = unmarked (view w s)"
  by (simp add: copied_def unmarked_def)

lemma copied_views:
  assumes "list_all2 (\<lambda>j e. copied w (g j) w' e) js es" and "plenty w"
  shows "map (view w') es = map (\<lambda>j. unmarked (view w (g j))) js"
  using assms(1) by (induction rule: list_all2_induct) (use assms(2) copied_view in auto)

lemma num_queued_slots:
  assumes "state_ok st"
  shows "map (\<lambda>i. (es_bottom st + i + 1) mod ERR_NUM_ERRORS) [0..<num_queued st] = slots_of st" and "num_queued st < ERR_NUM_ERRORS"
proof -
  have n: "num_queued st = (es_top st + 16 - es_bottom st) mod 16"
    using assms by (auto simp: num_queued_def ERR_NUM_ERRORS_def state_ok_def mod_if)
  show "map (\<lambda>i. (es_bottom st + i + 1) mod ERR_NUM_ERRORS) [0..<num_queued st] = slots_of st"
    unfolding n slots_of_def ring_slots_def ERR_NUM_ERRORS_def ..
  show "num_queued st < ERR_NUM_ERRORS" unfolding n by (simp add: ERR_NUM_ERRORS_def)
qed

text \<open>Copying the queued slots out makes a saved state.\<close>

lemma copy_out_saves:
  assumes "e_state w = Some st" and "state_ok st" and "es_bottom st \<noteq> es_top st" and "heap_is w (owned_state st + S)"
  shows "runs S (and_then (copy_out (es_errors st) (slots_of st)) (\<lambda>es. ret (Some \<lparr>ss_errors = es\<rparr>))) w
    (\<lambda>s w'. save_ok s \<and> thread_ok w' (owned_save s + S) \<and> queue w' = queue w \<and>
       (plenty w \<longrightarrow> map_option (saved w') s = Some (map unmarked (queue w))))"
proof -
  have sub: "owned (es_errors st) \<subseteq># owned_state st + S" by (simp add: owned_state_def add.assoc)
  show ?thesis
  proof (rule runs_first [OF copy_out_runs [OF assms(4) slots_in [OF assms(2)] sub]], assumption)
    fix es w1 assume k: "spares (owned_state st + S) w w1" and w1: "e_state w1 = e_state w \<and>
      heap_is w1 (owned es + (owned_state st + S)) \<and> list_all2 (\<lambda>j e. copied w (es_errors st ! j) w1 e) (slots_of st) es"
    have len: "length es = length (slots_of st)" using w1 by (auto dest: list_all2_lengthD)
    have "\<not> err_mark e" if "e \<in> set es" for e
      using w1 that copied_mark by (auto simp: list_all2_conv_all_nth in_set_conv_nth)
    moreover have "length (slots_of st) < 16" by (simp add: slots_of_def ring_slots_def)
    ultimately have "save_ok (Some \<lparr>ss_errors = es\<rparr>)" using len slots_ends(3) [OF assms(2,3)] by (auto simp: save_ok_def)
    moreover have "thread_ok w1 (owned es + S)" using w1 assms(1,2) by (auto simp: ac_simps intro!: thread_okI)
    moreover have "queue w1 = queue w" using queue_keeps [OF assms(2) k sub] assms(1) w1 by (simp add: queueI)
    moreover have "map (view w1) es = map unmarked (queue w)" if "plenty w"
      using copied_views [of w "\<lambda>j. es_errors st ! j" w1 "slots_of st" es] w1 that assms(1) by (simp add: queue_of_def queueI)
    ultimately show "runs S (ret (Some \<lparr>ss_errors = es\<rparr>)) w1 (\<lambda>s w'. save_ok s \<and> thread_ok w' (owned_save s + S) \<and>
        queue w' = queue w \<and> (plenty w \<longrightarrow> map_option (saved w') s = Some (map unmarked (queue w))))"
      by (auto intro!: run_rule simp: owned_save_def saved_def)
  qed simp
qed

lemma ERR_save_state_runs:
  assumes "thread_ok w S"
  shows "runs S ERR_save_state w (\<lambda>s w'. save_ok s \<and> thread_ok w' (owned_save s + S) \<and>
    (plenty w \<longrightarrow> queue w' = queue w \<and>
       map_option (saved w') s = (if queue w = [] then None else Some (map unmarked (queue w)))))"
  unfolding ERR_save_state_def
proof (rule with_state [OF assms])
  fix st w1 assume w1: "spares S w w1" "e_state w1 = Some st" "state_ok st" "heap_is w1 (owned_state st + S)" "queue_of w1 st = queue w"
  let ?A = "owned_state st + S"
  let ?Q = "\<lambda>s w'. save_ok s \<and> thread_ok w' (owned_save s + S) \<and> (plenty w \<longrightarrow> queue w' = queue w \<and>
       map_option (saved w') s = (if queue w = [] then None else Some (map unmarked (queue w))))"
  have ok1: "thread_ok w1 S" "queue w1 = queue w" using w1 by (auto simp: queueI intro: thread_okI)
  have none: "runs S (ret None) w3 ?Q" if "thread_ok w3 S" "\<not> plenty w1 \<or> queue w = [] \<and> queue w3 = queue w" for w3
    using that spares_plenty [OF w1(1)] by (auto intro!: run_rule simp: save_ok_def owned_save_def)
  show "runs S (if es_top st = es_bottom st then ret None
      else and_then (on_mem (OPENSSL_malloc sizeof_save)) (\<lambda>r. case r of None \<Rightarrow> ret None
      | Some block \<Rightarrow> let num_errors = num_queued st in and_then (require (num_errors < ERR_NUM_ERRORS)) (\<lambda>_.
          and_then (on_mem (OPENSSL_malloc (num_errors * sizeof_error))) (\<lambda>r1. case r1 of
            None \<Rightarrow> and_then (free_buffer block) (\<lambda>_. ret None)
          | Some _ \<Rightarrow> and_then (copy_out (es_errors st)
                (map (\<lambda>i. (es_bottom st + i + 1) mod ERR_NUM_ERRORS) [0..<num_errors]))
              (\<lambda>es. ret (Some \<lparr>ss_errors = es\<rparr>)))))) w1 ?Q"
  proof (cases "es_top st = es_bottom st")
    case True
    then have "queue w = []" using queue_of_Nil [OF w1(3), of w1] w1(5) by simp
    then show ?thesis using True none [OF ok1(1)] ok1(2) by simp
  next
    case False
    then have q: "queue w \<noteq> []" "es_bottom st \<noteq> es_top st" using queue_of_Nil [OF w1(3), of w1] w1(5) by auto
    show ?thesis unfolding if_not_P [OF False] Let_def num_queued_slots(1) [OF w1(3)]
    proof (rule malloc_first [OF ok1(1)], goal_cases)
      case (2 b w2)
      note w2 = still_thread_ok [OF ok1(1) 2(1-3)] spares_plenty [OF 2(1)] 2(3)
      show ?case
      proof (rule runs_bind, rule runs_require [OF num_queued_slots(2) [OF w1(3)]], rule malloc_first [OF w2(1)], goal_cases)
        case (1 w3)
        then show ?case using w2(3)
          by (intro runs_bind runs_post [OF free_buffer_runs [OF heap_all [OF 1(1)]]] none)
            (auto simp: thread_heap all_owned_def)
      next
        case (2 b w3)
        note w3 = still_thread_ok [OF w2(1) 2(1-3)] spares_plenty [OF 2(1)]
        have "e_state w3 = Some st" using 2(3) w2(4) w1(2) by simp
        moreover have "heap_is w3 ?A" using heap_all [OF w3(1)] \<open>e_state w3 = Some st\<close> by (simp add: all_owned_def)
        ultimately show ?case
          by (intro runs_post [OF copy_out_saves [OF _ w1(3) q(2)]])
            (use q(1) w2(2,3) w3(2,3) ok1(2) spares_plenty [OF w1(1)] in auto)
      qed
    qed (use none in auto)
  qed
qed (auto intro!: run_rule simp: thread_ok_def save_ok_def owned_save_def)

lemma unmarked_saved: "save_ok (Some x) \<Longrightarrow> map unmarked (saved w x) = saved w x"
  by (auto simp: save_ok_def saved_def unmarked_def view_def intro!: map_cong)

lemma restored_slots: "0 < n \<Longrightarrow> n < 16 \<Longrightarrow> ring_slots 15 (n - 1) = [0..<n]"
proof -
  assume n: "0 < n" "n < 16"
  then have "(15 + n) mod 16 = n - 1" by (auto simp: mod_if)
  then have "ring_slots 15 (n - 1) = map (\<lambda>k. (15 + k + 1) mod 16) [0..<n]" using ring_slots_upto [of 15 n] n by simp
  also have "\<dots> = [0..<n]" by (rule map_idI) (use n in auto)
  finally show ?thesis .
qed

lemma ERR_restore_state_runs:
  assumes "thread_ok w S" and "save_ok s" and "owned_save s \<subseteq># S"
  shows "runs S (ERR_restore_state s) w (\<lambda>_ w'. thread_ok w' S \<and>
    (plenty w \<longrightarrow> queue w' = (case s of None \<Rightarrow> [] | Some x \<Rightarrow> saved w x)))"
proof (cases s)
  case None
  then show ?thesis using ERR_clear_error_runs [OF assms(1)] by (simp add: ERR_restore_state_def)
next
  case (Some x)
  let ?n = "length (ss_errors x)"
  have x: "0 < ?n" "?n < 16" "ss_errors x \<noteq> []" "owned (ss_errors x) \<subseteq># S"
    using assms(2,3) Some by (auto simp: save_ok_def owned_save_def)
  show ?thesis unfolding ERR_restore_state_def Some option.case if_not_P [OF x(3)]
  proof (rule with_state [OF assms(1)])
    fix st w1 assume w1: "spares S w w1" "state_ok st" "heap_is w1 (owned_state st + S)"
    let ?F = "opt_mset (es_to_free st) + S"
    let ?st = "\<lambda>es. st\<lparr>es_errors := es, es_top := ?n - 1, es_bottom := ERR_NUM_ERRORS - 1\<rparr>"
    have "heap_is w1 (owned (es_errors st) + ?F)" using w1(3) by (simp add: owned_state_def ac_simps)
    note copy = copy_in_runs [OF this subset_add_left [OF x(4)]]
    have "?n \<le> length (es_errors st)" using w1(2) x(2) by (simp add: state_ok_def)
    from copy [OF this] show "runs S (and_then (copy_in (es_errors st) (ss_errors x)) (\<lambda>es. put_state (?st es))) w1
      (\<lambda>_ w'. thread_ok w' S \<and> (plenty w \<longrightarrow> queue w' = saved w x))"
    proof (rule runs_first)
      fix es w2 assume w2: "heap_is w2 (owned es + ?F) \<and> length es = length (es_errors st) \<and>
        list_all2 (\<lambda>s e. copied w1 s w2 e) (ss_errors x) (take ?n es)"
      have len: "length es = 16" using w2 w1(2) by (simp add: state_ok_def)
      have ok: "state_ok (?st es)" using w1(2) x(2) len by (simp add: state_ok_def ERR_NUM_ERRORS_def)
      have slots: "slots_of (?st es) = [0..<?n]" using restored_slots [OF x(1,2)] by (simp add: slots_of_def ERR_NUM_ERRORS_def)
      have "map (\<lambda>j. view w2 (es ! j)) [0..<?n] = map (view w2) (take ?n es)"
        by (rule nth_equalityI) (use len x(2) in auto)
      then have "queue_of w2 (?st es) = map (view w2) (take ?n es)" unfolding queue_of_def slots by simp
      moreover have "map (view w2) (take ?n es) = saved w x" if "plenty w"
      proof -
        have "plenty w1" using that spares_plenty [OF w1(1)] by simp
        then have "map (view w2) (take ?n es) = map unmarked (saved w1 x)"
          using copied_views [of w1 "\<lambda>s. s" w2 "ss_errors x" "take ?n es"] w2 by (simp add: saved_def)
        also have "\<dots> = saved w x"
          using unmarked_saved assms(2) Some map_view_keeps [OF w1(1) x(4)] by (simp add: saved_def)
        finally show ?thesis .
      qed
      ultimately show "runs S (put_state (?st es)) w2 (\<lambda>_ w'. thread_ok w' S \<and> (plenty w \<longrightarrow> queue w' = saved w x))"
        by (intro put_runs [OF conjunct1 [OF w2] ok]) (auto simp: owned_state_def ac_simps)
    qed simp
  qed (auto intro!: run_rule simp: thread_ok_def)
qed

lemma ERR_SAVE_STATE_free_runs:
  assumes "thread_ok w (owned_save s + S)"
  shows "runs S (ERR_SAVE_STATE_free s) w (\<lambda>_ w'. thread_ok w' S \<and> queue w' = queue w)"
proof -
  let ?A = "all_owned w S"
  have h: "heap_is w (owned_save s + ?A)"
    using heap_all [OF assms] by (simp add: all_owned_def ac_simps split: option.splits)
  have ok: "\<forall>st. e_state w = Some st \<longrightarrow> state_ok st" using assms by (simp add: thread_heap)
  have "runs ?A (ERR_SAVE_STATE_free s) w (\<lambda>_ w'. heap_is w' ?A \<and> e_state w' = e_state w)"
  proof (cases s)
    case (Some x)
    then show ?thesis using h unfolding ERR_SAVE_STATE_free_def
      by (simp add: owned_save_def) (rule runs_chain [OF clear_all_runs], assumption, auto intro!: run_rule)
  qed (use h in \<open>auto simp: ERR_SAVE_STATE_free_def owned_save_def intro!: run_rule\<close>)
  then have "runs ?A (ERR_SAVE_STATE_free s) w (\<lambda>_ w'. thread_ok w' S \<and> queue w' = queue w)"
  proof (rule runs_post)
    fix u w' assume k: "spares ?A w w'" and *: "heap_is w' ?A \<and> e_state w' = e_state w"
    then have "thread_ok w' S" using ok by (simp add: thread_heap all_owned_def)
    moreover have "queue w' = queue w"
    proof (cases "e_state w")
      case (Some st)
      then have "queue_of w' st = queue_of w st" using ok k
        by (intro queue_keeps [OF _ k]) (auto simp: all_owned_def owned_state_def add.assoc)
      then show ?thesis using Some * by (simp add: queue_def)
    qed (use * in \<open>simp add: queue_def\<close>)
    ultimately show "thread_ok w' S \<and> queue w' = queue w" ..
  qed
  then show ?thesis by (rule runs_mono) (rule all_owned_sub)
qed

section \<open>Programs\<close>

text \<open>
  The calls of a program.  \<open>Read inc newest\<close> stands for the nine functions that read the queue; saved states
  are numbered in the order in which they were made, and a number without one is a null pointer.
\<close>

datatype err_call =
  Put int int "u8 list option" u32
| Add_data "u8 list option list"
| Add_dataf "u8 list"
| Read bool bool bool bool bool
| Clear
| Set_mark
| Pop_to_mark
| Save
| Restore nat
| Free_save nat
| End_thread

datatype err_result = Done | Flag int | Values err_text_values

type_synonym err_run = "err_world \<times> err_save_state_st option list"

definition end_thread :: "unit err" where
  "end_thread w = and_then (err_state_free (e_state w)) (\<lambda>_ w. (Some (), w\<lparr>e_state := None\<rparr>)) w"

definition handle :: "'a option list \<Rightarrow> nat \<Rightarrow> 'a option" where
  "handle p k = (if k < length p then p ! k else None)"

definition on_world :: "'a err \<Rightarrow> ('a \<Rightarrow> err_world \<Rightarrow> err_result) \<Rightarrow>
    (err_save_state_st option list \<Rightarrow> 'a \<Rightarrow> err_save_state_st option list) \<Rightarrow> (err_result, err_run) step" where
  "on_world p g h s =
     (case s of (w, saves) \<Rightarrow>
        (case p w of
           (None, w') \<Rightarrow> (None, (w', saves))
         | (Some x, w') \<Rightarrow> (Some (g x w'), (w', h saves x))))"

fun err_exec :: "err_call \<Rightarrow> (err_result, err_run) step" where
  "err_exec (Put lib reason f line) = on_world (ERR_put_error lib reason f line) (\<lambda>_ _. Done) (\<lambda>p _. p)"
| "err_exec (Add_data args) = on_world (ERR_add_error_data args) (\<lambda>_ _. Done) (\<lambda>p _. p)"
| "err_exec (Add_dataf s) = on_world (ERR_add_error_dataf s) (\<lambda>_ _. Done) (\<lambda>p _. p)"
| "err_exec (Read inc newest f d l) =
     on_world (get_error_values inc newest f d l) (\<lambda>v w. Values (read_values w v)) (\<lambda>p _. p)"
| "err_exec Clear = on_world ERR_clear_error (\<lambda>_ _. Done) (\<lambda>p _. p)"
| "err_exec Set_mark = on_world ERR_set_mark (\<lambda>r _. Flag r) (\<lambda>p _. p)"
| "err_exec Pop_to_mark = on_world ERR_pop_to_mark (\<lambda>r _. Flag r) (\<lambda>p _. p)"
| "err_exec Save = on_world ERR_save_state (\<lambda>_ _. Done) (\<lambda>p s. p @ [s])"
| "err_exec (Restore k) = (\<lambda>s. on_world (ERR_restore_state (handle (snd s) k)) (\<lambda>_ _. Done) (\<lambda>p _. p) s)"
| "err_exec (Free_save k) = (\<lambda>s. on_world (ERR_SAVE_STATE_free (handle (snd s) k)) (\<lambda>_ _. Done) (\<lambda>p _. p[k := None]) s)"
| "err_exec End_thread = on_world end_thread (\<lambda>_ _. Done) (\<lambda>p _. p)"

fun run_calls :: "err_call list \<Rightarrow> (err_result list, err_run) step" where
  "run_calls [] = ret []"
| "run_calls (c # cs) = and_then (err_exec c) (\<lambda>r. and_then (run_calls cs) (\<lambda>rs. ret (r # rs)))"

type_synonym err_lists = "u8 list err_error_st list \<times> u8 list err_error_st list option list"

fun spec_exec :: "int \<Rightarrow> err_call \<Rightarrow> err_lists \<Rightarrow> err_result \<times> err_lists" where
  "spec_exec errno (Put lib reason f line) (q, p) = (Done, (queue_put (new_error errno lib reason f line) q, p))"
| "spec_exec errno (Add_data args) (q, p) = (Done, (with_data (joined args) q, p))"
| "spec_exec errno (Add_dataf s) (q, p) = (Done, (with_data (c_text (take 255 s)) q, p))"
| "spec_exec errno (Read inc newest f d l) (q, p) =
     (case queue_read inc newest f d l q of (v, q') \<Rightarrow> (Values v, (q', p)))"
| "spec_exec errno Clear (q, p) = (Done, ([], p))"
| "spec_exec errno Set_mark (q, p) = (Flag (if q = [] then 0 else 1), (mark_set True q, p))"
| "spec_exec errno Pop_to_mark (q, p) = (case pop_marked q of (r, q') \<Rightarrow> (Flag r, (q', p)))"
| "spec_exec errno Save (q, p) = (Done, (q, p @ [if q = [] then None else Some (map unmarked q)]))"
| "spec_exec errno (Restore k) (q, p) = (Done, (case handle p k of None \<Rightarrow> [] | Some s \<Rightarrow> s, p))"
| "spec_exec errno (Free_save k) (q, p) = (Done, (q, p[k := None]))"
| "spec_exec errno End_thread (q, p) = (Done, ([], p))"

fun spec_run :: "int \<Rightarrow> err_call list \<Rightarrow> err_lists \<Rightarrow> err_result list \<times> err_lists" where
  "spec_run errno [] s = ([], s)"
| "spec_run errno (c # cs) s =
     (case spec_exec errno c s of (r, s') \<Rightarrow> (case spec_run errno cs s' of (rs, s'') \<Rightarrow> (r # rs, s'')))"

text \<open>Arguments of the C functions: strings are terminated, and of a read only one of the flags is set.\<close>

fun call_ok :: "err_call \<Rightarrow> bool" where
  "call_ok (Add_data args) = strings_ok args"
| "call_ok (Read inc newest f d l) = (\<not> (inc \<and> newest))"
| "call_ok _ = True"

definition owned_pool :: "err_save_state_st option list \<Rightarrow> nat multiset" where
  "owned_pool p = sum_list (map owned_save p)"

definition run_ok :: "err_run \<Rightarrow> bool" where
  "run_ok s \<longleftrightarrow> thread_ok (fst s) (owned_pool (snd s)) \<and> (\<forall>x \<in> set (snd s). save_ok x)"

definition lists :: "err_run \<Rightarrow> err_lists" where
  "lists s = (queue (fst s), map (map_option (saved (fst s))) (snd s))"

lemma owned_pool_nth: "k < length p \<Longrightarrow> owned_pool p = owned_save (p ! k) + owned_pool (p[k := None])"
proof (induction p arbitrary: k)
  case (Cons x p)
  then show ?case by (cases k) (auto simp: owned_pool_def owned_save_def ac_simps)
qed simp

lemma handle_owned: "owned_pool p = owned_save (handle p k) + owned_pool (p[k := None])"
  using owned_pool_nth [of k p] by (cases "k < length p") (simp_all add: handle_def owned_save_def list_update_beyond)

lemma handle_ok: "\<forall>x \<in> set p. save_ok x \<Longrightarrow> save_ok (handle p k)"
  by (cases "k < length p") (use nth_mem in \<open>auto simp: handle_def save_ok_def\<close>)

lemma pool_keeps:
  assumes "spares (owned_pool p) w w'"
  shows "map (map_option (saved w')) p = map (map_option (saved w)) p"
proof (rule map_cong [OF refl])
  fix s assume "s \<in> set p"
  then obtain k where k: "k < length p" "s = p ! k" by (metis in_set_conv_nth)
  show "map_option (saved w') s = map_option (saved w) s"
  proof (cases s)
    case (Some x)
    then have "owned (ss_errors x) \<subseteq># owned_pool p" using owned_pool_nth [OF k(1)] k(2) by (simp add: owned_save_def)
    then show ?thesis using map_view_keeps [OF assms] Some by (simp add: saved_def)
  qed simp
qed

text \<open>One call.\<close>

definition refines :: "err_call \<Rightarrow> err_run \<Rightarrow> bool" where
  "refines c s \<longleftrightarrow> (\<exists>r s'. err_exec c s = (Some r, s') \<and> run_ok s' \<and>
     (plenty (fst s) \<longrightarrow> plenty (fst s') \<and> e_errno (fst s') = e_errno (fst s) \<and>
        (r, lists s') = spec_exec (e_errno (fst s)) c (lists s)))"

lemma on_world_refines:
  assumes "run_ok (w, p)" and "err_exec c (w, p) = on_world f g (\<lambda>p _. p) (w, p)"
    and "runs (owned_pool p) f w (\<lambda>x w'. thread_ok w' (owned_pool p) \<and> (plenty w \<longrightarrow> R x w'))"
    and "\<And>x w'. R x w' \<Longrightarrow> plenty w \<Longrightarrow> spares (owned_pool p) w w' \<Longrightarrow>
      (g x w', (queue w', map (map_option (saved w)) p)) = spec_exec (e_errno w) c (lists (w, p))"
  shows "refines c (w, p)"
proof -
  obtain x w' where x: "f w = (Some x, w')" "spares (owned_pool p) w w'" "thread_ok w' (owned_pool p)" "plenty w \<longrightarrow> R x w'"
    using assms(3) unfolding runs_def by blast
  have "run_ok (w', p)" using x(3) assms(1) by (simp add: run_ok_def)
  moreover have "lists (w', p) = (queue w', map (map_option (saved w)) p)" using pool_keeps [OF x(2)] by (simp add: lists_def)
  ultimately show ?thesis unfolding refines_def using assms(2,4) x spares_plenty [OF x(2)]
    by (auto simp: on_world_def spares_def)
qed

lemma end_thread_runs:
  assumes "thread_ok w S"
  shows "runs S end_thread w (\<lambda>_ w'. heap_is w' S \<and> e_state w' = None)"
proof (cases "e_state w")
  case None
  then show ?thesis using assms
    by (auto simp: end_thread_def runs_def err_state_free_def spares_def thread_ok_def heap_is_def)
next
  case (Some st)
  then have "heap_is w (owned_state st + S)" using assms by (simp add: thread_ok_def)
  from err_state_free_runs [OF this] have "runs S (and_then (err_state_free (Some st)) (\<lambda>_ w. (Some (), w\<lparr>e_state := None\<rparr>))) w
      (\<lambda>_ w'. heap_is w' S \<and> e_state w' = None)"
    by (rule runs_chain) (auto simp: runs_def spares_def heap_is_def)
  then show ?thesis using Some by (simp add: runs_def end_thread_def)
qed

lemma save_refines:
  assumes "run_ok (w, p)"
  shows "refines Save (w, p)"
proof -
  obtain s w' where s: "ERR_save_state w = (Some s, w')" "spares (owned_pool p) w w'" "save_ok s"
    "thread_ok w' (owned_save s + owned_pool p)"
    "plenty w \<longrightarrow> queue w' = queue w \<and> map_option (saved w') s = (if queue w = [] then None else Some (map unmarked (queue w)))"
    using ERR_save_state_runs [of w "owned_pool p"] assms unfolding runs_def run_ok_def by auto
  have "owned_pool (p @ [s]) = owned_save s + owned_pool p" by (simp add: owned_pool_def ac_simps)
  then have "run_ok (w', p @ [s])" using s(3,4) assms by (auto simp: run_ok_def)
  then show ?thesis unfolding refines_def using s pool_keeps [OF s(2)] spares_plenty [OF s(2)]
    by (auto simp: on_world_def spares_def lists_def)
qed

lemma free_save_refines:
  assumes "run_ok (w, p)"
  shows "refines (Free_save k) (w, p)"
proof -
  let ?p = "p[k := None]"
  have "thread_ok w (owned_save (handle p k) + owned_pool ?p)" using assms handle_owned [of p k] by (simp add: run_ok_def)
  from ERR_SAVE_STATE_free_runs [OF this] obtain u w' where w': "ERR_SAVE_STATE_free (handle p k) w = (Some u, w')"
    "spares (owned_pool ?p) w w'" "thread_ok w' (owned_pool ?p)" "queue w' = queue w" unfolding runs_def by blast
  have "\<forall>x \<in> set ?p. save_ok x" using assms set_update_subset_insert [of p k None] by (auto simp: run_ok_def save_ok_def)
  then have "run_ok (w', ?p)" using w'(3) by (simp add: run_ok_def)
  then show ?thesis unfolding refines_def using w' pool_keeps [OF w'(2)] spares_plenty [OF w'(2)]
    by (auto simp: on_world_def spares_def lists_def map_update)
qed

lemma call_refines:
  assumes "run_ok s" and "call_ok c"
  shows "refines c s"
proof -
  obtain w p where s: "s = (w, p)" by (cases s)
  have ok: "thread_ok w (owned_pool p)" "\<forall>x \<in> set p. save_ok x" using assms(1) s by (simp_all add: run_ok_def)
  note step = on_world_refines [OF assms(1) [unfolded s]]
  have l: "lists (w, p) = (queue w, map (map_option (saved w)) p)" by (simp add: lists_def)
  have "refines c (w, p)"
  proof (cases c)
    case (Put lib reason f line)
    show ?thesis unfolding Put by (rule step [OF _ ERR_put_error_runs [OF ok(1)]]) (simp_all add: l)
  next
    case (Add_data args)
    then have "strings_ok args" using assms(2) by simp
    then show ?thesis unfolding Add_data by (intro step [OF _ ERR_add_error_data_runs [OF ok(1)]]) (simp_all add: l)
  next
    case (Add_dataf t)
    show ?thesis unfolding Add_dataf by (rule step [OF _ ERR_add_error_dataf_runs [OF ok(1)]]) (simp_all add: l)
  next
    case (Read inc newest f d k)
    then have "\<not> (inc \<and> newest)" using assms(2) by simp
    then show ?thesis unfolding Read
      by (intro step [OF _ runs_post [OF get_error_values_runs [OF ok(1)]], where R = "\<lambda>v w'.
          (read_values w' v, queue w') = queue_read inc newest f d k (queue w)"]) (auto simp: l split: prod.splits)
  next
    case Clear
    show ?thesis unfolding Clear by (rule step [OF _ ERR_clear_error_runs [OF ok(1)]]) (simp_all add: l)
  next
    case Set_mark
    show ?thesis unfolding Set_mark by (rule step [OF _ ERR_set_mark_runs [OF ok(1)]]) (auto simp: l)
  next
    case Pop_to_mark
    show ?thesis unfolding Pop_to_mark
      by (rule step [OF _ ERR_pop_to_mark_runs [OF ok(1)]]) (auto simp: l split: prod.splits)
  next
    case Save
    show ?thesis unfolding Save by (rule save_refines [OF assms(1) [unfolded s]])
  next
    case (Restore k)
    have "owned_save (handle p k) \<subseteq># owned_pool p" using handle_owned [of p k] by simp
    note restore = ERR_restore_state_runs [OF ok(1) handle_ok [OF ok(2)] this]
    show ?thesis unfolding Restore
      by (rule step [OF _ restore]) (auto simp: l handle_def split: option.splits)
  next
    case (Free_save k)
    show ?thesis unfolding Free_save by (rule free_save_refines [OF assms(1) [unfolded s]])
  next
    case End_thread
    have "runs (owned_pool p) end_thread w (\<lambda>_ w'. thread_ok w' (owned_pool p) \<and> (plenty w \<longrightarrow> queue w' = []))"
      by (rule runs_post [OF end_thread_runs [OF ok(1)]]) (simp add: thread_ok_def queue_def)
    then show ?thesis unfolding End_thread by (intro step) (auto simp: l)
  qed
  then show ?thesis using s by simp
qed

lemma run_calls_ok:
  assumes "run_ok s" and "list_all call_ok cs"
  shows "\<exists>rs s'. run_calls cs s = (Some rs, s') \<and> run_ok s' \<and>
    (plenty (fst s) \<longrightarrow> (rs, lists s') = spec_run (e_errno (fst s)) cs (lists s))"
  using assms
proof (induction cs arbitrary: s)
  case (Cons c cs)
  then obtain r s1 where c: "err_exec c s = (Some r, s1)" "run_ok s1"
    "plenty (fst s) \<longrightarrow> plenty (fst s1) \<and> e_errno (fst s1) = e_errno (fst s) \<and> (r, lists s1) = spec_exec (e_errno (fst s)) c (lists s)"
    using call_refines [of s c] by (auto simp: refines_def)
  moreover obtain rs s2 where "run_calls cs s1 = (Some rs, s2)" "run_ok s2"
    "plenty (fst s1) \<longrightarrow> (rs, lists s2) = spec_run (e_errno (fst s1)) cs (lists s1)"
    using Cons.IH [OF c(2)] Cons.prems(2) by auto
  ultimately show ?case by (auto split: prod.splits)
qed simp

section \<open>Properties\<close>

definition no_errors :: err_world where
  "no_errors = \<lparr>e_mem = tiny_mem, e_heap = Map.empty, e_fresh = 0, e_state = None, e_tls_ok = True, e_errno = 0,
     global_next_library = 33\<rparr>"

text \<open>The strings of the thread and of the saved states, each with the number of its owners.\<close>

definition string_owners :: "err_run \<Rightarrow> nat multiset" where
  "string_owners s = all_owned (fst s) (owned_pool (snd s))"

lemma fresh_run_ok: "e_heap w = Map.empty \<Longrightarrow> e_state w = None \<Longrightarrow> run_ok (w, [])"
  by (simp add: run_ok_def thread_ok_def owned_pool_def heap_is_def)

lemma queue_bounded: "thread_ok w S \<Longrightarrow> length (queue w) \<le> 15"
  using mod_less_divisor [of 16] 
  by (auto simp: queue_def queue_of_def slots_of_def ring_slots_def less_Suc_eq_le [symmetric] split: option.splits)

text \<open>C11: Error strings are neither freed twice nor lost.  From a thread without errors, every sequence of calls
  returns, whether memory lasts or not: no string is freed twice or read after it was freed, no index leaves
  the ring, no assertion fails.  Afterwards each string in the heap has exactly one owner, a slot of the
  queue, \<^verbatim>\<open>to_free\<close> or a slot of a saved state, so that nothing is left when the thread has ended and the
  saved states are freed.\<close>

theorem error_strings_owned_once:
  assumes "e_heap w = Map.empty" and "e_state w = None" and "list_all call_ok cs"
  shows "\<exists>rs s. run_calls cs (w, []) = (Some rs, s) \<and>
    dom (e_heap (fst s)) = set_mset (string_owners s) \<and> (\<forall>a. count (string_owners s) a \<le> 1) \<and>
    (e_state (fst s) = None \<and> set (snd s) \<subseteq> {None} \<longrightarrow> e_heap (fst s) = Map.empty)"
proof -
  obtain rs s where r: "run_calls cs (w, []) = (Some rs, s)" "run_ok s"
    using run_calls_ok [OF fresh_run_ok [OF assms(1,2)] assms(3)] by blast
  then have h: "heap_is (fst s) (string_owners s)" by (simp add: run_ok_def thread_heap string_owners_def all_owned_def)
  have "owned_pool p = {#}" if "set p \<subseteq> {None}" for p
    using that by (induction p) (auto simp: owned_pool_def owned_save_def)
  then have "e_heap (fst s) = Map.empty" if "e_state (fst s) = None" "set (snd s) \<subseteq> {None}"
    using h that by (auto simp: string_owners_def all_owned_def heap_is_def mset_set_empty_iff)
  then show ?thesis using r(1) h by (auto simp: heap_is_def count_mset_set')
qed

theorem error_strings_owned_once_witness:
  "\<exists>rs s. run_calls [Put 12 65 None 7, Add_data [Some [104, 105, 0]], Save, Read True False False True True, End_thread]
      (no_errors, []) = (Some rs, s) \<and> dom (e_heap (fst s)) = set_mset (string_owners s)"
  using error_strings_owned_once [of no_errors
      "[Put 12 65 None 7, Add_data [Some [104, 105, 0]], Save, Read True False False True True, End_thread]"]
  by (auto simp: no_errors_def strings_ok_def joined_def c_text_def c_string_def)

text \<open>C10: The error queue is a list of at most 15 errors.  As long as memory lasts, every sequence of calls
  returns what the same calls return on a list: a new error goes to the end and pushes the oldest one out of
  a full queue, data and marks go to the newest error, reads take from the front or look at either end,
  \<^verbatim>\<open>ERR_pop_to_mark\<close> drops errors from the end down to a mark, and a restored state is the saved list without
  its marks.\<close>

theorem error_queue_refines_list:
  assumes "e_heap w = Map.empty" and "e_state w = None" and "plenty w" and "list_all call_ok cs"
  shows "\<exists>s. run_calls cs (w, []) = (Some (fst (spec_run (e_errno w) cs ([], []))), s) \<and>
    lists s = snd (spec_run (e_errno w) cs ([], [])) \<and> length (queue (fst s)) \<le> 15"
proof -
  obtain rs s where r: "run_calls cs (w, []) = (Some rs, s)" "run_ok s"
    "(rs, lists s) = spec_run (e_errno w) cs (lists (w, []))"
    using run_calls_ok [OF fresh_run_ok [OF assms(1,2)] assms(4)] assms(3) by auto
  have "lists (w, []) = ([], [])" using assms(2) by (simp add: lists_def queue_def)
  then have "rs = fst (spec_run (e_errno w) cs ([], []))" "lists s = snd (spec_run (e_errno w) cs ([], []))"
    using r(3) by (metis fst_conv snd_conv)+
  moreover have "length (queue (fst s)) \<le> 15" using r(2) queue_bounded by (auto simp: run_ok_def)
  ultimately show ?thesis using r(1) by auto
qed

definition ample :: err_world where
  "ample = no_errors\<lparr>e_mem := \<lparr>mem_ok = (\<lambda>k n. True), mem_fill = (\<lambda>k n. 0), mem_calls = 0, mem_freed = [], mem_granted = 0\<rparr>\<rparr>"

theorem error_queue_refines_list_witness:
  "\<exists>s. run_calls [Put 12 65 None 7, Set_mark, Put 12 66 None 8, Pop_to_mark, Read True False False False False] (ample, []) =
     (Some [Done, Flag 1, Done, Flag 1, Values (0x0c000041, None, None)], s) \<and> queue (fst s) = []"
proof -
  let ?cs = "[Put 12 65 None 7, Set_mark, Put 12 66 None 8, Pop_to_mark, Read True False False False False]"
  have "spec_run 0 ?cs ([], []) = ([Done, Flag 1, Done, Flag 1, Values (0x0c000041, None, None)], ([], []))"
    by code_simp
  then show ?thesis using error_queue_refines_list [of ample ?cs]
    by (auto simp: ample_def no_errors_def plenty_def lists_def)
qed

text \<open>What printing writes for an error, and for a queue.\<close>

definition entry_line :: "err_tables \<Rightarrow> nat \<Rightarrow> u8 list err_error_st \<Rightarrow> u8 list" where
  "entry_line tab thread_hash e =
     print_line tab thread_hash (err_packed e) (case err_file e of None \<Rightarrow> lit ''NA'' | Some f \<Rightarrow> f)
       (case err_file e of None \<Rightarrow> 0 | Some _ \<Rightarrow> uint (err_line e)) (case err_data e of None \<Rightarrow> [] | Some s \<Rightarrow> s)"

fun print_all :: "(u8 list err_error_st \<Rightarrow> u8 list) \<Rightarrow> (u8 list \<Rightarrow> 'c \<Rightarrow> int \<times> 'c) \<Rightarrow> u8 list err_error_st list \<Rightarrow> 'c \<Rightarrow>
    'c \<times> u8 list err_error_st list" where
  "print_all line callback [] ctx = (ctx, [])"
| "print_all line callback (e # q) ctx =
     (if err_packed e = 0 then (ctx, q)
      else case callback (line e) ctx of (r, ctx') \<Rightarrow> if r \<le> 0 then (ctx', q) else print_all line callback q ctx')"

lemma read_data_ok:
  assumes "thread_ok w S" and "\<forall>a b. v_data v = Some (Some a, b) \<longrightarrow> a \<in># all_owned w S"
    and "read_values w v = entry_values True True True e"
  shows "read_data v w = (Some (case err_data e of None \<Rightarrow> [] | Some s \<Rightarrow> s), w)"
proof -
  obtain p where p: "v_data v = Some (p, Some (if err_data e = None then 0 else 1))" "map_option (text_at w) p = err_data e"
    using assms(3) by (auto simp: read_values_def entry_values_def)
  show ?thesis
  proof (cases p)
    case (Some a)
    then have "a \<in># all_owned w S" using assms(2) p(1) by blast
    from heap_is_in [OF heap_all [OF assms(1)] this] p Some show ?thesis
      by (auto simp: read_data_def read_string_def ERR_FLAG_STRING_def text_at_def and_then_def)
  qed (use p in \<open>simp add: read_data_def ERR_FLAG_STRING_def\<close>)
qed

lemma print_loop_ok:
  assumes "thread_ok w S" and "plenty w"
  shows "\<exists>w'. print_loop tab callback h ctx w = Some (fst (print_all (entry_line tab h) callback (queue w) ctx), w') \<and>
    thread_ok w' S \<and> queue w' = snd (print_all (entry_line tab h) callback (queue w) ctx)"
  using assms
proof (induction "queue w" arbitrary: w ctx)
  case Nil
  from get_error_values_runs [OF Nil(2), of True False True True True] obtain v w1 where
    v: "ERR_get_error_line_data True w = (Some v, w1)" "thread_ok w1 S" "read_values w1 v = nothing_read" "queue w1 = []"
    using Nil by (auto simp: runs_def ERR_get_error_line_data_def queue_read_def)
  then have "v_ret v = 0" by (simp add: read_values_def nothing_read_def)
  then show ?case using v Nil(1) [symmetric] by (subst print_loop.simps) simp
next
  case (Cons e q)
  from get_error_values_runs [OF Cons.prems(1), of True False True True True] obtain v w1 where
    v: "ERR_get_error_line_data True w = (Some v, w1)" "spares S w w1" "thread_ok w1 S"
      "\<forall>a b. v_data v = Some (Some a, b) \<longrightarrow> a \<in># all_owned w1 S" "read_values w1 v = entry_values True True True e" "queue w1 = q"
    using Cons.prems(2) Cons.hyps(2) [symmetric] by (auto simp: runs_def ERR_get_error_line_data_def queue_read_def)
  have plenty: "plenty w1" using spares_plenty [OF v(2)] Cons.prems(2) by simp
  have parts: "v_ret v = err_packed e" "fst (the (v_file v)) = (case err_file e of None \<Rightarrow> lit ''NA'' | Some f \<Rightarrow> f)"
    "snd (the (v_file v)) = (case err_file e of None \<Rightarrow> 0 | Some _ \<Rightarrow> uint (err_line e))"
    using v(5) by (auto simp: read_values_def entry_values_def split: option.splits)
  obtain r ctx1 where cb: "callback (entry_line tab h e) ctx = (r, ctx1)" by (cases "callback (entry_line tab h e) ctx")
  have line: "print_line tab h (v_ret v) (fst (the (v_file v))) (snd (the (v_file v)))
      (case err_data e of None \<Rightarrow> [] | Some s \<Rightarrow> s) = entry_line tab h e"
    by (simp add: parts entry_line_def)
  have "print_loop tab callback h ctx w = (if err_packed e = 0 then Some (ctx, w1)
      else if r \<le> 0 then Some (ctx1, w1) else print_loop tab callback h ctx1 w1)"
    by (subst print_loop.simps) (simp add: v(1) read_data_ok [OF v(3-5)] line [unfolded parts(1)] cb parts(1))
  then show ?case
    using Cons.hyps(1) [OF v(6) [symmetric] v(3) plenty, of ctx1] Cons.hyps(2) [symmetric] v(3,6) cb by auto
qed

text \<open>C26: \<^verbatim>\<open>ERR_print_errors_cb\<close> returns, whatever the callback does with its own state.  It hands the
  callback one line for each queued error, the least recent first, and removes what it prints; it stops early
  where the callback says so, and at an error whose code is 0.\<close>

theorem print_errors_prints:
  assumes "thread_ok w S" and "plenty w"
  shows "\<exists>w'. ERR_print_errors_cb tab callback h ctx w =
      (Some (fst (print_all (entry_line tab h) callback (queue w) ctx)), w') \<and> thread_ok w' S \<and>
    queue w' = snd (print_all (entry_line tab h) callback (queue w) ctx)"
proof -
  from err_get_state_runs [OF assms(1)] obtain s w1 where s: "err_get_state w = (Some s, w1)" "thread_ok w1 S"
    "queue w1 = queue w" "plenty w1"
    using spares_plenty assms(2) unfolding runs_def by blast
  from print_loop_ok [OF s(2,4), of tab callback h ctx] s(1,3) show ?thesis
    by (auto simp: ERR_print_errors_cb_def)
qed

theorem print_errors_prints_witness:
  "\<exists>w w'. queue w = [new_error 0 12 65 None 7] \<and> ERR_print_errors_cb no_tables (\<lambda>s n. (1, Suc n)) 0 0 w = (Some 1, w')"
proof -
  have "thread_ok ample {#}" "plenty ample" "queue ample = []" "e_errno ample = 0"
    by (simp_all add: thread_ok_def heap_is_def plenty_def queue_def ample_def no_errors_def)
  then obtain w where w: "thread_ok w {#}" "queue w = [new_error 0 12 65 None 7]" "plenty w"
    using ERR_put_error_runs [of ample "{#}" 12 65 None 7] spares_plenty
    by (fastforce simp: runs_def queue_put_def)
  have "err_packed (new_error 0 12 65 None 7 :: u8 list err_error_st) \<noteq> 0" by code_simp
  then show ?thesis using print_errors_prints [OF w(1,3), of no_tables "\<lambda>s n. (1, Suc n)" 0 0] w(2) by auto
qed

end
