(* ===== verification/Spec2Isabelle.thy ===== *)
theory Spec2Isabelle
  imports Oid Ber Base64 Pb_Decode_Safe Lhash_Walk Stack Bio_Props Err_Props
begin

text \<open>
  \<^bold>\<open>Dream Journal: the C libraries underneath.\<close>

  The repository is an iOS application, \<^verbatim>\<open>src/Dream Journal/Dream Journal\<close> (Swift views over Firebase), with
  its dependencies checked in under \<^verbatim>\<open>src/Dream Journal/Pods\<close>.  The C code of the repository is in two of
  them: \<^verbatim>\<open>BoringSSL-GRPC\<close>, which gRPC uses for TLS and certificates, and \<^verbatim>\<open>nanopb\<close>, with which Firestore
  writes and reads protocol buffers.  This development models the parts of the two that the others rest
  on: memory and containers, I/O objects, and the byte formats (DER, BER, base64, the protobuf wire
  format), and proves what they promise.  Paths below are relative to
  \<^verbatim>\<open>Pods/BoringSSL-GRPC/crypto\<close> unless they start with \<^verbatim>\<open>nanopb\<close>.

  \<^bold>\<open>How the code is represented.\<close>  A C function that returns 1 or 0 and updates an object through a
  pointer is a \<open>step\<close> (theory \<open>Prelude\<close>): a function from the object to an optional result and the object
  afterwards, composed with \<open>and_then\<close>, so that each early return of the source is a branch.  A
  \<^verbatim>\<open>size_t\<close> is a \<open>nat\<close> with its wrap-around written out (\<open>size_add\<close>, \<open>size_mul\<close>) wherever the code could
  reach it; \<^verbatim>\<open>uint8_t\<close> to \<^verbatim>\<open>uint64_t\<close> are words.  A byte buffer is a \<open>u8 list\<close>.  The C library and the
  user's callbacks are parameters: which allocation succeeds is a field of the state \<open>mem\<close> (theory
  \<open>Mem\<close>), a hash or comparison function is an argument, and so are the read and write callbacks of the
  nanopb streams.  A loop is a function with a measure; the few loops that the types do not bound
  (\<open>read_loop\<close>, \<open>write_loop\<close>, \<open>read_all_loop\<close>, \<open>iter_search\<close>, \<open>loop_dec\<close>, \<open>pop_loop\<close>, \<open>print_loop\<close>, the walk of \<open>lh_doall\<close>, the walks along a chain of BIOs) are \<open>partial_function (option)\<close>,
  and the properties prove that they return.

  \<^bold>\<open>Theories and the code they model.\<close>
  \<^item> \<open>Mem\<close>: \<^verbatim>\<open>mem.c\<close> (allocator with its size prefix, \<^verbatim>\<open>OPENSSL_realloc\<close>, \<^verbatim>\<open>CRYPTO_memcmp\<close>, C strings) and
    \<^verbatim>\<open>buf/buf.c\<close> (\<^verbatim>\<open>BUF_MEM\<close>).  Freed blocks are recorded, so that "nothing is freed uncleansed" can be said,
    and granted requests counted, so that a leak can be: \<open>blocks\<close> is the number of live blocks.
  \<^item> \<open>Der\<close>: reference encodings of tags, lengths, base-128 numbers and INTEGERs; no code.
  \<^item> \<open>Cbs\<close>: \<^verbatim>\<open>bytestring/cbs.c\<close>, the DER reader.  A \<open>CBS\<close> is a suffix of the object it points into and a
    length.  Lemmas: the element parser accepts exactly the minimal encodings (soundness and
    completeness against \<open>Der\<close>); no sequence of calls leaves the window.
  \<^item> \<open>Cbb\<close>, \<open>Cbb_Levels\<close>, \<open>Cbb_SetOf\<close>: \<^verbatim>\<open>bytestring/cbb.c\<close>, the DER builder.  The chain of child pointers is a
    list of open levels; \<open>Cbb_Levels\<close> proves that the code refines a stack of levels with their
    contents, \<open>Cbb_SetOf\<close> that a SET OF is flushed sorted.
  \<^item> \<open>Asn1_Tree\<close>: a client of both halves; what is built is read back.
  \<^item> \<open>Oid\<close>: the text form of OBJECT IDENTIFIERs (\<^verbatim>\<open>cbb.c\<close>, \<^verbatim>\<open>cbs.c\<close>), with its round trip.
  \<^item> \<open>Ber\<close>: \<^verbatim>\<open>bytestring/ber.c\<close> and \<^verbatim>\<open>asn1_compat.c\<close>; the conversion of BER to DER, bounded by the code's own
    depth limit \<open>kMaxDepth\<close>, which is the fuel.  What \<^verbatim>\<open>cbs_find_ber\<close> answers is computed on trees (\<open>ber_flag\<close>): the
    last constructed element decides.
  \<^item> \<open>ConstTime\<close>: the branch-free comparisons of \<^verbatim>\<open>internal.h\<close> at both widths in use, against the comparisons.
  \<^item> \<open>Base64\<close>: \<^verbatim>\<open>base64/base64.c\<close>, block functions and both streams, with the round trip through any chunking.
  \<^item> \<open>Lhash\<close>: \<^verbatim>\<open>lhash/lhash.c\<close>, a chained hash table that resizes; it refines a map.  The locale
    \<open>lhash_keys\<close> states what the table needs of the hash and comparison functions and is interpreted on
    \<^verbatim>\<open>lh_strhash\<close> with \<^verbatim>\<open>strcmp\<close>.
  \<^item> \<open>Lhash_Walk\<close>: \<^verbatim>\<open>lh_doall\<close> with a callback that inserts and deletes.  Items have addresses, and the walk follows
    them; \<open>table_calls\<close> says what a callback may do, \<open>chain_kept\<close> what a chain keeps meanwhile.  The locale
    \<open>lhash_walk\<close> extends \<open>lhash_keys\<close> by names for the classes of equal data.
  \<^item> \<open>Stack\<close>: \<^verbatim>\<open>stack/stack.c\<close>, with sorting and binary search; the locale \<open>sk_order\<close> states what the comparison
    function must satisfy.
  \<^item> \<open>Bio\<close>, \<open>Bio_Layer\<close>: \<^verbatim>\<open>bio/pair.c\<close>, \<^verbatim>\<open>bio/bio_mem.c\<close>, \<^verbatim>\<open>bio/bio.c\<close>.  Objects live in a store and point at each
    other by index.  A result \<open>None\<close> means that the C program has no behaviour left: a failing assertion,
    a dangling pointer, a copy outside its buffer.  The command \<^verbatim>\<open>BIO_C_SET_BUF_MEM\<close> carries the buffer that
    its pointer argument points to.
  \<^item> \<open>Bio_Pair\<close>, \<open>Bio_Props\<close>: the ring buffer of a pair refines a queue, and making a pair leaks nothing when an allocation is refused; the locales \<open>byte_channel\<close> and
    \<open>flowing_channel\<close> state what a sender and a receiver rely on, and are interpreted on the BIO pair and on
    the memory BIO.
  \<^item> \<open>Err\<close>, \<open>Err_Text\<close>: \<^verbatim>\<open>err/err.c\<close>, the error queue of a thread and the texts of errors.  The queue is the
    ring of 16 slots of the code; the strings that errors own have addresses in a heap, and freeing or
    reading one that is not there has the result \<open>None\<close>.  The locale \<open>key_order\<close> states what binary search needs
    of a comparison function and is interpreted on \<^verbatim>\<open>err_string_cmp\<close>.
  \<^item> \<open>Err_Queue\<close>, \<open>Err_Props\<close>: \<open>runs own p out\<close> says that a step returns and passes the ownership of the strings
    on, as multisets of addresses, whether memory lasts or not; each operation has such a lemma, and a
    sequence of calls has the property that every string has one owner.  While memory lasts, the ring
    refines a list of at most 15 errors, on which the same calls are defined (\<open>spec_exec\<close>).
  \<^item> \<open>Pb_Stream\<close>, \<open>Pb_Wire\<close>: the streams and the wire format of \<^verbatim>\<open>nanopb/pb_encode.c\<close> and
    \<^verbatim>\<open>nanopb/pb_decode.c\<close>, over buffers and over user callbacks; the locales \<open>byte_source\<close>, \<open>user_source\<close> and
    \<open>byte_sink\<close> carry the proofs and are interpreted on buffers, nested streams and counting sinks.
  \<^item> \<open>Pb_Field\<close>: the field descriptors of \<^verbatim>\<open>nanopb/pb.h\<close> and the iterator of \<^verbatim>\<open>nanopb/pb_common.c\<close>.
  \<^item> \<open>Pb_Encode\<close>, \<open>Pb_Encode_Props\<close>: the message encoder of \<^verbatim>\<open>nanopb/pb_encode.c\<close> over structs in raw memory.
    The fuel is the nesting of submessages; the depth of the descriptors and two more is enough
    (\<open>pb_encode_returns\<close>).  An encoder that writes the same on every stream \<open>emits\<close> a byte string, one that
    fails already when sizing \<open>refuses\<close>; sequencing, submessages and packed arrays keep to these two.
  \<^item> \<open>Pb_Memory\<close>, \<open>Pb_Decode\<close>, \<open>Pb_Decode_Safe\<close>: the message decoder of \<^verbatim>\<open>nanopb/pb_decode.c\<close>, with heap and user
    callbacks.  \<open>Pb_Memory\<close> checks each access against the live objects; a result \<open>None\<close> is an access outside.
    The fuel is the nesting again; loops are \<open>loop_dec\<close>.  The rules for \<open>safe S p Q\<close> follow the code: for structs
    without pointers nothing goes outside and every loop ends, whatever the input; \<open>fixed_count_default\<close>
    and \<open>decode_leaves_memory\<close> show where structs with arrays of fixed count or pointers do not have this.

  \<^bold>\<open>What is not modelled, and why.\<close>  Of the files above: \<^verbatim>\<open>BIO_snprintf\<close> and the other forwarders to the C
  library; the two getters of \<^verbatim>\<open>bio_mem.c\<close> that hand the caller a pointer to the inner buffer (\<open>mem_ctrl\<close> has their commands); user-defined BIO
  methods.  User callbacks, extension types and the heap are parameters of the nanopb theories.  The
  generated table of reason strings (\<^verbatim>\<open>err_data.c\<close>), \<^verbatim>\<open>strerror\<close>, the text that \<^verbatim>\<open>ERR_add_error_dataf\<close> formats, and the
  callback that prints errors are parameters of the error theories; the calls of \<^verbatim>\<open>ERR_put_error\<close> made by the
  other files are not part of their models.  The rest of BoringSSL (X.509,
  ciphers, hashes, bignums, TLS) is either template-driven over untyped structs or numeric code that is a
  subject of its own, and much of it is replaced by assembly on the targets.  gRPC, Firestore, LevelDB,
  Abseil and the Firebase pods are C++ and Objective-C, and the application itself is Swift.
\<close>

end
